(* ===== verification/Prelude.thy ===== *)
theory Prelude
  imports Main "HOL-Library.Word" "HOL-Library.Multiset" "HOL-Library.Sublist"
begin

text \<open>
  Shared vocabulary of the development: the machine integers and byte strings of the C
  sources, faults as values, big-endian encoding and decoding, and the generic lemmas on
  lists and results the component theories use.

  Conventions used throughout:
  \<^item> the host is an LP64 machine, so \<open>size_t\<close> has 64 bits; where no operation can pass
    its bounds a \<open>size_t\<close> is a \<open>nat\<close>, elsewhere the wrap-around is written out or the
    value is a \<open>64 word\<close>;
  \<^item> a pointer to a buffer that the code only reads, with its length, is a byte list;
  \<^item> a failed \<open>sanity\<close>, a failed \<open>assert\<close>, \<open>die\<close>, \<open>abort\<close> and an access outside
    of a buffer are values of \<open>fault\<close>; \<open>assert\<close> is active, as the build never defines
    \<open>NDEBUG\<close>;
  \<^item> logging (\<open>ulog\<close>) changes no state the program reads and is left out.
\<close>

unbundle bit_operations_syntax

type_synonym byte = "8 word"
type_synonym u8 = "8 word"
type_synonym u16 = "16 word"
type_synonym u32 = "32 word"
type_synonym u64 = "64 word"
type_synonym bytes = "byte list"

text \<open>A character constant of C as a byte.\<close>

definition code :: "char \<Rightarrow> byte" where
  "code c = word_of_nat (of_char c)"

definition ascii :: "string \<Rightarrow> bytes" where
  "ascii s = map code s"

text \<open>The string a \<open>char *\<close> to these bytes stands for.\<close>

definition cstring :: "bytes \<Rightarrow> bytes" where
  "cstring bs = takeWhile (\<lambda>b. b \<noteq> 0) bs"

text \<open>How a computation of the daemon can end without a result.\<close>

datatype fault =
    Sanity      \<comment> \<open>a \<open>sanity\<close> check or \<open>insane\<close> failed: the plugin is killed\<close>
  | Assertion   \<comment> \<open>an \<open>assert\<close> failed\<close>
  | Died        \<comment> \<open>\<open>die\<close> was called\<close>
  | Aborted     \<comment> \<open>a plain \<open>abort\<close>\<close>
  | BadAccess   \<comment> \<open>the C code would read or write outside of the object\<close>
  | DivByZero   \<comment> \<open>an integer division by zero\<close>
  | Diverged    \<comment> \<open>a loop that would not end\<close>
  | Reinit      \<comment> \<open>\<open>loop_plugin_reinit\<close>: a long jump out of the plugin\<close>

type_synonym 'a result = "fault + 'a"

definition rbind :: "'a result \<Rightarrow> ('a \<Rightarrow> 'b result) \<Rightarrow> 'b result" where
  "rbind m f = (case m of Inl e \<Rightarrow> Inl e | Inr x \<Rightarrow> f x)"

definition sanity :: "bool \<Rightarrow> 'a result \<Rightarrow> 'a result" where
  "sanity c k = (if c then k else Inl Sanity)"

definition assert_then :: "bool \<Rightarrow> 'a result \<Rightarrow> 'a result" where
  "assert_then c k = (if c then k else Inl Assertion)"

named_theorems be_simps \<open>encoding and decoding of network byte order\<close>
named_theorems result_simps \<open>unfolding of the result combinators\<close>

lemma rbind_Inr [simp]: "rbind (Inr x) f = f x"
  by (simp add: rbind_def)

lemma rbind_Inl [simp]: "rbind (Inl e) f = Inl e"
  by (simp add: rbind_def)

lemma rbind_eq_Inr [result_simps]:
  "rbind m f = Inr y \<longleftrightarrow> (\<exists>x. m = Inr x \<and> f x = Inr y)"
  by (cases m) auto

lemma rbind_eq_Inl [result_simps]:
  "rbind m f = Inl e \<longleftrightarrow> m = Inl e \<or> (\<exists>x. m = Inr x \<and> f x = Inl e)"
  by (cases m) auto

lemma rbind_cong [fundef_cong]:
  "m = m' \<Longrightarrow> (\<And>x. m' = Inr x \<Longrightarrow> f x = g x) \<Longrightarrow> rbind m f = rbind m' g"
  by (cases m') auto

lemma sanity_cong [fundef_cong]:
  "c = c' \<Longrightarrow> (c' \<Longrightarrow> k = k') \<Longrightarrow> sanity c k = sanity c' k'"
  by (simp add: sanity_def)

lemma assert_then_cong [fundef_cong]:
  "c = c' \<Longrightarrow> (c' \<Longrightarrow> k = k') \<Longrightarrow> assert_then c k = assert_then c' k'"
  by (simp add: assert_then_def)

lemma sanity_True [simp]: "c \<Longrightarrow> sanity c k = k"
  by (simp add: sanity_def)

lemma sanity_False [simp]: "\<not> c \<Longrightarrow> sanity c k = Inl Sanity"
  by (simp add: sanity_def)

lemma sanity_eq_Inr [result_simps]: "sanity c k = Inr y \<longleftrightarrow> c \<and> k = Inr y"
  by (simp add: sanity_def)

lemma assert_then_True [simp]: "c \<Longrightarrow> assert_then c k = k"
  by (simp add: assert_then_def)

lemma assert_then_False [simp]: "\<not> c \<Longrightarrow> assert_then c k = Inl Assertion"
  by (simp add: assert_then_def)

lemma assert_then_eq_Inr [result_simps]: "assert_then c k = Inr y \<longleftrightarrow> c \<and> k = Inr y"
  by (simp add: assert_then_def)

subsection \<open>Computations in which no assertion fails\<close>

text \<open>\<open>safe P r\<close>: the computation does not end in a failed \<open>assert\<close>, and where it returns, the
  result satisfies \<open>P\<close>.\<close>

definition safe :: "('a \<Rightarrow> bool) \<Rightarrow> 'a result \<Rightarrow> bool" where
  "safe P r \<longleftrightarrow> (case r of Inl e \<Rightarrow> e \<noteq> Assertion | Inr x \<Rightarrow> P x)"

lemma safe_simps [simp]:
  "safe P (Inr x) \<longleftrightarrow> P x" "safe P (Inl e) \<longleftrightarrow> e \<noteq> Assertion"
  by (simp_all add: safe_def)

lemma safe_bind:
  assumes "safe P r" and "\<And>x. P x \<Longrightarrow> safe Q (f x)"
  shows "safe Q (rbind r f)"
  using assms by (cases r) auto

lemma safe_mono: "safe P r \<Longrightarrow> (\<And>x. P x \<Longrightarrow> Q x) \<Longrightarrow> safe Q r"
  by (cases r) auto

lemma safe_assert: "c \<Longrightarrow> safe P k \<Longrightarrow> safe P (assert_then c k)"
  by simp

lemma safe_if: "(c \<Longrightarrow> safe P a) \<Longrightarrow> (\<not> c \<Longrightarrow> safe P b) \<Longrightarrow> safe P (if c then a else b)"
  by simp

lemma safe_sanity: "(c \<Longrightarrow> safe P k) \<Longrightarrow> safe P (sanity c k)"
  by (cases c) simp_all

text \<open>\<open>yields P r\<close>: where the computation returns, the result satisfies \<open>P\<close>.\<close>

definition yields :: "('a \<Rightarrow> bool) \<Rightarrow> 'a result \<Rightarrow> bool" where
  "yields P r \<longleftrightarrow> (\<forall>x. r = Inr x \<longrightarrow> P x)"

lemma yields_simps [simp]: "yields P (Inr x) \<longleftrightarrow> P x" "yields P (Inl e)"
  by (simp_all add: yields_def)

lemma yields_bind:
  assumes "yields P r" and "\<And>x. P x \<Longrightarrow> yields Q (f x)"
  shows "yields Q (rbind r f)"
  using assms by (cases r) auto

lemma yields_mono: "yields P r \<Longrightarrow> (\<And>x. P x \<Longrightarrow> Q x) \<Longrightarrow> yields Q r"
  by (cases r) auto

lemma yields_sanity: "(c \<Longrightarrow> yields P k) \<Longrightarrow> yields P (sanity c k)"
  by (cases c) simp_all

lemma yields_True [simp]: "yields (\<lambda>_. True) r"
  by (simp add: yields_def)

lemma safe_yields: "safe P r \<Longrightarrow> yields P r"
  by (cases r) auto

lemma safe_result: "safe P r \<Longrightarrow> r = Inr x \<Longrightarrow> P x"
  by simp

subsection \<open>Network byte order\<close>

text \<open>\<open>be_nat\<close> reads a buffer most significant byte first; \<open>nat_be n v\<close> writes the low
  \<open>n\<close> bytes of \<open>v\<close> that way (\<open>htons\<close>, \<open>htonl\<close>, \<open>htobe64\<close> followed by \<open>memcpy\<close>).\<close>

fun be_nat :: "bytes \<Rightarrow> nat" where
  "be_nat [] = 0"
| "be_nat (b # bs) = unat b * 256 ^ length bs + be_nat bs"

fun nat_be :: "nat \<Rightarrow> nat \<Rightarrow> bytes" where
  "nat_be 0 v = []"
| "nat_be (Suc n) v = word_of_nat (v div 256 ^ n) # nat_be n v"

definition put16 :: "u16 \<Rightarrow> bytes" where "put16 w = nat_be 2 (unat w)"
definition put32 :: "u32 \<Rightarrow> bytes" where "put32 w = nat_be 4 (unat w)"
definition put64 :: "u64 \<Rightarrow> bytes" where "put64 w = nat_be 8 (unat w)"

definition get16 :: "bytes \<Rightarrow> u16" where "get16 bs = word_of_nat (be_nat (take 2 bs))"
definition get32 :: "bytes \<Rightarrow> u32" where "get32 bs = word_of_nat (be_nat (take 4 bs))"
definition get64 :: "bytes \<Rightarrow> u64" where "get64 bs = word_of_nat (be_nat (take 8 bs))"

lemma length_nat_be [simp]: "length (nat_be n v) = n"
  by (induction n) simp_all

lemma be_nat_bound: "be_nat bs < 256 ^ length bs"
proof (induction bs)
  case (Cons b bs)
  have b: "unat b \<le> 255"
    using unsigned_less [where ?'a = nat, of b] by simp
  have "unat b * 256 ^ length bs + be_nat bs < unat b * 256 ^ length bs + 256 ^ length bs"
    using Cons by simp
  also have "\<dots> = Suc (unat b) * 256 ^ length bs"
    by simp
  also have "\<dots> \<le> 256 * 256 ^ length bs"
    using b by (intro mult_right_mono) simp_all
  finally show ?case
    by simp
qed simp

lemma be_nat_append: "be_nat (xs @ ys) = be_nat xs * 256 ^ length ys + be_nat ys"
  by (induction xs) (simp_all add: power_add algebra_simps)

lemma mod_split_be: "(v::nat) mod (256 * 256 ^ n) = (v div 256 ^ n mod 256) * 256 ^ n + v mod 256 ^ n"
  using mod_mult2_eq [of v "256 ^ n" 256] by (simp add: mult.commute)

lemma be_nat_nat_be [be_simps]: "be_nat (nat_be n v) = v mod 256 ^ n"
proof (induction n)
  case (Suc n)
  have "unat (word_of_nat (v div 256 ^ n) :: byte) = v div 256 ^ n mod 256"
    by (simp add: unat_of_nat)
  with Suc show ?case
    by (simp add: mod_split_be)
qed simp

lemma nat_be_mod: "nat_be n (v + 256 ^ n * k) = nat_be n v"
proof (induction n arbitrary: k)
  case (Suc n)
  have e: "v + 256 ^ Suc n * k = v + 256 ^ n * (256 * k)"
    by simp
  have "(v + 256 ^ n * (256 * k)) div 256 ^ n = 256 * k + v div 256 ^ n"
    by simp
  moreover have "word_of_nat (256 * k + v div 256 ^ n) = (word_of_nat (v div 256 ^ n) :: byte)"
  proof -
    have "(256 :: byte) * word_of_nat k = 0 * word_of_nat k"
      by (rule arg_cong2 [where f = times]) simp_all
    then show ?thesis
      by simp
  qed
  ultimately show ?case
    using Suc [of "256 * k"] by (simp only: nat_be.simps e)
qed simp

lemma nat_be_be_nat [be_simps]: "length bs = n \<Longrightarrow> nat_be n (be_nat bs) = bs"
proof (induction bs arbitrary: n)
  case (Cons b bs)
  then obtain m where n: "n = Suc m" and m: "length bs = m"
    by auto
  have "(unat b * 256 ^ m + be_nat bs) div 256 ^ m = unat b"
    using be_nat_bound [of bs] m by simp
  moreover have "nat_be m (unat b * 256 ^ m + be_nat bs) = bs"
    using nat_be_mod [of m "be_nat bs" "unat b"] Cons.IH [OF m] by (simp add: ac_simps)
  ultimately show ?case
    using n m by simp
qed simp

lemma length_put [simp]:
  "length (put16 a) = 2" "length (put32 b) = 4" "length (put64 c) = 8"
  by (simp_all add: put16_def put32_def put64_def)

lemma get_put_append [simp]:
  "get16 (put16 a @ xs) = a" "get32 (put32 b @ xs) = b" "get64 (put64 c @ xs) = c"
proof -
  have "unat a < 65536" "unat b < 4294967296" "unat c < 18446744073709551616"
    using unsigned_less [where ?'a = nat, of a] unsigned_less [where ?'a = nat, of b]
      unsigned_less [where ?'a = nat, of c] by simp_all
  then show "get16 (put16 a @ xs) = a" "get32 (put32 b @ xs) = b" "get64 (put64 c @ xs) = c"
    by (simp_all add: get16_def get32_def get64_def put16_def put32_def put64_def be_simps)
qed

lemmas get_put [simp] = get_put_append [where xs = "[]", simplified]

lemma put_get_id:
  "length x = 2 \<Longrightarrow> put16 (get16 x) = x"
  "length y = 4 \<Longrightarrow> put32 (get32 y) = y"
  "length z = 8 \<Longrightarrow> put64 (get64 z) = z"
  using be_nat_bound [of x] be_nat_bound [of y] be_nat_bound [of z]
  by (simp_all add: get16_def get32_def get64_def put16_def put32_def put64_def be_simps unat_of_nat)

lemma put_inject [simp]:
  "put16 a = put16 a' \<longleftrightarrow> a = a'" "put32 b = put32 b' \<longleftrightarrow> b = b'" "put64 c = put64 c' \<longleftrightarrow> c = c'"
  by (metis get_put(1), metis get_put(2), metis get_put(3))

text \<open>
  The bytes of a 16-bit integer as it lies in the memory of the host. The sources copy ports
  to and from byte buffers both ways, so the byte order of the host is a parameter.
\<close>

datatype endian = BigEndian | LittleEndian

fun host16 :: "endian \<Rightarrow> u16 \<Rightarrow> bytes" where
  "host16 BigEndian w = put16 w"
| "host16 LittleEndian w = rev (put16 w)"

fun load16 :: "endian \<Rightarrow> bytes \<Rightarrow> u16" where
  "load16 BigEndian bs = get16 bs"
| "load16 LittleEndian bs = get16 (rev (take 2 bs))"

lemma length_host16 [simp]: "length (host16 e w) = 2"
  by (cases e) simp_all

lemma load_host16 [simp]: "load16 e (host16 e w @ xs) = w"
  by (cases e) simp_all

lemma host16_inject [simp]: "host16 e v = host16 e w \<longleftrightarrow> v = w"
  by (cases e) simp_all

subsection \<open>Lists\<close>

text \<open>The next result of a call of the system; an empty list stands for the usual one.\<close>

definition next_of :: "'a \<Rightarrow> 'a list \<Rightarrow> 'a" where
  "next_of d xs = (case xs of [] \<Rightarrow> d | x # _ \<Rightarrow> x)"

text \<open>A read of \<open>n\<close> bytes at an offset, refused where it would leave the buffer.\<close>

definition read_at :: "bytes \<Rightarrow> nat \<Rightarrow> nat \<Rightarrow> bytes option" where
  "read_at buf off n = (if off + n \<le> length buf then Some (take n (drop off buf)) else None)"

lemma read_at_length: "read_at buf off n = Some bs \<Longrightarrow> length bs = n"
  by (auto simp: read_at_def split: if_splits)

text \<open>A write into a buffer of fixed size: \<open>memcpy\<close>, \<open>strcpy\<close>, \<open>sprintf\<close> to a known place.\<close>

definition buf_write :: "'a list \<Rightarrow> nat \<Rightarrow> 'a list \<Rightarrow> 'a list result" where
  "buf_write buf pos bs =
     (if pos + length bs \<le> length buf
      then Inr (take pos buf @ bs @ drop (pos + length bs) buf) else Inl BadAccess)"

lemma buf_write_ok:
  assumes "pos + length bs \<le> length buf" and "take pos buf = pre"
  shows "\<exists>buf'. buf_write buf pos bs = Inr buf' \<and> length buf' = length buf \<and>
           take pos buf' = pre \<and> take (pos + length bs) buf' = pre @ bs"
  using assms by (cases bs) (auto simp: buf_write_def min_def)

lemma append_eq_append_same_length:
  "length xs = length xs' \<Longrightarrow> xs @ ys = xs' @ ys' \<longleftrightarrow> xs = xs' \<and> ys = ys'"
  by auto

lemma sum_list_update_nat:
  fixes xs :: "nat list"
  assumes "i < length xs"
  shows "sum_list (xs[i := v]) + xs ! i = sum_list xs + v"
  using assms
proof (induction xs arbitrary: i)
  case (Cons x xs)
  then show ?case
    by (cases i) (auto simp: ac_simps)
qed simp

text \<open>A loop over a list whose body may fail.\<close>

fun fold_result :: "('s \<Rightarrow> 'a \<Rightarrow> 's result) \<Rightarrow> 's \<Rightarrow> 'a list \<Rightarrow> 's result" where
  "fold_result f s [] = Inr s"
| "fold_result f s (x # xs) = rbind (f s x) (\<lambda>s'. fold_result f s' xs)"

lemma rbind_assoc: "rbind (rbind m f) g = rbind m (\<lambda>x. rbind (f x) g)"
  by (cases m) simp_all

lemma fold_result_append [simp]:
  "fold_result f s (xs @ ys) = rbind (fold_result f s xs) (\<lambda>s'. fold_result f s' ys)"
  by (induction xs arbitrary: s) (simp_all add: rbind_assoc)

text \<open>An invariant of the body is an invariant of the loop.\<close>

lemma fold_result_invariant:
  assumes "\<And>s x s'. P s \<Longrightarrow> x \<in> set xs \<Longrightarrow> f s x = Inr s' \<Longrightarrow> P s'"
    and "P s" and "fold_result f s xs = Inr s'"
  shows "P s'"
  using assms
proof (induction xs arbitrary: s)
  case (Cons x xs)
  from Cons.prems(3) obtain s1 where s1: "f s x = Inr s1" "fold_result f s1 xs = Inr s'"
    by (auto simp: result_simps)
  have "P s1"
    by (rule Cons.prems(1) [OF Cons.prems(2) _ s1(1)]) simp
  show ?case
  proof (rule Cons.IH [OF _ \<open>P s1\<close> s1(2)])
    fix s x s'
    assume "P s" "x \<in> set xs" "f s x = Inr s'"
    then show "P s'"
      by (intro Cons.prems(1) [of s x s']) simp_all
  qed
qed simp

lemma safe_fold:
  assumes "\<And>s x. P s \<Longrightarrow> x \<in> set xs \<Longrightarrow> safe P (f s x)" and "P s"
  shows "safe P (fold_result f s xs)"
  using assms
proof (induction xs arbitrary: s)
  case (Cons x xs)
  have "safe P (f s x)"
    using Cons.prems by simp
  moreover have "safe P (fold_result f s' xs)" if "P s'" for s'
    using that Cons.prems(1) by (intro Cons.IH) simp_all
  ultimately show ?case
    by (simp add: safe_bind)
qed simp

end
