(* ===== verification/LinkList.thy ===== *)
theory LinkList
  imports Prelude
begin

text \<open>
  The generated containers of \<open>core/link_list.h\<close> and \<open>core/recycler.h\<close>, on an explicit
  heap: nodes live at addresses and hold \<open>next\<close> and \<open>prev\<close> pointers (\<open>None\<close> is \<open>NULL\<close>).
  The model is the expansion with \<open>LIST_PREV\<close> and \<open>LIST_COUNT\<close> defined, the one that does
  all the work of the header; without them the writes to \<open>prev\<close> and \<open>count\<close> fall away.
  The relation \<open>linked\<close> says that a heap and a list base represent a sequence of addresses;
  the locale \<open>seq_container\<close> is the contract the users of the header rely on.
\<close>

type_synonym addr = nat

record lnode =
  lnext :: "addr option"
  lprev :: "addr option"

type_synonym heap = "addr \<Rightarrow> lnode"

record llist =
  lhead :: "addr option"
  ltail :: "addr option"
  lcount :: nat

type_synonym lstate = "llist \<times> heap"

definition set_next :: "heap \<Rightarrow> addr \<Rightarrow> addr option \<Rightarrow> heap" where
  "set_next h a p = h(a := (h a)\<lparr>lnext := p\<rparr>)"

definition set_prev :: "heap \<Rightarrow> addr \<Rightarrow> addr option \<Rightarrow> heap" where
  "set_prev h a p = h(a := (h a)\<lparr>lprev := p\<rparr>)"

text \<open>\<open>LIST_NAME(insert_after)\<close>, its writes in the order of the source.\<close>

definition insert_after :: "lstate \<Rightarrow> addr \<Rightarrow> addr option \<Rightarrow> lstate" where
  "insert_after s node after =
     (let (l, h) = s;
          (l1, h1) =
            (case after of
               Some a \<Rightarrow>
                 (let h' = set_prev h node (Some a);
                      h'' = (case lnext (h' a) of Some n \<Rightarrow> set_prev h' n (Some node) | None \<Rightarrow> h');
                      h3 = set_next h'' node (lnext (h'' a))
                  in (l, set_next h3 a (Some node)))
             | None \<Rightarrow>
                 (let h' = set_prev h node None;
                      h'' = (case lhead l of Some n \<Rightarrow> set_prev h' n (Some node) | None \<Rightarrow> h');
                      h3 = set_next h'' node (lhead l)
                  in (l\<lparr>lhead := Some node\<rparr>, h3)));
          l2 = (if ltail l1 = after then l1\<lparr>ltail := Some node\<rparr> else l1)
      in (l2\<lparr>lcount := lcount l2 + 1\<rparr>, h1))"

text \<open>\<open>LIST_NAME(append_pool)\<close>: the pool provides a node not used by anything else.\<close>

definition append_pool :: "lstate \<Rightarrow> addr \<Rightarrow> lstate" where
  "append_pool s new = insert_after s new (ltail (fst s))"

text \<open>\<open>LIST_NAME(remove)\<close>.\<close>

definition remove :: "lstate \<Rightarrow> addr \<Rightarrow> lstate" where
  "remove s node =
     (let (l, h) = s;
          (l1, h1) = (case lnext (h node) of
                        Some n \<Rightarrow> (l, set_prev h n (lprev (h node)))
                      | None \<Rightarrow> (l\<lparr>ltail := lprev (h node)\<rparr>, h));
          (l2, h2) = (case lprev (h1 node) of
                        Some p \<Rightarrow> (l1, set_next h1 p (lnext (h1 node)))
                      | None \<Rightarrow> (l1\<lparr>lhead := lnext (h1 node)\<rparr>, h1));
          h3 = set_prev (set_next h2 node None) node None
      in (l2\<lparr>lcount := lcount l2 - 1\<rparr>, h3))"

text \<open>\<open>LFOR\<close>: start at \<open>get_head\<close>, follow \<open>get_next\<close> until \<open>NULL\<close>. The fuel bounds the
  number of nodes visited; running out of it means the chain does not end.\<close>

fun lfor :: "nat \<Rightarrow> heap \<Rightarrow> addr option \<Rightarrow> addr list option" where
  "lfor fuel h None = Some []"
| "lfor 0 h (Some a) = None"
| "lfor (Suc fuel) h (Some a) = map_option ((#) a) (lfor fuel h (lnext (h a)))"

subsection \<open>What a list base and a heap represent\<close>

fun hd_opt :: "'a list \<Rightarrow> 'a option \<Rightarrow> 'a option" where
  "hd_opt [] n = n"
| "hd_opt (x # xs) n = Some x"

fun last_opt :: "'a option \<Rightarrow> 'a list \<Rightarrow> 'a option" where
  "last_opt p [] = p"
| "last_opt p (x # xs) = last_opt (Some x) xs"

fun seg :: "heap \<Rightarrow> addr option \<Rightarrow> addr list \<Rightarrow> addr option \<Rightarrow> bool" where
  "seg h p [] n = True"
| "seg h p (x # xs) n = (lprev (h x) = p \<and> lnext (h x) = hd_opt xs n \<and> seg h (Some x) xs n)"

definition linked :: "lstate \<Rightarrow> addr list \<Rightarrow> bool" where
  "linked s xs \<longleftrightarrow>
     lhead (fst s) = hd_opt xs None \<and> ltail (fst s) = last_opt None xs \<and>
     lcount (fst s) = length xs \<and> distinct xs \<and> seg (snd s) None xs None"

lemma hd_opt_append [simp]: "hd_opt (xs @ ys) n = hd_opt xs (hd_opt ys n)"
  by (cases xs) simp_all

lemma last_opt_append [simp]: "last_opt p (xs @ ys) = last_opt (last_opt p xs) ys"
  by (induction xs arbitrary: p) simp_all

lemma last_opt_eq_None [simp]: "last_opt p xs = None \<longleftrightarrow> p = None \<and> xs = []"
  by (induction xs arbitrary: p) auto

lemma last_opt_Cons_ne: "xs \<noteq> [] \<Longrightarrow> last_opt p xs = Some (last xs)"
  by (induction xs arbitrary: p) auto

lemma last_opt_in_set: "last_opt p xs = Some a \<Longrightarrow> a \<in> set xs \<or> p = Some a"
  by (induction xs arbitrary: p) auto

lemma seg_append [simp]:
  "seg h p (xs @ ys) n \<longleftrightarrow> seg h p xs (hd_opt ys n) \<and> seg h (last_opt p xs) ys n"
  by (induction xs arbitrary: p) auto

lemma seg_upd_other [simp]: "a \<notin> set xs \<Longrightarrow> seg (h(a := v)) p xs n = seg h p xs n"
  by (induction xs arbitrary: p) auto

lemma seg_set_other [simp]:
  "a \<notin> set xs \<Longrightarrow> seg (set_next h a q) p xs n = seg h p xs n"
  "a \<notin> set xs \<Longrightarrow> seg (set_prev h a q) p xs n = seg h p xs n"
  by (simp_all add: set_next_def set_prev_def)

lemma node_set_next [simp]:
  "lnext (set_next h a p b) = (if a = b then p else lnext (h b))"
  "lprev (set_next h a p b) = lprev (h b)"
  "lprev (set_prev h a p b) = (if a = b then p else lprev (h b))"
  "lnext (set_prev h a p b) = lnext (h b)"
  by (simp_all add: set_next_def set_prev_def)

text \<open>Redirecting the end of a segment, or the predecessor of its first node.\<close>

lemma seg_set_next_last:
  "seg h p (xs @ [a]) n \<Longrightarrow> a \<notin> set xs \<Longrightarrow> seg (set_next h a q) p (xs @ [a]) q"
  by simp

lemma seg_set_prev_first:
  "seg h p (a # xs) n \<Longrightarrow> a \<notin> set xs \<Longrightarrow> seg (set_prev h a q) q (a # xs) n"
  by simp

subsection \<open>The operations on represented sequences\<close>

lemma insert_after_head:
  assumes "linked s bs" and "x \<notin> set bs"
  shows "linked (insert_after s x None) (x # bs)"
proof -
  obtain l h where s: "s = (l, h)" by (cases s)
  show ?thesis
  proof (cases bs)
    case Nil
    with assms s show ?thesis
      by (simp add: linked_def insert_after_def Let_def)
  next
    case (Cons b bs')
    with assms s show ?thesis
      by (auto simp: linked_def insert_after_def Let_def last_opt_eq_None [symmetric])
  qed
qed

lemma insert_after_node:
  assumes rep: "linked s (as @ a # bs)" and x: "x \<notin> set (as @ a # bs)"
  shows "linked (insert_after s x (Some a)) (as @ a # x # bs)"
proof -
  obtain l h where s: "s = (l, h)" by (cases s)
  show ?thesis
  proof (cases bs)
    case Nil
    with rep x s show ?thesis
      by (simp add: linked_def insert_after_def Let_def)
  next
    case (Cons b bs')
    have "last_opt (Some b) bs' \<noteq> Some a"
      using rep Cons by (auto simp: linked_def dest: last_opt_in_set)
    with rep x s Cons show ?thesis
      by (auto simp: linked_def insert_after_def Let_def)
  qed
qed

lemma insert_after_linked:
  assumes "linked s (as @ bs)" and "x \<notin> set (as @ bs)"
  shows "linked (insert_after s x (last_opt None as)) (as @ x # bs)"
proof (cases as rule: rev_cases)
  case Nil
  with assms show ?thesis by (simp add: insert_after_head)
next
  case (snoc as' a)
  with assms insert_after_node [of s as' a bs x] show ?thesis by simp
qed

lemma append_pool_linked:
  assumes "linked s xs" and "x \<notin> set xs"
  shows "linked (append_pool s x) (xs @ [x])"
  using insert_after_linked [of s xs "[]" x] assms by (simp add: append_pool_def linked_def)

lemma remove_linked:
  assumes rep: "linked s (as @ x # bs)"
  shows "linked (remove s x) (as @ bs)"
proof -
  obtain l h where s: "s = (l, h)" by (cases s)
  from rep s have x: "lprev (h x) = last_opt None as" "lnext (h x) = hd_opt bs None"
    by (simp_all add: linked_def)
  show ?thesis
  proof (cases bs)
    case bs: Nil
    show ?thesis
    proof (cases as rule: rev_cases)
      case Nil
      with rep s bs x show ?thesis
        by (simp add: linked_def remove_def Let_def)
    next
      case (snoc as' a)
      with rep s bs x show ?thesis
        by (auto simp: linked_def remove_def Let_def)
    qed
  next
    case bs: (Cons b bs')
    show ?thesis
    proof (cases as rule: rev_cases)
      case Nil
      with rep s bs x show ?thesis
        by (auto simp: linked_def remove_def Let_def)
    next
      case (snoc as' a)
      with rep s bs x show ?thesis
        by (auto simp: linked_def remove_def Let_def)
    qed
  qed
qed

lemma seg_lfor:
  "seg h p xs None \<Longrightarrow> length xs \<le> fuel \<Longrightarrow> lfor fuel h (hd_opt xs None) = Some xs"
proof (induction xs arbitrary: p fuel)
  case (Cons x xs)
  then obtain f where "fuel = Suc f" by (cases fuel) auto
  with Cons show ?case by auto
qed (cases fuel; simp)

subsection \<open>The contract of a sequence container\<close>

locale seq_container =
  fixes rep :: "'s \<Rightarrow> 'a list \<Rightarrow> bool"
    and ins :: "'s \<Rightarrow> 'a \<Rightarrow> 'a option \<Rightarrow> 's"
    and del :: "'s \<Rightarrow> 'a \<Rightarrow> 's"
  assumes rep_distinct: "rep s xs \<Longrightarrow> distinct xs"
    and rep_ins: "rep s (as @ bs) \<Longrightarrow> x \<notin> set (as @ bs) \<Longrightarrow>
           rep (ins s x (last_opt None as)) (as @ x # bs)"
    and rep_del: "rep s (as @ x # bs) \<Longrightarrow> rep (del s x) (as @ bs)"
begin

lemma rep_del_remove1:
  assumes "rep s xs" and "x \<in> set xs"
  shows "rep (del s x) (remove1 x xs)"
proof -
  obtain as bs where xs: "xs = as @ x # bs" and "x \<notin> set as"
    using split_list_first [OF assms(2)] by blast
  with rep_del [of s as x bs] assms(1) show ?thesis
    by (simp add: remove1_append)
qed

lemma move_to_front:
  assumes "rep s (as @ x # bs)"
  shows "rep (ins (del s x) x None) (x # as @ bs)"
proof -
  have "x \<notin> set (as @ bs)"
    using rep_distinct [OF assms] by auto
  with rep_ins [of "del s x" "[]" "as @ bs" x] rep_del [OF assms] show ?thesis
    by simp
qed

lemma drain: "rep s (xs @ ys) \<Longrightarrow> rep (foldl del s xs) ys"
proof (induction xs arbitrary: s)
  case (Cons x xs)
  then have "rep (del s x) (xs @ ys)"
    using rep_del [of s "[]" x "xs @ ys"] by simp
  then show ?case
    using Cons.IH by simp
qed simp

end

interpretation ll: seq_container linked insert_after remove
proof unfold_locales
  show "distinct xs" if "linked s xs" for s xs
    using that by (simp add: linked_def)
qed (rule insert_after_linked remove_linked; assumption)+

subsection \<open>The recycler\<close>

text \<open>
  \<open>RECYCLER_NAME(get)\<close> and \<open>RECYCLER_NAME(release)\<close>: a free list threaded through the
  \<open>next\<close> fields of the unused objects. \<open>fresh\<close> is what the memory pool would return.
\<close>

type_synonym rstate = "addr option \<times> heap"

definition recycler_get :: "rstate \<Rightarrow> addr \<Rightarrow> addr \<times> rstate" where
  "recycler_get r fresh =
     (case fst r of
        Some result \<Rightarrow> (result, (lnext (snd r result), snd r))
      | None \<Rightarrow> (fresh, r))"

definition recycler_release :: "rstate \<Rightarrow> addr \<Rightarrow> rstate" where
  "recycler_release r obj = (Some obj, set_next (snd r) obj (fst r))"

fun chain :: "heap \<Rightarrow> addr option \<Rightarrow> addr list \<Rightarrow> bool" where
  "chain h p [] = (p = None)"
| "chain h p (x # xs) = (p = Some x \<and> chain h (lnext (h x)) xs)"

lemma chain_upd_other [simp]: "a \<notin> set xs \<Longrightarrow> chain (h(a := v)) p xs = chain h p xs"
  by (induction xs arbitrary: p) auto

lemma chain_set_next_other [simp]: "a \<notin> set xs \<Longrightarrow> chain (set_next h a q) p xs = chain h p xs"
  unfolding set_next_def by (rule chain_upd_other)

text \<open>
  The life of a recycler: objects are taken, their fields are written while they are in
  use, and they are released. \<open>used\<close> holds the objects handed out, \<open>n\<close> is the next
  address the pool has not given yet.
\<close>

inductive recycling :: "rstate \<Rightarrow> addr set \<Rightarrow> addr \<Rightarrow> bool" where
  start: "recycling (None, h) {} n"
| get: "recycling r used n \<Longrightarrow> recycler_get r n = (a, r') \<Longrightarrow>
     recycling r' (insert a used) (if fst r = None then Suc n else n)"
| use: "recycling (p, h) used n \<Longrightarrow> a \<in> used \<Longrightarrow> recycling (p, h(a := v)) used n"
| release: "recycling r used n \<Longrightarrow> a \<in> used \<Longrightarrow> recycling (recycler_release r a) (used - {a}) n"

lemma recycling_inv:
  "recycling r used n \<Longrightarrow>
     \<exists>xs. chain (snd r) (fst r) xs \<and> distinct xs \<and> set xs \<inter> used = {} \<and> (\<forall>a \<in> set xs \<union> used. a < n)"
proof (induction rule: recycling.induct)
  case (start h n)
  then show ?case by (intro exI [of _ "[]"]) simp
next
  case (get r used n a r')
  then obtain xs where xs: "chain (snd r) (fst r) xs" "distinct xs" "set xs \<inter> used = {}"
    "\<forall>a \<in> set xs \<union> used. a < n" by blast
  show ?case
  proof (cases xs)
    case Nil
    with xs get.hyps(2) show ?thesis
      by (intro exI [of _ "[]"]) (auto simp: recycler_get_def less_Suc_eq)
  next
    case (Cons x xs')
    with xs get.hyps(2) show ?thesis
      by (intro exI [of _ xs']) (auto simp: recycler_get_def)
  qed
next
  case (use p h used n a v)
  then obtain xs where xs: "chain h p xs" "distinct xs" "set xs \<inter> used = {}"
    "\<forall>a \<in> set xs \<union> used. a < n" by auto
  moreover have "a \<notin> set xs"
    using xs(3) use.hyps(2) by blast
  ultimately show ?case
    by (intro exI [of _ xs]) (simp only: fst_conv snd_conv chain_upd_other simp_thms)
next
  case (release r used n a)
  then obtain xs where xs: "chain (snd r) (fst r) xs" "distinct xs" "set xs \<inter> used = {}"
    "\<forall>a \<in> set xs \<union> used. a < n" by auto
  moreover have "a \<notin> set xs"
    using xs(3) release.hyps(2) by blast
  ultimately show ?case
    using release.hyps(2)
    by (intro exI [of _ "a # xs"]) (auto simp: recycler_release_def)
qed

subsection \<open>Properties\<close>


definition empty_list :: lstate where
  "empty_list = (\<lparr>lhead = None, ltail = None, lcount = 0\<rparr>, (\<lambda>_. \<lparr>lnext = None, lprev = None\<rparr>))"

lemma empty_list_linked: "linked empty_list []"
  by (simp add: linked_def empty_list_def)


text \<open>
  The recycler never hands out an object that is still in use, whatever the users write
  into the objects they hold.
\<close>

theorem recycler_get_unused:
  assumes "recycling r used n"
  shows "fst (recycler_get r n) \<notin> used"
proof -
  obtain xs where "chain (snd r) (fst r) xs" "set xs \<inter> used = {}" "\<forall>a \<in> set xs \<union> used. a < n"
    using recycling_inv [OF assms] by blast
  then show ?thesis
    by (cases xs) (auto simp: recycler_get_def)
qed

theorem recycler_get_unused_witness:
  "fst (recycler_get (recycler_release (None, \<lambda>_. \<lparr>lnext = None, lprev = None\<rparr>) 0) 1) \<notin> {}"
proof -
  let ?h = "\<lambda>_::addr. \<lparr>lnext = None, lprev = None\<rparr>"
  have "recycling (None, ?h) {0} 1"
    using recycling.get [OF recycling.start [of ?h 0], of 0 "(None, ?h)"] by (simp add: recycler_get_def)
  then have "recycling (recycler_release (None, ?h) 0) ({0} - {0}) 1"
    by (rule recycling.release) simp
  from recycler_get_unused [OF this] show ?thesis by simp
qed

end
