(* ===== verification/Trie.thy ===== *)
theory Trie
  imports Prelude
begin

text \<open>
  The compressed trie of \<open>core/trie.c\<close>. A node keeps its part of the key, the user's data
  pointer (\<open>None\<close> is \<open>NULL\<close>), the \<open>active\<close> flag and the list of its children; the list
  operations behind the children are those of \<open>LinkList\<close>. The \<open>struct trie_data **\<close> that
  \<open>trie_index\<close> returns is a slot: the path of child positions to the node. The pointer is
  only valid until the next operation, and a path is the same.
\<close>

datatype 'd tnode =
  TNode (tdata: "'d option") (tkey: bytes) (tactive: bool) (tchildren: "'d tnode list")

record 'd trie =
  troot :: "'d tnode"
  active_count :: nat
  max_key_len :: nat

type_synonym slot = "nat list"

definition trie_alloc :: "'d trie" where
  "trie_alloc = \<lparr>troot = TNode None [] False [], active_count = 0, max_key_len = 0\<rparr>"

definition trie_size :: "'d trie \<Rightarrow> nat" where
  "trie_size t = active_count t"

text \<open>Longest common prefix.\<close>

fun lcp :: "bytes \<Rightarrow> bytes \<Rightarrow> nat" where
  "lcp (x # xs) (y # ys) = (if x \<noteq> y then 0 else Suc (lcp xs ys))"
| "lcp xs ys = 0"

definition trie_new_node :: "nat \<Rightarrow> 'd tnode \<Rightarrow> bytes \<Rightarrow> bool \<Rightarrow> 'd tnode \<times> nat \<times> slot option" where
  "trie_new_node cnt parent key insert_new =
     (if \<not> insert_new then (parent, cnt, None)
      else (TNode (tdata parent) (tkey parent) (tactive parent)
              (tchildren parent @ [TNode None key True []]),
            cnt + 1, Some [length (tchildren parent)]))"

text \<open>The search loop over the children: the first whose key starts with the byte, and the
  children before and after it. Every child looked at is asserted to have a non-empty key.\<close>

fun split_child ::
  "byte \<Rightarrow> 'd tnode list \<Rightarrow> ('d tnode list \<times> 'd tnode \<times> 'd tnode list) option result" where
  "split_child b [] = Inr None"
| "split_child b (c # cs) =
     assert_then (tkey c \<noteq> [])
       (if hd (tkey c) = b then Inr (Some ([], c, cs))
        else rbind (split_child b cs)
               (\<lambda>r. Inr (map_option (\<lambda>(pre, x, post). (c # pre, x, post)) r)))"

lemma split_child_Some:
  "split_child b cs = Inr (Some (pre, c, post)) \<Longrightarrow>
     cs = pre @ c # post \<and> tkey c \<noteq> [] \<and> hd (tkey c) = b"
  by (induction cs arbitrary: pre) (auto simp: result_simps split: if_splits)

lemma split_child_size:
  "split_child b (tchildren n) = Inr (Some (pre, c, post)) \<Longrightarrow> size c < size n"
  by (cases n) (auto dest!: split_child_Some)

text \<open>
  \<open>trie_index_internal\<close>: the active count is threaded through; the child that is descended
  into is moved to the front (\<open>trie_remove\<close>, then \<open>trie_insert_after\<close> with \<open>NULL\<close>).
\<close>

function trie_index_internal ::
  "nat \<Rightarrow> 'd tnode \<Rightarrow> bytes \<Rightarrow> bool \<Rightarrow> ('d tnode \<times> nat \<times> slot option) result" where
  "trie_index_internal cnt node key insert_new =
     (let prefix = lcp key (tkey node) in
      if prefix = length (tkey node) then
        (let key' = drop prefix key in
         if length key' = 0 then
           (if \<not> tactive node \<and> insert_new
            then Inr (TNode (tdata node) (tkey node) True (tchildren node), cnt + 1, Some [])
            else Inr (node, cnt, Some []))
         else
           rbind (split_child (hd key') (tchildren node)) (\<lambda>r.
             case r of
               Some (pre, child, post) \<Rightarrow>
                 rbind (trie_index_internal cnt child key' insert_new) (\<lambda>(child', cnt', s).
                   Inr (TNode (tdata node) (tkey node) (tactive node) (child' # pre @ post),
                        cnt', map_option ((#) 0) s))
             | None \<Rightarrow> Inr (trie_new_node cnt node key' insert_new)))
      else if insert_new then
        (let new = TNode (tdata node) (drop prefix (tkey node)) (tactive node) (tchildren node);
             node' = TNode None (take prefix (tkey node)) False [new]
         in Inr (trie_new_node cnt node' (drop prefix key) insert_new))
      else Inr (node, cnt, None))"
  by pat_completeness auto
termination
  by (relation "measure (\<lambda>(cnt, node, key, ins). size node)") (auto dest: split_child_size)

declare trie_index_internal.simps [simp del]

definition trie_index :: "'d trie \<Rightarrow> bytes \<Rightarrow> ('d trie \<times> slot option) result" where
  "trie_index t key =
     (let t1 = (if length key > max_key_len t then t\<lparr>max_key_len := length key\<rparr> else t) in
      rbind (trie_index_internal (active_count t1) (troot t1) key True) (\<lambda>(n, cnt, s).
        Inr (t1\<lparr>troot := n, active_count := cnt\<rparr>, s)))"

text \<open>Reading and writing through a slot (\<open>*data\<close>).\<close>

fun slot_get :: "'d tnode \<Rightarrow> slot \<Rightarrow> 'd option" where
  "slot_get (TNode d k a cs) [] = d"
| "slot_get (TNode d k a cs) (i # p) = (if i < length cs then slot_get (cs ! i) p else None)"

fun slot_set :: "'d tnode \<Rightarrow> slot \<Rightarrow> 'd option \<Rightarrow> 'd tnode" where
  "slot_set (TNode d k a cs) [] v = TNode v k a cs"
| "slot_set (TNode d k a cs) (i # p) v =
     (if i < length cs then TNode d k a (cs[i := slot_set (cs ! i) p v]) else TNode d k a cs)"

definition trie_slot :: "'d trie \<Rightarrow> slot \<Rightarrow> 'd option" where
  "trie_slot t p = slot_get (troot t) p"

definition trie_store :: "'d trie \<Rightarrow> slot \<Rightarrow> 'd option \<Rightarrow> 'd trie" where
  "trie_store t p v = t\<lparr>troot := slot_set (troot t) p v\<rparr>"

definition trie_lookup :: "'d trie \<Rightarrow> bytes \<Rightarrow> ('d trie \<times> 'd option) result" where
  "trie_lookup t key =
     rbind (trie_index_internal (active_count t) (troot t) key False) (\<lambda>(n, cnt, s).
       Inr (t\<lparr>troot := n, active_count := cnt\<rparr>,
            case s of Some p \<Rightarrow> slot_get n p | None \<Rightarrow> None))"

text \<open>
  \<open>walk_node\<close>: the key is put together in one buffer. A write past its end is a fault. The
  callback has its own state and sees the key (0-terminated in the buffer) and the data.
\<close>

fun walk_node ::
  "('s \<Rightarrow> bytes \<Rightarrow> 'd option \<Rightarrow> 's result) \<Rightarrow> 'd tnode \<Rightarrow> bytes \<Rightarrow> nat \<Rightarrow> 's \<Rightarrow> ('s \<times> bytes) result"
and walk_children ::
  "('s \<Rightarrow> bytes \<Rightarrow> 'd option \<Rightarrow> 's result) \<Rightarrow> 'd tnode list \<Rightarrow> bytes \<Rightarrow> nat \<Rightarrow> 's \<Rightarrow> ('s \<times> bytes) result"
where
  "walk_node cb (TNode d k a cs) keybuf keypos s =
     rbind (buf_write keybuf keypos k) (\<lambda>buf.
       let pos = keypos + length k in
       rbind (if a then rbind (buf_write buf pos [0]) (\<lambda>buf'.
                          rbind (cb s (take pos buf') d) (\<lambda>s'. Inr (s', buf')))
              else Inr (s, buf))
         (\<lambda>(s', buf'). walk_children cb cs buf' pos s'))"
| "walk_children cb [] keybuf keypos s = Inr (s, keybuf)"
| "walk_children cb (c # cs) keybuf keypos s =
     rbind (walk_node cb c keybuf keypos s) (\<lambda>(s', buf). walk_children cb cs buf keypos s')"

definition trie_walk ::
  "'d trie \<Rightarrow> ('s \<Rightarrow> bytes \<Rightarrow> 'd option \<Rightarrow> 's result) \<Rightarrow> 's \<Rightarrow> 's result" where
  "trie_walk t cb s =
     rbind (walk_node cb (troot t) (replicate (max_key_len t + 1) 0) 0 s) (\<lambda>(s', _). Inr s')"

subsection \<open>The keys of a trie\<close>

text \<open>The active positions under a node, in the order the walk visits them.\<close>

fun entries :: "'d tnode \<Rightarrow> (bytes \<times> 'd option) list" where
  "entries (TNode d k a cs) =
     map (apfst ((@) k)) ((if a then [([], d)] else []) @ concat (map entries cs))"

abbreviation ekeys :: "'d tnode \<Rightarrow> bytes set" where
  "ekeys n \<equiv> fst ` set (entries n)"

text \<open>
  Well-formedness: no data at inactive nodes; the children's keys are not empty and differ
  in their first byte; every child leads to some active position.
\<close>

fun twf :: "'d tnode \<Rightarrow> bool" where
  "twf (TNode d k a cs) \<longleftrightarrow>
     (\<not> a \<longrightarrow> d = None) \<and> (\<forall>c \<in> set cs. twf c \<and> tkey c \<noteq> [] \<and> entries c \<noteq> []) \<and>
     distinct (map (\<lambda>c. hd (tkey c)) cs)"

definition trie_inv :: "'d trie \<Rightarrow> bool" where
  "trie_inv t \<longleftrightarrow> tkey (troot t) = [] \<and> twf (troot t) \<and>
     active_count t = length (entries (troot t)) \<and> (\<forall>k \<in> ekeys (troot t). length k \<le> max_key_len t)"

text \<open>The finite map a trie stands for: the keys accessed so far, each with its data.\<close>

definition trie_map :: "'d trie \<Rightarrow> bytes \<rightharpoonup> 'd option" where
  "trie_map t = map_of (entries (troot t))"

text \<open>
  \<open>trie_admits t k\<close>: the key is there already, or no key of the trie is longer than \<open>k\<close> and
  starts with it. Indexing any other key damages the trie (\<open>trie_prefix_key_lost\<close> below).
\<close>

definition admits :: "'d tnode \<Rightarrow> bytes \<Rightarrow> bool" where
  "admits n k \<longleftrightarrow> k \<in> ekeys n \<or> (\<forall>k' \<in> ekeys n. \<not> strict_prefix k k')"

definition trie_admits :: "'d trie \<Rightarrow> bytes \<Rightarrow> bool" where
  "trie_admits t k \<longleftrightarrow> admits (troot t) k"

lemma lcp_simps [simp]:
  "lcp k (k @ z) = length k" "lcp (k @ z) k = length k" "lcp k k = length k" "lcp z [] = 0"
  by (induction k) (auto simp: lcp.simps(3) intro: lcp.elims)

lemma lcp_le: "lcp xs ys \<le> length xs" "lcp xs ys \<le> length ys"
  by (induction xs ys rule: lcp.induct) auto

lemma take_lcp: "take (lcp xs ys) xs = take (lcp xs ys) ys"
  by (induction xs ys rule: lcp.induct) auto

lemma lcp_split:
  assumes "lcp xs ys < length ys" and "drop (lcp xs ys) xs \<noteq> []"
  shows "hd (drop (lcp xs ys) xs) \<noteq> hd (drop (lcp xs ys) ys)"
  using assms by (induction xs ys rule: lcp.induct) (auto split: if_splits)

lemma lcp_full: "lcp xs ys = length ys \<Longrightarrow> xs = ys @ drop (length ys) xs"
  using take_lcp [of xs ys] by (metis append_take_drop_id take_all order_refl)

lemma lcp_pos: "xs \<noteq> [] \<Longrightarrow> ys \<noteq> [] \<Longrightarrow> hd xs = hd ys \<Longrightarrow> 0 < lcp xs ys"
  by (cases xs; cases ys) auto

lemma ekeys_prefix: "k \<in> ekeys n \<Longrightarrow> prefix (tkey n) k"
  by (cases n) auto

lemma ekeys_head:
  assumes "k \<in> ekeys n" and "tkey n \<noteq> []"
  shows "k \<noteq> [] \<and> hd k = hd (tkey n)"
  using ekeys_prefix [OF assms(1)] assms(2) by (auto simp: prefix_def)

lemma fst_map_apfst: "map fst (map (apfst f) xs) = map f (map fst xs)"
  by simp

text \<open>Children with different first bytes have no key in common.\<close>

lemma children_keys_distinct:
  assumes "\<forall>c \<in> set cs. distinct (map fst (entries c)) \<and> tkey c \<noteq> []"
    and "distinct (map (\<lambda>c. hd (tkey c)) cs)"
  shows "distinct (map fst (concat (map entries cs)))"
  using assms
proof (induction cs)
  case (Cons c cs)
  have "fst e \<noteq> fst e'" if "e \<in> set (entries c)" "e' \<in> set (entries c')" "c' \<in> set cs" for e e' c'
  proof
    assume eq: "fst e = fst e'"
    have "hd (fst e) = hd (tkey c)" "hd (fst e') = hd (tkey c')"
      using ekeys_head [of "fst e" c] ekeys_head [of "fst e'" c'] that Cons.prems(1) by auto
    moreover have "hd (tkey c) \<noteq> hd (tkey c')"
      using Cons.prems(2) that(3) by auto
    ultimately show False
      using eq by simp
  qed
  with Cons show ?case
    by (auto simp: image_iff)
qed simp

lemma twf_keys_distinct: "twf n \<Longrightarrow> distinct (map fst (entries n))"
proof (induction n)
  case (TNode d k a cs)
  then have d: "distinct (map fst (concat (map entries cs)))"
    by (intro children_keys_distinct) auto
  have "[] \<notin> fst ` set (concat (map entries cs))"
    using TNode.prems ekeys_head by fastforce
  with d have "distinct (map fst ((if a then [([], d)] else []) @ concat (map entries cs)))"
    by auto
  moreover have "inj_on ((@) k) A" for A
    by (rule inj_onI) simp
  ultimately show ?case
    unfolding entries.simps fst_map_apfst by (simp only: distinct_map)
qed

subsection \<open>Slots\<close>

text \<open>\<open>at_slot n p k\<close>: the path leads to an active node whose full key is \<open>k\<close>.\<close>

fun at_slot :: "'d tnode \<Rightarrow> slot \<Rightarrow> bytes \<Rightarrow> bool" where
  "at_slot (TNode d k a cs) [] key \<longleftrightarrow> a \<and> key = k"
| "at_slot (TNode d k a cs) (i # p) key \<longleftrightarrow>
     i < length cs \<and> prefix k key \<and> at_slot (cs ! i) p (drop (length k) key)"

lemma at_slot_entry: "at_slot n p key \<Longrightarrow> (key, slot_get n p) \<in> set (entries n)"
proof (induction n p key rule: at_slot.induct)
  case (2 d k a cs i p key)
  then have "(drop (length k) key, slot_get (cs ! i) p) \<in> set (concat (map entries cs))"
    by (auto intro!: bexI [of _ "cs ! i"])
  then have "apfst ((@) k) (drop (length k) key, slot_get (cs ! i) p) \<in> set (entries (TNode d k a cs))"
    unfolding entries.simps set_map by (intro imageI) simp
  moreover have "key = k @ drop (length k) key"
    using 2 by (auto simp: prefix_def)
  ultimately show ?case
    using 2 by simp
qed auto

definition upd_entry :: "bytes \<Rightarrow> 'd option \<Rightarrow> bytes \<times> 'd option \<Rightarrow> bytes \<times> 'd option" where
  "upd_entry key v e = (if fst e = key then (key, v) else e)"

lemma upd_entry_fst [simp]: "fst (upd_entry key v e) = fst e"
  by (simp add: upd_entry_def)

lemma upd_entry_Pair: "upd_entry key v (a, b) = (if a = key then (key, v) else (a, b))"
  by (simp add: upd_entry_def)

lemma map_upd_entry_id: "key \<notin> fst ` set es \<Longrightarrow> map (upd_entry key v) es = es"
  by (induction es) (auto simp: upd_entry_def)

lemma upd_entry_apfst:
  "map (upd_entry (k @ r) v) (map (apfst ((@) k)) es) = map (apfst ((@) k)) (map (upd_entry r v) es)"
  by (induction es) (auto simp: upd_entry_def apfst_def)

lemma tkey_slot_set [simp]: "tkey (slot_set n p v) = tkey n"
  by (cases "(n, p, v)" rule: slot_set.cases) auto

text \<open>A write through a slot changes exactly the entry of its key.\<close>

lemma entries_slot_set:
  "twf n \<Longrightarrow> at_slot n p key \<Longrightarrow>
     entries (slot_set n p v) = map (upd_entry key v) (entries n)"
proof (induction n p key rule: at_slot.induct)
  case (1 d k a cs key)
  have "[] \<notin> fst ` set (concat (map entries cs))"
    using 1 ekeys_head by fastforce
  then have "map (upd_entry [] v) (concat (map entries cs)) = concat (map entries cs)"
    by (rule map_upd_entry_id)
  then have "map (upd_entry [] v) (([], d) # concat (map entries cs)) = ([], v) # concat (map entries cs)"
    by (simp only: list.map) (simp add: upd_entry_def)
  with upd_entry_apfst [of k "[]" v "([], d) # concat (map entries cs)"] 1 show ?case
    by (simp only: slot_set.simps entries.simps at_slot.simps if_True append_Cons append_Nil append_Nil2)
next
  case (2 d k a cs i p key)
  let ?r = "drop (length k) key"
  have i: "i < length cs" and key: "key = k @ ?r" and at: "at_slot (cs ! i) p ?r"
    using 2 by (auto simp: prefix_def)
  have ci: "twf (cs ! i)" "tkey (cs ! i) \<noteq> []"
    using 2 i by auto
  have rin: "?r \<in> ekeys (cs ! i)"
    using at_slot_entry [OF at] by force
  have r: "?r \<noteq> []" "hd ?r = hd (tkey (cs ! i))"
    using ekeys_head [OF rin ci(2)] by auto
  have other: "map (upd_entry ?r v) (entries c) = entries c"
    if "c \<in> set cs" "hd (tkey c) \<noteq> hd (tkey (cs ! i))" for c
    using that ekeys_head [of ?r c] r(2) 2 by (intro map_upd_entry_id) auto
  have "map entries (cs[i := slot_set (cs ! i) p v]) = map (\<lambda>c. map (upd_entry ?r v) (entries c)) cs"
  proof (rule nth_equalityI)
    fix j assume "j < length (map entries (cs[i := slot_set (cs ! i) p v]))"
    then have j: "j < length cs" by simp
    show "map entries (cs[i := slot_set (cs ! i) p v]) ! j =
          map (\<lambda>c. map (upd_entry ?r v) (entries c)) cs ! j"
    proof (cases "j = i")
      case True
      with i j 2 ci at show ?thesis by simp
    next
      case False
      have "hd (tkey (cs ! j)) \<noteq> hd (tkey (cs ! i))"
        using 2 False i j by (auto simp: distinct_conv_nth)
      with False j other show ?thesis by simp
    qed
  qed simp
  then have "concat (map entries (cs[i := slot_set (cs ! i) p v])) =
             map (upd_entry ?r v) (concat (map entries cs))"
    by (simp add: map_concat comp_def)
  moreover have "upd_entry key v (k, d) = (k, d)"
    using r(1) by (auto simp: upd_entry_def)
  ultimately show ?case
    using i r(1) upd_entry_apfst [of k ?r v] key by (simp add: upd_entry_def [of ?r v "([], d)"])
qed

lemma twf_slot_set: "twf n \<Longrightarrow> at_slot n p key \<Longrightarrow> twf (slot_set n p v)"
proof (induction n p key rule: at_slot.induct)
  case (2 d k a cs i p key)
  then have i: "i < length cs" and at: "at_slot (cs ! i) p (drop (length k) key)" by auto
  with 2 have "twf (slot_set (cs ! i) p v)" and "twf (cs ! i)" by auto
  moreover have "entries (slot_set (cs ! i) p v) \<noteq> []"
    using entries_slot_set [OF \<open>twf (cs ! i)\<close> at, of v] 2 i by auto
  moreover have "map (\<lambda>c. hd (tkey c)) (cs[i := slot_set (cs ! i) p v]) = map (\<lambda>c. hd (tkey c)) cs"
    using i by (auto simp: list_eq_iff_nth_eq nth_list_update)
  ultimately show ?case
    using 2 i by (auto dest!: set_update_subset_insert [THEN subsetD])
qed auto

subsection \<open>Indexing\<close>

lemma split_child_None:
  "split_child b cs = Inr None \<Longrightarrow> \<forall>c \<in> set cs. tkey c \<noteq> [] \<and> hd (tkey c) \<noteq> b"
  by (induction cs) (auto simp: result_simps split: if_splits)

lemma split_child_total: "\<forall>c \<in> set cs. tkey c \<noteq> [] \<Longrightarrow> \<exists>r. split_child b cs = Inr r"
  by (induction cs) auto

lemma ekeys_node: "ekeys (TNode d k a cs) = (@) k ` ((if a then {[]} else {}) \<union> (\<Union>c \<in> set cs. ekeys c))"
  by (auto simp: image_Un image_UN image_image)

lemma in_ekeys_node:
  "key \<in> ekeys n \<longleftrightarrow>
     (\<exists>r. key = tkey n @ r \<and> (r = [] \<and> tactive n \<or> (\<exists>c \<in> set (tchildren n). r \<in> ekeys c)))"
  by (cases n) (auto simp only: ekeys_node tnode.sel split: if_splits)

text \<open>What one call of \<open>trie_index_internal\<close> may do to a node.\<close>

definition index_post ::
  "nat \<Rightarrow> 'd tnode \<Rightarrow> bytes \<Rightarrow> bool \<Rightarrow> 'd tnode \<times> nat \<times> slot option \<Rightarrow> bool" where
  "index_post cnt n key ins r = (case r of (n', cnt', s) \<Rightarrow>
     twf n' \<and> (tkey n = [] \<longrightarrow> tkey n' = []) \<and>
     (0 < lcp key (tkey n) \<longrightarrow> tkey n' \<noteq> [] \<and> hd (tkey n') = hd (tkey n)) \<and>
     (if key \<in> ekeys n
      then mset (entries n') = mset (entries n) \<and> cnt' = cnt \<and> (\<exists>p. s = Some p \<and> at_slot n' p key)
      else if ins
      then mset (entries n') = add_mset (key, None) (mset (entries n)) \<and> cnt' = Suc cnt \<and>
           (\<exists>p. s = Some p \<and> at_slot n' p key)
      else mset (entries n') = mset (entries n) \<and> cnt' = cnt \<and>
           (\<forall>p. s = Some p \<longrightarrow> slot_get n' p = None)))"

lemma index_post_exact:
  assumes "twf n"
  shows "index_post cnt n (tkey n) ins
     (if \<not> tactive n \<and> ins then (TNode (tdata n) (tkey n) True (tchildren n), cnt + 1, Some [])
      else (n, cnt, Some []))"
proof -
  obtain d k a cs where n: "n = TNode d k a cs" by (cases n)
  have "[] \<notin> ekeys c" if "c \<in> set cs" for c
    using assms n that ekeys_head by fastforce
  then have "k \<in> ekeys n \<longleftrightarrow> a"
    using in_ekeys_node [of k n] n by (auto simp del: entries.simps)
  moreover have "0 < lcp k k \<Longrightarrow> k \<noteq> []"
    by (cases k) auto
  ultimately show ?thesis
    using assms n by (auto simp: index_post_def)
qed

lemma index_post_new_child:
  assumes wf: "twf n" and key: "key = tkey n @ r" "r \<noteq> []"
    and none: "split_child (hd r) (tchildren n) = Inr None"
  shows "index_post cnt n key ins (trie_new_node cnt n r ins)"
proof -
  obtain d k a cs where n: "n = TNode d k a cs" by (cases n)
  have hds: "\<forall>c \<in> set cs. tkey c \<noteq> [] \<and> hd (tkey c) \<noteq> hd r"
    using split_child_None [OF none] n by simp
  then have "\<forall>c \<in> set cs. r \<notin> ekeys c"
    using ekeys_head [of r] by metis
  then have notin: "key \<notin> ekeys n"
    using in_ekeys_node [of key n] n key by (auto simp del: entries.simps)
  moreover have "0 < lcp key k \<Longrightarrow> k \<noteq> []"
    by (cases k; cases key) auto
  ultimately show ?thesis
    using wf n key hds by (auto simp: index_post_def trie_new_node_def)
qed

lemma index_post_split:
  assumes wf: "twf n" and short: "lcp key (tkey n) < length (tkey n)" and ne: "entries n \<noteq> []"
    and adm: "admits n key"
  shows "index_post cnt n key True
     (trie_new_node cnt
        (TNode None (take (lcp key (tkey n)) (tkey n)) False
           [TNode (tdata n) (drop (lcp key (tkey n)) (tkey n)) (tactive n) (tchildren n)])
        (drop (lcp key (tkey n)) key) True)"
proof -
  obtain d k a cs where n: "n = TNode d k a cs" by (cases n)
  let ?p = "lcp key k"
  let ?r = "drop ?p key"
  have tk: "take ?p k @ drop ?p k = k" "take ?p k @ ?r = key"
    by (simp, subst take_lcp [symmetric], simp)
  have no: "\<not> prefix k key"
  proof
    assume "prefix k key"
    then obtain z where "key = k @ z" by (auto simp: prefix_def)
    moreover have "lcp (k @ z) k = length k" by (induction k) auto
    ultimately show False using short n by simp
  qed
  then have notin: "key \<notin> ekeys n"
    using ekeys_prefix n by fastforce
  have r: "?r \<noteq> []"
  proof
    assume "?r = []"
    then have "strict_prefix key k"
      using tk short n by (metis append_Nil2 no prefix_def strict_prefixI prefix_order.refl)
    moreover obtain e where "e \<in> ekeys n" "prefix k e"
      using ne ekeys_prefix n by (metis equals0I image_is_empty set_empty tnode.sel(2))
    ultimately have "strict_prefix key e"
      by (metis prefix_order.less_le_trans)
    with adm notin \<open>e \<in> ekeys n\<close> show False
      by (auto simp: admits_def)
  qed
  have ent: "entries (TNode d (drop ?p k) a cs) = [] \<longleftrightarrow> entries n = []"
    using n by simp
  have "map (apfst ((@) (take ?p k))) (entries (TNode d (drop ?p k) a cs)) = entries n"
    using n tk(1) by (simp add: comp_def apfst_def prod.map_comp id_def flip: append_assoc)
  then have e: "entries (TNode None (take ?p k) False [TNode d (drop ?p k) a cs, TNode None ?r True []])
      = entries n @ [(key, None)]"
    using tk(2) by (simp del: entries.simps add: entries.simps [of None "take ?p k"] entries.simps [of None ?r])
  have "hd (drop ?p k) \<noteq> hd ?r"
    using lcp_split [of key k] short n r by simp
  then have "twf (TNode None (take ?p k) False [TNode d (drop ?p k) a cs, TNode None ?r True []])"
    using wf n short r ne ent by (auto simp del: entries.simps simp: entries.simps [of None ?r])
  moreover have "0 < ?p \<Longrightarrow> take ?p k \<noteq> [] \<and> hd (take ?p k) = hd k"
    using short n by auto
  moreover have "at_slot (TNode None (take ?p k) False [TNode d (drop ?p k) a cs, TNode None ?r True []]) [1] key"
    using tk(2) short n by (auto simp: prefix_def) (metis append_eq_conv_conj length_take lcp_le(2) min.absorb2)
  ultimately show ?thesis
    using notin e n short by (simp add: index_post_def trie_new_node_def del: entries.simps twf.simps at_slot.simps)
qed

lemma index_post_miss:
  assumes "twf n" and "lcp key (tkey n) \<noteq> length (tkey n)"
  shows "index_post cnt n key False (n, cnt, None)"
proof -
  have "\<not> prefix (tkey n) key"
  proof
    assume "prefix (tkey n) key"
    then obtain z where "key = tkey n @ z" by (auto simp: prefix_def)
    moreover have "lcp (k @ z) k = length k" for k by (induction k) auto
    ultimately show False using assms(2) by simp
  qed
  then have "key \<notin> ekeys n"
    using ekeys_prefix by blast
  moreover have "0 < lcp key (tkey n) \<Longrightarrow> tkey n \<noteq> []"
    by (cases "tkey n"; cases key) auto
  ultimately show ?thesis
    using assms(1) by (auto simp: index_post_def)
qed

lemma index_post_descend:
  assumes wf: "twf n" and key: "key = tkey n @ r" "r \<noteq> []"
    and sp: "split_child (hd r) (tchildren n) = Inr (Some (pre, c, post))"
    and post: "index_post cnt c r ins (c', cnt', s)"
  shows "index_post cnt n key ins
     (TNode (tdata n) (tkey n) (tactive n) (c' # pre @ post), cnt', map_option ((#) 0) s)"
proof -
  obtain d k a cs where n: "n = TNode d k a cs" by (cases n)
  have cs: "cs = pre @ c # post" and c: "tkey c \<noteq> []" "hd (tkey c) = hd r"
    using split_child_Some [OF sp] n by auto
  have pos: "0 < lcp r (tkey c)"
    using lcp_pos [of r "tkey c"] key(2) c by simp
  have c'wf: "twf c'" and c'key: "tkey c' \<noteq> []" "hd (tkey c') = hd (tkey c)"
    using post pos by (auto simp: index_post_def)
  have c'sub: "mset (entries c) \<subseteq># mset (entries c')"
    using post by (auto simp: index_post_def split: if_splits)
  have c'ne: "entries c' \<noteq> []"
    using c'sub wf n cs by auto
  have "r \<notin> ekeys x" if x: "x \<in> set pre \<union> set post" for x
  proof
    assume "r \<in> ekeys x"
    moreover have "tkey x \<noteq> []" "hd (tkey x) \<noteq> hd (tkey c)"
      using x wf n cs by (auto simp: image_iff)
    ultimately show False
      using ekeys_head [of r x] c(2) by simp
  qed
  then have in_iff: "key \<in> ekeys n \<longleftrightarrow> r \<in> ekeys c"
    using in_ekeys_node [of key n] n cs key by (auto simp del: entries.simps)
  have wf': "twf (TNode d k a (c' # pre @ post))"
    using wf n cs c'wf c'key c'ne by auto
  have ms: "mset (entries (TNode d k a (c' # pre @ post))) + image_mset (apfst ((@) k)) (mset (entries c)) =
      mset (entries n) + image_mset (apfst ((@) k)) (mset (entries c'))"
    using n cs by simp
  have slot: "at_slot (TNode d k a (c' # pre @ post)) (0 # p) key" if "at_slot c' p r" for p
    using that key(1) n by simp
  have kpos: "0 < lcp key k \<Longrightarrow> k \<noteq> []"
    by (cases k; cases key) auto
  show ?thesis
  proof (cases "r \<in> ekeys c \<or> \<not> ins")
    case True
    then have "mset (entries c') = mset (entries c)" "cnt' = cnt"
      using post by (auto simp: index_post_def split: if_splits)
    then have "mset (entries (TNode d k a (c' # pre @ post))) = mset (entries n)"
      using ms by (simp del: entries.simps)
    then show ?thesis
      using post wf' slot in_iff n kpos \<open>cnt' = cnt\<close> True
      by (auto simp: index_post_def simp del: entries.simps twf.simps at_slot.simps split: if_splits)
  next
    case False
    then have "mset (entries c') = add_mset (r, None) (mset (entries c))" "cnt' = Suc cnt"
      using post by (auto simp: index_post_def split: if_splits)
    then have "mset (entries (TNode d k a (c' # pre @ post))) = add_mset (key, None) (mset (entries n))"
      using ms key(1) n by (simp del: entries.simps)
    then show ?thesis
      using post wf' slot in_iff n kpos \<open>cnt' = Suc cnt\<close> False
      by (auto simp: index_post_def simp del: entries.simps twf.simps at_slot.simps split: if_splits)
  qed
qed

lemma admits_child:
  assumes "admits n key" and "key = tkey n @ r" "r \<noteq> []" and "c \<in> set (tchildren n)"
    and "tkey c \<noteq> []" "hd (tkey c) = hd r" and "twf n"
  shows "admits c r"
proof -
  obtain d k a cs where n: "n = TNode d k a cs" by (cases n)
  have "r \<in> ekeys c \<or> (\<forall>k' \<in> ekeys c. \<not> strict_prefix r k')"
  proof (cases "key \<in> ekeys n")
    case True
    then obtain x where x: "x \<in> set cs" "r \<in> ekeys x"
      using in_ekeys_node [of key n] assms(2,3) n by auto
    moreover have "hd (tkey x) = hd (tkey c)"
      using ekeys_head [OF x(2)] assms(6,7) n x(1) by auto
    ultimately have "x = c"
      using assms(4,7) n by (auto simp: distinct_map inj_on_def)
    with x show ?thesis by simp
  next
    case False
    have "\<not> strict_prefix r k'" if "k' \<in> ekeys c" for k'
    proof
      assume "strict_prefix r k'"
      then have "strict_prefix key (k @ k')"
        using assms(2) n by (simp add: strict_prefix_def)
      moreover have "k @ k' \<in> ekeys n"
        using in_ekeys_node [of "k @ k'" n] that assms(4) n by (auto simp del: entries.simps)
      ultimately show False
        using assms(1) False by (auto simp: admits_def)
    qed
    then show ?thesis by blast
  qed
  then show ?thesis by (simp add: admits_def)
qed

lemma index_internal_post:
  assumes "twf n" and "tkey n = [] \<or> entries n \<noteq> []" and "ins \<Longrightarrow> admits n key"
  shows "\<exists>r. trie_index_internal cnt n key ins = Inr r \<and> index_post cnt n key ins r"
  using assms
proof (induction cnt n key ins rule: trie_index_internal.induct)
  case (1 cnt n key ins)
  let ?p = "lcp key (tkey n)"
  let ?r = "drop ?p key"
  show ?case
  proof (cases "?p = length (tkey n)")
    case full: True
    then have key: "key = tkey n @ ?r"
      using lcp_full [of key "tkey n"] by simp
    show ?thesis
    proof (cases "?r = []")
      case True
      with key have "key = tkey n" by simp
      with index_post_exact [OF 1(2), of cnt ins] full show ?thesis
        by (subst trie_index_internal.simps) (auto simp: Let_def split: if_splits)
    next
      case False
      have kids: "\<forall>c \<in> set (tchildren n). twf c \<and> tkey c \<noteq> [] \<and> entries c \<noteq> []"
        using 1(2) by (cases n) auto
      then obtain q where q: "split_child (hd ?r) (tchildren n) = Inr q"
        using split_child_total by blast
      show ?thesis
      proof (cases q)
        case None
        with index_post_new_child [OF 1(2) key False, of cnt ins] q full False show ?thesis
          by (subst trie_index_internal.simps) (auto simp: Let_def)
      next
        case (Some t)
        obtain pre c post where t: "t = (pre, c, post)" by (cases t)
        have sp: "split_child (hd ?r) (tchildren n) = Inr (Some (pre, c, post))"
          using q Some t by simp
        note c = split_child_Some [OF sp]
        have "\<exists>r. trie_index_internal cnt c ?r ins = Inr r \<and> index_post cnt c ?r ins r"
          using 1(1) [OF refl full refl _ sp refl refl refl] False c kids
            admits_child [OF 1(4) key False _ _ _ 1(2)] by auto
        then obtain c' cnt' s where "trie_index_internal cnt c ?r ins = Inr (c', cnt', s)"
          and "index_post cnt c ?r ins (c', cnt', s)"
          by auto
        with index_post_descend [OF 1(2) key False sp] sp full False show ?thesis
          by (subst trie_index_internal.simps) (auto simp: Let_def)
      qed
    qed
  next
    case False
    then have lt: "?p < length (tkey n)"
      using lcp_le(2) [of key "tkey n"] by simp
    then have "entries n \<noteq> []"
      using 1(3) by auto
    with index_post_split [OF 1(2) lt _ 1(4)] index_post_miss [OF 1(2) False] False show ?thesis
      by (cases ins; subst trie_index_internal.simps) (auto simp: Let_def)
  qed
qed

subsection \<open>The map a trie implements\<close>

lemma map_of_mset_eq:
  assumes "distinct (map fst xs)" and "mset ys = mset xs"
  shows "map_of ys = map_of xs"
proof
  fix k
  have d: "distinct (map fst ys)"
    using assms by (metis mset_eq_imp_distinct_iff mset_map)
  have "set ys = set xs"
    using assms(2) by (rule mset_eq_setD)
  with assms(1) d show "map_of ys k = map_of xs k"
    by (metis map_of_eq_Some_iff not_None_eq)
qed

lemma map_of_upd_entry:
  "key \<in> fst ` set es \<Longrightarrow> map_of (map (upd_entry key v) es) = (map_of es)(key \<mapsto> v)"
proof (induction es)
  case (Cons e es)
  show ?case
  proof (cases "key \<in> fst ` set es")
    case True
    with Cons show ?thesis
      by (cases e) (auto simp: upd_entry_Pair)
  next
    case False
    with Cons show ?thesis
      by (cases e) (auto simp: map_upd_entry_id [OF False] upd_entry_Pair)
  qed
qed simp

lemma trie_map_dom: "dom (trie_map t) = ekeys (troot t)"
  by (simp add: trie_map_def dom_map_of_conv_image_fst)

lemma trie_size_card: "trie_inv t \<Longrightarrow> trie_size t = card (dom (trie_map t))"
  using distinct_card [OF twf_keys_distinct [of "troot t"]]
  by (simp add: trie_inv_def trie_size_def trie_map_dom)

lemma trie_alloc_inv [simp]: "trie_inv trie_alloc"
  by (simp add: trie_inv_def trie_alloc_def)

lemma trie_alloc_map [simp]: "trie_map trie_alloc = Map.empty"
  by (simp add: trie_map_def trie_alloc_def)

definition slot_value :: "'d trie \<Rightarrow> bytes \<Rightarrow> 'd option" where
  "slot_value t key = (case trie_map t key of Some d \<Rightarrow> d | None \<Rightarrow> None)"

lemma trie_store_spec:
  assumes "trie_inv t" and "at_slot (troot t) p key"
  shows "trie_inv (trie_store t p v)" and "trie_map (trie_store t p v) = (trie_map t)(key \<mapsto> v)"
proof -
  have wf: "twf (troot t)" using assms(1) by (simp add: trie_inv_def)
  note e = entries_slot_set [OF wf assms(2), of v]
  have "key \<in> ekeys (troot t)"
    using at_slot_entry [OF assms(2)] by force
  with e show "trie_map (trie_store t p v) = (trie_map t)(key \<mapsto> v)"
    by (simp add: trie_map_def trie_store_def map_of_upd_entry)
  show "trie_inv (trie_store t p v)"
    using assms e twf_slot_set [OF wf assms(2), of v]
    by (auto simp: trie_inv_def trie_store_def)
qed

lemma trie_index_spec:
  assumes inv: "trie_inv t" and adm: "trie_admits t key"
  shows "\<exists>t' p. trie_index t key = Inr (t', Some p) \<and> trie_inv t' \<and> at_slot (troot t') p key \<and>
           trie_map t' = (trie_map t)(key \<mapsto> slot_value t key) \<and> trie_slot t' p = slot_value t key"
proof -
  let ?n = "troot t"
  obtain n' cnt' s where r: "trie_index_internal (active_count t) ?n key True = Inr (n', cnt', s)"
    and post: "index_post (active_count t) ?n key True (n', cnt', s)"
    using index_internal_post [of ?n True key "active_count t"] inv adm
    by (auto simp: trie_inv_def trie_admits_def)
  let ?m = "if length key > max_key_len t then length key else max_key_len t"
  let ?t = "\<lparr>troot = n', active_count = cnt', max_key_len = ?m, \<dots> = trie.more t\<rparr>"
  obtain p where p: "s = Some p" "at_slot n' p key"
    using post by (auto simp: index_post_def split: if_splits)
  have wf': "twf n'" using post by (simp add: index_post_def)
  have ti: "trie_index t key = Inr (?t, Some p)"
    using r p by (cases t) (simp add: trie_index_def Let_def)
  have "trie_inv ?t"
  proof (cases "key \<in> ekeys ?n")
    case True
    then have "mset (entries n') = mset (entries ?n)"
      using post by (simp add: index_post_def)
    then show ?thesis
      using post inv True mset_eq_length [of "entries n'" "entries ?n"] mset_eq_setD [of "entries n'" "entries ?n"]
      by (auto simp: trie_inv_def index_post_def)
  next
    case False
    then have "mset (entries n') = mset ((key, None) # entries ?n)"
      using post by (simp add: index_post_def)
    from post inv False mset_eq_length [OF this] mset_eq_setD [OF this] show ?thesis
      by (auto simp: trie_inv_def index_post_def)
  qed
  moreover have "trie_map ?t = (trie_map t)(key \<mapsto> slot_value t key)"
  proof (cases "key \<in> ekeys ?n")
    case True
    then have "trie_map t key = Some (slot_value t key)"
      by (metis (no_types, lifting) trie_map_dom domD option.simps(5) slot_value_def)
    moreover have "trie_map ?t = trie_map t"
      using post True twf_keys_distinct [of ?n] inv
      by (auto simp: trie_map_def index_post_def trie_inv_def intro: map_of_mset_eq)
    ultimately show ?thesis by (simp add: fun_upd_idem)
  next
    case False
    then have "trie_map t key = None"
      by (metis trie_map_dom domIff)
    then have "slot_value t key = None"
      by (simp add: slot_value_def)
    moreover have "mset (entries n') = mset ((key, None) # entries ?n)"
      using post False by (simp add: index_post_def)
    moreover have "distinct (map fst ((key, None) # entries ?n))"
      using False twf_keys_distinct [of ?n] inv by (simp add: trie_inv_def)
    ultimately show ?thesis
      by (simp add: trie_map_def map_of_mset_eq [where xs = "(key, None) # entries ?n"])
  qed
  moreover have "trie_slot ?t p = slot_value t key"
  proof -
    have "trie_map ?t key = Some (slot_get n' p)"
      using at_slot_entry [OF p(2)] twf_keys_distinct [OF wf'] by (simp add: trie_map_def)
    with calculation(2) show ?thesis
      by (simp add: trie_slot_def)
  qed
  ultimately show ?thesis
    using ti p(2) by (intro exI [of _ ?t] exI [of _ p]) simp
qed

lemma trie_lookup_spec:
  assumes inv: "trie_inv t"
  shows "\<exists>t'. trie_lookup t key = Inr (t', slot_value t key) \<and> trie_inv t' \<and> trie_map t' = trie_map t"
proof -
  let ?n = "troot t"
  obtain n' cnt' s where r: "trie_index_internal (active_count t) ?n key False = Inr (n', cnt', s)"
    and post: "index_post (active_count t) ?n key False (n', cnt', s)"
    using index_internal_post [of ?n False key "active_count t"] inv
    by (auto simp: trie_inv_def trie_admits_def)
  let ?t = "t\<lparr>troot := n', active_count := cnt'\<rparr>"
  have ms: "mset (entries n') = mset (entries ?n)" and wf': "twf n'"
    using post by (auto simp: index_post_def split: if_splits)
  have map: "trie_map ?t = trie_map t"
    using twf_keys_distinct [of ?n] inv ms by (auto simp: trie_map_def trie_inv_def intro: map_of_mset_eq)
  have "(case s of Some p \<Rightarrow> slot_get n' p | None \<Rightarrow> None) = slot_value t key"
  proof (cases "key \<in> ekeys ?n")
    case True
    then obtain p where p: "s = Some p" "at_slot n' p key"
      using post by (auto simp: index_post_def)
    then have "trie_map ?t key = Some (slot_get n' p)"
      using at_slot_entry [OF p(2)] twf_keys_distinct [OF wf'] by (simp add: trie_map_def)
    with p map show ?thesis by (simp add: slot_value_def)
  next
    case False
    then have "trie_map t key = None"
      by (metis trie_map_dom domIff)
    with False post show ?thesis
      by (auto simp: index_post_def slot_value_def split: option.splits)
  qed
  moreover have "trie_inv ?t"
    using inv ms wf' post mset_eq_length [OF ms] mset_eq_setD [OF ms]
    by (auto simp: trie_inv_def index_post_def split: if_splits)
  ultimately show ?thesis
    using r map by (auto simp: trie_lookup_def)
qed

subsection \<open>Walking\<close>

definition visit :: "('s \<Rightarrow> bytes \<Rightarrow> 'd option \<Rightarrow> 's result) \<Rightarrow> 's \<Rightarrow> bytes \<times> 'd option \<Rightarrow> 's result" where
  "visit cb s e = cb s (fst e) (snd e)"

lemma visit_Pair [simp]: "visit cb s (k, d) = cb s k d"
  by (simp add: visit_def)

text \<open>The outcome of a walk: the callback's failure, or its final state and a buffer that
  still starts with the part of the key written by the callers.\<close>

definition walk_post :: "nat \<Rightarrow> bytes \<Rightarrow> bytes \<Rightarrow> 's result \<Rightarrow> ('s \<times> bytes) result \<Rightarrow> bool" where
  "walk_post pos pre buf spec r = (case spec of
     Inl e \<Rightarrow> r = Inl e
   | Inr s \<Rightarrow> (\<exists>buf'. r = Inr (s, buf') \<and> length buf' = length buf \<and> take pos buf' = pre))"

lemma walk_post_Inr: "walk_post pos pre buf (Inr s) r \<longleftrightarrow>
    (\<exists>buf'. r = Inr (s, buf') \<and> length buf' = length buf \<and> take pos buf' = pre)"
  by (simp add: walk_post_def)

lemma walk_children_post:
  assumes "\<And>c buf s. c \<in> set cs \<Longrightarrow> length buf = m \<Longrightarrow> take pos buf = pre \<Longrightarrow>
             walk_post pos pre buf (fold_result (visit cb) s (map (apfst ((@) pre)) (entries c)))
               (walk_node cb c buf pos s)"
    and "length buf = m" and "take pos buf = pre"
  shows "walk_post pos pre buf
     (fold_result (visit cb) s (map (apfst ((@) pre)) (concat (map entries cs))))
     (walk_children cb cs buf pos s)"
  using assms
proof (induction cs arbitrary: buf s)
  case (Cons c cs)
  have step: "walk_post pos pre buf (fold_result (visit cb) s (map (apfst ((@) pre)) (entries c)))
               (walk_node cb c buf pos s)"
    using Cons.prems by simp
  show ?case
  proof (cases "fold_result (visit cb) s (map (apfst ((@) pre)) (entries c))")
    case (Inl e)
    with step show ?thesis by (simp add: walk_post_def)
  next
    case (Inr s')
    with step obtain buf' where "walk_node cb c buf pos s = Inr (s', buf')" "length buf' = m" "take pos buf' = pre"
      using Cons.prems(2) by (auto simp: walk_post_Inr)
    with Inr Cons.IH [of buf' s'] Cons.prems show ?thesis
      by (auto simp: walk_post_def split: sum.splits)
  qed
qed (simp add: walk_post_def)

lemma walk_node_post:
  assumes "twf n" and "tkey n = [] \<or> entries n \<noteq> []"
    and "\<forall>k \<in> ekeys n. pos + length k < length buf" and "pos < length buf" and "take pos buf = pre"
  shows "walk_post pos pre buf (fold_result (visit cb) s (map (apfst ((@) pre)) (entries n)))
     (walk_node cb n buf pos s)"
  using assms
proof (induction n arbitrary: buf pos pre s)
  case (TNode d k a cs)
  have fit: "pos + length k < length buf"
  proof (cases "entries (TNode d k a cs) = []")
    case False
    then obtain e where e: "e \<in> ekeys (TNode d k a cs)"
      by (metis equals0I image_is_empty set_empty)
    then have "length k \<le> length e"
      using ekeys_prefix prefix_length_le by fastforce
    moreover have "pos + length e < length buf"
      using TNode.prems(3) e by blast
    ultimately show ?thesis by simp
  qed (use TNode.prems in auto)
  obtain buf1 where buf1: "buf_write buf pos k = Inr buf1" "length buf1 = length buf"
    "take pos buf1 = pre" "take (pos + length k) buf1 = pre @ k"
    using buf_write_ok [of pos k buf pre] fit TNode.prems(5) by auto
  let ?pos = "pos + length k"
  let ?rest = "map (apfst ((@) (pre @ k))) (concat (map entries cs))"
  have split: "map (apfst ((@) pre)) (entries (TNode d k a cs)) = (if a then [(pre @ k, d)] else []) @ ?rest"
    by auto
  have below: "walk_post ?pos (pre @ k) b (fold_result (visit cb) s' ?rest) (walk_children cb cs b ?pos s')"
    if b: "length b = length buf" "take ?pos b = pre @ k" for b s'
  proof (rule walk_children_post [OF _ b])
    fix c buf' s''
    assume c: "c \<in> set cs" and buf': "length buf' = length buf" "take ?pos buf' = pre @ k"
    have "?pos + length k' < length buf" if "k' \<in> ekeys c" for k'
    proof -
      have "k @ k' \<in> ekeys (TNode d k a cs)"
        using in_ekeys_node [of "k @ k'" "TNode d k a cs"] that c by (auto simp del: entries.simps)
      then have "pos + length (k @ k') < length buf"
        using TNode.prems(3) by blast
      then show ?thesis by simp
    qed
    moreover have "twf c" "entries c \<noteq> []"
      using TNode.prems(1) c by auto
    ultimately show "walk_post ?pos (pre @ k) buf'
        (fold_result (visit cb) s'' (map (apfst ((@) (pre @ k))) (entries c))) (walk_node cb c buf' ?pos s'')"
      using buf' fit by (intro TNode.IH [OF c]) simp_all
  qed
  have weaken: "walk_post pos pre buf x r" if "walk_post ?pos (pre @ k) b x r" "length b = length buf" for b x r
  proof -
    have "take pos b' = pre" if "take ?pos b' = pre @ k" for b'
      using arg_cong [OF that, of "take pos"] TNode.prems(4,5) by (auto simp: min_def)
    with that show ?thesis
      by (auto simp: walk_post_def split: sum.splits)
  qed
  show ?case
  proof (cases a)
    case True
    obtain buf2 where buf2: "buf_write buf1 ?pos [0] = Inr buf2" "length buf2 = length buf"
      "take ?pos buf2 = pre @ k"
      using buf_write_ok [of ?pos "[0]" buf1 "pre @ k"] fit buf1 by auto
    show ?thesis
    proof (cases "cb s (pre @ k) d")
      case (Inl e)
      then show ?thesis
        using buf1 buf2 True unfolding split by (simp add: walk_post_def)
    next
      case (Inr s')
      then show ?thesis
        using weaken [OF below [OF buf2(2,3), of s'] buf2(2)] buf1 buf2 True unfolding split
        by simp
    qed
  next
    case False
    then show ?thesis
      using weaken [OF below [OF buf1(2,4), of s] buf1(2)] buf1 unfolding split by simp
  qed
qed

lemma trie_walk_fold:
  assumes "trie_inv t"
  shows "trie_walk t cb s = fold_result (visit cb) s (entries (troot t))"
proof -
  let ?buf = "replicate (max_key_len t + 1) (0 :: byte)"
  have "walk_post 0 [] ?buf (fold_result (visit cb) s (map (apfst ((@) [])) (entries (troot t))))
      (walk_node cb (troot t) ?buf 0 s)"
    using assms by (intro walk_node_post) (auto simp: trie_inv_def less_Suc_eq_le)
  moreover have "map (apfst ((@) [])) es = es" for es :: "(bytes \<times> 'a option) list"
    by (rule map_idI) auto
  ultimately show ?thesis
    by (auto simp: trie_walk_def walk_post_def split: sum.splits)
qed

subsection \<open>The contract of an indexed store\<close>

text \<open>Storing through the pointer the index operation returns: \<open>*trie_index(t, key) = v\<close>.\<close>

definition trie_put :: "'d trie \<Rightarrow> bytes \<Rightarrow> 'd option \<Rightarrow> 'd trie result" where
  "trie_put t key v =
     rbind (trie_index t key) (\<lambda>(t', s).
       case s of Some p \<Rightarrow> Inr (trie_store t' p v) | None \<Rightarrow> Inl BadAccess)"

text \<open>A key that can be added to a set of keys.\<close>

definition key_fits :: "bytes set \<Rightarrow> bytes \<Rightarrow> bool" where
  "key_fits K k \<longleftrightarrow> k \<in> K \<or> (\<forall>k' \<in> K. \<not> strict_prefix k k')"

definition prefix_free :: "bytes set \<Rightarrow> bool" where
  "prefix_free K \<longleftrightarrow> (\<forall>a \<in> K. \<forall>b \<in> K. \<not> strict_prefix a b)"

lemma prefix_free_fits: "prefix_free K \<Longrightarrow> k \<in> K \<Longrightarrow> A \<subseteq> K \<Longrightarrow> key_fits A k"
  by (auto simp: prefix_free_def key_fits_def)

definition addable :: "bytes set \<Rightarrow> bytes list \<Rightarrow> bool" where
  "addable K ks \<longleftrightarrow> (\<forall>k \<in> set ks. \<forall>k' \<in> K. \<not> strict_prefix k k') \<and>
     sorted_wrt (\<lambda>a b. \<not> strict_prefix b a) ks"

lemma prefix_free_addable: "prefix_free (K \<union> set ks) \<Longrightarrow> addable K ks"
  by (induction ks) (auto simp: prefix_free_def addable_def)

text \<open>The walk visits a key before the longer ones that start with it.\<close>

lemma concat_entries_order:
  assumes "\<forall>c \<in> set cs. sorted_wrt (\<lambda>e e'. \<not> strict_prefix (fst e') (fst e)) (entries c) \<and> tkey c \<noteq> []"
    and "distinct (map (\<lambda>c. hd (tkey c)) cs)"
  shows "sorted_wrt (\<lambda>e e'. \<not> strict_prefix (fst e') (fst e)) (concat (map entries cs))"
  using assms
proof (induction cs)
  case (Cons c cs)
  have "\<not> strict_prefix (fst e') (fst e)" if "e \<in> set (entries c)" "e' \<in> set (entries c')" "c' \<in> set cs" for e e' c'
  proof
    assume "strict_prefix (fst e') (fst e)"
    moreover have "fst e' \<noteq> []" "hd (fst e) = hd (tkey c)" "hd (fst e') = hd (tkey c')"
      using ekeys_head [of "fst e" c] ekeys_head [of "fst e'" c'] that Cons.prems(1) by auto
    ultimately have "hd (tkey c) = hd (tkey c')"
      by (auto simp: strict_prefix_def prefix_def)
    moreover have "hd (tkey c) \<noteq> hd (tkey c')"
      using Cons.prems(2) that(3) by auto
    ultimately show False by simp
  qed
  with Cons show ?case
    by (auto simp: sorted_wrt_append)
qed simp

lemma entries_order: "twf n \<Longrightarrow> sorted_wrt (\<lambda>e e'. \<not> strict_prefix (fst e') (fst e)) (entries n)"
proof (induction n)
  case (TNode d k a cs)
  then have "sorted_wrt (\<lambda>e e'. \<not> strict_prefix (fst e') (fst e)) (concat (map entries cs))"
    by (intro concat_entries_order) auto
  then have "sorted_wrt (\<lambda>e e'. \<not> strict_prefix (fst e') (fst e))
      ((if a then [([], d)] else []) @ concat (map entries cs))"
    by (auto simp: sorted_wrt_append)
  then show ?case
    unfolding entries.simps by (simp only: sorted_wrt_map) (auto elim!: sorted_wrt_mono_rel [rotated] simp: strict_prefix_def prefix_def)
qed

lemma same_length_prefix_free: "\<forall>k \<in> K. length k = n \<Longrightarrow> prefix_free K"
  by (auto simp: prefix_free_def dest: prefix_length_less)

lemma trie_admits_fits: "trie_admits t k \<longleftrightarrow> key_fits (dom (trie_map t)) k"
  by (simp add: trie_admits_def admits_def key_fits_def trie_map_dom)

locale indexed_store =
  fixes inv :: "'t \<Rightarrow> bool"
    and view :: "'t \<Rightarrow> bytes \<rightharpoonup> 'd option"
    and put :: "'t \<Rightarrow> bytes \<Rightarrow> 'd option \<Rightarrow> 't result"
    and find :: "'t \<Rightarrow> bytes \<Rightarrow> ('t \<times> 'd option) result"
  assumes put_ok: "inv t \<Longrightarrow> key_fits (dom (view t)) k \<Longrightarrow>
      \<exists>t'. put t k v = Inr t' \<and> inv t' \<and> view t' = (view t)(k \<mapsto> v)"
    and find_ok: "inv t \<Longrightarrow>
      \<exists>t'. find t k = Inr (t', case view t k of Some d \<Rightarrow> d | None \<Rightarrow> None) \<and> inv t' \<and> view t' = view t"
begin

lemma put_find:
  assumes "inv t" and "key_fits (dom (view t)) k"
  shows "\<exists>t' t''. put t k v = Inr t' \<and> find t' k = Inr (t'', v)"
proof -
  obtain t' where "put t k v = Inr t'" "inv t'" "view t' = (view t)(k \<mapsto> v)"
    using put_ok [OF assms] by blast
  with find_ok [of t' k] show ?thesis by auto
qed

text \<open>Filling a store from a list of keys in which no key comes after a longer one it starts.\<close>

lemma put_list:
  assumes "inv t" and "addable (dom (view t)) ks"
  shows "\<exists>t'. fold_result (\<lambda>t k. put t k v) t ks = Inr t' \<and> inv t' \<and>
           view t' = (\<lambda>k. if k \<in> set ks then Some v else view t k)"
  using assms
proof (induction ks arbitrary: t)
  case (Cons k ks)
  have "key_fits (dom (view t)) k"
    using Cons.prems(2) by (auto simp: key_fits_def addable_def)
  then obtain t1 where t1: "put t k v = Inr t1" "inv t1" "view t1 = (view t)(k \<mapsto> v)"
    using put_ok [OF Cons.prems(1)] by blast
  have "addable (dom (view t1)) ks"
    using t1(3) Cons.prems(2) by (auto simp: addable_def)
  then obtain t' where "fold_result (\<lambda>t k. put t k v) t1 ks = Inr t'" "inv t'"
    "view t' = (\<lambda>k. if k \<in> set ks then Some v else view t1 k)"
    using Cons.IH [OF t1(2)] by metis
  with t1 show ?case
    by (intro exI [of _ t']) auto
qed auto

end

interpretation tr: indexed_store trie_inv trie_map trie_put trie_lookup
proof
  fix t :: "'d trie" and k v
  assume inv: "trie_inv t" and fits: "key_fits (dom (trie_map t)) k"
  obtain t' p where t': "trie_index t k = Inr (t', Some p)" "trie_inv t'" "at_slot (troot t') p k"
      "trie_map t' = (trie_map t)(k \<mapsto> slot_value t k)"
    using trie_index_spec [OF inv, of k] fits by (auto simp: trie_admits_fits)
  then have "trie_map (trie_store t' p v) = (trie_map t)(k \<mapsto> v)"
    using trie_store_spec(2) [OF t'(2,3), of v] by simp
  with t' trie_store_spec(1) [OF t'(2,3), of v]
  show "\<exists>t'. trie_put t k v = Inr t' \<and> trie_inv t' \<and> trie_map t' = (trie_map t)(k \<mapsto> v)"
    by (simp add: trie_put_def)
next
  fix t :: "'d trie" and k
  assume "trie_inv t"
  then show "\<exists>t'. trie_lookup t k = Inr (t', case trie_map t k of Some d \<Rightarrow> d | None \<Rightarrow> None) \<and>
      trie_inv t' \<and> trie_map t' = trie_map t"
    using trie_lookup_spec [of t k] by (simp add: slot_value_def)
qed

subsection \<open>Properties\<close>

text \<open>
  C1: \<open>trie_index\<close> refines a finite map. On a well-formed trie and a key that is present or
  no proper prefix of a present one, it returns a slot holding the value stored for the key
  (\<open>NULL\<close> for a new key), adds exactly that key, keeps the trie well formed with the right
  size, and a value written through the slot is the key's value from then on.
\<close>

theorem trie_index_refines_map:
  assumes "trie_inv t" and "key_fits (dom (trie_map t)) key"
  shows "\<exists>t' p. trie_index t key = Inr (t', Some p) \<and> trie_inv t' \<and>
           trie_map t' = (trie_map t)(key \<mapsto> slot_value t key) \<and> trie_slot t' p = slot_value t key \<and>
           trie_size t' = card (insert key (dom (trie_map t))) \<and>
           (\<forall>v. trie_inv (trie_store t' p v) \<and> trie_map (trie_store t' p v) = (trie_map t)(key \<mapsto> v))"
proof -
  obtain t' p where t': "trie_index t key = Inr (t', Some p)" "trie_inv t'" "at_slot (troot t') p key"
      "trie_map t' = (trie_map t)(key \<mapsto> slot_value t key)" "trie_slot t' p = slot_value t key"
    using trie_index_spec [of t key] assms by (auto simp: trie_admits_fits)
  moreover have "trie_size t' = card (insert key (dom (trie_map t)))"
    using trie_size_card [OF t'(2)] t'(4) by simp
  ultimately show ?thesis
    using trie_store_spec [OF t'(2,3)] by auto
qed

theorem trie_index_refines_map_witness:
  "\<exists>t' p. trie_index (trie_alloc :: nat trie) [1, 2] = Inr (t', Some p) \<and> trie_size t' = 1"
  using trie_index_refines_map [of "trie_alloc :: nat trie" "[1, 2]"] by (auto simp: key_fits_def)

text \<open>
  C4: \<open>trie_lookup\<close> on a well-formed trie always succeeds with the data stored for the key,
  \<open>NULL\<close> for a key never indexed, and leaves the map alone although it reorders the nodes.
\<close>

theorem trie_lookup_refines_map:
  "trie_inv t \<Longrightarrow>
     \<exists>t'. trie_lookup t key = Inr (t', slot_value t key) \<and> trie_inv t' \<and> trie_map t' = trie_map t"
  by (rule trie_lookup_spec)

theorem trie_lookup_refines_map_witness:
  "\<exists>t'. trie_lookup (trie_alloc :: nat trie) [1] = Inr (t', None)"
  using trie_lookup_refines_map [of "trie_alloc :: nat trie" "[1]"] by (auto simp: slot_value_def)

text \<open>
  \<open>trie_walk\<close> calls the callback exactly once for every key ever indexed, with that
  key and its data, stops at the first failing call, and never writes past the key buffer it
  allocated from \<open>max_key_len\<close>.
\<close>

theorem trie_walk_visits_all:
  assumes "trie_inv t"
  shows "\<exists>es. trie_walk t cb s = fold_result (\<lambda>s e. cb s (fst e) (snd e)) s es \<and>
           distinct (map fst es) \<and> map_of es = trie_map t \<and> length es = trie_size t"
  using trie_walk_fold [OF assms, of cb s] twf_keys_distinct [of "troot t"] assms
  by (intro exI [of _ "entries (troot t)"]) (simp add: visit_def [abs_def] trie_map_def trie_inv_def trie_size_def)

theorem trie_walk_visits_all_witness:
  "trie_walk (trie_alloc :: nat trie) (\<lambda>s k d. Inr (k # s)) [] = Inr []"
proof -
  obtain es where "trie_walk (trie_alloc :: nat trie) (\<lambda>s k d. Inr (k # s)) [] =
      fold_result (\<lambda>s e. Inr (fst e # s)) [] es" and "length es = trie_size (trie_alloc :: nat trie)"
    using trie_walk_visits_all [of "trie_alloc :: nat trie" "\<lambda>s k d. Inr (k # s)" "[]"] by auto
  moreover have "trie_size (trie_alloc :: nat trie) = 0"
    by (simp add: trie_size_def trie_alloc_def)
  ultimately show ?thesis by simp
qed

text \<open>
  C6: Indexing a key that is a proper prefix of a present one (and no node's key) loses it:
  its data goes to a child with an empty key. Looking the key up then finds \<open>NULL\<close> although
  a value was stored, and indexing a third key with the same prefix fails the assertion that
  children have non-empty keys.
\<close>

theorem trie_prefix_key_lost:
  assumes "k \<noteq> []" and "z \<noteq> []" and "y \<noteq> hd z"
  shows "\<exists>t. rbind (trie_put trie_alloc (k @ z) (Some a)) (\<lambda>t. trie_put t k (Some b)) = Inr t \<and>
           (\<exists>t'. trie_lookup t k = Inr (t', None)) \<and> trie_index t (k @ [y]) = Inl Assertion"
  using assms
  by (simp add: trie_put_def trie_index_def trie_lookup_def trie_alloc_def trie_store_def trie_new_node_def
      trie_index_internal.simps Let_def)

theorem trie_prefix_key_lost_witness:
  "\<exists>t. rbind (trie_put trie_alloc [10, 0, 0, 1, 0, 80] (Some (1::nat))) (\<lambda>t. trie_put t [10, 0, 0, 1] (Some 2)) = Inr t \<and>
       trie_index t [10, 0, 0, 1, 9] = Inl Assertion"
  using trie_prefix_key_lost [of "[10, 0, 0, 1]" "[0, 80]" 9 "1::nat" 2] by auto

end
