(* ===== verification/DiffStore.thy ===== *)
theory DiffStore
  imports Trie
begin

text \<open>
  The differential address store of \<open>libs/diffstore/diff_store.c\<close>: a set of binary
  addresses kept in a trie and updated by versioned differences from the server. The data of
  the trie is the single mark. The user's hooks are foreign code called at set points; the
  model keeps which hooks are set and records the calls, in order, in \<open>hook_log\<close>. The
  counters are \<open>nat\<close>: \<open>ds_inv\<close> keeps \<open>deleted \<le> added\<close>, so their difference never wraps.
\<close>

datatype diff_store_action =
    DIFF_STORE_INCREMENTAL
  | DIFF_STORE_FULL
  | DIFF_STORE_CONFIG_RELOAD
  | DIFF_STORE_NO_ACTION
  | DIFF_STORE_UNKNOWN

datatype hook_call = AddHook bytes | RemoveHook bytes | ReplaceStart | ReplaceEnd

record diff_addr_store =
  ds_name :: bytes
  ds_trie :: "unit trie"
  epoch :: u32
  version :: u32
  added :: nat
  deleted :: nat
  add_hook :: bool
  remove_hook :: bool
  replace_start_hook :: bool
  replace_end_hook :: bool
  hook_log :: "hook_call list"

definition call_hook :: "bool \<Rightarrow> hook_call \<Rightarrow> diff_addr_store \<Rightarrow> diff_addr_store" where
  "call_hook present c s = (if present then s\<lparr>hook_log := hook_log s @ [c]\<rparr> else s)"

definition diff_addr_store_init :: "bytes \<Rightarrow> diff_addr_store" where
  "diff_addr_store_init name =
     \<lparr>ds_name = name, ds_trie = trie_alloc, epoch = 0, version = 0, added = 0, deleted = 0,
      add_hook = False, remove_hook = False, replace_start_hook = False, replace_end_hook = False,
      hook_log = []\<rparr>"

text \<open>The action, and what is written to \<open>*orig_version\<close>, if anything.\<close>

definition diff_addr_store_action ::
  "diff_addr_store \<Rightarrow> u32 \<Rightarrow> u32 \<Rightarrow> diff_store_action \<times> u32 option" where
  "diff_addr_store_action s ep ver =
     (if ep = epoch s \<and> ver = version s then (DIFF_STORE_NO_ACTION, None)
      else if (added s - deleted s) * 10 < deleted s \<and> deleted s > 100
        then (DIFF_STORE_CONFIG_RELOAD, None)
      else if ep \<noteq> epoch s then (DIFF_STORE_FULL, None)
      else (DIFF_STORE_INCREMENTAL, Some (version s)))"

definition size_mask :: byte where "size_mask = 16 + 8 + 4 + 2"
definition add_mask :: byte where "add_mask = 1"

text \<open>One address of the difference.\<close>

definition apply_addr :: "diff_addr_store \<Rightarrow> bool \<Rightarrow> bytes \<Rightarrow> diff_addr_store result" where
  "apply_addr s add addr =
     rbind (trie_index (ds_trie s) addr) (\<lambda>(t, sl).
       case sl of
         None \<Rightarrow> Inl BadAccess
       | Some p \<Rightarrow>
           (let s1 = s\<lparr>ds_trie := t\<rparr> in
            if add then
              (if trie_slot t p \<noteq> None then Inr s1
               else (let s2 = call_hook (add_hook s1) (AddHook addr) s1 in
                     Inr (s2\<lparr>ds_trie := trie_store t p (Some ()), added := added s2 + 1\<rparr>)))
            else
              (if trie_slot t p \<noteq> None
               then (let s2 = call_hook (remove_hook s1) (RemoveHook addr) s1 in
                     Inr (s2\<lparr>ds_trie := trie_store t p None, deleted := deleted s2 + 1\<rparr>))
               else Inr s1)))"

text \<open>The loop over the difference: a flag byte, then as many bytes as its size bits say.\<close>

function apply_loop :: "diff_addr_store \<Rightarrow> bytes \<Rightarrow> diff_addr_store result" where
  "apply_loop s [] = Inr s"
| "apply_loop s (flags # rest) =
     (let addr_len = unat (flags AND size_mask) in
      sanity (addr_len \<le> length rest)
        (rbind (apply_addr s (flags AND add_mask \<noteq> 0) (take addr_len rest))
           (\<lambda>s'. apply_loop s' (drop addr_len rest))))"
  by pat_completeness auto
termination
  by (relation "measure (\<lambda>(s, d). length d)") auto

definition diff_addr_store_apply ::
  "diff_addr_store \<Rightarrow> bool \<Rightarrow> u32 \<Rightarrow> u32 \<Rightarrow> u32 \<Rightarrow> bytes \<Rightarrow>
     (diff_addr_store \<times> diff_store_action \<times> u32 option) result" where
  "diff_addr_store_apply s full ep from to diff =
     (if ep \<noteq> epoch s \<and> \<not> full then Inr (s, DIFF_STORE_FULL, None)
      else if from \<noteq> version s \<and> \<not> full then Inr (s, DIFF_STORE_INCREMENTAL, Some (version s))
      else
        (let s1 = (if full then
                     (let s' = call_hook (replace_start_hook s) ReplaceStart s in
                      if added s' \<noteq> deleted s' then s'\<lparr>deleted := added s', ds_trie := trie_alloc\<rparr> else s')
                   else s)
         in rbind (apply_loop s1 diff) (\<lambda>s2.
              let s3 = call_hook (full \<and> replace_end_hook s2) ReplaceEnd s2 in
              Inr (s3\<lparr>epoch := ep, version := to\<rparr>, DIFF_STORE_NO_ACTION, None))))"

text \<open>Copying: the walk's callback and the copy itself.\<close>

definition das_cp :: "diff_addr_store \<Rightarrow> bytes \<Rightarrow> unit option \<Rightarrow> diff_addr_store result" where
  "das_cp target key data =
     (case data of
        None \<Rightarrow> Inr target
      | Some _ \<Rightarrow>
          rbind (trie_put (ds_trie target) key (Some ())) (\<lambda>t.
            Inr (target\<lparr>added := added target + 1, ds_trie := t\<rparr>)))"

definition diff_addr_store_cp :: "diff_addr_store \<Rightarrow> diff_addr_store \<Rightarrow> diff_addr_store result" where
  "diff_addr_store_cp target source =
     sanity (added target = 0)
       (trie_walk (ds_trie source) das_cp (target\<lparr>epoch := epoch source, version := version source\<rparr>))"

subsection \<open>The set a store stands for\<close>

definition members :: "diff_addr_store \<Rightarrow> bytes set" where
  "members s = {k. trie_map (ds_trie s) k = Some (Some ())}"

abbreviation known :: "diff_addr_store \<Rightarrow> bytes set" where
  "known s \<equiv> dom (trie_map (ds_trie s))"

definition ds_inv :: "diff_addr_store \<Rightarrow> bool" where
  "ds_inv s \<longleftrightarrow> trie_inv (ds_trie s) \<and> deleted s + card (members s) = added s"

text \<open>The difference as a list of additions (\<open>True\<close>) and removals, and its encoding.\<close>

function parse_diff :: "bytes \<Rightarrow> (bool \<times> bytes) list option" where
  "parse_diff [] = Some []"
| "parse_diff (flags # rest) =
     (let addr_len = unat (flags AND size_mask) in
      if addr_len \<le> length rest
      then map_option ((#) (flags AND add_mask \<noteq> 0, take addr_len rest)) (parse_diff (drop addr_len rest))
      else None)"
  by pat_completeness auto
termination
  by (relation "measure length") auto

definition set_op :: "bool \<times> bytes \<Rightarrow> bytes set \<Rightarrow> bytes set" where
  "set_op op A = (if fst op then insert (snd op) A else A - {snd op})"

lemma members_known: "members s \<subseteq> known s"
  by (auto simp: members_def)

lemma finite_members [simp]: "finite (members s)"
  by (rule finite_subset [OF members_known]) (simp add: trie_map_dom)

lemma call_hook_sel [simp]:
  "ds_trie (call_hook b c s) = ds_trie s" "added (call_hook b c s) = added s"
  "deleted (call_hook b c s) = deleted s" "epoch (call_hook b c s) = epoch s"
  "version (call_hook b c s) = version s" "ds_name (call_hook b c s) = ds_name s"
  by (simp_all add: call_hook_def)

lemma members_call_hook [simp]: "members (call_hook b c s) = members s"
  by (simp add: members_def)

lemma init_inv: "ds_inv (diff_addr_store_init name)"
  by (simp add: ds_inv_def diff_addr_store_init_def members_def)

lemma init_members [simp]: "members (diff_addr_store_init name) = {}"
  by (simp add: diff_addr_store_init_def members_def)

lemma unit_option_cases: "(x :: unit option) \<noteq> None \<longleftrightarrow> x = Some ()"
  by (cases x) auto

text \<open>The hooks an operation calls on a set with the given hooks installed.\<close>

definition op_hooks :: "bool \<Rightarrow> bool \<Rightarrow> bytes set \<Rightarrow> bool \<times> bytes \<Rightarrow> hook_call list" where
  "op_hooks ah rh A op =
     (if fst op then (if ah \<and> snd op \<notin> A then [AddHook (snd op)] else [])
      else (if rh \<and> snd op \<in> A then [RemoveHook (snd op)] else []))"

fun diff_hooks :: "bool \<Rightarrow> bool \<Rightarrow> bytes set \<Rightarrow> (bool \<times> bytes) list \<Rightarrow> hook_call list" where
  "diff_hooks ah rh A [] = []"
| "diff_hooks ah rh A (op # ops) = op_hooks ah rh A op @ diff_hooks ah rh (set_op op A) ops"

text \<open>What a processed difference leaves alone.\<close>

definition same_config :: "diff_addr_store \<Rightarrow> diff_addr_store \<Rightarrow> bool" where
  "same_config s s' \<longleftrightarrow> ds_name s' = ds_name s \<and> epoch s' = epoch s \<and> version s' = version s \<and>
     add_hook s' = add_hook s \<and> remove_hook s' = remove_hook s \<and>
     replace_start_hook s' = replace_start_hook s \<and> replace_end_hook s' = replace_end_hook s"

definition applied :: "diff_addr_store \<Rightarrow> (bool \<times> bytes) list \<Rightarrow> diff_addr_store \<Rightarrow> bool" where
  "applied s ops s' \<longleftrightarrow> ds_inv s' \<and> members s' = fold set_op ops (members s) \<and>
     known s' = known s \<union> snd ` set ops \<and> same_config s s' \<and>
     hook_log s' = hook_log s @ diff_hooks (add_hook s) (remove_hook s) (members s) ops"

text \<open>One address: the set changes as asked, and the counters and the hooks follow it.\<close>

lemma members_trie: "ds_trie s' = t \<Longrightarrow> members s' = {k. trie_map t k = Some (Some ())}"
  by (simp add: members_def)

lemma apply_addr_applied:
  assumes inv: "ds_inv s" and fits: "key_fits (known s) addr"
  shows "\<exists>s'. apply_addr s add addr = Inr s' \<and> applied s [(add, addr)] s'"
proof -
  obtain t p where t: "trie_index (ds_trie s) addr = Inr (t, Some p)" "trie_inv t"
      "at_slot (troot t) p addr" "trie_map t = (trie_map (ds_trie s))(addr \<mapsto> slot_value (ds_trie s) addr)"
      "trie_slot t p = slot_value (ds_trie s) addr"
    using trie_index_spec [of "ds_trie s" addr] inv fits by (auto simp: ds_inv_def trie_admits_fits)
  have counts: "deleted s + card (members s) = added s"
    using inv by (simp add: ds_inv_def)
  have st: "trie_inv (trie_store t p v)" "trie_map (trie_store t p v) = (trie_map (ds_trie s))(addr \<mapsto> v)" for v
    using trie_store_spec [OF t(2,3), of v] t(4) by simp_all
  have mem: "slot_value (ds_trie s) addr = Some () \<longleftrightarrow> addr \<in> members s"
    by (auto simp: slot_value_def members_def split: option.splits)
  have same: "{k. trie_map t k = Some (Some ())} = members s"
    using t(4) by (auto simp: members_def slot_value_def split: if_splits option.splits)
  have upd: "{k. ((trie_map (ds_trie s))(addr \<mapsto> v)) k = Some (Some ())} =
      (if v = Some () then insert addr (members s) else members s - {addr})" for v
    by (auto simp: members_def)
  have dom: "dom (trie_map t) = insert addr (known s)"
    using t(4) by simp
  note defs = applied_def ds_inv_def same_config_def op_hooks_def set_op_def call_hook_def
  show ?thesis
  proof (cases "addr \<in> members s")
    case False
    then have none: "slot_value (ds_trie s) addr = None"
      using mem by (cases "slot_value (ds_trie s) addr") auto
    have card: "card (insert addr (members s)) = Suc (card (members s))"
      using False by simp
    let ?s = "if add then (call_hook (add_hook s) (AddHook addr) s)
                \<lparr>ds_trie := trie_store t p (Some ()), added := added s + 1\<rparr> else s\<lparr>ds_trie := t\<rparr>"
    have "apply_addr s add addr = Inr ?s"
      using t(1,5) none by (simp add: apply_addr_def Let_def call_hook_def)
    moreover have "members ?s = (if add then insert addr (members s) else members s)"
      using same upd [of "Some ()"] by (simp add: members_def st(2))
    ultimately show ?thesis
      using False t(2) st counts card dom by (auto simp: defs insert_absorb)
  next
    case True
    then have some: "slot_value (ds_trie s) addr = Some ()"
      using mem by simp
    have card: "Suc (card (members s - {addr})) = card (members s)"
      by (rule card_Suc_Diff1 [OF finite_members True])
    let ?s = "if add then s\<lparr>ds_trie := t\<rparr> else (call_hook (remove_hook s) (RemoveHook addr) s)
                \<lparr>ds_trie := trie_store t p None, deleted := deleted s + 1\<rparr>"
    have "apply_addr s add addr = Inr ?s"
      using t(1,5) some by (simp add: apply_addr_def Let_def call_hook_def)
    moreover have "members ?s = (if add then members s else members s - {addr})"
      using same upd [of None] by (simp add: members_def st(2))
    ultimately show ?thesis
      using True t(2) st counts card dom by (auto simp: defs insert_absorb)
  qed
qed

text \<open>The loop over a well-formed difference.\<close>

lemma addable_Cons: "addable K (k # ks) \<Longrightarrow> key_fits K k \<and> addable (insert k K) ks"
  by (auto simp: addable_def key_fits_def)

lemma applied_trans:
  "applied s xs s1 \<Longrightarrow> applied s1 ys s2 \<Longrightarrow>
     diff_hooks (add_hook s) (remove_hook s) (members s) (xs @ ys) =
       diff_hooks (add_hook s) (remove_hook s) (members s) xs @
       diff_hooks (add_hook s) (remove_hook s) (fold set_op xs (members s)) ys \<Longrightarrow>
     applied s (xs @ ys) s2"
  by (auto simp: applied_def same_config_def)

lemma applied_Cons:
  assumes "applied s [op] s1" and "applied s1 ops s2"
  shows "applied s (op # ops) s2"
  using applied_trans [OF assms] by simp

lemma apply_loop_refines:
  "ds_inv s \<Longrightarrow> parse_diff d = Some ops \<Longrightarrow> addable (known s) (map snd ops) \<Longrightarrow>
     \<exists>s'. apply_loop s d = Inr s' \<and> applied s ops s'"
proof (induction d arbitrary: s ops rule: parse_diff.induct)
  case 1
  then show ?case
    by (auto simp: applied_def same_config_def)
next
  case (2 flags rest)
  let ?n = "unat (flags AND size_mask)" and ?add = "flags AND add_mask \<noteq> 0"
  have n: "?n \<le> length rest"
    using 2(3) by (auto simp: Let_def split: if_splits)
  then obtain ops' where ops: "ops = (?add, take ?n rest) # ops'" "parse_diff (drop ?n rest) = Some ops'"
    using 2(3) by (auto simp: Let_def)
  obtain s1 where s1: "apply_addr s ?add (take ?n rest) = Inr s1" "applied s [(?add, take ?n rest)] s1"
    using apply_addr_applied [OF 2(2), of "take ?n rest" ?add] addable_Cons [of "known s"] 2(4) ops(1)
    by auto
  have "ds_inv s1" "known s1 = insert (take ?n rest) (known s)"
    using s1(2) by (auto simp: applied_def)
  moreover have "addable (insert (take ?n rest) (known s)) (map snd ops')"
    using addable_Cons [of "known s" "take ?n rest"] 2(4) ops(1) by simp
  ultimately obtain s2 where "apply_loop s1 (drop ?n rest) = Inr s2" "applied s1 ops' s2"
    using 2(1) [OF refl n _ ops(2)] by metis
  with s1 n show ?case
    by (auto simp: ops(1) intro: applied_Cons)
qed

lemma apply_loop_parses: "apply_loop s d = Inr s' \<Longrightarrow> \<exists>ops. parse_diff d = Some ops"
proof (induction d arbitrary: s rule: parse_diff.induct)
  case (2 flags rest)
  then show ?case
    by (auto simp: Let_def result_simps)
qed simp

subsection \<open>Full and incremental updates, copying\<close>

definition full_start :: "diff_addr_store \<Rightarrow> diff_addr_store" where
  "full_start s =
     (let s' = call_hook (replace_start_hook s) ReplaceStart s in
      if added s' \<noteq> deleted s' then s'\<lparr>deleted := added s', ds_trie := trie_alloc\<rparr> else s')"

lemma full_start_inv: "ds_inv s \<Longrightarrow> ds_inv (full_start s) \<and> members (full_start s) = {}"
proof (cases "added s = deleted s")
  case True
  assume "ds_inv s"
  with True have "members s = {}"
    by (simp add: ds_inv_def)
  with True \<open>ds_inv s\<close> show ?thesis
    by (simp add: full_start_def Let_def ds_inv_def)
next
  case False
  have "members (s\<lparr>hook_log := l, deleted := n, ds_trie := trie_alloc\<rparr>) = {}" for l n
    by (simp add: members_def)
  with False show ?thesis
    by (simp add: full_start_def Let_def ds_inv_def members_def)
qed

lemma full_start_sel [simp]:
  "same_config s (full_start s)" "known (full_start s) \<subseteq> known s"
  "hook_log (full_start s) = hook_log s @ (if replace_start_hook s then [ReplaceStart] else [])"
  by (auto simp: full_start_def Let_def call_hook_def same_config_def)

lemma diff_addr_store_apply_full:
  "diff_addr_store_apply s True ep from to d =
     rbind (apply_loop (full_start s) d) (\<lambda>s2.
       Inr ((call_hook (replace_end_hook s2) ReplaceEnd s2)\<lparr>epoch := ep, version := to\<rparr>,
            DIFF_STORE_NO_ACTION, None))"
  by (simp add: diff_addr_store_apply_def full_start_def Let_def)

lemma addable_mono: "addable K ks \<Longrightarrow> K' \<subseteq> K \<Longrightarrow> addable K' ks"
  by (auto simp: addable_def)

lemma ds_inv_meta [simp]:
  "ds_inv (s\<lparr>epoch := e, version := v\<rparr>) = ds_inv s"
  "members (s\<lparr>epoch := e, version := v\<rparr>) = members s"
  "ds_inv (call_hook b c s) = ds_inv s"
  "ds_inv (s\<lparr>hook_log := l\<rparr>) = ds_inv s"
  "members (s\<lparr>hook_log := l\<rparr>) = members s"
  by (simp_all add: ds_inv_def members_def)

lemma das_cp_None: "das_cp t k None = Inr t"
  by (simp add: das_cp_def)

lemma das_cp_Some:
  "trie_put (ds_trie t) k (Some ()) = Inr tr' \<Longrightarrow>
     das_cp t k (Some u) = Inr (t\<lparr>added := added t + 1, ds_trie := tr'\<rparr>)"
  by (simp add: das_cp_def)

lemma das_cp_fold:
  assumes "trie_inv (ds_trie t)" and "addable (known t) (map fst es)"
  shows "\<exists>t'. fold_result (visit das_cp) t es = Inr t' \<and> trie_inv (ds_trie t') \<and>
           members t' = members t \<union> {k. (k, Some ()) \<in> set es} \<and>
           added t' = added t + length (filter (\<lambda>e. snd e \<noteq> None) es) \<and>
           deleted t' = deleted t \<and> same_config t t' \<and> hook_log t' = hook_log t"
  using assms
proof (induction es arbitrary: t)
  case Nil
  then show ?case by (simp add: same_config_def)
next
  case (Cons e es)
  obtain k d where e: "e = (k, d)" by (cases e)
  have fits: "key_fits (known t) k" and add: "addable (insert k (known t)) (map fst es)"
    using addable_Cons [of "known t" k "map fst es"] Cons.prems(2) e by auto
  show ?case
  proof (cases d)
    case None
    have "addable (known t) (map fst es)"
      using addable_mono [OF add] by blast
    with None Cons.IH [OF Cons.prems(1)] show ?thesis
      by (simp add: e das_cp_None)
  next
    case (Some u)
    obtain tr' where tr': "trie_put (ds_trie t) k (Some ()) = Inr tr'" "trie_inv tr'"
        "trie_map tr' = (trie_map (ds_trie t))(k \<mapsto> Some ())"
      using tr.put_ok [OF Cons.prems(1) fits] by blast
    let ?t = "t\<lparr>added := added t + 1, ds_trie := tr'\<rparr>"
    have "addable (known ?t) (map fst es)"
      using add tr'(3) by simp
    then obtain t' where "fold_result (visit das_cp) ?t es = Inr t'" "trie_inv (ds_trie t')"
        "members t' = members ?t \<union> {k. (k, Some ()) \<in> set es}"
        "added t' = added ?t + length (filter (\<lambda>e. snd e \<noteq> None) es)"
        "deleted t' = deleted ?t" "same_config ?t t'" "hook_log t' = hook_log ?t"
      using Cons.IH [of ?t] tr'(2) by auto
    moreover have "members ?t = insert k (members t)"
      using tr'(3) by (auto simp: members_def)
    ultimately show ?thesis
      using Some tr'(1) by (auto simp: e das_cp_Some same_config_def)
  qed
qed

lemma source_marks:
  assumes "trie_inv (ds_trie s)"
  shows "{k. (k, Some ()) \<in> set (entries (troot (ds_trie s)))} = members s"
    and "length (filter (\<lambda>e. snd e \<noteq> None) (entries (troot (ds_trie s)))) = card (members s)"
proof -
  let ?es = "entries (troot (ds_trie s))"
  have d: "distinct (map fst ?es)"
    using assms twf_keys_distinct by (auto simp: trie_inv_def)
  show m: "{k. (k, Some ()) \<in> set ?es} = members s"
    using d by (auto simp: members_def trie_map_def)
  have "fst ` set (filter (\<lambda>e. snd e \<noteq> None) ?es) = members s"
    unfolding m [symmetric] by (force simp: unit_option_cases)
  moreover have "distinct (map fst (filter (\<lambda>e. snd e \<noteq> None) ?es))"
    using d by (rule distinct_map_filter)
  ultimately show "length (filter (\<lambda>e. snd e \<noteq> None) ?es) = card (members s)"
    by (metis (no_types, lifting) distinct_card length_map set_map)
qed

lemma entries_addable: "trie_inv t \<Longrightarrow> addable {} (map fst (entries (troot t)))"
  using entries_order [of "troot t"] by (simp add: addable_def trie_inv_def sorted_wrt_map)

text \<open>An update that is in sync or full.\<close>

lemma diff_apply_spec:
  assumes inv: "ds_inv s" and parse: "parse_diff d = Some ops"
    and add: "addable (known s) (map snd ops)"
    and sync: "full \<or> (ep = epoch s \<and> from = version s)"
  shows "\<exists>s'. diff_addr_store_apply s full ep from to d = Inr (s', DIFF_STORE_NO_ACTION, None) \<and>
           ds_inv s' \<and> members s' = fold set_op ops (if full then {} else members s) \<and>
           diff_addr_store_action s' ep to = (DIFF_STORE_NO_ACTION, None) \<and>
           hook_log s' = hook_log s @
             (if full \<and> replace_start_hook s then [ReplaceStart] else []) @
             diff_hooks (add_hook s) (remove_hook s) (if full then {} else members s) ops @
             (if full \<and> replace_end_hook s then [ReplaceEnd] else [])"
proof (cases full)
  case True
  have fs: "ds_inv (full_start s)" "members (full_start s) = {}"
    using full_start_inv [OF inv] by auto
  have "addable (known (full_start s)) (map snd ops)"
    by (rule addable_mono [OF add]) simp
  then obtain s2 where s2: "apply_loop (full_start s) d = Inr s2" "applied (full_start s) ops s2"
    using apply_loop_refines [OF fs(1) parse] by blast
  have cfg: "same_config s (full_start s)" by simp
  show ?thesis
    using s2(2) fs(2) cfg True
    by (simp add: diff_addr_store_apply_full s2(1) applied_def diff_addr_store_action_def
        same_config_def call_hook_def)
next
  case False
  obtain s2 where "apply_loop s d = Inr s2" "applied s ops s2"
    using apply_loop_refines [OF inv parse add] by blast
  with False sync show ?thesis
    by (simp add: diff_addr_store_apply_def applied_def diff_addr_store_action_def same_config_def
        call_hook_def)
qed

subsection \<open>Properties\<close>

text \<open>
  C2: an update that is full, or whose epoch and starting version are those of the store,
  applies its difference: on a well-formed store and a well-formed difference in which no
  address comes after a longer one that starts with it, \<open>diff_addr_store_apply\<close> succeeds,
  the set becomes the old set (the empty set for a full update) with the additions and
  removals done in order, the counters stay consistent, the hooks are called once for each
  change that took place and bracketed by the replace hooks, and the store reports itself up
  to date with the new epoch and version.
\<close>

theorem diff_store_apply_refines:
  assumes inv: "ds_inv s" and parse: "parse_diff d = Some ops"
    and add: "addable (known s) (map snd ops)"
    and sync: "full \<or> (ep = epoch s \<and> from = version s)"
  shows "\<exists>s'. diff_addr_store_apply s full ep from to d = Inr (s', DIFF_STORE_NO_ACTION, None) \<and>
           ds_inv s' \<and> members s' = fold set_op ops (if full then {} else members s) \<and>
           diff_addr_store_action s' ep to = (DIFF_STORE_NO_ACTION, None) \<and>
           hook_log s' = hook_log s @
             (if full \<and> replace_start_hook s then [ReplaceStart] else []) @
             diff_hooks (add_hook s) (remove_hook s) (if full then {} else members s) ops @
             (if full \<and> replace_end_hook s then [ReplaceEnd] else [])"
  by (rule diff_apply_spec [OF assms])

theorem diff_store_apply_refines_witness:
  "\<exists>s'. diff_addr_store_apply (diff_addr_store_init []) True 7 0 3 [5, 192, 0, 2, 1, 5, 192, 0, 2, 2, 4, 192, 0, 2, 1] =
     Inr (s', DIFF_STORE_NO_ACTION, None) \<and> members s' = {[192, 0, 2, 2]}"
proof -
  let ?ops = "[(True, [192, 0, 2, 1]), (True, [192, 0, 2, 2]), (False, [192, 0, 2, 1])] :: (bool \<times> bytes) list"
  have p: "parse_diff [5, 192, 0, 2, 1, 5, 192, 0, 2, 2, 4, 192, 0, 2, 1] = Some ?ops"
    by (simp add: size_mask_def add_mask_def)
  have a: "addable (known (diff_addr_store_init [])) (map snd ?ops)"
    by (simp add: diff_addr_store_init_def addable_def)
  show ?thesis
    using diff_store_apply_refines [OF init_inv p a, of True 7 0 3] by (auto simp: set_op_def)
qed



text \<open>
  Copying into an empty store never fails, whatever prefix relations hold between the
  addresses of the source: the walk meets a shorter address first. The copy has the members,
  the epoch and the version of the source, and its counters start afresh.
\<close>

theorem diff_store_cp_copies:
  assumes "ds_inv src" and "ds_trie target = trie_alloc" and "added target = 0" and "deleted target = 0"
  shows "\<exists>t. diff_addr_store_cp target src = Inr t \<and> ds_inv t \<and> members t = members src \<and>
           added t = card (members src) \<and> epoch t = epoch src \<and> version t = version src"
proof -
  let ?t = "target\<lparr>epoch := epoch src, version := version src\<rparr>"
  have inv: "trie_inv (ds_trie src)"
    using assms(1) by (simp add: ds_inv_def)
  have m: "members ?t = {}"
    using assms(2) by (simp add: members_def)
  obtain t where t: "fold_result (visit das_cp) ?t (entries (troot (ds_trie src))) = Inr t"
      "trie_inv (ds_trie t)" "members t = members src" "added t = card (members src)"
      "deleted t = 0" "same_config ?t t"
    using das_cp_fold [of ?t "entries (troot (ds_trie src))"] assms(2,3,4) m
      entries_addable [OF inv] source_marks [OF inv] by auto
  then show ?thesis
    using assms(3) inv by (auto simp: diff_addr_store_cp_def trie_walk_fold ds_inv_def same_config_def)
qed

theorem diff_store_cp_copies_witness:
  "\<exists>t. diff_addr_store_cp (diff_addr_store_init [1]) (diff_addr_store_init []) = Inr t \<and> members t = {}"
proof -
  have "ds_trie (diff_addr_store_init [1]) = trie_alloc" "added (diff_addr_store_init [1]) = 0"
    "deleted (diff_addr_store_init [1]) = 0"
    by (simp_all add: diff_addr_store_init_def)
  from diff_store_cp_copies [OF init_inv [of "[]"] this] show ?thesis
    by auto
qed

end
