(* ===== verification/MemPool.thy ===== *)
theory MemPool
  imports Prelude
begin

text \<open>
  The memory pools of \<open>core/mem_pool.c\<close> (the branch without \<open>MEM_POOL_DEBUG\<close>). Memory is
  a range of addresses; a page is its address and its total size. \<open>page_size_unit\<close> is the
  build's \<open>PAGE_SIZE\<close>. The kernel's \<open>mmap\<close> is a parameter, a function of the pages mapped so
  far and the size; what the code relies on is the predicate \<open>mmap_fresh\<close>. The control
  structure of a pool lies in its first page; \<open>mp\<close> gives its contents by its address. The
  fields \<open>mapped\<close> (what the kernel has handed out) is there to state the properties.
\<close>

record pool_page =
  paddr :: nat
  psize :: nat

record mem_pool =
  ppages :: "pool_page list"    \<comment> \<open>the chain from \<open>first\<close> along \<open>next\<close>\<close>
  pos :: nat
  available :: nat
  pool_index :: nat
  used :: nat
  allocated :: nat
  requests :: nat
  pname :: string

record memsys =
  page_cache :: "pool_page list"   \<comment> \<open>the array up to \<open>page_cache_size\<close>\<close>
  pools :: "nat list"
  mp :: "nat \<Rightarrow> mem_pool"
  mapped :: "pool_page list"

type_synonym mmap_fun = "pool_page list \<Rightarrow> nat \<Rightarrow> nat option"

definition PAGE_CACHE_SIZE :: nat where "PAGE_CACHE_SIZE = 20"
definition page_header :: nat where "page_header = 16"
definition pool_header :: nat where "pool_header = 56"
definition align_for :: nat where "align_for = 8"
definition size_wrap :: nat where "size_wrap = 2 ^ 64"

definition page_get :: "nat \<Rightarrow> mmap_fun \<Rightarrow> memsys \<Rightarrow> nat \<Rightarrow> (pool_page \<times> memsys) result" where
  "page_get P mmap sys sz =
     (if sz = P \<and> page_cache sys \<noteq> []
      then Inr ((last (page_cache sys))\<lparr>psize := sz\<rparr>, sys\<lparr>page_cache := butlast (page_cache sys)\<rparr>)
      else (case (if sz = 0 then None else mmap (mapped sys) sz) of
              None \<Rightarrow> Inl Died
            | Some a \<Rightarrow>
                (let page = \<lparr>paddr = a, psize = sz\<rparr>
                 in Inr (page, sys\<lparr>mapped := page # mapped sys\<rparr>))))"

definition page_return :: "nat \<Rightarrow> memsys \<Rightarrow> pool_page \<Rightarrow> memsys" where
  "page_return P sys page =
     (if psize page = P \<and> length (page_cache sys) < PAGE_CACHE_SIZE
      then sys\<lparr>page_cache := page_cache sys @ [page]\<rparr>
      else sys\<lparr>mapped := remove1 page (mapped sys)\<rparr>)"

text \<open>The result is the block, the new \<open>pos\<close> and the new \<open>available\<close>; \<open>None\<close> is \<open>NULL\<close>.\<close>

definition page_alloc :: "nat \<Rightarrow> nat \<Rightarrow> nat \<Rightarrow> (nat \<times> nat \<times> nat) option result" where
  "page_alloc p avail sz =
     (if avail < sz then Inr None
      else assert_then (p mod align_for = 0)
        (let rounded = (sz + align_for - 1) mod size_wrap div align_for * align_for;
             taken = (if rounded > avail then avail else rounded)
         in Inr (Some (p, p + taken, avail - taken))))"

text \<open>Recursion to the end of the chain first.\<close>

fun page_walk_and_delete :: "nat \<Rightarrow> memsys \<Rightarrow> pool_page list \<Rightarrow> memsys" where
  "page_walk_and_delete P sys [] = sys"
| "page_walk_and_delete P sys (page # next) = page_return P (page_walk_and_delete P sys next) page"

definition store :: "memsys \<Rightarrow> nat \<Rightarrow> memsys" where
  "store sys pool =
     (let ps = pools sys @ [pool]
      in sys\<lparr>pools := ps, mp := (mp sys)(pool := (mp sys pool)\<lparr>pool_index := length ps - 1\<rparr>)\<rparr>)"

definition drop_pool :: "memsys \<Rightarrow> nat \<Rightarrow> memsys result" where
  "drop_pool sys pool =
     (let i = pool_index (mp sys pool); ps = pools sys in
      assert_then (length ps > i)
        (assert_then (pool = ps ! i)
           (let moved = ps ! (length ps - 1)
            in Inr (sys\<lparr>pools := butlast (ps[i := moved]),
                         mp := (mp sys)(moved := (mp sys moved)\<lparr>pool_index := i\<rparr>)\<rparr>))))"

definition mem_pool_create :: "nat \<Rightarrow> mmap_fun \<Rightarrow> memsys \<Rightarrow> string \<Rightarrow> (nat \<times> memsys) result" where
  "mem_pool_create P mmap sys name =
     (let name_len = 1 + length name in
      assert_then (P > page_header + pool_header + name_len)
        (rbind (page_get P mmap sys P) (\<lambda>(page, sys1).
           rbind (page_alloc (paddr page + page_header) (psize page - page_header) (pool_header + name_len)) (\<lambda>r.
             case r of
               None \<Rightarrow> Inl Assertion
             | Some (pool, p, avail) \<Rightarrow>
                 Inr (pool, store (sys1\<lparr>mp := (mp sys1)(pool :=
                   \<lparr>ppages = [page], pos = p, available = avail, pool_index = 0, used = 0,
                    allocated = P, requests = 0, pname = name\<rparr>)\<rparr>) pool)))))"

definition mem_pool_destroy :: "nat \<Rightarrow> memsys \<Rightarrow> nat \<Rightarrow> memsys result" where
  "mem_pool_destroy P sys pool =
     rbind (drop_pool sys pool) (\<lambda>sys1. Inr (page_walk_and_delete P sys1 (ppages (mp sys1 pool))))"

text \<open>The rounding up to whole pages is done modulo the width of \<open>size_t\<close>.\<close>

definition page_round :: "nat \<Rightarrow> nat \<Rightarrow> nat" where
  "page_round P sz = (sz + page_header + P - 1) mod size_wrap div P * P"

definition mem_pool_alloc :: "nat \<Rightarrow> mmap_fun \<Rightarrow> memsys \<Rightarrow> nat \<Rightarrow> nat \<Rightarrow> (nat \<times> memsys) result" where
  "mem_pool_alloc P mmap sys pool sz =
     (let m = mp sys pool;
          count = (\<lambda>m. m\<lparr>used := used m + sz, requests := requests m + 1\<rparr>) in
      rbind (page_alloc (pos m) (available m) sz) (\<lambda>r.
        case r of
          Some (a, p, avail) \<Rightarrow>
            Inr (a, sys\<lparr>mp := (mp sys)(pool := count (m\<lparr>pos := p, available := avail\<rparr>))\<rparr>)
        | None \<Rightarrow>
            (let page_size = page_round P sz in
             rbind (page_get P mmap sys page_size) (\<lambda>(page, sys1).
               let m1 = m\<lparr>ppages := hd (ppages m) # page # tl (ppages m)\<rparr> in
               rbind (page_alloc (paddr page + page_header) (psize page - page_header) sz) (\<lambda>r.
                 case r of
                   None \<Rightarrow> Inl Assertion
                 | Some (a, p, avail) \<Rightarrow>
                     (let m2 = (if avail > available m1 then m1\<lparr>available := avail, pos := p\<rparr> else m1)
                      in Inr (a, sys1\<lparr>mp := (mp sys1)(pool := count (m2\<lparr>allocated := allocated m2 + page_size\<rparr>))\<rparr>)))))))"

definition mem_pool_reset :: "nat \<Rightarrow> memsys \<Rightarrow> nat \<Rightarrow> memsys result" where
  "mem_pool_reset P sys pool =
     (let m = mp sys pool;
          first = hd (ppages m);
          sys1 = page_walk_and_delete P sys (tl (ppages m))
      in rbind (page_alloc (paddr first + page_header) (psize first - page_header)
                  (pool_header + 1 + length (pname m))) (\<lambda>r.
           case r of
             None \<Rightarrow> Inl Assertion
           | Some (the_pool, p, avail) \<Rightarrow>
               assert_then (pool = the_pool)
                 (Inr (sys1\<lparr>mp := (mp sys1)(pool := m\<lparr>ppages := [first], pos := p, available := avail,
                    allocated := P, used := 0, requests := 0\<rparr>)\<rparr>))))"

subsection \<open>The invariant\<close>

text \<open>How many of the blocks (address and size) contain a byte; blocks are apart when no byte
  is in two of them.\<close>

definition covers :: "nat \<times> nat \<Rightarrow> nat \<Rightarrow> bool" where
  "covers b x \<longleftrightarrow> fst b \<le> x \<and> x < fst b + snd b"

definition cover :: "(nat \<times> nat) list \<Rightarrow> nat \<Rightarrow> nat" where
  "cover bs x = length (filter (\<lambda>b. covers b x) bs)"

definition apart :: "(nat \<times> nat) list \<Rightarrow> bool" where
  "apart bs \<longleftrightarrow> (\<forall>x. cover bs x \<le> 1)"

definition pblock :: "pool_page \<Rightarrow> nat \<times> nat" where
  "pblock p = (paddr p, psize p)"

definition within :: "nat \<times> nat \<Rightarrow> pool_page \<Rightarrow> bool" where
  "within b p \<longleftrightarrow> paddr p + page_header \<le> fst b \<and> fst b + snd b \<le> paddr p + psize p"

definition page_ok :: "nat \<Rightarrow> pool_page \<Rightarrow> bool" where
  "page_ok P p \<longleftrightarrow> P dvd psize p \<and> P \<le> psize p \<and> P dvd paddr p"

definition unit_ok :: "nat \<Rightarrow> bool" where
  "unit_ok P \<longleftrightarrow> 8 dvd P \<and> page_header + pool_header < P \<and> P < 2 ^ 32"

definition mmap_fresh :: "nat \<Rightarrow> mmap_fun \<Rightarrow> bool" where
  "mmap_fresh P mmap \<longleftrightarrow> (\<forall>ps n a. mmap ps n = Some a \<longrightarrow>
     P dvd a \<and> a + n < size_wrap \<and> (apart (map pblock ps) \<longrightarrow> apart ((a, n) # map pblock ps)))"

text \<open>A pool with its live blocks \<open>bs\<close>.\<close>

definition pool_inv :: "nat \<Rightarrow> nat \<Rightarrow> mem_pool \<Rightarrow> (nat \<times> nat) list \<Rightarrow> bool" where
  "pool_inv P pool m bs \<longleftrightarrow>
     ppages m \<noteq> [] \<and> pool = paddr (hd (ppages m)) + page_header \<and>
     psize (hd (ppages m)) = P \<and> page_header + pool_header + 1 + length (pname m) < P \<and>
     (\<forall>b \<in> set ((pool, pool_header + 1 + length (pname m)) # (pos m, available m) # bs).
        8 dvd fst b \<and> (\<exists>p \<in> set (ppages m). within b p)) \<and>
     apart ((pool, pool_header + 1 + length (pname m)) # (pos m, available m) # bs) \<and>
     8 dvd available m \<and>
     allocated m = sum_list (map psize (ppages m)) \<and>
     used m = sum_list (map snd bs) \<and> requests m = length bs"

text \<open>The pages of the system: every mapped page is in the cache or owned, exactly once.\<close>

definition sys_pages :: "nat \<Rightarrow> memsys \<Rightarrow> pool_page list \<Rightarrow> bool" where
  "sys_pages P sys owned \<longleftrightarrow>
     length (page_cache sys) \<le> PAGE_CACHE_SIZE \<and> (\<forall>p \<in> set (page_cache sys). psize p = P) \<and>
     (\<forall>p \<in> set (mapped sys). page_ok P p \<and> paddr p + psize p < size_wrap) \<and> apart (map pblock (mapped sys)) \<and>
     mset (mapped sys) = mset (page_cache sys @ owned)"

definition owned :: "memsys \<Rightarrow> pool_page list" where
  "owned sys = concat (map (\<lambda>q. ppages (mp sys q)) (pools sys))"

definition mem_inv :: "nat \<Rightarrow> memsys \<Rightarrow> (nat \<Rightarrow> (nat \<times> nat) list) \<Rightarrow> bool" where
  "mem_inv P sys live \<longleftrightarrow>
     sys_pages P sys (owned sys) \<and>
     distinct (pools sys) \<and> (\<forall>i < length (pools sys). pool_index (mp sys (pools sys ! i)) = i) \<and>
     (\<forall>q \<in> set (pools sys). pool_inv P q (mp sys q) (live q))"

lemma cover_simps [simp]:
  "cover [] x = 0" "cover (b # bs) x = (if covers b x then 1 else 0) + cover bs x"
  "cover (as @ bs) x = cover as x + cover bs x"
  by (simp_all add: cover_def)

lemma cover_mset: "mset as = mset bs \<Longrightarrow> cover as x = cover bs x"
  unfolding cover_def by (metis mset_filter size_mset)

lemma apart_mono: "apart bs \<Longrightarrow> (\<And>x. cover as x \<le> cover bs x) \<Longrightarrow> apart as"
  unfolding apart_def by (meson order_trans)

lemma apart_mset:
  assumes "mset as = mset bs"
  shows "apart as = apart bs"
  unfolding apart_def cover_mset [OF assms] ..

text \<open>Two blocks that are apart share no byte, wherever they stand in the list.\<close>

lemma cover_pos: "b \<in> set bs \<Longrightarrow> covers b x \<Longrightarrow> 0 < cover bs x"
  unfolding cover_def by (auto simp: filter_empty_conv)

lemma apart_disjoint:
  assumes "apart bs" and "i < length bs" and "j < length bs" and "i \<noteq> j" and "covers (bs ! i) x"
  shows "\<not> covers (bs ! j) x"
proof
  assume j: "covers (bs ! j) x"
  have "{i, j} \<subseteq> {k. k < length bs \<and> covers (bs ! k) x}"
    using assms j by auto
  moreover have "card {i, j} = 2"
    using assms(4) by simp
  ultimately have "2 \<le> card {k. k < length bs \<and> covers (bs ! k) x}"
    by (metis (no_types, lifting) card_mono finite_nat_set_iff_bounded mem_Collect_eq)
  also have "\<dots> = cover bs x"
    by (simp add: cover_def length_filter_conv_card)
  finally show False
    using assms(1) by (auto simp: apart_def dest: spec [of _ x])
qed

subsection \<open>Pages\<close>

lemma page_alloc_spec:
  assumes "8 dvd p" and "8 dvd avail" and "avail < size_wrap"
  obtains (full) "avail < sz" "page_alloc p avail sz = Inr None"
  | (fits) r where "sz \<le> r" "r \<le> avail" "8 dvd r" "page_alloc p avail sz = Inr (Some (p, p + r, avail - r))"
proof (cases "avail < sz")
  case True
  then show thesis
    using full by (simp add: page_alloc_def)
next
  case False
  let ?r = "(sz + 7) div 8 * 8"
  obtain k where k: "avail = 8 * k"
    using assms(2) by (elim dvdE)
  have "k < 2 ^ 61"
    using assms(3) k by (simp add: size_wrap_def)
  then have "sz + 7 < size_wrap" "?r \<le> avail" "sz \<le> ?r"
    using False k by (auto simp: size_wrap_def)
  moreover from this have "page_alloc p avail sz = Inr (Some (p, p + ?r, avail - ?r))"
    using False assms(1) by (simp add: page_alloc_def align_for_def Let_def add.commute [of 7])
  ultimately show thesis
    by (intro fits [of ?r]) auto
qed

lemma sys_pages_apart:
  assumes "sys_pages P sys ps"
  shows "apart (map pblock ps)"
proof -
  have "mset (map pblock (mapped sys)) = mset (map pblock (page_cache sys @ ps))"
    using assms unfolding sys_pages_def by (metis mset_map)
  then have "apart (map pblock (page_cache sys @ ps))"
    using assms apart_mset unfolding sys_pages_def by blast
  then show ?thesis
    by (rule apart_mono) simp
qed

lemma sys_pages_ok: "sys_pages P sys ps \<Longrightarrow> p \<in> set ps \<Longrightarrow> page_ok P p \<and> paddr p + psize p < size_wrap"
  unfolding sys_pages_def by (metis Un_iff set_append set_mset_mset)

lemma sys_pages_mset: "sys_pages P sys ps \<Longrightarrow> mset ps = mset qs \<Longrightarrow> sys_pages P sys qs"
  by (simp add: sys_pages_def)

lemma sys_pages_mp [simp]: "sys_pages P (sys\<lparr>mp := f\<rparr>) = sys_pages P sys" "sys_pages P (sys\<lparr>pools := q\<rparr>) = sys_pages P sys"
  by (auto simp: sys_pages_def fun_eq_iff)

lemma page_get_spec:
  assumes inv: "sys_pages P sys ps" and fresh: "mmap_fresh P mmap" and n: "P dvd n" "P \<le> n"
    and get: "page_get P mmap sys n = Inr (pg, sys')"
  shows "sys_pages P sys' (pg # ps) \<and> psize pg = n \<and> mp sys' = mp sys \<and> pools sys' = pools sys"
proof (cases "n = P \<and> page_cache sys \<noteq> []")
  case True
  then obtain c l where c: "page_cache sys = c @ [l]"
    by (metis rev_exhaust)
  moreover have "psize l = P"
    using inv c by (auto simp: sys_pages_def)
  ultimately have pg: "pg = l" "sys' = sys\<lparr>page_cache := c\<rparr>"
    using get True by (auto simp: page_get_def)
  then show ?thesis
    using inv c True by (auto simp: sys_pages_def)
next
  case False
  then obtain a where a: "mmap (mapped sys) n = Some a" "pg = \<lparr>paddr = a, psize = n\<rparr>"
      "sys' = sys\<lparr>mapped := pg # mapped sys\<rparr>"
    using get by (auto simp: page_get_def Let_def split: option.splits if_splits)
  then have "P dvd a" "a + n < size_wrap" "apart ((a, n) # map pblock (mapped sys))"
    using fresh inv by (auto simp: mmap_fresh_def sys_pages_def)
  with a inv n show ?thesis
    by (auto simp: sys_pages_def page_ok_def pblock_def)
qed

lemma page_return_spec: "sys_pages P sys (pg # ps) \<Longrightarrow> sys_pages P (page_return P sys pg) ps"
proof -
  assume inv: "sys_pages P sys (pg # ps)"
  show ?thesis
  proof (cases "psize pg = P \<and> length (page_cache sys) < PAGE_CACHE_SIZE")
    case True
    with inv show ?thesis
      by (auto simp: sys_pages_def page_return_def)
  next
    case False
    have "pg \<in> set (mapped sys)"
      using inv by (metis Un_iff list.set_intros(1) set_append set_mset_mset sys_pages_def)
    then have m: "mset (mapped sys) = add_mset pg (mset (remove1 pg (mapped sys)))"
      by simp
    have "mset (map pblock (mapped sys)) = mset (map pblock (pg # remove1 pg (mapped sys)))"
      using m by (metis mset.simps(2) mset_map)
    then have "apart (map pblock (pg # remove1 pg (mapped sys)))"
      using inv apart_mset unfolding sys_pages_def by blast
    then have ap: "apart (map pblock (remove1 pg (mapped sys)))"
      by (rule apart_mono) simp
    have sub: "set (remove1 pg (mapped sys)) \<subseteq> set (mapped sys)"
      by (rule set_remove1_subset)
    have "mset (remove1 pg (mapped sys)) = mset (page_cache sys @ ps)"
      using m inv by (simp add: sys_pages_def)
    with ap sub inv False show ?thesis
      unfolding sys_pages_def page_return_def by auto
  qed
qed

lemma page_return_other [simp]:
  "mp (page_return P sys pg) = mp sys" "pools (page_return P sys pg) = pools sys"
  by (simp_all add: page_return_def)

lemma page_walk_spec: "sys_pages P sys (ps @ qs) \<Longrightarrow> sys_pages P (page_walk_and_delete P sys ps) qs"
proof (induction ps arbitrary: qs)
  case (Cons p ps)
  have "sys_pages P sys (ps @ p # qs)"
    using Cons.prems by (rule sys_pages_mset) simp
  from page_return_spec [OF Cons.IH [OF this]] show ?case
    by simp
qed simp

lemma page_walk_other [simp]:
  "mp (page_walk_and_delete P sys ps) = mp sys" "pools (page_walk_and_delete P sys ps) = pools sys"
  by (induction ps) simp_all

subsection \<open>Pools\<close>

abbreviation control :: "nat \<Rightarrow> mem_pool \<Rightarrow> nat \<times> nat" where
  "control pool m \<equiv> (pool, pool_header + 1 + length (pname m))"

text \<open>Nothing in the pages of a pool reaches into a page apart from them.\<close>

lemma outside:
  assumes "apart (map pblock (pg # ps))" and "covers (pblock pg) x" and "\<forall>b \<in> set bs. \<exists>p \<in> set ps. within b p"
  shows "cover bs x = 0"
proof (rule ccontr)
  assume "cover bs x \<noteq> 0"
  then obtain b where b: "b \<in> set bs" "covers b x"
    unfolding cover_def by (auto simp: filter_empty_conv)
  then obtain p where p: "p \<in> set ps" "within b p"
    using assms(3) by blast
  then have "covers (pblock p) x"
    using b(2) by (auto simp: covers_def within_def pblock_def)
  then have "0 < cover (map pblock ps) x"
    using p(1) by (intro cover_pos [of "pblock p"]) auto
  moreover have "cover (map pblock (pg # ps)) x \<le> 1"
    using assms(1) by (simp only: apart_def)
  ultimately show False
    using assms(2) by simp
qed

lemma covers_split: "r \<le> n \<Longrightarrow> sz \<le> r \<Longrightarrow>
  (if covers (p, sz) x then 1 else 0) + (if covers (p + r, n - r) x then 1 else 0) \<le> (if covers (p, n) x then 1 else (0::nat))"
  by (auto simp: covers_def)

lemma pool_inv_alloc_here:
  assumes inv: "pool_inv P pool m bs" and r: "sz \<le> r" "r \<le> available m" "8 dvd r"
  shows "pool_inv P pool (m\<lparr>pos := pos m + r, available := available m - r, used := used m + sz,
           requests := requests m + 1\<rparr>) ((pos m, sz) # bs)"
proof -
  let ?old = "control pool m # (pos m, available m) # bs"
  have "apart ?old"
    using inv by (auto simp: pool_inv_def)
  then have "apart (control pool m # (pos m + r, available m - r) # (pos m, sz) # bs)"
    by (rule apart_mono) (use covers_split [OF r(2,1), of "pos m"] in \<open>simp add: add.commute add.left_commute\<close>)
  moreover have "within (pos m + r, available m - r) p \<and> within (pos m, sz) p"
    if "within (pos m, available m) p" for p
    using that r by (auto simp: within_def)
  ultimately show ?thesis
    using inv r by (auto simp: pool_inv_def dvd_diff_nat)
qed

lemma pool_inv_new_page:
  assumes inv: "pool_inv P pool m bs" and P: "unit_ok P" and pg: "page_ok P pg"
    and ap: "apart (map pblock (pg # ppages m))"
    and r: "sz \<le> r" "r \<le> psize pg - page_header" "8 dvd r"
    and m': "m' = m\<lparr>ppages := hd (ppages m) # pg # tl (ppages m)\<rparr>"
    and pa: "(p', a') = (pos m, available m) \<or>
             (p', a') = (paddr pg + page_header + r, psize pg - page_header - r)"
  shows "pool_inv P pool (m'\<lparr>pos := p', available := a', allocated := allocated m + psize pg,
           used := used m + sz, requests := requests m + 1\<rparr>) ((paddr pg + page_header, sz) # bs)"
proof -
  let ?a = "paddr pg + page_header"
  let ?old = "control pool m # (pos m, available m) # bs"
  have ne: "ppages m \<noteq> []"
    using inv by (simp add: pool_inv_def)
  have pages: "set (ppages m') = insert pg (set (ppages m))"
    using ne by (cases "ppages m") (auto simp: m')
  have sz: "page_header \<le> psize pg" "8 dvd paddr pg" "8 dvd psize pg - page_header"
    using pg P by (auto simp: page_ok_def unit_ok_def page_header_def intro!: dvd_diff_nat elim: dvd_trans)
  have d8: "8 dvd psize pg - (page_header + r)"
    using dvd_diff_nat [OF sz(3) r(3)] by simp
  have in_pg: "within (?a, sz) pg" "within (?a + r, psize pg - page_header - r) pg"
    using r sz(1) by (auto simp: within_def)
  have old: "apart ?old" "\<forall>b \<in> set ?old. \<exists>p \<in> set (ppages m). within b p"
    using inv by (auto simp: pool_inv_def)
  have "cover (control pool m # (p', a') # (?a, sz) # bs) x \<le> 1" for x
  proof (cases "covers (pblock pg) x")
    case True
    have "cover ?old x = 0"
      by (rule outside [OF ap True old(2)])
    then show ?thesis
      using pa covers_split [OF r(2,1), of ?a x] by (auto split: if_splits)
  next
    case False
    then have "\<not> covers (?a, sz) x" "\<not> covers (?a + r, psize pg - page_header - r) x"
      using in_pg by (auto simp: covers_def within_def pblock_def)
    moreover have "cover ?old x \<le> 1"
      using old(1) by (simp only: apart_def)
    ultimately show ?thesis
      using pa by auto
  qed
  then have "apart (control pool m # (p', a') # (?a, sz) # bs)"
    unfolding apart_def by blast
  moreover have "8 dvd p' \<and> 8 dvd a' \<and> (\<exists>p \<in> set (ppages m'). within (p', a') p)"
    using pa inv sz r(3) d8 in_pg pages by (auto simp: pool_inv_def page_header_def)
  moreover have "\<exists>p \<in> set (ppages m'). within (?a, sz) p" "8 dvd ?a"
    using in_pg(1) pages sz(2) by (auto simp: page_header_def)
  moreover have "sum_list (map psize (ppages m')) = allocated m + psize pg"
    using inv ne by (cases "ppages m") (auto simp: m' pool_inv_def)
  ultimately show ?thesis
    using inv ne pages by (auto simp: pool_inv_def m')
qed

text \<open>Replacing the chain of one pool.\<close>

lemma concat_upd:
  assumes "distinct qs" and "q \<in> set qs" and "mset xs = mset ys + mset (f q)"
  shows "mset (concat (map (f(q := xs)) qs)) = mset ys + mset (concat (map f qs))"
proof -
  obtain as bs where qs: "qs = as @ q # bs" "q \<notin> set as" "q \<notin> set bs"
    using assms(1,2) by (metis distinct.simps(2) distinct_append disjoint_insert(1) list.set(2) split_list)
  then have "map (f(q := xs)) as = map f as" "map (f(q := xs)) bs = map f bs"
    by auto
  with qs assms(3) show ?thesis
    by simp
qed

lemma owned_upd:
  assumes "distinct (pools sys)" and "pool \<in> set (pools sys)"
    and "mset (ppages m') = mset ys + mset (ppages (mp sys pool))"
  shows "mset (owned (sys\<lparr>mp := (mp sys)(pool := m')\<rparr>)) = mset (ys @ owned sys)"
proof -
  have "(\<lambda>q. ppages (((mp sys)(pool := m')) q)) = (\<lambda>q. ppages (mp sys q))(pool := ppages m')"
    by (simp add: fun_eq_iff)
  then show ?thesis
    using concat_upd [OF assms(1,2), of "ppages m'" ys "\<lambda>q. ppages (mp sys q)"] assms(3)
    by (simp add: owned_def del: fun_upd_apply)
qed

lemma mem_inv_upd:
  assumes inv: "mem_inv P sys live" and pool: "pool \<in> set (pools sys)"
    and pages: "sys_pages P sys' (ys @ owned sys)" and same: "mp sys' = mp sys" "pools sys' = pools sys"
    and m': "mset (ppages m') = mset ys + mset (ppages (mp sys pool))" "pool_index m' = pool_index (mp sys pool)"
      "pool_inv P pool m' bs"
  shows "mem_inv P (sys'\<lparr>mp := (mp sys')(pool := m')\<rparr>) (live(pool := bs))"
proof -
  have d: "distinct (pools sys)"
    using inv by (simp add: mem_inv_def)
  have "owned (sys'\<lparr>mp := (mp sys')(pool := m')\<rparr>) = owned (sys\<lparr>mp := (mp sys)(pool := m')\<rparr>)"
    using same by (simp add: owned_def)
  then have "sys_pages P sys' (owned (sys'\<lparr>mp := (mp sys')(pool := m')\<rparr>))"
    using sys_pages_mset [OF pages] owned_upd [OF d pool m'(1)] by simp
  then show ?thesis
    using inv same m' by (auto simp: mem_inv_def)
qed

lemma pool_room:
  assumes inv: "mem_inv P sys live" and pool: "pool \<in> set (pools sys)"
  shows "8 dvd pos (mp sys pool)" "8 dvd available (mp sys pool)" "available (mp sys pool) < size_wrap"
proof -
  have pi: "pool_inv P pool (mp sys pool) (live pool)"
    using inv pool by (simp add: mem_inv_def)
  then show "8 dvd pos (mp sys pool)" "8 dvd available (mp sys pool)"
    by (auto simp: pool_inv_def)
  obtain p where p: "p \<in> set (ppages (mp sys pool))" "within (pos (mp sys pool), available (mp sys pool)) p"
    using pi by (auto simp: pool_inv_def)
  then have "p \<in> set (owned sys)"
    using pool by (auto simp: owned_def)
  then have "paddr p + psize p < size_wrap"
    using inv sys_pages_ok by (auto simp: mem_inv_def)
  then show "available (mp sys pool) < size_wrap"
    using p(2) by (auto simp: within_def)
qed

lemma page_round_spec:
  assumes "unit_ok P" and "sz + page_header + P \<le> size_wrap"
  shows "P dvd page_round P sz" and "P \<le> page_round P sz" and "sz + page_header \<le> page_round P sz"
    and "page_round P sz < sz + page_header + P"
proof -
  have "0 < P"
    using assms(1) by (simp add: unit_ok_def)
  let ?n = "sz + page_header + P - 1"
  have "?n < size_wrap"
    using assms(2) \<open>0 < P\<close> by simp
  then have e: "page_round P sz = ?n div P * P"
    by (simp add: page_round_def)
  have "?n div P * P + ?n mod P = ?n" "?n mod P < P"
    using \<open>0 < P\<close> by simp_all
  then show up: "sz + page_header \<le> page_round P sz" and "page_round P sz < sz + page_header + P"
    unfolding e using \<open>0 < P\<close> by linarith+
  show d: "P dvd page_round P sz"
    unfolding e by simp
  show "P \<le> page_round P sz"
    using up dvd_imp_le [OF d] by (simp add: page_header_def)
qed

lemma pool_pages_apart:
  assumes "sys_pages P sys (pg # owned sys0)" and "pool \<in> set (pools sys0)"
  shows "apart (map pblock (pg # ppages (mp sys0 pool)))"
proof -
  obtain as bs where "pools sys0 = as @ pool # bs"
    using assms(2) by (metis split_list)
  then show ?thesis
    by (intro apart_mono [OF sys_pages_apart [OF assms(1)]]) (simp add: owned_def)
qed

lemma data_room:
  assumes "unit_ok P" and "page_ok P pg" and "paddr pg + psize pg < size_wrap"
  shows "8 dvd paddr pg + page_header" "8 dvd psize pg - page_header" "psize pg - page_header < size_wrap"
  using assms
  by (auto simp: page_ok_def unit_ok_def page_header_def intro!: dvd_add dvd_diff_nat elim: dvd_trans)

lemma mem_pool_alloc_inv:
  assumes P: "unit_ok P" and fresh: "mmap_fresh P mmap" and inv: "mem_inv P sys live"
    and pool: "pool \<in> set (pools sys)" and sz: "sz + page_header + P \<le> size_wrap"
    and r: "mem_pool_alloc P mmap sys pool sz = Inr (a, sys')"
  shows "mem_inv P sys' (live(pool := (a, sz) # live pool)) \<and> pools sys' = pools sys"
proof -
  let ?m = "mp sys pool"
  have pi: "pool_inv P pool ?m (live pool)"
    using inv pool by (simp add: mem_inv_def)
  have sp: "sys_pages P sys (owned sys)"
    using inv by (simp add: mem_inv_def)
  show ?thesis
  proof (rule page_alloc_spec [OF pool_room [OF inv pool], of sz])
    fix k
    assume k: "sz \<le> k" "k \<le> available ?m" "8 dvd k"
      "page_alloc (pos ?m) (available ?m) sz = Inr (Some (pos ?m, pos ?m + k, available ?m - k))"
    let ?m' = "?m\<lparr>pos := pos ?m + k, available := available ?m - k, used := used ?m + sz,
           requests := requests ?m + 1\<rparr>"
    have "a = pos ?m" "sys' = sys\<lparr>mp := (mp sys)(pool := ?m')\<rparr>"
      using r k(4) by (auto simp: mem_pool_alloc_def Let_def)
    moreover have "mem_inv P (sys\<lparr>mp := (mp sys)(pool := ?m')\<rparr>) (live(pool := (pos ?m, sz) # live pool))"
      using sp by (intro mem_inv_upd [OF inv pool, of sys "[]"] pool_inv_alloc_here [OF pi k(1,2,3)]) simp_all
    ultimately show ?thesis
      by simp
  next
    assume full: "page_alloc (pos ?m) (available ?m) sz = Inr None"
    from r full obtain pg sys1 where g: "page_get P mmap sys (page_round P sz) = Inr (pg, sys1)"
      by (auto simp: mem_pool_alloc_def Let_def result_simps)
    have pg: "sys_pages P sys1 (pg # owned sys)" "psize pg = page_round P sz" "mp sys1 = mp sys" "pools sys1 = pools sys"
      using page_get_spec [OF sp fresh page_round_spec(1,2) [OF P sz] g] by auto
    have ok: "page_ok P pg" "paddr pg + psize pg < size_wrap"
      using sys_pages_ok [OF pg(1), of pg] by auto
    have fit: "\<not> psize pg - page_header < sz"
      using page_round_spec(3) [OF P sz] pg(2) by simp
    obtain k where k: "sz \<le> k" "k \<le> psize pg - page_header" "8 dvd k" "page_alloc (paddr pg + page_header) (psize pg - page_header) sz =
        Inr (Some (paddr pg + page_header, paddr pg + page_header + k, psize pg - page_header - k))"
      using fit page_alloc_spec [OF data_room [OF P ok], of sz] by metis
    let ?m1 = "?m\<lparr>ppages := hd (ppages ?m) # pg # tl (ppages ?m)\<rparr>"
    define p' a' where pa: "p' = (if psize pg - page_header - k > available ?m then paddr pg + page_header + k else pos ?m)"
      "a' = (if psize pg - page_header - k > available ?m then psize pg - page_header - k else available ?m)"
    let ?m' = "?m1\<lparr>pos := p', available := a', allocated := allocated ?m + psize pg, used := used ?m + sz,
           requests := requests ?m + 1\<rparr>"
    let ?m2 = "if psize pg - page_header - k > available ?m1
        then ?m1\<lparr>available := psize pg - page_header - k, pos := paddr pg + page_header + k\<rparr> else ?m1"
    have "?m2\<lparr>allocated := allocated ?m2 + psize pg, used := used ?m2 + sz, requests := requests ?m2 + 1\<rparr> = ?m'"
      by (cases ?m) (simp add: pa)
    moreover have "a = paddr pg + page_header" "sys' = sys1\<lparr>mp := (mp sys1)(pool :=
        ?m2\<lparr>allocated := allocated ?m2 + psize pg, used := used ?m2 + sz, requests := requests ?m2 + 1\<rparr>)\<rparr>"
      using r full g k(4) pg(2,3) by (auto simp: mem_pool_alloc_def Let_def)
    ultimately have "a = paddr pg + page_header" "sys' = sys1\<lparr>mp := (mp sys1)(pool := ?m')\<rparr>"
      by simp_all
    moreover have "pool_inv P pool ?m' ((paddr pg + page_header, sz) # live pool)"
      using pool_inv_new_page [OF pi P ok(1) pool_pages_apart [OF pg(1) pool] k(1,2,3) refl, of p' a']
      by (auto simp: pa)
    moreover have "ppages ?m \<noteq> []"
      using pi by (simp add: pool_inv_def)
    ultimately show ?thesis
      using mem_inv_upd [OF inv pool, of sys1 "[pg]" ?m'] pg by (cases "ppages ?m") auto
  qed
qed

text \<open>A fresh control structure in its own page, as \<open>mem_pool_create\<close> and \<open>mem_pool_reset\<close>
  set it up.\<close>

lemma fresh_pool:
  assumes P: "unit_ok P" and pg: "page_ok P pg" "paddr pg + psize pg < size_wrap" "psize pg = P"
    and name: "page_header + pool_header + 1 + length name < P"
  obtains r where "page_alloc (paddr pg + page_header) (psize pg - page_header) (pool_header + 1 + length name) =
      Inr (Some (paddr pg + page_header, paddr pg + page_header + r, psize pg - page_header - r))"
    and "\<And>i. pool_inv P (paddr pg + page_header)
      \<lparr>ppages = [pg], pos = paddr pg + page_header + r, available = psize pg - page_header - r,
       pool_index = i, used = 0, allocated = P, requests = 0, pname = name\<rparr> []"
proof -
  let ?n = "pool_header + 1 + length name" and ?a = "paddr pg + page_header"
  have "\<not> psize pg - page_header < ?n"
    using name pg(3) by simp
  then obtain r where r: "?n \<le> r" "r \<le> psize pg - page_header" "8 dvd r"
      "page_alloc ?a (psize pg - page_header) ?n = Inr (Some (?a, ?a + r, psize pg - page_header - r))"
    using page_alloc_spec [OF data_room [OF P pg(1,2)], of ?n] by metis
  have "apart [(?a, psize pg - page_header)]"
    by (simp add: apart_def)
  then have "apart [(?a, ?n), (?a + r, psize pg - page_header - r)]"
    by (rule apart_mono) (use covers_split [OF r(2,1), of ?a] in simp)
  moreover have "8 dvd ?a" "8 dvd psize pg - page_header - r"
    using data_room [OF P pg(1,2)] dvd_diff_nat [OF data_room(2) [OF P pg(1,2)] r(3)] by blast+
  moreover have "within (?a, ?n) pg" "within (?a + r, psize pg - page_header - r) pg"
    using r(1,2) name pg(3) by (auto simp: within_def)
  ultimately have "pool_inv P ?a \<lparr>ppages = [pg], pos = ?a + r, available = psize pg - page_header - r,
       pool_index = i, used = 0, allocated = P, requests = 0, pname = name\<rparr> []" for i
    using r(3) name pg(3) by (simp add: pool_inv_def)
  with r(4) that show thesis
    by blast
qed

lemma pool_in_page:
  assumes "mem_inv P sys live" and "q \<in> set (pools sys)"
  shows "\<exists>p \<in> set (owned sys). q = paddr p + page_header \<and> psize p = P"
proof -
  have "pool_inv P q (mp sys q) (live q)"
    using assms by (simp add: mem_inv_def)
  then have "hd (ppages (mp sys q)) \<in> set (ppages (mp sys q))"
    by (simp add: pool_inv_def)
  then have "hd (ppages (mp sys q)) \<in> set (owned sys)"
    using assms(2) by (auto simp: owned_def)
  with \<open>pool_inv P q (mp sys q) (live q)\<close> show ?thesis
    by (intro bexI [of _ "hd (ppages (mp sys q))"]) (auto simp: pool_inv_def)
qed

text \<open>A page not owned before holds no control structure of another pool.\<close>

lemma new_pool_address:
  assumes inv: "mem_inv P sys live" and pg: "sys_pages P sys' (pg # owned sys)" and P: "unit_ok P"
    and "psize pg = P"
  shows "paddr pg + page_header \<notin> set (pools sys)"
proof
  assume "paddr pg + page_header \<in> set (pools sys)"
  then obtain p where p: "p \<in> set (owned sys)" "paddr pg = paddr p" "psize p = P"
    using pool_in_page [OF inv] by fastforce
  then have "0 < cover (map pblock (owned sys)) (paddr p)"
    using P by (intro cover_pos [of "pblock p"]) (auto simp: pblock_def covers_def unit_ok_def)
  moreover have "covers (pblock pg) (paddr p)"
    using p(2) P assms(4) by (auto simp: pblock_def covers_def unit_ok_def)
  moreover have "cover (map pblock (pg # owned sys)) (paddr p) \<le> 1"
    using sys_pages_apart [OF pg] by (simp only: apart_def)
  ultimately show False
    by simp
qed

lemma mem_pool_create_inv:
  assumes P: "unit_ok P" and fresh: "mmap_fresh P mmap" and inv: "mem_inv P sys live"
    and r: "mem_pool_create P mmap sys name = Inr (pool, sys')"
  shows "mem_inv P sys' (live(pool := [])) \<and> pools sys' = pools sys @ [pool]"
proof -
  have name: "page_header + pool_header + 1 + length name < P"
    using r by (auto simp: mem_pool_create_def Let_def result_simps)
  obtain pg sys1 where g: "page_get P mmap sys P = Inr (pg, sys1)"
    using r by (auto simp: mem_pool_create_def Let_def result_simps)
  have sp: "sys_pages P sys (owned sys)"
    using inv by (simp add: mem_inv_def)
  have pg: "sys_pages P sys1 (pg # owned sys)" "psize pg = P" "mp sys1 = mp sys" "pools sys1 = pools sys"
    using page_get_spec [OF sp fresh dvd_refl order_refl g] by auto
  have ok: "page_ok P pg" "paddr pg + psize pg < size_wrap"
    using sys_pages_ok [OF pg(1), of pg] by auto
  obtain k where k: "page_alloc (paddr pg + page_header) (psize pg - page_header) (pool_header + 1 + length name) =
      Inr (Some (paddr pg + page_header, paddr pg + page_header + k, psize pg - page_header - k))"
    and pi: "\<And>i. pool_inv P (paddr pg + page_header)
      \<lparr>ppages = [pg], pos = paddr pg + page_header + k, available = psize pg - page_header - k,
       pool_index = i, used = 0, allocated = P, requests = 0, pname = name\<rparr> []"
    using fresh_pool [OF P ok pg(2) name] by metis
  let ?pool = "paddr pg + page_header"
  let ?m = "\<lambda>i. \<lparr>ppages = [pg], pos = ?pool + k, available = psize pg - page_header - k,
       pool_index = i, used = 0, allocated = P, requests = 0, pname = name\<rparr>"
  have pool: "pool = ?pool"
    and sys': "sys' = sys1\<lparr>pools := pools sys @ [pool], mp := (mp sys)(pool := ?m (length (pools sys)))\<rparr>"
    using r name g k pg(3,4) by (auto simp: mem_pool_create_def Let_def store_def)
  have new: "pool \<notin> set (pools sys)"
    using new_pool_address [OF inv pg(1) P pg(2)] pool by simp
  have "map (\<lambda>q. ppages (mp sys' q)) (pools sys) = map (\<lambda>q. ppages (mp sys q)) (pools sys)"
    by (rule map_cong) (use new in \<open>auto simp: sys'\<close>)
  moreover have "pools sys' = pools sys @ [pool]" "ppages (mp sys' pool) = [pg]"
    by (simp_all add: sys')
  ultimately have "owned sys' = owned sys @ [pg]"
    by (simp only: owned_def map_append concat_append list.map concat.simps append_Nil2)
  then have "sys_pages P sys' (owned sys')"
    using sys_pages_mset [OF pg(1), of "owned sys @ [pg]"] by (simp add: sys' sys_pages_def)
  then show ?thesis
    using inv new pi [of "length (pools sys)"]
    by (auto simp: mem_inv_def sys' pool nth_append less_Suc_eq dest: nth_mem)
qed

lemma mem_pool_reset_inv:
  assumes P: "unit_ok P" and inv: "mem_inv P sys live" and pool: "pool \<in> set (pools sys)"
  shows "\<exists>sys'. mem_pool_reset P sys pool = Inr sys' \<and> mem_inv P sys' (live(pool := [])) \<and> pools sys' = pools sys"
proof -
  let ?m = "mp sys pool"
  let ?f = "hd (ppages ?m)" and ?rest = "tl (ppages ?m)"
  have pi: "pool_inv P pool ?m (live pool)"
    using inv pool by (simp add: mem_inv_def)
  then have ne: "ppages ?m \<noteq> []" and pl: "pool = paddr ?f + page_header" and sz: "psize ?f = P"
    and name: "page_header + pool_header + 1 + length (pname ?m) < P"
    by (auto simp: pool_inv_def)
  have sp: "sys_pages P sys (owned sys)"
    using inv by (simp add: mem_inv_def)
  have "?f \<in> set (ppages ?m)"
    using ne by simp
  then have "?f \<in> set (owned sys)"
    using pool by (auto simp: owned_def)
  then have ok: "page_ok P ?f" "paddr ?f + psize ?f < size_wrap"
    using sys_pages_ok [OF sp] by auto
  obtain k where k: "page_alloc (paddr ?f + page_header) (psize ?f - page_header) (pool_header + 1 + length (pname ?m)) =
      Inr (Some (paddr ?f + page_header, paddr ?f + page_header + k, psize ?f - page_header - k))"
    and new: "\<And>i. pool_inv P (paddr ?f + page_header)
      \<lparr>ppages = [?f], pos = paddr ?f + page_header + k, available = psize ?f - page_header - k,
       pool_index = i, used = 0, allocated = P, requests = 0, pname = pname ?m\<rparr> []"
    using fresh_pool [OF P ok sz name] by metis
  let ?m' = "?m\<lparr>ppages := [?f], pos := paddr ?f + page_header + k, available := psize ?f - page_header - k,
     allocated := P, used := 0, requests := 0\<rparr>"
  let ?sys' = "(page_walk_and_delete P sys ?rest)\<lparr>mp := (mp sys)(pool := ?m')\<rparr>"
  have "pool_inv P (paddr ?f + page_header) ?m' []"
    using new [of "pool_index ?m"] by (cases ?m) (simp only: mem_pool.simps)
  then have pi': "pool_inv P pool ?m' []"
    by (simp only: pl [symmetric])
  have "mset (owned sys) = mset (?rest @ owned (sys\<lparr>mp := (mp sys)(pool := ?m')\<rparr>))"
  proof -
    let ?N = "sys\<lparr>mp := (mp sys)(pool := ?m')\<rparr>"
    have "?N\<lparr>mp := (mp ?N)(pool := ?m)\<rparr> = sys"
      by simp
    moreover have "mset (ppages ?m) = mset ?rest + mset (ppages (mp ?N pool))"
      using ne by (cases "ppages ?m") simp_all
    moreover have "distinct (pools ?N)" "pool \<in> set (pools ?N)"
      using inv pool by (simp_all add: mem_inv_def)
    ultimately show ?thesis
      using owned_upd [of ?N pool ?m ?rest] by metis
  qed
  from page_walk_spec [OF sys_pages_mset [OF sp this]]
  have "sys_pages P ?sys' (owned ?sys')"
    by (simp add: owned_def)
  then have "mem_inv P ?sys' (live(pool := []))"
    using inv pi' by (auto simp: mem_inv_def)
  moreover have "mem_pool_reset P sys pool = Inr ?sys'"
    using k pl by (simp add: mem_pool_reset_def Let_def)
  ultimately show ?thesis
    by simp
qed

lemma drop_list:
  assumes "i < length ps" and "distinct ps"
  shows "mset ps = add_mset (ps ! i) (mset (butlast (ps[i := last ps])))" (is ?m)
    and "distinct (butlast (ps[i := last ps]))" (is ?d)
    and "j < length ps - 1 \<Longrightarrow> butlast (ps[i := last ps]) ! j = (if j = i then last ps else ps ! j)"
proof -
  obtain as l where ps: "ps = as @ [l]"
    using assms(1) by (metis less_nat_zero_code list.size(3) rev_exhaust)
  have e: "butlast (ps[i := last ps]) = as[i := l]"
    using assms(1) by (cases "i = length as") (auto simp: ps butlast_append list_update_append list_update_beyond)
  have "as ! i \<in> set as" if "i < length as"
    using that by simp
  then show ?m
    using assms(1) unfolding e by (cases "i = length as") (auto simp: ps nth_append mset_update list_update_beyond)
  show ?d
    using assms unfolding e by (auto simp: ps intro: distinct_list_update)
  show "j < length ps - 1 \<Longrightarrow> butlast (ps[i := last ps]) ! j = (if j = i then last ps else ps ! j)"
    using assms(1) unfolding e by (auto simp: ps nth_append nth_list_update)
qed

lemma concat_mset:
  assumes "mset qs = add_mset q (mset qs')"
  shows "mset (concat (map f qs)) = mset (f q @ concat (map f qs'))"
proof -
  have "sum_mset (image_mset (\<lambda>q. mset (f q)) (mset qs)) = mset (f q) + sum_mset (image_mset (\<lambda>q. mset (f q)) (mset qs'))"
    using assms by simp
  moreover have "mset (concat (map f xs)) = sum_mset (image_mset (\<lambda>q. mset (f q)) (mset xs))" for xs
    by (induction xs) simp_all
  ultimately show ?thesis
    by simp
qed

lemma mem_pool_destroy_inv:
  assumes inv: "mem_inv P sys live" and pool: "pool \<in> set (pools sys)"
  shows "\<exists>sys'. mem_pool_destroy P sys pool = Inr sys' \<and> mem_inv P sys' live \<and>
           mset (pools sys) = add_mset pool (mset (pools sys'))"
proof -
  let ?ps = "pools sys"
  obtain i where i: "i < length ?ps" "?ps ! i = pool"
    using pool by (auto simp: in_set_conv_nth)
  have idx: "pool_index (mp sys pool) = i" and d: "distinct ?ps"
    using inv i by (auto simp: mem_inv_def)
  let ?moved = "last ?ps"
  let ?qs = "butlast (?ps[i := ?moved])"
  let ?mp = "(mp sys)(?moved := (mp sys ?moved)\<lparr>pool_index := i\<rparr>)"
  let ?sys1 = "sys\<lparr>pools := ?qs, mp := ?mp\<rparr>"
  have "last ?ps = ?ps ! (length ?ps - 1)"
    using i by (metis last_conv_nth length_pos_if_in_set less_irrefl list.size(3) pool)
  then have drop: "drop_pool sys pool = Inr ?sys1"
    using i idx by (simp add: drop_pool_def Let_def)
  note dl = drop_list [OF i(1) d]
  have pages: "(\<lambda>q. ppages (?mp q)) = (\<lambda>q. ppages (mp sys q))"
    by (auto simp: fun_eq_iff)
  have "mset (owned sys) = mset (ppages (?mp pool) @ owned ?sys1)"
    using concat_mset [OF dl(1), of "\<lambda>q. ppages (mp sys q)"] i(2) fun_cong [OF pages, of pool]
    by (simp add: owned_def pages del: fun_upd_apply)
  moreover have "sys_pages P ?sys1 (owned sys)"
    using inv by (simp add: mem_inv_def sys_pages_def)
  ultimately have walk: "sys_pages P (page_walk_and_delete P ?sys1 (ppages (?mp pool))) (owned ?sys1)"
    using sys_pages_mset page_walk_spec by blast
  have sub: "set ?qs \<subseteq> set ?ps"
    using dl(1) by (metis mset_subset_eq_add_right set_mset_mono set_mset_mset add_mset_add_single union_commute)
  have "pool_inv P q (?mp q) bs = pool_inv P q (mp sys q) bs" for q bs
    by (simp add: pool_inv_def)
  moreover have "pool_index (?mp (?qs ! j)) = j" if "j < length ?ps - 1" for j
  proof -
    have "?ps ! j \<noteq> ?ps ! (length ?ps - 1)"
      using that d i(1) by (subst nth_eq_iff_index_eq) auto
    then have "?ps ! j \<noteq> last ?ps"
      using \<open>last ?ps = _\<close> by simp
    then show ?thesis
      using that dl(3) inv by (simp add: mem_inv_def)
  qed
  ultimately have "mem_inv P (page_walk_and_delete P ?sys1 (ppages (?mp pool))) live"
    using walk dl(2) sub inv by (auto simp: mem_inv_def owned_def)
  then show ?thesis
    using drop dl(1) i(2) by (auto simp: mem_pool_destroy_def)
qed

subsection \<open>Strings from a pool\<close>

text \<open>The helpers that allocate and fill: the address and the contents of the block.\<close>

definition mem_pool_strdup :: "nat \<Rightarrow> mmap_fun \<Rightarrow> memsys \<Rightarrow> nat \<Rightarrow> string \<Rightarrow> (nat \<times> string \<times> memsys) result" where
  "mem_pool_strdup P mmap sys pool str =
     rbind (mem_pool_alloc P mmap sys pool (length str + 1)) (\<lambda>(a, sys').
       rbind (buf_write (replicate (length str + 1) CHR 0x00) 0 (str @ [CHR 0x00])) (\<lambda>buf.
         Inr (a, buf, sys')))"

definition hex_digit :: "nat \<Rightarrow> char" where
  "hex_digit n = (if n < 10 then char_of (48 + n) else char_of (55 + n))"

text \<open>What \<open>sprintf\<close> stores for one byte: two digits, the separator, and its own terminator.\<close>

definition hex_item :: "nat \<Rightarrow> byte \<Rightarrow> string" where
  "hex_item i b = [hex_digit (unat b div 16), hex_digit (unat b mod 16),
                   if (i + 1) mod 4 \<noteq> 0 then CHR '':'' else CHR '' '', CHR 0x00]"

definition hex_fill :: "bytes \<Rightarrow> string \<Rightarrow> string result" where
  "hex_fill bs buf =
     rbind (fold_result (\<lambda>buf i. buf_write buf (3 * i) (hex_item i (bs ! i))) buf [0..<length bs]) (\<lambda>buf'.
       buf_write buf' (if length bs \<noteq> 0 then 3 * length bs - 1 else 0) [CHR 0x00])"

definition mem_pool_hex :: "nat \<Rightarrow> mmap_fun \<Rightarrow> memsys \<Rightarrow> nat \<Rightarrow> bytes \<Rightarrow> (nat \<times> string \<times> memsys) result" where
  "mem_pool_hex P mmap sys pool bs =
     rbind (mem_pool_alloc P mmap sys pool (3 * length bs)) (\<lambda>(a, sys').
       rbind (hex_fill bs (replicate (3 * length bs) CHR 0x00)) (\<lambda>buf. Inr (a, buf, sys')))"

text \<open>Decimal output of \<open>%zu\<close>.\<close>

fun dec :: "nat \<Rightarrow> string" where
  "dec n = (if n < 10 then [char_of (48 + n)] else dec (n div 10) @ [char_of (48 + n mod 10)])"

declare dec.simps [simp del]

definition stats_item :: "mem_pool \<Rightarrow> string" where
  "stats_item p = pname p @ '': '' @ dec (used p) @ ''/'' @ dec (allocated p) @ '' ('' @ dec (requests p) @ '')''"

text \<open>The second half: the parts copied one after another into a block of \<open>len\<close> bytes.\<close>

definition stats_len :: "string list \<Rightarrow> nat" where
  "stats_len parts = 1 + sum_list (map (\<lambda>p. 2 + length p) parts)"

definition stats_put :: "string \<times> nat \<Rightarrow> string \<Rightarrow> (string \<times> nat) result" where
  "stats_put st part =
     (let (buf, at) = st in
      rbind (if at \<noteq> 0 then buf_write buf at '', '' else Inr buf) (\<lambda>buf1.
        let at1 = (if at \<noteq> 0 then at + 2 else at) in
        rbind (buf_write buf1 at1 part) (\<lambda>buf2. Inr (buf2, at1 + length part))))"

definition stats_fill :: "string list \<Rightarrow> string result" where
  "stats_fill parts =
     rbind (fold_result stats_put (replicate (stats_len parts) CHR 0x00, 0) parts) (\<lambda>(buf, at).
       buf_write buf at [CHR 0x00])"

definition stats_step :: "nat \<Rightarrow> mmap_fun \<Rightarrow> nat \<Rightarrow> memsys \<times> string list \<Rightarrow> nat \<Rightarrow> (memsys \<times> string list) result" where
  "stats_step P mmap tmp st i =
     (let (s, parts) = st; part = stats_item (mp s (pools s ! i)) in
      rbind (mem_pool_alloc P mmap s tmp (length part + 1)) (\<lambda>(_, s'). Inr (s', parts @ [part])))"

definition mem_pool_stats :: "nat \<Rightarrow> mmap_fun \<Rightarrow> memsys \<Rightarrow> nat \<Rightarrow> (nat \<times> string \<times> memsys) result" where
  "mem_pool_stats P mmap sys tmp =
     rbind (mem_pool_alloc P mmap sys tmp (length (pools sys) * 8)) (\<lambda>(_, sys0).
       rbind (fold_result (stats_step P mmap tmp) (sys0, []) [0..<length (pools sys0)]) (\<lambda>(sys1, parts).
         rbind (mem_pool_alloc P mmap sys1 tmp (stats_len parts)) (\<lambda>(a, sys2).
           rbind (stats_fill parts) (\<lambda>buf. Inr (a, buf, sys2)))))"

text \<open>The output of \<open>mem_pool_stats\<close> always fits, whatever the names and numbers.\<close>

definition join :: "string list \<Rightarrow> string" where
  "join parts = concat (case parts of [] \<Rightarrow> [] | p # ps \<Rightarrow> p # map ((@) '', '') ps)"

lemma join_snoc: "ps \<noteq> [] \<Longrightarrow> join (ps @ [p]) = join ps @ '', '' @ p"
  by (cases ps) (simp_all add: join_def)

lemma join_length: "length (join ps) \<le> sum_list (map (\<lambda>p. 2 + length p) ps)"
proof -
  have "length (concat (map ((@) '', '') qs)) = sum_list (map (\<lambda>p. 2 + length p) qs)" for qs :: "string list"
    by (induction qs) simp_all
  then show ?thesis
    by (cases ps) (simp_all add: join_def)
qed

lemma join_Nil: "[] \<notin> set ps \<Longrightarrow> join ps = [] \<longleftrightarrow> ps = []"
  by (cases ps) (auto simp: join_def)

lemma stats_loop:
  assumes "[] \<notin> set ps" and "sum_list (map (\<lambda>p. 2 + length p) ps) < n"
  shows "\<exists>buf. fold_result stats_put (replicate n CHR 0x00, 0) ps = Inr (buf, length (join ps)) \<and>
           length buf = n \<and> take (length (join ps)) buf = join ps"
  using assms
proof (induction ps rule: rev_induct)
  case Nil
  then show ?case by (simp add: join_def)
next
  case (snoc p ps)
  then obtain buf where buf: "fold_result stats_put (replicate n CHR 0x00, 0) ps = Inr (buf, length (join ps))"
      "length buf = n" "take (length (join ps)) buf = join ps"
    by auto
  show ?case
  proof (cases "ps = []")
    case True
    then show ?thesis
      using snoc.prems(2) buf_write_ok [of 0 p "replicate n (CHR 0x00)" "[]"] by (auto simp: stats_put_def join_def)
  next
    case False
    then have ne: "length (join ps) \<noteq> 0"
      using snoc.prems(1) join_Nil by auto
    have room: "length (join ps) + 2 + length p \<le> n"
      using join_length [of ps] snoc.prems(2) by simp
    obtain b1 where b1: "buf_write buf (length (join ps)) '', '' = Inr b1" "length b1 = n"
        "take (length (join ps) + 2) b1 = join ps @ '', ''"
      using buf_write_ok [of "length (join ps)" "'', ''" buf "join ps"] buf room by auto
    obtain b2 where "buf_write b1 (length (join ps) + 2) p = Inr b2" "length b2 = n"
        "take (length (join ps) + 2 + length p) b2 = join ps @ '', '' @ p"
      using buf_write_ok [of "length (join ps) + 2" p b1] b1 room by auto
    moreover from this b1 ne have "stats_put (buf, length (join ps)) p = Inr (b2, length (join ps) + 2 + length p)"
      by (simp add: stats_put_def)
    ultimately show ?thesis
      using buf(1) False by (simp add: join_snoc add.assoc)
  qed
qed

lemma stats_fill_ok:
  assumes "[] \<notin> set ps"
  shows "\<exists>rest. stats_fill ps = Inr (join ps @ CHR 0x00 # rest)"
proof -
  have lt: "sum_list (map (\<lambda>p. 2 + length p) ps) < stats_len ps"
    by (simp add: stats_len_def)
  obtain buf where buf: "fold_result stats_put (replicate (stats_len ps) CHR 0x00, 0) ps = Inr (buf, length (join ps))"
      "length buf = stats_len ps" "take (length (join ps)) buf = join ps"
    using stats_loop [OF assms lt] by auto
  obtain b where b: "buf_write buf (length (join ps)) [CHR 0x00] = Inr b"
      "take (length (join ps) + 1) b = join ps @ [CHR 0x00]"
    using buf_write_ok [of "length (join ps)" "[CHR 0x00]" buf "join ps"] buf(2,3) join_length [of ps] lt by auto
  have "b = join ps @ [CHR 0x00] @ drop (length (join ps) + 1) b"
    using b(2) by (metis append.assoc append_take_drop_id)
  with buf(1) b(1) show ?thesis
    by (simp add: stats_fill_def) metis
qed

text \<open>\<open>mem_pool_hex\<close> always writes one byte more than it allocated.\<close>

lemma buf_writes_length:
  "fold_result (\<lambda>buf i. buf_write buf (f i) (g i)) b xs = Inr b' \<Longrightarrow> length b' = length b"
proof (induction xs arbitrary: b)
  case (Cons x xs)
  from Cons.prems obtain b1 where b1: "buf_write b (f x) (g x) = Inr b1"
      "fold_result (\<lambda>buf i. buf_write buf (f i) (g i)) b1 xs = Inr b'"
    by (auto simp: rbind_eq_Inr)
  have "length b1 = length b"
    using b1(1) by (auto simp: buf_write_def split: if_splits)
  with Cons.IH [OF b1(2)] show ?case
    by simp
qed simp

lemma buf_writes_fault:
  "fold_result (\<lambda>buf i. buf_write buf (f i) (g i)) b xs = Inl e \<Longrightarrow> e = BadAccess"
proof (induction xs arbitrary: b)
  case (Cons x xs)
  from Cons.prems consider "buf_write b (f x) (g x) = Inl e"
    | b1 where "fold_result (\<lambda>buf i. buf_write buf (f i) (g i)) b1 xs = Inl e"
    by (auto simp: rbind_eq_Inl)
  then show ?case
  proof cases
    case 1
    then show ?thesis by (auto simp: buf_write_def split: if_splits)
  next
    case 2
    then show ?thesis by (rule Cons.IH)
  qed
qed simp

lemma hex_fill_overruns: "hex_fill bs (replicate (3 * length bs) c) = Inl BadAccess"
proof -
  let ?step = "\<lambda>buf i. buf_write buf (3 * i) (hex_item i (bs ! i))"
  show ?thesis
  proof (cases bs rule: rev_cases)
    case Nil
    then show ?thesis by (simp add: hex_fill_def buf_write_def)
  next
    case (snoc xs x)
    let ?n = "length xs"
    have up: "[0..<length bs] = [0..<?n] @ [?n]"
      by (simp add: snoc)
    have "fold_result ?step (replicate (3 * length bs) c) [0..<length bs] = Inl BadAccess"
    proof (cases "fold_result ?step (replicate (3 * length bs) c) [0..<?n]")
      case (Inl e)
      then show ?thesis
        using buf_writes_fault [OF Inl] by (simp only: up fold_result_append rbind_Inl)
    next
      case (Inr b)
      from buf_writes_length [OF Inr] have "buf_write b (3 * ?n) (hex_item ?n (bs ! ?n)) = Inl BadAccess"
        by (simp add: buf_write_def hex_item_def snoc)
      with Inr show ?thesis
        by (simp only: up fold_result_append fold_result.simps rbind_Inr rbind_Inl)
    qed
    then show ?thesis
      unfolding hex_fill_def by (simp only: rbind_Inl)
  qed
qed

subsection \<open>Clients of a pool\<close>

text \<open>What the rest of the program relies on: blocks handed out one after another share no
  byte with each other nor with the blocks already live.\<close>

locale allocator =
  fixes inv :: "'s \<Rightarrow> (nat \<times> nat) list \<Rightarrow> bool"
    and alloc :: "'s \<Rightarrow> nat \<Rightarrow> (nat \<times> 's) result"
    and limit :: nat
  assumes alloc_ok: "inv s bs \<Longrightarrow> n \<le> limit \<Longrightarrow> alloc s n = Inr (a, s') \<Longrightarrow> inv s' ((a, n) # bs)"
    and inv_apart: "inv s bs \<Longrightarrow> apart bs"
    and inv_aligned: "inv s bs \<Longrightarrow> b \<in> set bs \<Longrightarrow> 8 dvd fst b"
begin

lemma alloc_many:
  assumes "inv s bs" and "\<forall>n \<in> set ns. n \<le> limit"
    and "fold_result (\<lambda>(s, out) n. rbind (alloc s n) (\<lambda>(a, s'). Inr (s', (a, n) # out))) (s, bs) ns = Inr (s', out)"
  shows "inv s' out" and "apart out" and "\<forall>b \<in> set out. 8 dvd fst b" and "map snd out = rev ns @ map snd bs"
proof -
  have "inv s' out \<and> map snd out = rev ns @ map snd bs"
    using assms
  proof (induction ns arbitrary: s bs)
    case (Cons n ns)
    from Cons.prems(3) obtain a s1 where a: "alloc s n = Inr (a, s1)"
      and rest: "fold_result (\<lambda>(s, out) n. rbind (alloc s n) (\<lambda>(a, s'). Inr (s', (a, n) # out))) (s1, (a, n) # bs) ns = Inr (s', out)"
      by (auto simp: rbind_eq_Inr)
    have "inv s1 ((a, n) # bs)"
      using alloc_ok [OF Cons.prems(1) _ a] Cons.prems(2) by simp
    from Cons.IH [OF this _ rest] Cons.prems(2) show ?case
      by simp
  qed simp
  then show "inv s' out" "map snd out = rev ns @ map snd bs"
    by auto
  then show "apart out" "\<forall>b \<in> set out. 8 dvd fst b"
    using inv_apart inv_aligned by blast+
qed

end

definition pool_live :: "nat \<Rightarrow> mmap_fun \<Rightarrow> nat \<Rightarrow> memsys \<Rightarrow> (nat \<times> nat) list \<Rightarrow> bool" where
  "pool_live P mmap pool sys bs \<longleftrightarrow> unit_ok P \<and> mmap_fresh P mmap \<and> pool \<in> set (pools sys) \<and>
     (\<exists>live. mem_inv P sys live \<and> live pool = bs)"

lemma pool_live_inv: "pool_live P mmap pool sys bs \<Longrightarrow> pool_inv P pool (mp sys pool) bs"
  by (auto simp: pool_live_def mem_inv_def)

interpretation ma: allocator "pool_live P mmap pool" "\<lambda>sys. mem_pool_alloc P mmap sys pool" "2 ^ 63"
  for P mmap pool
proof
  fix s bs n a s'
  assume inv: "pool_live P mmap pool s bs" and n: "n \<le> 2 ^ 63" and a: "mem_pool_alloc P mmap s pool n = Inr (a, s')"
  from inv obtain live where l: "unit_ok P" "mmap_fresh P mmap" "mem_inv P s live" "pool \<in> set (pools s)" "live pool = bs"
    by (auto simp: pool_live_def)
  have "n + page_header + P \<le> size_wrap"
    using n l(1) by (simp add: unit_ok_def page_header_def size_wrap_def)
  from mem_pool_alloc_inv [OF l(1-4) this a] l show "pool_live P mmap pool s' ((a, n) # bs)"
    by (auto simp: pool_live_def intro!: exI [of _ "live(pool := (a, n) # bs)"])
next
  fix s bs
  assume "pool_live P mmap pool s bs"
  from pool_live_inv [OF this] have "apart (control pool (mp s pool) # (pos (mp s pool), available (mp s pool)) # bs)"
    by (auto simp: pool_inv_def)
  then show "apart bs"
    by (rule apart_mono) simp
next
  fix s bs b
  assume "pool_live P mmap pool s bs" "b \<in> set bs"
  with pool_live_inv show "8 dvd fst b"
    by (auto simp: pool_inv_def)
qed

subsection \<open>Every history of the pools\<close>

definition memsys_start :: memsys where
  "memsys_start = \<lparr>page_cache = [], pools = [],
     mp = (\<lambda>_. \<lparr>ppages = [], pos = 0, available = 0, pool_index = 0, used = 0, allocated = 0, requests = 0, pname = []\<rparr>),
     mapped = []\<rparr>"

inductive mem_reach :: "nat \<Rightarrow> mmap_fun \<Rightarrow> memsys \<Rightarrow> (nat \<Rightarrow> (nat \<times> nat) list) \<Rightarrow> bool" for P mmap where
  start: "mem_reach P mmap memsys_start (\<lambda>_. [])"
| create: "mem_reach P mmap sys live \<Longrightarrow> mem_pool_create P mmap sys name = Inr (pool, sys') \<Longrightarrow>
     mem_reach P mmap sys' (live(pool := []))"
| alloc: "mem_reach P mmap sys live \<Longrightarrow> pool \<in> set (pools sys) \<Longrightarrow> n \<le> 2 ^ 63 \<Longrightarrow>
     mem_pool_alloc P mmap sys pool n = Inr (a, sys') \<Longrightarrow> mem_reach P mmap sys' (live(pool := (a, n) # live pool))"
| reset: "mem_reach P mmap sys live \<Longrightarrow> pool \<in> set (pools sys) \<Longrightarrow> mem_pool_reset P sys pool = Inr sys' \<Longrightarrow>
     mem_reach P mmap sys' (live(pool := []))"
| destroy: "mem_reach P mmap sys live \<Longrightarrow> pool \<in> set (pools sys) \<Longrightarrow> mem_pool_destroy P sys pool = Inr sys' \<Longrightarrow>
     mem_reach P mmap sys' live"

lemma alloc_limit: "unit_ok P \<Longrightarrow> n \<le> 2 ^ 63 \<Longrightarrow> n + page_header + P \<le> size_wrap"
  by (simp add: unit_ok_def page_header_def size_wrap_def)

lemma mem_reach_inv:
  assumes "mem_reach P mmap sys live" and "unit_ok P" and "mmap_fresh P mmap"
  shows "mem_inv P sys live"
  using assms
proof (induction rule: mem_reach.induct)
  case start
  then show ?case
    by (simp add: mem_inv_def sys_pages_def owned_def memsys_start_def apart_def)
next
  case (create sys live name pool sys')
  then show ?case
    using mem_pool_create_inv by blast
next
  case (alloc sys live pool n a sys')
  then show ?case
    using mem_pool_alloc_inv alloc_limit by blast
next
  case (reset sys live pool sys')
  then show ?case
    by (metis mem_pool_reset_inv sum.inject(2))
next
  case (destroy sys live pool sys')
  then show ?case
    by (metis mem_pool_destroy_inv sum.inject(2))
qed

lemma pool_cover:
  assumes "pool_inv P q m bs"
  shows "cover bs x \<le> cover (map pblock (ppages m)) x"
proof (cases "cover bs x = 0")
  case False
  then obtain b where b: "b \<in> set bs" "covers b x"
    unfolding cover_def by (auto simp: filter_empty_conv)
  obtain p where p: "p \<in> set (ppages m)" "within b p"
    using assms b(1) by (auto simp: pool_inv_def)
  then have "covers (pblock p) x"
    using b(2) by (auto simp: covers_def within_def pblock_def)
  then have "0 < cover (map pblock (ppages m)) x"
    using p(1) by (intro cover_pos [of "pblock p"]) auto
  moreover have "apart bs"
    using assms by (auto simp: pool_inv_def intro: apart_mono)
  then have "cover bs x \<le> 1"
    unfolding apart_def by blast
  ultimately show ?thesis
    by simp
qed simp

lemma mem_inv_apart:
  assumes "mem_inv P sys live"
  shows "apart (concat (map live (pools sys)))"
proof -
  have "cover (concat (map live qs)) x \<le> cover (map pblock (concat (map (\<lambda>q. ppages (mp sys q)) qs))) x"
    if "set qs \<subseteq> set (pools sys)" for qs x
    using that
  proof (induction qs)
    case (Cons q qs)
    moreover have "cover (live q) x \<le> cover (map pblock (ppages (mp sys q))) x"
      using Cons.prems assms by (intro pool_cover [of P q]) (auto simp: mem_inv_def)
    ultimately show ?case
      by simp
  qed simp
  then have "cover (concat (map live (pools sys))) x \<le> cover (map pblock (owned sys)) x" for x
    unfolding owned_def by blast
  moreover have "apart (map pblock (owned sys))"
    using assms sys_pages_apart by (auto simp: mem_inv_def)
  ultimately show ?thesis
    using apart_mono by blast
qed

text \<open>A kernel that always maps above everything mapped before.\<close>

definition mmap_bump :: "nat \<Rightarrow> mmap_fun" where
  "mmap_bump P ps n =
     (let a = P * (1 + sum_list (map (\<lambda>p. paddr p + psize p) ps)) in
      if a + n < size_wrap then Some a else None)"

lemma mmap_bump_fresh: "0 < P \<Longrightarrow> mmap_fresh P (mmap_bump P)"
proof -
  assume P: "0 < P"
  have end_le: "paddr p + psize p \<le> P * (1 + sum_list (map (\<lambda>p. paddr p + psize p) ps))" if "p \<in> set ps" for p ps
  proof -
    have "paddr p + psize p \<le> sum_list (map (\<lambda>p. paddr p + psize p) ps)"
      using that by (intro member_le_sum_list) auto
    also have "\<dots> \<le> P * (1 + sum_list (map (\<lambda>p. paddr p + psize p) ps))"
      using P by (cases P) auto
    finally show ?thesis .
  qed
  have "apart ((P * (1 + sum_list (map (\<lambda>p. paddr p + psize p) ps)), n) # map pblock ps)" (is "apart ((?a, n) # _)")
    if "apart (map pblock ps)" for ps n
    unfolding apart_def
  proof
    fix x
    show "cover ((?a, n) # map pblock ps) x \<le> 1"
    proof (cases "x < ?a")
      case True
      then show ?thesis
        using that by (auto simp: apart_def covers_def)
    next
      case False
      then have "\<not> covers (pblock p) x" if "p \<in> set ps" for p
        using end_le [OF that] by (simp add: covers_def pblock_def)
      then have "cover (map pblock ps) x = 0"
        by (auto simp: cover_def filter_empty_conv)
      then show ?thesis
        by simp
    qed
  qed
  then show ?thesis
    by (auto simp: mmap_fresh_def mmap_bump_def Let_def split: if_splits)
qed

lemma page_get_fault:
  "page_get P mmap sys n = Inl e \<Longrightarrow> e = Died \<and> (n = 0 \<or> mmap (mapped sys) n = None)"
  by (auto simp: page_get_def Let_def split: if_splits option.splits)

lemma mem_pool_alloc_total:
  assumes P: "unit_ok P" and fresh: "mmap_fresh P mmap" and inv: "mem_inv P sys live"
    and pool: "pool \<in> set (pools sys)" and n: "n \<le> 2 ^ 63" and ok: "mmap (mapped sys) (page_round P n) \<noteq> None"
  shows "\<exists>a sys'. mem_pool_alloc P mmap sys pool n = Inr (a, sys')"
proof -
  note round = page_round_spec [OF P alloc_limit [OF P n]]
  have sp: "sys_pages P sys (owned sys)"
    using inv by (simp add: mem_inv_def)
  have "page_round P n \<noteq> 0"
    using round(3) by (simp add: page_header_def)
  then obtain pg sys1 where g: "page_get P mmap sys (page_round P n) = Inr (pg, sys1)"
    using page_get_fault [of P mmap sys "page_round P n"] ok by (metis old.sum.exhaust surj_pair)
  then have pg: "sys_pages P sys1 (pg # owned sys)" "psize pg = page_round P n"
    using page_get_spec [OF sp fresh round(1,2) g] by auto
  have pok: "page_ok P pg" "paddr pg + psize pg < size_wrap"
    using sys_pages_ok [OF pg(1), of pg] by auto
  obtain k where k: "page_alloc (paddr pg + page_header) (psize pg - page_header) n =
        Inr (Some (paddr pg + page_header, paddr pg + page_header + k, psize pg - page_header - k))"
    using round(3) pg(2) page_alloc_spec [OF data_room [OF P pok], of n] by (metis le_diff_conv2 linorder_not_less add.commute le_add2 order_trans)
  show ?thesis
    by (rule page_alloc_spec [OF pool_room [OF inv pool], of n])
      (simp_all add: mem_pool_alloc_def Let_def g k)
qed

text \<open>An allocation touches no other pool's control structure.\<close>

lemma page_get_frame: "page_get P mmap sys n = Inr (pg, sys') \<Longrightarrow> pools sys' = pools sys \<and> mp sys' = mp sys"
  by (auto simp: page_get_def Let_def split: option.splits if_splits)

lemma mem_pool_alloc_frame:
  "mem_pool_alloc P mmap sys pool n = Inr (a, sys') \<Longrightarrow>
     pools sys' = pools sys \<and> (q \<noteq> pool \<longrightarrow> mp sys' q = mp sys q)"
  by (auto simp: mem_pool_alloc_def Let_def rbind_eq_Inr split: option.splits dest!: page_get_frame)

lemma stats_step_Pair:
  "stats_step P mmap tmp (s, parts) i =
     rbind (mem_pool_alloc P mmap s tmp (length (stats_item (mp s (pools s ! i))) + 1))
       (\<lambda>(_, s'). Inr (s', parts @ [stats_item (mp s (pools s ! i))]))"
  by (simp add: stats_step_def Let_def)

lemma stats_parts_fold:
  assumes "fold_result (stats_step P mmap tmp) (sys, ps) xs = Inr (sys', parts)"
  shows "\<exists>qs. parts = ps @ qs \<and> length qs = length xs \<and> [] \<notin> set qs \<and>
    (\<forall>k < length xs. pools sys ! (xs ! k) \<noteq> tmp \<longrightarrow> qs ! k = stats_item (mp sys (pools sys ! (xs ! k))))"
  using assms
proof (induction xs arbitrary: sys ps)
  case (Cons x xs)
  let ?part = "stats_item (mp sys (pools sys ! x))"
  from Cons.prems obtain s1 a where p: "mem_pool_alloc P mmap sys tmp (length ?part + 1) = Inr (a, s1)"
    "fold_result (stats_step P mmap tmp) (s1, ps @ [?part]) xs = Inr (sys', parts)"
    by (auto simp: rbind_eq_Inr stats_step_Pair)
  obtain qs where "parts = (ps @ [?part]) @ qs" "length qs = length xs" "[] \<notin> set qs"
    "\<forall>k < length xs. pools s1 ! (xs ! k) \<noteq> tmp \<longrightarrow> qs ! k = stats_item (mp s1 (pools s1 ! (xs ! k)))"
    using Cons.IH [OF p(2)] by blast
  moreover have "?part \<noteq> []"
    by (simp add: stats_item_def)
  ultimately show ?case
    using mem_pool_alloc_frame [OF p(1)]
    by (intro exI [of _ "?part # qs"]) (auto simp: nth_Cons split: nat.splits)
qed simp

lemma example_pool:
  "\<exists>pool sys a sys'. mem_pool_create 4096 (mmap_bump 4096) memsys_start ''core'' = Inr (pool, sys) \<and>
     pool \<in> set (pools sys) \<and> mem_pool_alloc 4096 (mmap_bump 4096) sys pool 12 = Inr (a, sys')"
  by (simp add: mem_pool_create_def page_get_def page_alloc_def mmap_bump_def memsys_start_def
      page_header_def pool_header_def align_for_def size_wrap_def store_def Let_def mem_pool_alloc_def)

lemma example_unit: "unit_ok 4096"
  by (simp add: unit_ok_def page_header_def pool_header_def)

subsection \<open>Properties\<close>



text \<open>
  An allocation from a pool succeeds unless the kernel refuses the page it needs; none of
  the assertions of \<open>mem_pool_alloc\<close> and \<open>page_alloc\<close> can fail, and resetting and destroying a
  pool always succeed.
\<close>

theorem mem_pool_no_assertion_fails:
  assumes "mem_reach P mmap sys live" and "unit_ok P" and "mmap_fresh P mmap" and "pool \<in> set (pools sys)"
    and "n \<le> 2 ^ 63"
  shows "(mmap (mapped sys) (page_round P n) \<noteq> None \<longrightarrow> (\<exists>a sys'. mem_pool_alloc P mmap sys pool n = Inr (a, sys'))) \<and>
         (\<exists>sys'. mem_pool_reset P sys pool = Inr sys') \<and> (\<exists>sys'. mem_pool_destroy P sys pool = Inr sys')"
proof -
  note inv = mem_reach_inv [OF assms(1-3)]
  show ?thesis
    using mem_pool_alloc_total [OF assms(2,3) inv assms(4,5)] mem_pool_reset_inv [OF assms(2) inv assms(4)]
      mem_pool_destroy_inv [OF inv assms(4)] by blast
qed

theorem mem_pool_no_assertion_fails_witness:
  "\<exists>pool sys. mem_pool_create 4096 (mmap_bump 4096) memsys_start ''core'' = Inr (pool, sys) \<and>
     (\<exists>sys'. mem_pool_reset 4096 sys pool = Inr sys')"
proof -
  obtain pool sys where c: "mem_pool_create 4096 (mmap_bump 4096) memsys_start ''core'' = Inr (pool, sys)"
    and p: "pool \<in> set (pools sys)"
    using example_pool by blast
  from mem_pool_no_assertion_fails [OF mem_reach.create [OF mem_reach.start c] example_unit mmap_bump_fresh p, of 100] c
  show ?thesis
    by auto
qed

text \<open>
  \<open>mem_pool_hex\<close> writes outside of the block it allocated for every input, the empty one
  included: the terminator \<open>sprintf\<close> adds to the last byte lands one past the end.
\<close>

theorem mem_pool_hex_overruns:
  "mem_pool_alloc P mmap sys pool (3 * length bs) = Inr (a, sys') \<Longrightarrow>
     mem_pool_hex P mmap sys pool bs = Inl BadAccess"
  by (simp add: mem_pool_hex_def hex_fill_overruns)

theorem mem_pool_hex_overruns_witness:
  "\<exists>pool sys. mem_pool_create 4096 (mmap_bump 4096) memsys_start ''core'' = Inr (pool, sys) \<and>
     mem_pool_hex 4096 (mmap_bump 4096) sys pool [192, 168, 0, 1] = Inl BadAccess"
proof -
  obtain pool sys a sys' where c: "mem_pool_create 4096 (mmap_bump 4096) memsys_start ''core'' = Inr (pool, sys)"
    and a: "mem_pool_alloc 4096 (mmap_bump 4096) sys pool (3 * length [192, 168, 0, 1 :: byte]) = Inr (a, sys')"
    using example_pool by auto
  from c mem_pool_hex_overruns [OF a] show ?thesis
    by blast
qed

text \<open>
  when \<open>mem_pool_stats\<close> returns, its block holds the terminated text with one item per
  pool in the order of the registry, joined by commas, and the item of every pool but the
  temporary one shows the counters it had at the call; the copying never leaves the block,
  whatever the names and numbers.
\<close>

theorem mem_pool_stats_fits:
  assumes "mem_pool_stats P mmap sys tmp = Inr (a, buf, sys')"
  shows "\<exists>parts rest. buf = join parts @ CHR 0x00 # rest \<and> length parts = length (pools sys) \<and>
           (\<forall>k < length (pools sys). pools sys ! k \<noteq> tmp \<longrightarrow> parts ! k = stats_item (mp sys (pools sys ! k)))"
proof -
  from assms obtain a0 sys0 sys1 parts where
    s0: "mem_pool_alloc P mmap sys tmp (length (pools sys) * 8) = Inr (a0, sys0)"
    and parts: "fold_result (stats_step P mmap tmp) (sys0, []) [0..<length (pools sys0)] = Inr (sys1, parts)"
    and fill: "stats_fill parts = Inr buf"
    by (auto simp: mem_pool_stats_def rbind_eq_Inr)
  note f = mem_pool_alloc_frame [OF s0]
  have p: "length parts = length (pools sys)" "[] \<notin> set parts"
    "\<forall>k < length (pools sys). pools sys ! k \<noteq> tmp \<longrightarrow> parts ! k = stats_item (mp sys (pools sys ! k))"
    using stats_parts_fold [OF parts] f by auto
  obtain rest where "buf = join parts @ CHR 0x00 # rest"
    using stats_fill_ok [OF p(2)] fill by auto
  with p(1,3) show ?thesis
    by blast
qed

theorem mem_pool_stats_fits_witness:
  "\<exists>pool sys a buf sys'. mem_pool_create 4096 (mmap_bump 4096) memsys_start ''core'' = Inr (pool, sys) \<and>
     mem_pool_stats 4096 (mmap_bump 4096) sys pool = Inr (a, buf, sys') \<and>
     (\<exists>parts rest. buf = join parts @ CHR 0x00 # rest \<and> length parts = 1)"
proof -
  have "case mem_pool_create 4096 (mmap_bump 4096) memsys_start ''core'' of Inl _ \<Rightarrow> False
        | Inr (pool, sys) \<Rightarrow> length (pools sys) = 1 \<and>
            (case mem_pool_stats 4096 (mmap_bump 4096) sys pool of Inl _ \<Rightarrow> False | Inr _ \<Rightarrow> True)"
    by (simp add: mem_pool_create_def page_get_def page_alloc_def mmap_bump_def memsys_start_def
        page_header_def pool_header_def align_for_def size_wrap_def store_def Let_def mem_pool_alloc_def
        mem_pool_stats_def stats_step_Pair stats_item_def dec.simps stats_len_def stats_fill_def stats_put_def
        buf_write_def)
  then obtain pool sys a buf sys' where c: "mem_pool_create 4096 (mmap_bump 4096) memsys_start ''core'' = Inr (pool, sys)"
    and l: "length (pools sys) = 1" and st: "mem_pool_stats 4096 (mmap_bump 4096) sys pool = Inr (a, buf, sys')"
    by (auto split: sum.splits) (metis obj_sumE prod_cases3)+
  from mem_pool_stats_fits [OF st] l c st show ?thesis
    by metis
qed

end
