(* ===== verification/Packet.thy ===== *)
theory Packet
  imports Prelude
begin

text \<open>
  The packet parser of \<open>core/packet.c\<close>. A packet is the list of its layers, the outermost
  first: the tail stands for the chain of \<open>next\<close> pointers. A pointer into the captured data is
  the rest of the buffer from there on, so a read past the end of the capture is a fault, and
  \<open>plength\<close>, the length the code computes, is kept apart from it. The length is a \<open>size_t\<close> as a
  \<open>nat\<close>; the one subtraction that can wrap is written out. Memory fresh from the pool holds
  arbitrary values, the parameter \<open>junk\<close>. The recursion into encapsulated packets need not
  end, so it takes fuel, \<open>None\<close> when it runs out.
\<close>

datatype endpoint = END_SRC | END_DST | END_COUNT
datatype direction = DIR_IN | DIR_OUT | DIR_UNKNOWN | DIR_COUNT
datatype datalink = DLT_EN10MB | DLT_IEEE802 | DLT_RAW | DLT_LINUX_SLL | DLT_OTHER int

definition TCP_FIN :: byte where "TCP_FIN = 1"
definition TCP_SYN :: byte where "TCP_SYN = 2"
definition TCP_RESET :: byte where "TCP_RESET = 4"
definition TCP_PUSH :: byte where "TCP_PUSH = 8"
definition TCP_ACK :: byte where "TCP_ACK = 16"
definition TCP_URG :: byte where "TCP_URG = 32"

record packet_info =
  plength :: nat
  pdata :: bytes
  interface :: string
  hdr_length :: nat
  timestamp :: u64
  addr_src :: "bytes option"
  addr_dst :: "bytes option"
  port_src :: u16
  port_dst :: u16
  layer :: char
  layer_raw :: datalink
  ip_protocol :: byte
  app_protocol :: char
  app_protocol_raw :: byte
  addr_len :: byte
  pdirection :: direction
  tcp_flags :: byte
  vlan_tag :: u16

type_synonym packet = "packet_info list"

fun local_endpoint :: "direction \<Rightarrow> endpoint" where
  "local_endpoint DIR_OUT = END_SRC"
| "local_endpoint DIR_IN = END_DST"
| "local_endpoint _ = END_COUNT"

fun remote_endpoint :: "direction \<Rightarrow> endpoint" where
  "remote_endpoint DIR_IN = END_SRC"
| "remote_endpoint DIR_OUT = END_DST"
| "remote_endpoint _ = END_COUNT"

text \<open>The data a packet holds for one endpoint.\<close>

fun port_of :: "packet_info \<Rightarrow> endpoint \<Rightarrow> u16" where
  "port_of p END_SRC = port_src p"
| "port_of p END_DST = port_dst p"
| "port_of p END_COUNT = 0"

fun address_of :: "packet_info \<Rightarrow> endpoint \<Rightarrow> bytes option" where
  "address_of p END_SRC = addr_src p"
| "address_of p END_DST = addr_dst p"
| "address_of p END_COUNT = None"

text \<open>The first \<open>addr_len\<close> bytes behind the pointer.\<close>

definition address_bytes :: "packet_info \<Rightarrow> endpoint \<Rightarrow> bytes result" where
  "address_bytes p ep =
     (case address_of p ep of
        None \<Rightarrow> if addr_len p = 0 then Inr [] else Inl BadAccess
      | Some bs \<Rightarrow> if unat (addr_len p) \<le> length bs then Inr (take (unat (addr_len p)) bs) else Inl BadAccess)"

definition NUL :: char where "NUL = CHR 0x00"

text \<open>Reads of the captured data.\<close>

definition rd8 :: "bytes \<Rightarrow> nat \<Rightarrow> byte result" where
  "rd8 buf off = (if off < length buf then Inr (buf ! off) else Inl BadAccess)"

definition rd16 :: "bytes \<Rightarrow> nat \<Rightarrow> u16 result" where
  "rd16 buf off = (if off + 2 \<le> length buf then Inr (get16 (drop off buf)) else Inl BadAccess)"

definition size_sub :: "nat \<Rightarrow> nat \<Rightarrow> nat" where
  "size_sub a b = (if b \<le> a then a - b else 2 ^ 64 + a - b)"

subsection \<open>The IP layer\<close>

text \<open>The part of \<open>parse_internal\<close> below the IP header; \<open>uc\<close> is the recursive call.\<close>

definition parse_below ::
  "(packet_info \<Rightarrow> packet result option) \<Rightarrow> packet_info \<Rightarrow> packet_info \<Rightarrow> packet result option" where
  "parse_below uc junk p0 =
     (let below_ip = drop (hdr_length p0) (pdata p0);
          length_rest = size_sub (plength p0) (hdr_length p0);
          p = p0\<lparr>app_protocol := CHR ''?''\<rparr>;
          ports = (\<lambda>p. rbind (rd16 below_ip 0) (\<lambda>sp. rbind (rd16 below_ip 2) (\<lambda>dp.
                     Inr [p\<lparr>port_src := sp, port_dst := dp\<rparr>])))
      in if app_protocol_raw p = 1 then Some (Inr [p\<lparr>app_protocol := CHR ''i''\<rparr>])
         else if app_protocol_raw p = 4 \<or> app_protocol_raw p = 41 then
           (let p1 = p\<lparr>app_protocol := if app_protocol_raw p = 4 then CHR ''4'' else CHR ''6''\<rparr>;
                next = junk\<lparr>pdata := below_ip, plength := length_rest, interface := interface p,
                            pdirection := pdirection p, timestamp := timestamp p\<rparr>
            in map_option (\<lambda>r. rbind r (\<lambda>ls. Inr (p1 # ls))) (uc next))
         else if app_protocol_raw p = 6 then
           (if length_rest < 16 then Some (Inr [p])
            else Some (rbind (rd8 below_ip 12) (\<lambda>off. rbind (rd8 below_ip 13) (\<lambda>flags.
                   ports (p\<lparr>app_protocol := CHR ''T'', hdr_length := hdr_length p + 4 * (unat off div 16),
                            tcp_flags := flags\<rparr>)))))
         else if app_protocol_raw p = 17 then
           (let p1 = p\<lparr>app_protocol := CHR ''U''\<rparr>
            in if length_rest < 8 then Some (Inr [p1])
               else Some (ports (p1\<lparr>hdr_length := hdr_length p1 + 8\<rparr>)))
         else if app_protocol_raw p = 58 then Some (Inr [p\<lparr>app_protocol := CHR ''I''\<rparr>])
         else Some (Inr [p]))"

definition parse_internal ::
  "(packet_info \<Rightarrow> packet result option) \<Rightarrow> packet_info \<Rightarrow> packet_info \<Rightarrow> packet result option" where
  "parse_internal uc junk packet =
     (let p = packet\<lparr>app_protocol_raw := 255\<rparr> in
      if plength p < 20 then Some (Inr [p\<lparr>ip_protocol := 0\<rparr>])
      else case rd8 (pdata p) 0 of
        Inl e \<Rightarrow> Some (Inl e)
      | Inr b \<Rightarrow>
          (let p1 = p\<lparr>ip_protocol := word_of_nat (unat b div 16)\<rparr> in
           if unat b div 16 = 4 then
             (case rd8 (pdata p) 9 of
                Inl e \<Rightarrow> Some (Inl e)
              | Inr proto \<Rightarrow>
                  parse_below uc junk
                    (p1\<lparr>addr_src := Some (drop 12 (pdata p)), addr_dst := Some (drop 16 (pdata p)), addr_len := 4,
                        hdr_length := 4 * (unat b mod 16), app_protocol_raw := proto\<rparr>))
           else if unat b div 16 = 6 then
             (if plength p < 40 then Some (Inr [p1\<lparr>ip_protocol := 0\<rparr>])
              else case rd8 (pdata p) 6 of
                Inl e \<Rightarrow> Some (Inl e)
              | Inr proto \<Rightarrow>
                  parse_below uc junk
                    (p1\<lparr>addr_src := Some (drop 8 (pdata p)), addr_dst := Some (drop 24 (pdata p)), addr_len := 16,
                        hdr_length := 40, app_protocol_raw := proto\<rparr>))
           else Some (Inr [p1])))"

text \<open>\<open>postprocess\<close>: the packet and the packets inside it; dropping the tail is \<open>next = NULL\<close>.\<close>

definition postprocess :: "packet \<Rightarrow> packet" where
  "postprocess ps =
     (case ps of
        [] \<Rightarrow> []
      | p # rest \<Rightarrow>
          (let p1 = (if ip_protocol p = 4 \<or> ip_protocol p = 6 then p
                     else p\<lparr>addr_src := None, addr_dst := None, addr_len := 0, app_protocol := NUL\<rparr>);
               p2 = (if app_protocol p1 = CHR ''T'' \<or> app_protocol p1 = CHR ''U'' then p1
                     else p1\<lparr>port_src := 0, port_dst := 0\<rparr>);
               rest2 = (if app_protocol p2 = CHR ''4'' \<or> app_protocol p2 = CHR ''6'' then rest else []);
               p3 = (if app_protocol p2 \<noteq> CHR ''T'' then p2\<lparr>tcp_flags := 0\<rparr> else p2);
               p4 = (if layer p3 \<noteq> CHR ''E'' then p3\<lparr>vlan_tag := 0\<rparr> else p3)
           in p4 # rest2))"

text \<open>\<open>uc_parse_packet\<close> with \<open>DLT_RAW\<close>, the recursive case.\<close>

fun parse_raw :: "nat \<Rightarrow> packet_info \<Rightarrow> packet_info \<Rightarrow> packet result option" where
  "parse_raw 0 junk p = None"
| "parse_raw (Suc fuel) junk p =
     map_option (\<lambda>r. rbind r (\<lambda>ls. Inr (postprocess ls)))
       (parse_internal (parse_raw fuel junk) junk (p\<lparr>layer_raw := DLT_RAW, layer := CHR ''I''\<rparr>))"

subsection \<open>The link layers\<close>

text \<open>The loop over stacked VLAN tags: \<open>None\<close> when the packet ends first, otherwise the number
  of bytes skipped and the type there.\<close>

function vlan_stack :: "bytes \<Rightarrow> nat \<Rightarrow> nat \<Rightarrow> u16 \<Rightarrow> (nat \<times> u16) option result" where
  "vlan_stack buf len skipped type =
     (if type = 0x88a8 \<or> type = 0x9100 then
        (if skipped + 4 + 2 \<ge> len then Inr None
         else rbind (rd16 buf (skipped + 4)) (\<lambda>type'. vlan_stack buf len (skipped + 4) type'))
      else Inr (Some (skipped, type)))"
  by pat_completeness auto
termination
  by (relation "measure (\<lambda>(buf, len, skipped, type). len - skipped)") auto

declare vlan_stack.simps [simp del]

definition ether_protocol :: "u16 \<Rightarrow> char option" where
  "ether_protocol type =
     (if type = 0x8035 then Some (CHR ''a'')
      else if type = 0x0806 then Some (CHR ''A'')
      else if type = 0x0842 then Some (CHR ''W'')
      else if type = 0x8137 \<or> type = 0x8138 then Some (CHR ''X'')
      else if type = 0x888E then Some (CHR ''E'')
      else if type = 0x8863 \<or> type = 0x8864 then Some (CHR ''P'')
      else None)"

definition parse_payload :: "nat \<Rightarrow> packet_info \<Rightarrow> packet_info \<Rightarrow> nat \<Rightarrow> packet result option" where
  "parse_payload fuel junk p at =
     (case rd16 (pdata p) at of
        Inl e \<Rightarrow> Some (Inl e)
      | Inr type \<Rightarrow>
          (let skipped = at + 2;
               next = \<lparr>plength = plength p - skipped, pdata = drop skipped (pdata p), interface = interface p,
                       hdr_length = 0, timestamp = timestamp p, addr_src = None, addr_dst = None,
                       port_src = 0, port_dst = 0, layer = CHR ''I'', layer_raw = DLT_OTHER 0, ip_protocol = 0,
                       app_protocol = CHR ''?'', app_protocol_raw = 0, addr_len = 0,
                       pdirection = pdirection p, tcp_flags = 0, vlan_tag = 0\<rparr>
           in if type < 0x0800 \<or> type = 0x0800 \<or> type = 0x86DD then
                map_option (\<lambda>r. rbind r (\<lambda>ls. Inr (p\<lparr>app_protocol := CHR ''I''\<rparr> # ls))) (parse_raw fuel junk next)
              else (case ether_protocol type of
                      Some c \<Rightarrow> Some (Inr [p\<lparr>app_protocol := c\<rparr>])
                    | None \<Rightarrow> Some (Inr [p]))))"

definition parse_type :: "nat \<Rightarrow> packet_info \<Rightarrow> packet_info \<Rightarrow> nat \<Rightarrow> packet result option" where
  "parse_type fuel junk p at =
     (case rbind (rd16 (pdata p) at) (\<lambda>type. vlan_stack (pdata p) (plength p) at type) of
        Inl e \<Rightarrow> Some (Inl e)
      | Inr None \<Rightarrow> Some (Inr [p])
      | Inr (Some (skipped, type)) \<Rightarrow>
          (if type = 0x8100 then
             (if skipped + 2 + 2 \<ge> plength p then Some (Inr [p])
              else case rd16 (pdata p) (skipped + 2) of
                Inl e \<Rightarrow> Some (Inl e)
              | Inr tag \<Rightarrow>
                  (let p1 = p\<lparr>vlan_tag := tag\<rparr> in
                   if skipped + 4 + 2 \<ge> plength p then Some (Inr [p1])
                   else parse_payload fuel junk p1 (skipped + 4)))
           else parse_payload fuel junk (p\<lparr>vlan_tag := 0\<rparr>) skipped))"

definition parse_ethernet :: "nat \<Rightarrow> packet_info \<Rightarrow> packet_info \<Rightarrow> packet result option" where
  "parse_ethernet fuel junk p =
     (if plength p < 14 then Some (Inr [p])
      else parse_type fuel junk
             (p\<lparr>addr_dst := Some (pdata p), addr_src := Some (drop 6 (pdata p)), addr_len := 6\<rparr>) 12)"

definition parse_cooked :: "nat \<Rightarrow> packet_info \<Rightarrow> packet_info \<Rightarrow> packet result option" where
  "parse_cooked fuel junk p =
     (if plength p < 16 then Some (Inr [p])
      else case rd16 (pdata p) 4 of
        Inl e \<Rightarrow> Some (Inl e)
      | Inr n \<Rightarrow>
          parse_type fuel junk
            (p\<lparr>addr_len := ucast n, addr_dst := None, addr_src := Some (drop 6 (pdata p))\<rparr>) 14)"

definition uc_parse_packet :: "nat \<Rightarrow> packet_info \<Rightarrow> packet_info \<Rightarrow> datalink \<Rightarrow> packet result option" where
  "uc_parse_packet fuel junk packet dl =
     (let p = packet\<lparr>layer_raw := dl\<rparr> in
      case dl of
        DLT_EN10MB \<Rightarrow> parse_ethernet fuel junk (p\<lparr>layer := CHR ''E''\<rparr>)
      | DLT_IEEE802 \<Rightarrow> parse_ethernet fuel junk (p\<lparr>layer := CHR ''E''\<rparr>)
      | DLT_RAW \<Rightarrow> parse_raw fuel junk p
      | DLT_LINUX_SLL \<Rightarrow> parse_cooked fuel junk (p\<lparr>layer := CHR ''S''\<rparr>)
      | DLT_OTHER n \<Rightarrow> Some (Inr [p\<lparr>layer := CHR ''?''\<rparr>]))"

subsection \<open>Captured packets\<close>

text \<open>What the capture callback of the loop hands to the parser.\<close>

definition captured :: "string \<Rightarrow> bool \<Rightarrow> u64 \<Rightarrow> u64 \<Rightarrow> bytes \<Rightarrow> packet_info" where
  "captured ifname in_dir tv_sec tv_usec bs =
     \<lparr>plength = length bs, pdata = bs, interface = ifname, hdr_length = 0,
      timestamp = 1000000 * tv_sec + tv_usec, addr_src = None, addr_dst = None, port_src = 0, port_dst = 0,
      layer = NUL, layer_raw = DLT_OTHER 0, ip_protocol = 0, app_protocol = NUL, app_protocol_raw = 0,
      addr_len = 0, pdirection = if in_dir then DIR_IN else DIR_OUT, tcp_flags = 0, vlan_tag = 0\<rparr>"

definition capture :: "packet_info \<Rightarrow> bool" where
  "capture p \<longleftrightarrow> plength p = length (pdata p)"

lemma captured_capture [simp]: "capture (captured i d s u bs)" "pdata (captured i d s u bs) = bs"
    "plength (captured i d s u bs) = length bs"
  by (simp_all add: captured_def capture_def)

text \<open>The header lengths the parser takes on trust: an IPv4 header is not empty and not longer
  than the packet, in the packet and in every packet encapsulated in it.\<close>

function ip_sane :: "bytes \<Rightarrow> bool" where
  "ip_sane buf =
     (if length buf < 20 then True
      else if unat (buf ! 0) div 16 = 4 then
        0 < unat (buf ! 0) mod 16 \<and> 4 * (unat (buf ! 0) mod 16) \<le> length buf \<and>
        (if (buf ! 9 = 4 \<or> buf ! 9 = 41) \<and> 0 < unat (buf ! 0) mod 16 then ip_sane (drop (4 * (unat (buf ! 0) mod 16)) buf) else True)
      else if unat (buf ! 0) div 16 = 6 \<and> 40 \<le> length buf \<and> (buf ! 6 = 4 \<or> buf ! 6 = 41)
        then ip_sane (drop 40 buf)
      else True)"
  by pat_completeness auto
termination
  by (relation "measure length") auto

declare ip_sane.simps [simp del]

text \<open>What \<open>packet.h\<close> promises of a layer after postprocessing.\<close>

definition tidy :: "packet_info \<Rightarrow> bool" where
  "tidy l \<longleftrightarrow> layer l = CHR ''I'' \<and> vlan_tag l = 0 \<and>
     (if ip_protocol l = 4 then addr_len l = 4 \<and> (\<exists>s d. addr_src l = Some s \<and> addr_dst l = Some d \<and> 4 \<le> length s \<and> 4 \<le> length d)
      else if ip_protocol l = 6 then addr_len l = 16 \<and> (\<exists>s d. addr_src l = Some s \<and> addr_dst l = Some d \<and> 16 \<le> length s \<and> 16 \<le> length d)
      else addr_len l = 0 \<and> addr_src l = None \<and> addr_dst l = None \<and> app_protocol l = NUL) \<and>
     (app_protocol l \<noteq> CHR ''T'' \<longrightarrow> tcp_flags l = 0 \<and>
        (app_protocol l \<noteq> CHR ''U'' \<longrightarrow> port_src l = 0 \<and> port_dst l = 0))"

definition encapsulates :: "packet_info \<Rightarrow> bool" where
  "encapsulates l \<longleftrightarrow> app_protocol l = CHR ''4'' \<or> app_protocol l = CHR ''6''"

text \<open>A chain of layers: exactly those that encapsulate have a next one.\<close>

fun tidy_chain :: "packet \<Rightarrow> bool" where
  "tidy_chain [] = False"
| "tidy_chain [l] = (tidy l \<and> \<not> encapsulates l)"
| "tidy_chain (l # ls) = (tidy l \<and> encapsulates l \<and> tidy_chain ls)"

lemma tidy_chain_Cons: "ls \<noteq> [] \<Longrightarrow> tidy_chain (l # ls) = (tidy l \<and> encapsulates l \<and> tidy_chain ls)"
  by (cases ls) simp_all

definition addressed :: "packet_info \<Rightarrow> bool" where
  "addressed l \<longleftrightarrow> layer l = CHR ''I'' \<and>
     (if ip_protocol l = 4 then addr_len l = 4 \<and> (\<exists>s d. addr_src l = Some s \<and> addr_dst l = Some d \<and> 4 \<le> length s \<and> 4 \<le> length d)
      else if ip_protocol l = 6 then addr_len l = 16 \<and> (\<exists>s d. addr_src l = Some s \<and> addr_dst l = Some d \<and> 16 \<le> length s \<and> 16 \<le> length d)
      else True)"

lemma postprocess_single:
  "addressed l \<Longrightarrow> \<not> encapsulates l \<or> \<not> (ip_protocol l = 4 \<or> ip_protocol l = 6) \<Longrightarrow> tidy_chain (postprocess [l])"
  by (auto simp: addressed_def tidy_def postprocess_def encapsulates_def NUL_def Let_def)

lemma postprocess_nested:
  "addressed l \<Longrightarrow> encapsulates l \<Longrightarrow> ip_protocol l = 4 \<or> ip_protocol l = 6 \<Longrightarrow> tidy_chain ls \<Longrightarrow>
     tidy_chain (postprocess (l # ls))"
  by (cases ls) (auto simp: addressed_def tidy_def postprocess_def encapsulates_def Let_def)

lemma parse_below_ok:
  assumes cap: "capture p" and hdr: "hdr_length p \<le> plength p" and a: "addressed p"
    and ip: "ip_protocol p = 4 \<or> ip_protocol p = 6"
    and uc: "\<And>q. app_protocol_raw p = 4 \<or> app_protocol_raw p = 41 \<Longrightarrow> capture q \<Longrightarrow> pdata q = drop (hdr_length p) (pdata p) \<Longrightarrow>
               \<exists>ls. uc q = Some (Inr ls) \<and> tidy_chain ls"
  shows "\<exists>ls. parse_below uc junk p = Some (Inr ls) \<and> tidy_chain (postprocess ls)"
proof -
  have rest: "size_sub (plength p) (hdr_length p) = length (drop (hdr_length p) (pdata p))"
    using cap hdr by (simp add: size_sub_def capture_def)
  have keep: "addressed (p\<lparr>app_protocol := c\<rparr>) = addressed p" "addressed (q\<lparr>port_src := x, port_dst := y\<rparr>) = addressed q"
    "addressed (q\<lparr>hdr_length := n\<rparr>) = addressed q" "addressed (q\<lparr>hdr_length := n, tcp_flags := f\<rparr>) = addressed q" for c q x y n f
    by (simp_all add: addressed_def)
  consider "app_protocol_raw p = 1" | "app_protocol_raw p = 4 \<or> app_protocol_raw p = 41" | "app_protocol_raw p = 6"
    | "app_protocol_raw p = 17" | "app_protocol_raw p \<notin> {1, 4, 41, 6, 17}"
    by blast
  then show ?thesis
  proof cases
    case 1
    then show ?thesis
      using a ip by (auto simp: parse_below_def Let_def encapsulates_def keep intro!: postprocess_single)
  next
    case 2
    let ?c = "if app_protocol_raw p = 4 then CHR ''4'' else CHR ''6''"
    obtain ls where "uc (junk\<lparr>pdata := drop (hdr_length p) (pdata p), plength := size_sub (plength p) (hdr_length p),
        interface := interface p, pdirection := pdirection p, timestamp := timestamp p\<rparr>) = Some (Inr ls)" "tidy_chain ls"
      using uc [OF 2, of "junk\<lparr>pdata := drop (hdr_length p) (pdata p), plength := size_sub (plength p) (hdr_length p),
        interface := interface p, pdirection := pdirection p, timestamp := timestamp p\<rparr>"] rest
      by (auto simp: capture_def)
    moreover have "tidy_chain (postprocess (p\<lparr>app_protocol := ?c\<rparr> # ls))" if "tidy_chain ls"
      using a ip that by (intro postprocess_nested) (auto simp: keep encapsulates_def)
    ultimately show ?thesis
      using 2 by (auto simp: parse_below_def Let_def)
  next
    case 3
    then show ?thesis
      using a ip rest by (auto simp: parse_below_def Let_def encapsulates_def keep rd8_def rd16_def intro!: postprocess_single)
  next
    case 4
    then show ?thesis
      using a ip rest by (auto simp: parse_below_def Let_def encapsulates_def keep rd8_def rd16_def intro!: postprocess_single)
  next
    case 5
    then show ?thesis
      using a ip by (auto simp: parse_below_def Let_def encapsulates_def keep intro!: postprocess_single)
  qed
qed

lemma rd8_ok: "off < length buf \<Longrightarrow> rd8 buf off = Inr (buf ! off)"
  by (simp add: rd8_def)

lemma parse_raw_ok:
  "capture p \<Longrightarrow> ip_sane (pdata p) \<Longrightarrow> length (pdata p) < fuel \<Longrightarrow>
     \<exists>ls. parse_raw fuel junk p = Some (Inr ls) \<and> tidy_chain ls"
proof (induction fuel arbitrary: p)
  case (Suc fuel)
  let ?p = "p\<lparr>layer_raw := DLT_RAW, layer := CHR ''I''\<rparr>"
  let ?buf = "pdata p" and ?uc = "parse_raw fuel junk"
  have cap: "plength p = length ?buf"
    using Suc.prems(1) by (simp add: capture_def)
  have "\<exists>ls. parse_internal ?uc junk ?p = Some (Inr ls) \<and> tidy_chain (postprocess ls)"
  proof (cases "length ?buf < 20")
    case True
    then show ?thesis
      using cap by (auto simp: parse_internal_def Let_def addressed_def intro!: postprocess_single)
  next
    case False
    then have b0: "rd8 ?buf 0 = Inr (?buf ! 0)" and b9: "rd8 ?buf 9 = Inr (?buf ! 9)"
      by (auto intro!: rd8_ok)
    let ?v = "unat (?buf ! 0) div 16"
    consider (v4) "?v = 4" | (v6) "?v = 6" | (other) "?v \<noteq> 4" "?v \<noteq> 6"
      by blast
    then show ?thesis
    proof cases
      case v4
      let ?h = "4 * (unat (?buf ! 0) mod 16)"
      let ?q = "?p\<lparr>app_protocol_raw := 255, ip_protocol := 4, addr_src := Some (drop 12 ?buf), addr_dst := Some (drop 16 ?buf),
                  addr_len := 4, hdr_length := ?h, app_protocol_raw := ?buf ! 9\<rparr>"
      have sane: "0 < unat (?buf ! 0) mod 16" "?h \<le> length ?buf"
        "?buf ! 9 = 4 \<or> ?buf ! 9 = 41 \<Longrightarrow> ip_sane (drop ?h ?buf)"
        using Suc.prems(2) v4 False by (auto simp: ip_sane.simps [of ?buf] split: if_splits)
      have "\<exists>ls. parse_below ?uc junk ?q = Some (Inr ls) \<and> tidy_chain (postprocess ls)"
      proof (rule parse_below_ok)
        fix q
        assume "app_protocol_raw ?q = 4 \<or> app_protocol_raw ?q = 41" "capture q" "pdata q = drop (hdr_length ?q) (pdata ?q)"
        then show "\<exists>ls. parse_raw fuel junk q = Some (Inr ls) \<and> tidy_chain ls"
          using sane Suc.prems(3) False by (intro Suc.IH) auto
      qed (use cap False sane in \<open>auto simp: capture_def addressed_def\<close>)
      then show ?thesis
        using False cap v4 b0 b9 by (simp add: parse_internal_def Let_def)
    next
      case v6
      show ?thesis
      proof (cases "length ?buf < 40")
        case True
        then show ?thesis
          using cap False v6 b0 by (auto simp: parse_internal_def Let_def addressed_def intro!: postprocess_single)
      next
        case long: False
        let ?q = "?p\<lparr>app_protocol_raw := 255, ip_protocol := 6, addr_src := Some (drop 8 ?buf), addr_dst := Some (drop 24 ?buf),
                  addr_len := 16, hdr_length := 40, app_protocol_raw := ?buf ! 6\<rparr>"
        have b6: "rd8 ?buf 6 = Inr (?buf ! 6)"
          using long by (auto intro!: rd8_ok)
        have sane: "?buf ! 6 = 4 \<or> ?buf ! 6 = 41 \<Longrightarrow> ip_sane (drop 40 ?buf)"
          using Suc.prems(2) v6 False long by (auto simp: ip_sane.simps [of ?buf] split: if_splits)
        have "\<exists>ls. parse_below ?uc junk ?q = Some (Inr ls) \<and> tidy_chain (postprocess ls)"
        proof (rule parse_below_ok)
          fix q
          assume "app_protocol_raw ?q = 4 \<or> app_protocol_raw ?q = 41" "capture q" "pdata q = drop (hdr_length ?q) (pdata ?q)"
          then show "\<exists>ls. parse_raw fuel junk q = Some (Inr ls) \<and> tidy_chain ls"
            using sane Suc.prems(3) long by (intro Suc.IH) auto
        qed (use cap long in \<open>auto simp: capture_def addressed_def\<close>)
        then show ?thesis
          using False cap v6 b0 b6 long by (simp add: parse_internal_def Let_def)
      qed
    next
      case other
      have "?v < 16"
        using unsigned_less [where ?'a = nat, of "?buf ! 0"] by simp
      then have "unat (word_of_nat ?v :: byte) = ?v"
        by (simp add: unat_of_nat)
      then have "(word_of_nat ?v :: byte) \<noteq> 4 \<and> (word_of_nat ?v :: byte) \<noteq> 6"
        using other by force
      then show ?thesis
        using cap False other b0 by (auto simp: parse_internal_def Let_def addressed_def intro!: postprocess_single)
    qed
  qed
  then show ?case
    by auto
qed simp

lemma vlan_stack_ok:
  "length buf = len \<Longrightarrow> skipped + 2 \<le> len \<Longrightarrow>
     \<exists>r. vlan_stack buf len skipped type = Inr r \<and>
       (\<forall>s t. r = Some (s, t) \<longrightarrow> skipped \<le> s \<and> s + 2 \<le> len)"
proof (induction buf len skipped type rule: vlan_stack.induct)
  case (1 buf len skipped type)
  show ?case
  proof (cases "(type = 0x88a8 \<or> type = 0x9100) \<and> skipped + 4 + 2 < len")
    case True
    then have r: "rd16 buf (skipped + 4) = Inr (get16 (drop (skipped + 4) buf))"
      using 1(2) by (simp add: rd16_def)
    have "\<exists>r. vlan_stack buf len (skipped + 4) (get16 (drop (skipped + 4) buf)) = Inr r \<and>
        (\<forall>s t. r = Some (s, t) \<longrightarrow> skipped + 4 \<le> s \<and> s + 2 \<le> len)"
      using True 1(2) by (intro 1(1)) (auto simp: r)
    then show ?thesis
      using True r by (subst vlan_stack.simps) fastforce
  next
    case False
    then show ?thesis
      using 1(3) by (subst vlan_stack.simps) auto
  qed
qed

text \<open>Where the IP header of a frame may start.\<close>

definition may_start_ip :: "datalink \<Rightarrow> nat \<Rightarrow> bool" where
  "may_start_ip dl k \<longleftrightarrow> (if dl = DLT_RAW then k = 0 else 14 \<le> k \<and> even k)"

lemma vlan_stack_even: "vlan_stack buf len skipped type = Inr (Some (s, t)) \<Longrightarrow> even skipped \<Longrightarrow> even s"
proof (induction buf len skipped type rule: vlan_stack.induct)
  case (1 buf len skipped type)
  show ?case
  proof (cases "type = 0x88a8 \<or> type = 0x9100")
    case True
    with 1(2) obtain t' where "skipped + 4 + 2 < len" "rd16 buf (skipped + 4) = Inr t'"
        "vlan_stack buf len (skipped + 4) t' = Inr (Some (s, t))"
      by (subst (asm) vlan_stack.simps) (auto simp: rbind_eq_Inr split: if_splits)
    with True 1 show ?thesis
      by (metis even_add even_numeral linorder_not_le)
  next
    case False
    with 1 show ?thesis
      by (subst (asm) vlan_stack.simps) auto
  qed
qed

lemma parse_payload_ok:
  assumes cap: "capture p" and at: "at + 2 \<le> plength p" and sane: "ip_sane (drop (at + 2) (pdata p))"
    and fuel: "length (pdata p) < fuel"
  shows "\<exists>l ls. parse_payload fuel junk p at = Some (Inr (l # ls)) \<and> layer l = layer p \<and> (ls = [] \<or> tidy_chain ls)"
proof -
  let ?next = "\<lparr>plength = plength p - (at + 2), pdata = drop (at + 2) (pdata p), interface = interface p,
                       hdr_length = 0, timestamp = timestamp p, addr_src = None, addr_dst = None,
                       port_src = 0, port_dst = 0, layer = CHR ''I'', layer_raw = DLT_OTHER 0, ip_protocol = 0,
                       app_protocol = CHR ''?'', app_protocol_raw = 0, addr_len = 0,
                       pdirection = pdirection p, tcp_flags = 0, vlan_tag = 0\<rparr>"
  obtain ls where "parse_raw fuel junk ?next = Some (Inr ls)" "tidy_chain ls"
    using parse_raw_ok [of ?next fuel junk] cap sane less_imp_diff_less [OF fuel, of "at + 2"] by (auto simp: capture_def)
  moreover have "rd16 (pdata p) at = Inr (get16 (drop at (pdata p)))"
    using cap at by (simp add: rd16_def capture_def)
  ultimately show ?thesis
    by (auto simp: parse_payload_def Let_def split: option.splits)
qed

lemma parse_type_ok:
  assumes cap: "capture p" and at: "at + 2 \<le> plength p" "12 \<le> at" "even at"
    and sane: "\<And>k. 14 \<le> k \<Longrightarrow> even k \<Longrightarrow> ip_sane (drop k (pdata p))" and fuel: "length (pdata p) < fuel"
  shows "\<exists>l ls. parse_type fuel junk p at = Some (Inr (l # ls)) \<and> layer l = layer p \<and> (ls = [] \<or> tidy_chain ls)"
proof -
  have len: "length (pdata p) = plength p"
    using cap by (simp add: capture_def)
  let ?t = "get16 (drop at (pdata p))"
  have rd: "rd16 (pdata p) k = Inr (get16 (drop k (pdata p)))" if "k + 2 \<le> plength p" for k
    using that len by (simp add: rd16_def)
  have pay: "\<exists>l ls. parse_payload fuel junk (p\<lparr>vlan_tag := v\<rparr>) k = Some (Inr (l # ls)) \<and> layer l = layer p \<and> (ls = [] \<or> tidy_chain ls)"
    if "k + 2 \<le> plength p" "12 \<le> k" "even k" for v k
    using that cap fuel sane [of "k + 2"] parse_payload_ok [of "p\<lparr>vlan_tag := v\<rparr>" k fuel junk] by (auto simp: capture_def)
  obtain r where r: "vlan_stack (pdata p) (plength p) at ?t = Inr r" "\<And>s t. r = Some (s, t) \<Longrightarrow> at \<le> s \<and> s + 2 \<le> plength p"
    using vlan_stack_ok [OF len at(1)] by blast
  show ?thesis
  proof (cases r)
    case None
    then show ?thesis
      using r(1) rd [OF at(1)] by (simp add: parse_type_def)
  next
    case (Some st)
    obtain k t where st: "st = (k, t)" by (cases st)
    have k: "at \<le> k" "k + 2 \<le> plength p" "even k"
      using r Some st vlan_stack_even [OF _ at(3)] by auto
    show ?thesis
    proof (cases "t = 0x8100 \<and> k + 2 + 2 < plength p \<and> k + 4 + 2 < plength p")
      case True
      then show ?thesis
        using r(1) rd [OF at(1)] rd [of "k + 2"] pay [of "k + 4" "get16 (drop (k + 2) (pdata p))"] k at Some st
        by (simp add: parse_type_def)
    next
      case False
      then show ?thesis
        using r(1) rd [OF at(1)] rd [of "k + 2"] pay [of k 0] k at Some st
        by (auto simp: parse_type_def Let_def)
    qed
  qed
qed

lemma parse_ethernet_ok:
  assumes "capture p" and "length (pdata p) < fuel" and "\<And>k. 14 \<le> k \<and> even k \<Longrightarrow> ip_sane (drop k (pdata p))"
  shows "\<exists>l ls. parse_ethernet fuel junk p = Some (Inr (l # ls)) \<and> (ls = [] \<or> tidy_chain ls)"
proof (cases "plength p < 14")
  case False
  let ?p = "p\<lparr>addr_dst := Some (pdata p), addr_src := Some (drop 6 (pdata p)), addr_len := 6\<rparr>"
  have "\<exists>l ls. parse_type fuel junk ?p 12 = Some (Inr (l # ls)) \<and> layer l = layer ?p \<and> (ls = [] \<or> tidy_chain ls)"
    using assms False by (intro parse_type_ok) (simp_all add: capture_def)
  with False show ?thesis
    unfolding parse_ethernet_def by auto
qed (simp add: parse_ethernet_def)

text \<open>An IPv4 packet with options that carries a TCP segment.\<close>

definition ipv4_head :: "nat \<Rightarrow> bytes \<Rightarrow> byte \<Rightarrow> bytes \<Rightarrow> bytes \<Rightarrow> bytes \<Rightarrow> bytes \<Rightarrow> bytes" where
  "ipv4_head ihl tos proto chk src dst opts = [word_of_nat (64 + ihl)] @ tos @ [proto] @ chk @ src @ dst @ opts"

definition tcp_segment :: "u16 \<Rightarrow> u16 \<Rightarrow> bytes \<Rightarrow> byte \<Rightarrow> byte \<Rightarrow> bytes \<Rightarrow> bytes" where
  "tcp_segment sp dp seqs off flags rest = put16 sp @ put16 dp @ seqs @ [off, flags] @ rest"

lemma ipv4_head_first: "ihl \<le> 15 \<Longrightarrow> unat (word_of_nat (64 + ihl) :: byte) = 64 + ihl"
  unfolding unat_of_nat by simp

lemma ipv4_head_fields:
  assumes "ihl \<le> 15" and "length tos = 8" and "length chk = 2" and "length src = 4" and "length dst = 4"
    and "length opts + 20 = 4 * ihl" and "h = ipv4_head ihl tos proto chk src dst opts"
  shows "length h = 4 * ihl" "20 \<le> length h" "unat ((h @ t) ! 0) div 16 = 4" "unat ((h @ t) ! 0) mod 16 = ihl" "(h @ t) ! 9 = proto"
    "take 4 (drop 12 (h @ t)) = src" "take 4 (drop 16 (h @ t)) = dst"
proof -
  show "length h = 4 * ihl" "20 \<le> length h" "(h @ t) ! 9 = proto"
    using assms by (simp_all add: ipv4_head_def nth_append nth_Cons')
  have "(h @ t) ! 0 = word_of_nat (64 + ihl)"
    by (simp add: assms(7) ipv4_head_def)
  then have u: "unat ((h @ t) ! 0) = 64 + ihl"
    by (simp only: ipv4_head_first [OF assms(1)])
  then show "unat ((h @ t) ! 0) div 16 = 4" "unat ((h @ t) ! 0) mod 16 = ihl"
    using assms(1) mod_mult_self1 [of ihl 4 16] by (auto simp: u add.commute [of 64] intro!: div_nat_eqI)
  have "h @ t = (word_of_nat (64 + ihl) # tos @ proto # chk) @ src @ dst @ opts @ t"
    "h @ t = (word_of_nat (64 + ihl) # tos @ proto # chk @ src) @ dst @ opts @ t"
    by (simp_all add: assms(7) ipv4_head_def)
  then show "take 4 (drop 12 (h @ t)) = src" "take 4 (drop 16 (h @ t)) = dst"
    using assms by (simp_all only:) simp_all
qed

lemma tcp_segment_fields:
  assumes "length seqs = 8" and "t = tcp_segment sp dp seqs off flags rest"
  shows "rd8 t 12 = Inr off" "rd8 t 13 = Inr flags" "rd16 t 0 = Inr sp" "rd16 t 2 = Inr dp" "14 + length rest = length t"
  using assms by (simp_all add: tcp_segment_def rd8_def rd16_def nth_append)

subsection \<open>Properties\<close>



text \<open>
  C14: an IPv4 packet carrying TCP is taken apart into exactly what was put together: the
  addresses, the ports in host order, the flags, and the length of both headers, whatever the
  IP options, the TCP options and the payload.
\<close>

theorem ipv4_tcp_roundtrip:
  assumes "ihl \<le> 15" and "length tos = 8" and "length chk = 2" and "length src = 4" and "length dst = 4"
    and "length opts + 20 = 4 * ihl" and "length seqs = 8" and "2 \<le> length rest"
    and "pdata p = ipv4_head ihl tos 6 chk src dst opts @ tcp_segment sp dp seqs off flags rest" and "capture p"
  shows "\<exists>l. parse_raw (Suc fuel) junk p = Some (Inr [l]) \<and> ip_protocol l = 4 \<and> app_protocol l = CHR ''T'' \<and>
           map_option (take 4) (addr_src l) = Some src \<and> map_option (take 4) (addr_dst l) = Some dst \<and> addr_len l = 4 \<and>
           port_src l = sp \<and> port_dst l = dp \<and> tcp_flags l = flags \<and> hdr_length l = 4 * ihl + 4 * (unat off div 16)"
proof -
  let ?h = "ipv4_head ihl tos 6 chk src dst opts" and ?t = "tcp_segment sp dp seqs off flags rest"
  note h = ipv4_head_fields(1,2) [where proto = 6, OF assms(1-6) refl]
    ipv4_head_fields(3-7) [where proto = 6 and t = ?t, OF assms(1-6) refl]
  note t = tcp_segment_fields [OF assms(7) refl [of ?t]]
  have len: "plength p = length ?h + length ?t"
    using assms(9,10) by (simp add: capture_def)
  have "rd8 (?h @ ?t) 0 = Inr ((?h @ ?t) ! 0)" "rd8 (?h @ ?t) 9 = Inr 6"
    using h(2,5) by (auto simp: rd8_def)
  moreover have "drop (4 * ihl) (?h @ ?t) = ?t" "size_sub (plength p) (4 * ihl) = length ?t"
    using h(1) len by (simp_all add: size_sub_def)
  ultimately show ?thesis
    using h t len assms(8,9)
    by (simp add: parse_internal_def parse_below_def postprocess_def Let_def)
qed

theorem ipv4_tcp_roundtrip_witness:
  "\<exists>l. parse_raw 1 (captured [] True 0 0 []) (captured ''eth0'' True 1 0
         (ipv4_head 5 (replicate 8 0) 6 [0, 0] [10, 0, 0, 1] [10, 0, 0, 2] [] @
          tcp_segment 1234 80 (replicate 8 0) 80 2 [0, 0])) = Some (Inr [l]) \<and>
       port_src l = 1234 \<and> port_dst l = 80 \<and> tcp_flags l = TCP_SYN"
  using ipv4_tcp_roundtrip [of 5 "replicate 8 0" "[0, 0]" "[10, 0, 0, 1]" "[10, 0, 0, 2]" "[]" "replicate 8 0" "[0, 0]"
        "captured ''eth0'' True 1 0 (ipv4_head 5 (replicate 8 0) 6 [0, 0] [10, 0, 0, 1] [10, 0, 0, 2] [] @
          tcp_segment 1234 80 (replicate 8 0) 80 2 [0, 0])" 1234 80 80 2 0 "captured [] True 0 0 []"]
  by (auto simp: TCP_SYN_def)

text \<open>
  C18: an IPv4 packet that states an empty header and protocol 4 is taken for a packet
  containing itself: the parser recurses without end (no amount of fuel is enough), taking
  memory from the pool at every step.
\<close>

theorem empty_header_never_ends:
  assumes "20 \<le> length buf" and "20 \<le> n" and "unat (buf ! 0) = 64" and "buf ! 9 = 4"
    and "plength p = n" and "pdata p = buf"
  shows "parse_raw fuel junk p = None"
  using assms(5,6)
proof (induction fuel arbitrary: p)
  case (Suc fuel)
  then show ?case
    using assms(1-4) by (auto simp: parse_internal_def parse_below_def rd8_def size_sub_def)
qed simp

theorem empty_header_never_ends_witness:
  "parse_raw 1000 (captured [] True 0 0 [])
     (captured ''eth0'' True 1 0 [64, 0, 0, 0, 0, 0, 0, 0, 0, 4, 0, 0, 0, 0, 0, 0, 0, 0, 0, 0]) = None"
  by (rule empty_header_never_ends [of _ 20]) simp_all

text \<open>
  an IPv4 packet that states a header longer than itself and protocol TCP makes the
  parser read ports and flags beyond the end of the capture: the subtraction that gives the
  rest of the length wraps around.
\<close>

theorem long_header_read_outside:
  assumes "20 \<le> length (pdata p)" and "length (pdata p) < 4 * (unat (pdata p ! 0) mod 16)"
    and "unat (pdata p ! 0) div 16 = 4" and "pdata p ! 9 = 6" and "capture p"
  shows "parse_raw (Suc fuel) junk p = Some (Inl BadAccess)"
proof -
  have "unat (pdata p ! 0) mod 16 < 16"
    by simp
  then have "\<not> size_sub (length (pdata p)) (4 * (unat (pdata p ! 0) mod 16)) < 16"
    using assms(2) unfolding size_sub_def by auto
  then show ?thesis
    using assms by (simp add: parse_internal_def parse_below_def rd8_def capture_def)
qed

theorem long_header_read_outside_witness:
  "parse_raw 1 (captured [] True 0 0 [])
     (captured ''eth0'' True 1 0 [79, 0, 0, 0, 0, 0, 0, 0, 0, 6, 0, 0, 10, 0, 0, 1, 10, 0, 0, 2]) = Some (Inl BadAccess)"
  using long_header_read_outside [of "captured ''eth0'' True 1 0 [79, 0, 0, 0, 0, 0, 0, 0, 0, 6, 0, 0, 10, 0, 0, 1, 10, 0, 0, 2]"
      0 "captured [] True 0 0 []"]
  by simp

end
