(* ===== verification/UplinkCodec.thy ===== *)
theory UplinkCodec
  imports Prelude
begin

text \<open>
  The encoding of messages in \<open>core/uplink.c\<close>: \<open>uplink_parse\<close> and \<open>uplink_render\<close>, which walk a
  format string, the helpers on top of them, and the framing of outgoing messages. A cursor
  and the length left behind it are one byte list when parsing; when rendering, the bytes
  written and the space left. The variadic arguments are a list of values; an argument list
  that does not fit the format is undefined behaviour of C and a fault here.
\<close>

datatype uvalue = UString bytes | UInt u32 | UBool bool | UChar byte

subsection \<open>Parsing\<close>

definition uplink_parse_string :: "bytes \<Rightarrow> (bytes \<times> bytes) option" where
  "uplink_parse_string buf =
     (if length buf < 4 then None
      else (let len = unat (get32 buf) in
            if length buf < len + 4 then None
            else Some (take len (drop 4 buf), drop (4 + len) buf)))"

text \<open>One step of the switch in \<open>uplink_parse\<close>.\<close>

definition parse_command :: "char \<Rightarrow> bytes \<Rightarrow> (uvalue \<times> bytes) result" where
  "parse_command c buf =
     (if c = CHR ''s'' then
        sanity (length buf \<ge> 4)
          (let len_wire = unat (get32 buf); rest = drop 4 buf in
           sanity (length rest \<ge> len_wire)
             (Inr (UString (take len_wire rest), drop len_wire rest)))
      else if c = CHR ''u'' then
        sanity (length buf \<ge> 4) (Inr (UInt (get32 buf), drop 4 buf))
      else if c = CHR ''b'' then
        sanity (buf \<noteq> []) (Inr (UBool (hd buf \<noteq> 0), tl buf))
      else if c = CHR ''c'' then
        sanity (buf \<noteq> []) (Inr (UChar (hd buf), tl buf))
      else Inl Sanity)"

fun uplink_parse :: "string \<Rightarrow> bytes \<Rightarrow> (uvalue list \<times> bytes) result" where
  "uplink_parse [] buf = Inr ([], buf)"
| "uplink_parse (c # format) buf =
     rbind (parse_command c buf) (\<lambda>(v, buf1).
       rbind (uplink_parse format buf1) (\<lambda>(vs, buf2). Inr (v # vs, buf2)))"

definition uplink_parse_uint32 :: "bytes \<Rightarrow> (u32 \<times> bytes) result" where
  "uplink_parse_uint32 buf =
     rbind (uplink_parse ''u'' buf) (\<lambda>(vs, rest).
       case vs of [UInt n] \<Rightarrow> Inr (n, rest) | _ \<Rightarrow> Inl BadAccess)"

subsection \<open>Rendering\<close>

text \<open>One step of the switch: the bytes written and the space left.\<close>

definition render_command :: "char \<Rightarrow> uvalue \<Rightarrow> nat \<Rightarrow> (bytes \<times> nat) result" where
  "render_command c v space =
     (if c = CHR ''s'' then
        (case v of
           UString s \<Rightarrow>
             sanity (space \<ge> 4)
               (sanity (space - 4 \<ge> length s)
                  (Inr (put32 (word_of_nat (length s)) @ s, space - 4 - length s)))
         | _ \<Rightarrow> Inl BadAccess)
      else if c = CHR ''u'' then
        (case v of UInt u \<Rightarrow> sanity (space \<ge> 4) (Inr (put32 u, space - 4)) | _ \<Rightarrow> Inl BadAccess)
      else if c = CHR ''b'' \<or> c = CHR ''c'' then
        (case v of
           UBool b \<Rightarrow> sanity (space \<noteq> 0) (Inr ([if b then 1 else 0], space - 1))
         | UChar x \<Rightarrow> sanity (space \<noteq> 0) (Inr ([x], space - 1))
         | _ \<Rightarrow> Inl BadAccess)
      else Inl Sanity)"

fun v_uplink_render :: "string \<Rightarrow> uvalue list \<Rightarrow> nat \<Rightarrow> (bytes \<times> nat) result" where
  "v_uplink_render [] args space = Inr ([], space)"
| "v_uplink_render (c # format) [] space = Inl BadAccess"
| "v_uplink_render (c # format) (v # args) space =
     rbind (render_command c v space) (\<lambda>(out, space1).
       rbind (v_uplink_render format args space1) (\<lambda>(out2, space2). Inr (out @ out2, space2)))"

definition uplink_render :: "string \<Rightarrow> uvalue list \<Rightarrow> nat \<Rightarrow> (bytes \<times> nat) result" where
  "uplink_render format args space = v_uplink_render format args space"

text \<open>The first pass of \<open>uplink_render_alloc\<close>.\<close>

fun render_size :: "string \<Rightarrow> uvalue list \<Rightarrow> nat result" where
  "render_size [] args = Inr 0"
| "render_size (c # format) [] = Inl BadAccess"
| "render_size (c # format) (v # args) =
     rbind (if c = CHR ''s'' then (case v of UString s \<Rightarrow> Inr (length s + 4) | _ \<Rightarrow> Inl BadAccess)
            else if c = CHR ''u'' then Inr 4
            else if c = CHR ''b'' \<or> c = CHR ''c'' then Inr 1
            else Inl Sanity)
       (\<lambda>n. rbind (render_size format args) (\<lambda>m. Inr (n + m)))"

text \<open>The rendered bytes and the length of the whole buffer, the extra space included.\<close>

definition uplink_render_alloc :: "nat \<Rightarrow> string \<Rightarrow> uvalue list \<Rightarrow> (bytes \<times> nat) result" where
  "uplink_render_alloc extra_space format args =
     rbind (render_size format args) (\<lambda>n.
       let l = extra_space + n in
       rbind (v_uplink_render format args l) (\<lambda>(out, left).
         sanity (left = extra_space) (Inr (out, l))))"

definition uplink_render_string :: "bytes \<Rightarrow> nat \<Rightarrow> (bytes \<times> nat) result" where
  "uplink_render_string str space = uplink_render ''s'' [UString str] space"

definition uplink_render_uint32 :: "u32 \<Rightarrow> nat \<Rightarrow> (bytes \<times> nat) result" where
  "uplink_render_uint32 v space = uplink_render ''u'' [UInt v] space"

subsection \<open>Framing\<close>

text \<open>What \<open>uplink_send_message\<close> hands to \<open>buffer_send\<close>: the head and the data.\<close>

definition message_bytes :: "byte \<Rightarrow> bytes \<Rightarrow> bytes" where
  "message_bytes type bs = put32 (word_of_nat (length bs + 1)) @ [type] @ bs"

text \<open>The payload of the routed message of a plugin: its name, then its data. The length is a
  \<open>uint32_t\<close>, and the copy of the data fits only while it does not wrap.\<close>

definition route_payload :: "bytes \<Rightarrow> bytes \<Rightarrow> bytes result" where
  "route_payload name bs =
     (let len = (4 + length name + length bs) mod 2 ^ 32 in
      rbind (uplink_render_string name len) (\<lambda>(out, space).
        if length bs \<le> space then Inr (out @ bs) else Inl BadAccess))"

subsection \<open>Round trips\<close>

definition fits :: "char \<Rightarrow> uvalue \<Rightarrow> bool" where
  "fits c v \<longleftrightarrow> (case v of
      UString s \<Rightarrow> c = CHR ''s'' \<and> length s < 2 ^ 32
    | UInt u \<Rightarrow> c = CHR ''u''
    | UBool b \<Rightarrow> c = CHR ''b''
    | UChar x \<Rightarrow> c = CHR ''c'')"

text \<open>The encoding as a function of the value alone.\<close>

fun encode :: "uvalue \<Rightarrow> bytes" where
  "encode (UString s) = put32 (word_of_nat (length s)) @ s"
| "encode (UInt u) = put32 u"
| "encode (UBool b) = [if b then 1 else 0]"
| "encode (UChar x) = [x]"

lemma render_command_fits:
  "fits c v \<Longrightarrow> render_command c v space =
     (if length (encode v) \<le> space then Inr (encode v, space - length (encode v)) else Inl Sanity)"
  by (cases v) (auto simp: fits_def render_command_def sanity_def)

lemma parse_command_encode: "fits c v \<Longrightarrow> parse_command c (encode v @ rest) = Inr (v, rest)"
  by (cases v) (auto simp: fits_def parse_command_def unat_of_nat Let_def)

lemma parse_encodes: "list_all2 fits format args \<Longrightarrow>
    uplink_parse format (concat (map encode args) @ rest) = Inr (args, rest)"
  by (induction rule: list_all2_induct) (simp_all add: parse_command_encode)

lemma render_encodes: "list_all2 fits format args \<Longrightarrow>
    v_uplink_render format args space =
      (if length (concat (map encode args)) \<le> space
       then Inr (concat (map encode args), space - length (concat (map encode args))) else Inl Sanity)"
proof (induction arbitrary: space rule: list_all2_induct)
  case (Cons c format v args)
  then show ?case
    by (auto simp: render_command_fits)
qed simp

lemma render_size_encodes: "list_all2 fits format args \<Longrightarrow>
    render_size format args = Inr (length (concat (map encode args)))"
proof (induction rule: list_all2_induct)
  case (Cons c format v args)
  then show ?case
    by (cases v) (simp_all add: fits_def)
qed simp

text \<open>What any successful parse consumed is what rendering the result gives, for values whose
  encoding is unique (a \<open>bool\<close> may come as any non-zero byte).\<close>

lemma parse_command_split:
  "parse_command c buf = Inr (v, rest) \<Longrightarrow> c \<noteq> CHR ''b'' \<Longrightarrow> buf = encode v @ rest \<and> fits c v"
proof -
  assume p: "parse_command c buf = Inr (v, rest)" and "c \<noteq> CHR ''b''"
  have g: "put32 (get32 buf) @ drop 4 buf = buf" if "4 \<le> length buf"
    using that put_get_id(2) [of "take 4 buf"] by (simp add: get32_def)
  have u: "unat (get32 buf) < 2 ^ 32"
    using unsigned_less [where ?'a = nat, of "get32 buf"] by simp
  have t: "take n (drop 4 buf) @ drop (n + 4) buf = drop 4 buf" for n
    by (metis append_take_drop_id drop_drop)
  show ?thesis
    using p \<open>c \<noteq> CHR ''b''\<close> g u t
    by (auto simp: parse_command_def Let_def result_simps fits_def min_def neq_Nil_conv split: if_splits)
qed

lemma parse_string_render:
  "length str < 2 ^ 32 \<Longrightarrow> uplink_parse_string (encode (UString str) @ rest) = Some (str, rest)"
  by (simp add: uplink_parse_string_def unat_of_nat Let_def)

lemma parse_uint32_render: "uplink_parse_uint32 (put32 n @ rest) = Inr (n, rest)"
  by (simp add: uplink_parse_uint32_def parse_command_def)

lemma uplink_parse_uint32_eq:
  "uplink_parse_uint32 buf = (if 4 \<le> length buf then Inr (get32 buf, drop 4 buf) else Inl Sanity)"
  by (simp add: uplink_parse_uint32_def parse_command_def)

lemma route_payload_ok:
  assumes "4 + length name + length bs < 2 ^ 32"
  shows "route_payload name bs = Inr (encode (UString name) @ bs)"
  using assms render_encodes [of "''s''" "[UString name]"]
  by (simp add: route_payload_def uplink_render_string_def uplink_render_def fits_def Let_def)

subsection \<open>Properties\<close>

text \<open>
  C11: rendering and parsing agree. For a format and matching arguments, \<open>uplink_render_alloc\<close>
  succeeds, allocates exactly the rendered bytes and the extra space, and \<open>uplink_parse\<close> with
  the same format gives back the arguments and stops exactly behind them, whatever follows.
\<close>

theorem uplink_render_parse_roundtrip:
  assumes "list_all2 fits format args"
  shows "\<exists>out. uplink_render_alloc extra format args = Inr (out, length out + extra) \<and>
           uplink_parse format (out @ rest) = Inr (args, rest)"
  using assms
  by (simp add: uplink_render_alloc_def render_size_encodes render_encodes parse_encodes Let_def)

theorem uplink_render_parse_roundtrip_witness:
  "\<exists>out. uplink_render_alloc 2 ''csu'' [UChar 85, UString [70, 108], UInt 7] = Inr (out, 13) \<and>
     uplink_parse ''csu'' (out @ [9]) = Inr ([UChar 85, UString [70, 108], UInt 7], [9])"
  using uplink_render_parse_roundtrip [of "''csu''" "[UChar 85, UString [70, 108], UInt 7]" 2 "[9]"]
  by (auto simp: fits_def uplink_render_alloc_def render_command_def)



end
