(* ===== verification/FlowFilter.thy ===== *)
theory FlowFilter
  imports DiffStore Packet UplinkCodec
begin

text \<open>
  The packet filters of the flow plugin, \<open>plugins/flow/filter.c\<close>. A filter is the record of the
  source with its sub-filters inside; the pointer to its type is the code of the type, from
  which the function and the parser follow as in the table \<open>types\<close>. A lookup in a trie moves
  nodes, so applying a filter returns the filter too. The parser takes fuel for its recursion,
  \<open>None\<close> when it runs out. Allocations from the pool are taken to succeed.
\<close>

datatype flow_filter =
  Filter (fcode: byte) (subfilters: "flow_filter list") (ftrie: "unit trie") (fstore: "diff_addr_store option")
    (faddress: bytes) (fmask: bytes) (fv6: bool)

subsection \<open>Applying a filter\<close>

definition trie_match :: "unit trie \<Rightarrow> bytes \<Rightarrow> (bool \<times> unit trie) result" where
  "trie_match t key = rbind (trie_lookup t key) (\<lambda>(t', d). Inr (d \<noteq> None, t'))"

definition filter_value_match :: "endian \<Rightarrow> packet_info \<Rightarrow> byte \<Rightarrow> unit trie \<Rightarrow> (bool \<times> unit trie) result" where
  "filter_value_match e p c t =
     sanity (layer p = CHR ''I'')
       (sanity (pdirection p = DIR_IN \<or> pdirection p = DIR_OUT)
          (let loc = local_endpoint (pdirection p); rem = remote_endpoint (pdirection p) in
           if c = code (CHR ''p'') then trie_match t (host16 e (port_of p loc))
           else if c = code (CHR ''P'') then trie_match t (host16 e (port_of p rem))
           else if c = code (CHR ''i'') then rbind (address_bytes p loc) (trie_match t)
           else if c = code (CHR ''I'') then rbind (address_bytes p rem) (trie_match t)
           else Inl Sanity))"

definition filter_differential :: "packet_info \<Rightarrow> byte \<Rightarrow> diff_addr_store option \<Rightarrow> (bool \<times> diff_addr_store option) result" where
  "filter_differential p c store =
     (let ep = (if c = code (CHR ''d'') then local_endpoint (pdirection p) else remote_endpoint (pdirection p)) in
      if ep = END_COUNT then Inr (False, store)
      else case store of
        None \<Rightarrow> Inl BadAccess
      | Some s \<Rightarrow>
          rbind (address_bytes p ep) (\<lambda>addr.
            rbind (trie_match (ds_trie s) addr) (\<lambda>(found, t).
              if found then Inr (True, Some (s\<lparr>ds_trie := t\<rparr>))
              else rbind (trie_match t (addr @ put16 (port_of p ep))) (\<lambda>(found, t).
                     Inr (found, Some (s\<lparr>ds_trie := t\<rparr>))))))"

text \<open>The comparison in 4-byte blocks; the conjunction and the equality of two such integers
  are those of their bytes, in either byte order.\<close>

definition block :: "nat \<Rightarrow> bytes \<Rightarrow> bytes" where
  "block i bs = take 4 (drop (4 * i) bs)"

definition blocks_match :: "nat \<Rightarrow> bytes \<Rightarrow> bytes \<Rightarrow> bytes \<Rightarrow> bool" where
  "blocks_match n addr fmsk expected \<longleftrightarrow>
     (\<forall>i \<in> set [0..<n]. map2 (AND) (block i addr) (block i fmsk) = block i expected)"

definition filter_range :: "packet_info \<Rightarrow> byte \<Rightarrow> bool \<Rightarrow> bytes \<Rightarrow> bytes \<Rightarrow> bool result" where
  "filter_range p c v6 address fmsk =
     (let ep = (if c = code (CHR ''r'') then local_endpoint (pdirection p) else remote_endpoint (pdirection p)) in
      if ep = END_COUNT then Inr False
      else if (v6 \<and> ip_protocol p \<noteq> 6) \<or> (\<not> v6 \<and> ip_protocol p \<noteq> 4) then Inr False
      else let alen = (if v6 then 16 else 4) in
        sanity (unat (addr_len p) = alen)
          (rbind (address_bytes p ep) (\<lambda>addr. Inr (blocks_match (alen div 4) addr fmsk address))))"

fun filter_apply :: "endian \<Rightarrow> packet_info \<Rightarrow> flow_filter \<Rightarrow> (bool \<times> flow_filter) result"
  and filter_and :: "endian \<Rightarrow> packet_info \<Rightarrow> flow_filter list \<Rightarrow> (bool \<times> flow_filter list) result"
  and filter_or :: "endian \<Rightarrow> packet_info \<Rightarrow> flow_filter list \<Rightarrow> (bool \<times> flow_filter list) result" where
  "filter_apply e p (Filter c subs t store address fmsk v6) =
     (if c = code (CHR ''T'') then Inr (True, Filter c subs t store address fmsk v6)
      else if c = code (CHR ''F'') then Inr (False, Filter c subs t store address fmsk v6)
      else if c = code (CHR ''!'') then
        (case subs of
           [] \<Rightarrow> Inl BadAccess
         | f # fs \<Rightarrow> rbind (filter_apply e p f) (\<lambda>(r, f'). Inr (\<not> r, Filter c (f' # fs) t store address fmsk v6)))
      else if c = code (CHR ''&'') then
        rbind (filter_and e p subs) (\<lambda>(r, subs'). Inr (r, Filter c subs' t store address fmsk v6))
      else if c = code (CHR ''|'') then
        rbind (filter_or e p subs) (\<lambda>(r, subs'). Inr (r, Filter c subs' t store address fmsk v6))
      else if c \<in> {code (CHR ''i''), code (CHR ''I''), code (CHR ''p''), code (CHR ''P'')} then
        rbind (filter_value_match e p c t) (\<lambda>(r, t'). Inr (r, Filter c subs t' store address fmsk v6))
      else if c \<in> {code (CHR ''d''), code (CHR ''D'')} then
        rbind (filter_differential p c store) (\<lambda>(r, store'). Inr (r, Filter c subs t store' address fmsk v6))
      else if c \<in> {code (CHR ''r''), code (CHR ''R'')} then
        rbind (filter_range p c v6 address fmsk) (\<lambda>r. Inr (r, Filter c subs t store address fmsk v6))
      else Inl BadAccess)"
| "filter_and e p [] = Inr (True, [])"
| "filter_and e p (f # fs) =
     rbind (filter_apply e p f) (\<lambda>(r, f').
       if \<not> r then Inr (False, f' # fs)
       else rbind (filter_and e p fs) (\<lambda>(r, fs'). Inr (r, f' # fs')))"
| "filter_or e p [] = Inr (False, [])"
| "filter_or e p (f # fs) =
     rbind (filter_apply e p f) (\<lambda>(r, f').
       if r then Inr (True, f' # fs)
       else rbind (filter_or e p fs) (\<lambda>(r, fs'). Inr (r, f' # fs')))"

subsection \<open>Parsing a filter\<close>

text \<open>A filter as \<open>memset\<close> and the type leave it before its parser runs.\<close>

definition blank :: "byte \<Rightarrow> flow_filter" where
  "blank c = Filter c [] trie_alloc None [] [] False"

fun parse_ips :: "nat \<Rightarrow> unit trie \<Rightarrow> bytes \<Rightarrow> (unit trie \<times> bytes) result" where
  "parse_ips 0 t buf = Inr (t, buf)"
| "parse_ips (Suc n) t buf =
     sanity (buf \<noteq> [])
       (let ip_size = unat (hd buf); rest = tl buf in
        sanity (length rest \<ge> ip_size)
          (rbind (trie_put t (take ip_size rest) (Some ())) (\<lambda>t'. parse_ips n t' (drop ip_size rest))))"

definition parse_ip_match :: "bytes \<Rightarrow> (unit trie \<times> bytes) result" where
  "parse_ip_match buf =
     sanity (length buf \<ge> 4) (parse_ips (unat (get32 buf)) trie_alloc (drop 4 buf))"

text \<open>The ports stay in the byte order of the wire.\<close>

fun parse_ports :: "nat \<Rightarrow> unit trie \<Rightarrow> bytes \<Rightarrow> (unit trie \<times> bytes) result" where
  "parse_ports 0 t buf = Inr (t, buf)"
| "parse_ports (Suc n) t buf =
     sanity (length buf \<ge> 2)
       (rbind (trie_put t (take 2 buf) (Some ())) (\<lambda>t'. parse_ports n t' (drop 2 buf)))"

definition parse_port_match :: "bytes \<Rightarrow> (unit trie \<times> bytes) result" where
  "parse_port_match buf =
     sanity (length buf \<ge> 2) (parse_ports (unat (get16 buf)) trie_alloc (drop 2 buf))"

definition parse_differential :: "bytes \<Rightarrow> (diff_addr_store \<times> bytes) result" where
  "parse_differential buf =
     (case uplink_parse_string buf of
        None \<Rightarrow> Inl Sanity
      | Some (name, rest) \<Rightarrow> Inr (diff_addr_store_init name, rest))"

definition middle_mask :: "nat \<Rightarrow> byte" where
  "middle_mask netmask = push_bit ((8 - netmask mod 8) mod 8) 255"

definition parse_range :: "bytes \<Rightarrow> (bool \<times> bytes \<times> bytes \<times> bytes) result" where
  "parse_range buf =
     sanity (length buf \<ge> 2)
       (let v6 = (buf ! 0 = 6); netmask = unat (buf ! 1); rest = drop 2 buf;
            alen = (if v6 then 16 else 4); prefix_len = (netmask + 7) div 8
        in sanity (prefix_len \<le> alen)
             (sanity (prefix_len \<le> length rest)
                (sanity (netmask \<noteq> 0)
                   (let middle = middle_mask netmask;
                        addr = take prefix_len rest @ replicate (alen - prefix_len) 0;
                        fmsk = replicate (prefix_len - 1) 255 @ [middle] @ replicate (alen - prefix_len) 0
                    in Inr (v6, addr[prefix_len - 1 := (addr ! (prefix_len - 1)) AND middle], fmsk,
                            drop prefix_len rest)))))"

fun parse_one :: "nat \<Rightarrow> bytes \<Rightarrow> (flow_filter \<times> bytes) result option"
  and parse_many :: "nat \<Rightarrow> nat \<Rightarrow> bytes \<Rightarrow> (flow_filter list \<times> bytes) result option" where
  "parse_one 0 buf = None"
| "parse_one (Suc fuel) buf =
     (if buf = [] then Some (Inl Sanity)
      else let c = hd buf; rest = tl buf in
        if c = code (CHR ''T'') \<or> c = code (CHR ''F'') then Some (Inr (blank c, rest))
        else if c = code (CHR ''!'') then
          map_option (\<lambda>r. rbind r (\<lambda>(fs, rest'). Inr (Filter c fs trie_alloc None [] [] False, rest')))
            (parse_many fuel 1 rest)
        else if c = code (CHR ''&'') \<or> c = code (CHR ''|'') then
          (if length rest < 4 then Some (Inl Sanity)
           else map_option (\<lambda>r. rbind r (\<lambda>(fs, rest'). Inr (Filter c fs trie_alloc None [] [] False, rest')))
                  (parse_many fuel (unat (get32 rest)) (drop 4 rest)))
        else if c = code (CHR ''i'') \<or> c = code (CHR ''I'') then
          Some (rbind (parse_ip_match rest) (\<lambda>(t, rest'). Inr (Filter c [] t None [] [] False, rest')))
        else if c = code (CHR ''p'') \<or> c = code (CHR ''P'') then
          Some (rbind (parse_port_match rest) (\<lambda>(t, rest'). Inr (Filter c [] t None [] [] False, rest')))
        else if c = code (CHR ''d'') \<or> c = code (CHR ''D'') then
          Some (rbind (parse_differential rest) (\<lambda>(s, rest'). Inr (Filter c [] trie_alloc (Some s) [] [] False, rest')))
        else if c = code (CHR ''r'') \<or> c = code (CHR ''R'') then
          Some (rbind (parse_range rest) (\<lambda>(v6, addr, fmsk, rest').
            Inr (Filter c [] trie_alloc None addr fmsk v6, rest')))
        else Some (Inl Sanity))"
| "parse_many fuel 0 buf = Some (Inr ([], buf))"
| "parse_many fuel (Suc n) buf =
     (case parse_one fuel buf of
        None \<Rightarrow> None
      | Some (Inl e) \<Rightarrow> Some (Inl e)
      | Some (Inr (f, rest)) \<Rightarrow>
          map_option (\<lambda>r. rbind r (\<lambda>(fs, rest'). Inr (f # fs, rest'))) (parse_many fuel n rest))"

text \<open>\<open>filter_parse\<close> checks for left-over data only where there is none.\<close>

definition filter_parse :: "nat \<Rightarrow> bytes \<Rightarrow> flow_filter result option" where
  "filter_parse fuel desc =
     (if desc \<noteq> [] then map_option (\<lambda>r. rbind r (\<lambda>(f, rest). Inr f)) (parse_one fuel desc)
      else map_option (\<lambda>r. rbind r (\<lambda>(f, rest). sanity (rest = []) (Inr f))) (parse_one fuel [code (CHR ''T'')]))"

subsection \<open>Updating differential filters\<close>

text \<open>Names are C strings: they end at the first zero byte.\<close>

fun filter_find :: "bytes \<Rightarrow> flow_filter \<Rightarrow> diff_addr_store option"
  and filter_find_list :: "bytes \<Rightarrow> flow_filter list \<Rightarrow> diff_addr_store option" where
  "filter_find name (Filter c subs t store address fmsk v6) =
     (case store of
        Some s \<Rightarrow> if cstring name = cstring (ds_name s) then Some s else filter_find_list name subs
      | None \<Rightarrow> filter_find_list name subs)"
| "filter_find_list name [] = None"
| "filter_find_list name (f # fs) =
     (case filter_find name f of Some s \<Rightarrow> Some s | None \<Rightarrow> filter_find_list name fs)"

text \<open>The found filter is updated in place: the same search, writing the store back.\<close>

fun filter_store :: "bytes \<Rightarrow> diff_addr_store \<Rightarrow> flow_filter \<Rightarrow> flow_filter"
  and filter_store_list :: "bytes \<Rightarrow> diff_addr_store \<Rightarrow> flow_filter list \<Rightarrow> flow_filter list" where
  "filter_store name new (Filter c subs t store address fmsk v6) =
     (case store of
        Some s \<Rightarrow>
          if cstring name = cstring (ds_name s) then Filter c subs t (Some new) address fmsk v6
          else Filter c (filter_store_list name new subs) t store address fmsk v6
      | None \<Rightarrow> Filter c (filter_store_list name new subs) t store address fmsk v6)"
| "filter_store_list name new [] = []"
| "filter_store_list name new (f # fs) =
     (if filter_find name f \<noteq> None then filter_store name new f # fs
      else f # filter_store_list name new fs)"

definition filter_action :: "flow_filter \<Rightarrow> bytes \<Rightarrow> u32 \<Rightarrow> u32 \<Rightarrow> diff_store_action \<times> u32 option" where
  "filter_action f name ep ver =
     (case filter_find name f of
        None \<Rightarrow> (DIFF_STORE_UNKNOWN, None)
      | Some s \<Rightarrow> diff_addr_store_action s ep ver)"

definition filter_diff_apply ::
  "flow_filter \<Rightarrow> bytes \<Rightarrow> bool \<Rightarrow> u32 \<Rightarrow> u32 \<Rightarrow> u32 \<Rightarrow> bytes \<Rightarrow> (flow_filter \<times> diff_store_action \<times> u32 option) result" where
  "filter_diff_apply f name full ep from to diff =
     (case filter_find name f of
        None \<Rightarrow> Inr (f, DIFF_STORE_UNKNOWN, None)
      | Some s \<Rightarrow>
          rbind (diff_addr_store_apply s full ep from to diff) (\<lambda>(s', act, orig).
            Inr (filter_store name s' f, act, orig)))"

subsection \<open>The meaning of a filter\<close>

definition marked :: "unit trie \<Rightarrow> bytes \<Rightarrow> bool" where
  "marked t key \<longleftrightarrow> slot_value t key \<noteq> None"

definition address_key :: "packet_info \<Rightarrow> endpoint \<Rightarrow> bytes" where
  "address_key p ep = (case address_of p ep of None \<Rightarrow> [] | Some bs \<Rightarrow> take (unat (addr_len p)) bs)"

text \<open>The packets the plugin filters: the IP layer of a packet with a known direction.\<close>

definition filterable :: "packet_info \<Rightarrow> bool" where
  "filterable p \<longleftrightarrow> tidy p \<and> (pdirection p = DIR_IN \<or> pdirection p = DIR_OUT) \<and> (ip_protocol p = 4 \<or> ip_protocol p = 6)"

fun fsem :: "endian \<Rightarrow> packet_info \<Rightarrow> flow_filter \<Rightarrow> bool" where
  "fsem e p (Filter c subs t store address fmsk v6) =
     (let loc = local_endpoint (pdirection p); rem = remote_endpoint (pdirection p) in
      if c = code (CHR ''T'') then True
      else if c = code (CHR ''F'') then False
      else if c = code (CHR ''!'') then \<not> (case subs of [] \<Rightarrow> False | f # fs \<Rightarrow> fsem e p f)
      else if c = code (CHR ''&'') then \<forall>f \<in> set subs. fsem e p f
      else if c = code (CHR ''|'') then \<exists>f \<in> set subs. fsem e p f
      else if c = code (CHR ''p'') then marked t (host16 e (port_of p loc))
      else if c = code (CHR ''P'') then marked t (host16 e (port_of p rem))
      else if c = code (CHR ''i'') then marked t (address_key p loc)
      else if c = code (CHR ''I'') then marked t (address_key p rem)
      else if c = code (CHR ''d'') \<or> c = code (CHR ''D'') then
        (let ep = (if c = code (CHR ''d'') then loc else rem) in
         ep \<noteq> END_COUNT \<and>
         (case store of None \<Rightarrow> False
          | Some s \<Rightarrow> address_key p ep \<in> members s \<or> address_key p ep @ put16 (port_of p ep) \<in> members s))
      else
        (let ep = (if c = code (CHR ''r'') then loc else rem) in
         ep \<noteq> END_COUNT \<and> ip_protocol p = (if v6 then 6 else 4) \<and>
         blocks_match ((if v6 then 16 else 4) div 4) (address_key p ep) fmsk address))"

definition filter_codes :: "byte set" where
  "filter_codes = code ` set ''TF!&|ipIPdDrR''"

fun wf_filter :: "flow_filter \<Rightarrow> bool" where
  "wf_filter (Filter c subs t store address fmsk v6) \<longleftrightarrow>
     c \<in> filter_codes \<and> (\<forall>f \<in> set subs. wf_filter f) \<and> trie_inv t \<and> (c = code (CHR ''!'') \<longrightarrow> subs \<noteq> []) \<and>
     (c = code (CHR ''d'') \<or> c = code (CHR ''D'') \<longrightarrow> store \<noteq> None) \<and> (\<forall>s. store = Some s \<longrightarrow> ds_inv s)"

lemma code_distinct [simp]: "code a = code b \<longleftrightarrow> a = b"
proof
  assume "code a = code b"
  then have "unat (code a) = unat (code b)"
    by simp
  moreover have "unat (code x) = of_char x" for x
    by (simp add: code_def unat_of_nat)
  ultimately have "of_char a = (of_char b :: nat)"
    by simp
  then show "a = b"
    by simp
qed simp

lemma trie_match_spec:
  "trie_inv t \<Longrightarrow> \<exists>t'. trie_match t key = Inr (marked t key, t') \<and> trie_inv t' \<and> trie_map t' = trie_map t"
  using trie_lookup_spec [of t key] by (auto simp: trie_match_def marked_def)

lemma marked_cong: "trie_map t' = trie_map t \<Longrightarrow> marked t' = marked t"
  by (simp add: fun_eq_iff marked_def slot_value_def)

lemma marked_members: "marked (ds_trie s) key \<longleftrightarrow> key \<in> members s"
  by (auto simp: marked_def slot_value_def members_def split: option.splits)

lemma filterable_address:
  "filterable p \<Longrightarrow> ep \<noteq> END_COUNT \<Longrightarrow> address_bytes p ep = Inr (address_key p ep)"
  by (cases ep) (auto simp: filterable_def tidy_def address_bytes_def address_key_def split: if_splits)

lemma filterable_endpoints:
  "filterable p \<Longrightarrow> local_endpoint (pdirection p) \<noteq> END_COUNT \<and> remote_endpoint (pdirection p) \<noteq> END_COUNT"
  by (auto simp: filterable_def)

lemma filterable_simps:
  "filterable p \<Longrightarrow> layer p = CHR ''I''" "filterable p \<Longrightarrow> pdirection p = DIR_IN \<or> pdirection p = DIR_OUT"
  "filterable p \<Longrightarrow> ip_protocol p = 4 \<Longrightarrow> unat (addr_len p) = 4"
  "filterable p \<Longrightarrow> ip_protocol p = 6 \<Longrightarrow> unat (addr_len p) = 16"
  by (auto simp: filterable_def tidy_def)

lemma ds_inv_trie: "ds_inv s \<Longrightarrow> trie_inv t \<Longrightarrow> trie_map t = trie_map (ds_trie s) \<Longrightarrow>
    ds_inv (s\<lparr>ds_trie := t\<rparr>) \<and> members (s\<lparr>ds_trie := t\<rparr>) = members s"
  by (simp add: ds_inv_def members_def)

text \<open>The three kinds of leaves.\<close>

lemma value_match_spec:
  assumes "filterable p" and "trie_inv t" and "c \<in> {code (CHR ''i''), code (CHR ''I''), code (CHR ''p''), code (CHR ''P'')}"
  shows "\<exists>t'. filter_value_match e p c t = Inr (fsem e p (Filter c subs t store address fmsk v6), t') \<and>
           trie_inv t' \<and> trie_map t' = trie_map t"
  using assms trie_match_spec [OF assms(2)] filterable_endpoints [OF assms(1)] filterable_simps(1,2) [OF assms(1)]
  by (auto simp: filter_value_match_def filterable_address Let_def)

lemma differential_spec:
  assumes "filterable p" and "ds_inv s" and "c \<in> {code (CHR ''d''), code (CHR ''D'')}"
  shows "\<exists>s'. filter_differential p c (Some s) = Inr (fsem e p (Filter c subs t (Some s) address fmsk v6), Some s') \<and>
           ds_inv s' \<and> members s' = members s"
proof -
  let ?ep = "if c = code (CHR ''d'') then local_endpoint (pdirection p) else remote_endpoint (pdirection p)"
  have ep: "?ep \<noteq> END_COUNT"
    using filterable_endpoints [OF assms(1)] by simp
  let ?k = "address_key p ?ep"
  have inv: "trie_inv (ds_trie s)"
    using assms(2) by (simp add: ds_inv_def)
  obtain t1 where t1: "trie_match (ds_trie s) ?k = Inr (?k \<in> members s, t1)" "trie_inv t1" "trie_map t1 = trie_map (ds_trie s)"
    using trie_match_spec [OF inv, of ?k] by (auto simp: marked_members)
  obtain t2 where t2: "trie_match t1 (?k @ put16 (port_of p ?ep)) = Inr (?k @ put16 (port_of p ?ep) \<in> members s, t2)"
      "trie_inv t2" "trie_map t2 = trie_map (ds_trie s)"
    using trie_match_spec [OF t1(2), of "?k @ put16 (port_of p ?ep)"] marked_cong [OF t1(3)] t1(3) by (auto simp: marked_members)
  have sem: "fsem e p (Filter c subs t (Some s) address fmsk v6) \<longleftrightarrow> ?k \<in> members s \<or> ?k @ put16 (port_of p ?ep) \<in> members s"
    using assms(3) ep by (auto simp: Let_def)
  show ?thesis
    unfolding sem using ep t1(1) t2(1) ds_inv_trie [OF assms(2) t1(2,3)] ds_inv_trie [OF assms(2) t2(2,3)]
    by (auto simp: filter_differential_def Let_def filterable_address [OF assms(1) ep])
qed

lemma range_spec:
  assumes "filterable p" and "c \<in> {code (CHR ''r''), code (CHR ''R'')}"
  shows "filter_range p c v6 address fmsk = Inr (fsem e p (Filter c subs t store address fmsk v6))"
  using assms(2) filterable_endpoints [OF assms(1)] filterable_simps [OF assms(1)]
  by (auto simp: filter_range_def Let_def filterable_address [OF assms(1)])

definition same_meaning :: "endian \<Rightarrow> flow_filter \<Rightarrow> flow_filter \<Rightarrow> bool" where
  "same_meaning e f f' \<longleftrightarrow> wf_filter f' \<and> (\<forall>q. fsem e q f' = fsem e q f)"

lemma same_meaning_refl: "wf_filter f \<Longrightarrow> same_meaning e f f"
  by (simp add: same_meaning_def)

lemma same_meaning_refl_list: "\<forall>f \<in> set fs. wf_filter f \<Longrightarrow> list_all2 (same_meaning e) fs fs"
  by (simp add: list_all2_same same_meaning_refl)

lemma list_all2_sets:
  "list_all2 (same_meaning e) fs fs' \<Longrightarrow>
     (\<forall>f \<in> set fs'. wf_filter f) \<and> (\<forall>f \<in> set fs'. fsem e q f) = (\<forall>f \<in> set fs. fsem e q f) \<and>
     (\<exists>f \<in> set fs'. fsem e q f) = (\<exists>f \<in> set fs. fsem e q f)"
  by (induction rule: list_all2_induct) (auto simp: same_meaning_def)

lemma same_meaning_Filter:
  assumes wf: "wf_filter (Filter c subs t store address fmsk v6)" and subs: "list_all2 (same_meaning e) subs subs'"
    and t: "trie_inv t'" "trie_map t' = trie_map t"
    and st: "rel_option (\<lambda>s s'. ds_inv s' \<and> members s' = members s) store store'"
  shows "same_meaning e (Filter c subs t store address fmsk v6) (Filter c subs' t' store' address fmsk v6)"
proof -
  have head: "(case subs' of [] \<Rightarrow> False | f # fs \<Rightarrow> fsem e q f) = (case subs of [] \<Rightarrow> False | f # fs \<Rightarrow> fsem e q f)" for q
    using subs by (cases subs; cases subs') (auto simp: same_meaning_def)
  have ne: "subs' = [] \<longleftrightarrow> subs = []"
    using subs by auto
  have store: "(case store' of None \<Rightarrow> False | Some s \<Rightarrow> k \<in> members s \<or> k' \<in> members s) =
      (case store of None \<Rightarrow> False | Some s \<Rightarrow> k \<in> members s \<or> k' \<in> members s)" for k k'
    using st by (cases store; cases store') auto
  have "wf_filter (Filter c subs' t' store' address fmsk v6)"
    using wf list_all2_sets [OF subs] t(1) ne st by (cases store; cases store') auto
  moreover have "fsem e q (Filter c subs' t' store' address fmsk v6) = fsem e q (Filter c subs t store address fmsk v6)" for q
    using list_all2_sets [OF subs, of q] by (simp only: fsem.simps marked_cong [OF t(2)] head store)
  ultimately show ?thesis
    by (simp add: same_meaning_def)
qed

lemma rel_option_ds_refl: "(\<forall>s. store = Some s \<longrightarrow> ds_inv s) \<Longrightarrow> rel_option (\<lambda>s s'. ds_inv s' \<and> members s' = members s) store store"
  by (cases store) auto

lemma leaf_spec:
  assumes p: "filterable p" and wf: "wf_filter (Filter c subs t store address fmsk v6)"
    and c: "c \<notin> code ` set ''TF!&|''"
  shows "\<exists>f'. filter_apply e p (Filter c subs t store address fmsk v6) =
      Inr (fsem e p (Filter c subs t store address fmsk v6), f') \<and> same_meaning e (Filter c subs t store address fmsk v6) f'"
proof -
  let ?f = "Filter c subs t store address fmsk v6"
  have subs: "list_all2 (same_meaning e) subs subs" and t: "trie_inv t"
    and st: "rel_option (\<lambda>s s'. ds_inv s' \<and> members s' = members s) store store"
    using wf by (auto intro!: same_meaning_refl_list rel_option_ds_refl)
  consider (v) "c \<in> {code (CHR ''i''), code (CHR ''I''), code (CHR ''p''), code (CHR ''P'')}"
    | (d) "c \<in> {code (CHR ''d''), code (CHR ''D'')}" | (r) "c \<in> {code (CHR ''r''), code (CHR ''R'')}"
    using wf c by (auto simp: filter_codes_def)
  then show ?thesis
  proof cases
    case v
    obtain t' where "filter_value_match e p c t = Inr (fsem e p ?f, t')" "trie_inv t'" "trie_map t' = trie_map t"
      using value_match_spec [OF p t v] by blast
    with v same_meaning_Filter [OF wf subs _ _ st] show ?thesis
      by (auto simp del: fsem.simps)
  next
    case d
    then obtain s where s: "store = Some s" "ds_inv s"
      using wf by auto
    obtain s' where "filter_differential p c (Some s) = Inr (fsem e p ?f, Some s')" "ds_inv s'" "members s' = members s"
      using differential_spec [OF p s(2) d, of e subs t address fmsk v6] s(1) by auto
    with d s same_meaning_Filter [OF wf subs t refl, of "Some s'"] show ?thesis
      by (auto simp del: fsem.simps)
  next
    case r
    with range_spec [OF p r, of v6 address fmsk e subs t store] same_meaning_refl [OF wf] show ?thesis
      by (auto simp del: fsem.simps)
  qed
qed

lemma filter_apply_sem:
  "filterable p \<Longrightarrow> wf_filter f \<Longrightarrow> \<exists>f'. filter_apply e p f = Inr (fsem e p f, f') \<and> same_meaning e f f'"
  "filterable p \<Longrightarrow> \<forall>f \<in> set fs. wf_filter f \<Longrightarrow>
     \<exists>fs'. filter_and e p fs = Inr (\<forall>f \<in> set fs. fsem e p f, fs') \<and> list_all2 (same_meaning e) fs fs'"
  "filterable p \<Longrightarrow> \<forall>f \<in> set fs. wf_filter f \<Longrightarrow>
     \<exists>fs'. filter_or e p fs = Inr (\<exists>f \<in> set fs. fsem e p f, fs') \<and> list_all2 (same_meaning e) fs fs'"
proof (induction e p f and e p fs and e p fs rule: filter_apply_filter_and_filter_or.induct)
  case (1 e p c subs t store address fmsk v6)
  let ?f = "Filter c subs t store address fmsk v6"
  have t: "trie_inv t" and st: "rel_option (\<lambda>s s'. ds_inv s' \<and> members s' = members s) store store"
    using 1(5) by (auto intro!: rel_option_ds_refl)
  note cong = same_meaning_Filter [OF 1(5) _ t refl st]
  consider (T) "c = code (CHR ''T'')" | (F) "c = code (CHR ''F'')" | (N) "c = code (CHR ''!'')" | (A) "c = code (CHR ''&'')"
    | (O) "c = code (CHR ''|'')" | (leaf) "c \<notin> code ` set ''TF!&|''"
    by auto
  then show ?case
  proof cases
    case T
    then show ?thesis
      using same_meaning_refl [OF 1(5)] by simp
  next
    case F
    then show ?thesis
      using same_meaning_refl [OF 1(5)] by simp
  next
    case N
    then obtain f fs where subs: "subs = f # fs"
      using 1(5) by (cases subs) auto
    then obtain f' where f': "filter_apply e p f = Inr (fsem e p f, f')" "same_meaning e f f'"
      using 1(1) [of f fs] 1(4,5) N by auto
    then have "list_all2 (same_meaning e) subs (f' # fs)"
      using 1(5) subs by (auto intro!: same_meaning_refl_list)
    from cong [OF this] f'(1) N subs show ?thesis
      by simp
  next
    case A
    then obtain fs' where "filter_and e p subs = Inr (\<forall>f \<in> set subs. fsem e p f, fs')" "list_all2 (same_meaning e) subs fs'"
      using 1(2) 1(4,5) by auto
    with cong A show ?thesis
      by auto
  next
    case O
    then obtain fs' where "filter_or e p subs = Inr (\<exists>f \<in> set subs. fsem e p f, fs')" "list_all2 (same_meaning e) subs fs'"
      using 1(3) 1(4,5) by auto
    with cong O show ?thesis
      by auto
  next
    case leaf
    from leaf_spec [OF 1(4,5) this] show ?thesis .
  qed
next
  case (3 e p f fs)
  then obtain f' where f': "filter_apply e p f = Inr (fsem e p f, f')" "same_meaning e f f'"
    by auto
  show ?case
  proof (cases "fsem e p f")
    case True
    then show ?thesis
      using 3(2) [OF f'(1), of "fsem e p f" f'] 3(3,4) f' by auto
  next
    case False
    then show ?thesis
      using f' 3(4) by (auto intro!: same_meaning_refl_list)
  qed
next
  case (5 e p f fs)
  then obtain f' where f': "filter_apply e p f = Inr (fsem e p f, f')" "same_meaning e f f'"
    by auto
  show ?case
  proof (cases "fsem e p f")
    case True
    then show ?thesis
      using f' 5(4) by (auto intro!: same_meaning_refl_list)
  next
    case False
    then show ?thesis
      using 5(2) [OF f'(1), of "fsem e p f" f'] 5(3,4) f' by auto
  qed
qed auto

subsection \<open>What the parser builds\<close>

text \<open>A list of addresses whose order the trie can take ends up exactly as the marked keys.\<close>

fun ip_list :: "nat \<Rightarrow> bytes \<Rightarrow> (bytes list \<times> bytes) option" where
  "ip_list 0 buf = Some ([], buf)"
| "ip_list (Suc n) buf =
     (if buf = [] \<or> length (tl buf) < unat (hd buf) then None
      else map_option (apfst ((#) (take (unat (hd buf)) (tl buf)))) (ip_list n (drop (unat (hd buf)) (tl buf))))"

lemma trie_put_marked:
  assumes "trie_inv t" and "key_fits (dom (trie_map t)) k"
  shows "\<exists>t'. trie_put t k (Some ()) = Inr t' \<and> trie_inv t' \<and> dom (trie_map t') = insert k (dom (trie_map t)) \<and>
           (\<forall>x. marked t' x \<longleftrightarrow> x = k \<or> marked t x)"
proof -
  obtain t' where "trie_put t k (Some ()) = Inr t'" "trie_inv t'" "trie_map t' = (trie_map t)(k \<mapsto> Some ())"
    using tr.put_ok [OF assms, of "Some ()"] by blast
  then show ?thesis
    by (auto simp: marked_def slot_value_def)
qed

lemma parse_ips_ok:
  "trie_inv t \<Longrightarrow> ip_list n buf = Some (ips, rest) \<Longrightarrow> addable (dom (trie_map t)) ips \<Longrightarrow>
     \<exists>t'. parse_ips n t buf = Inr (t', rest) \<and> trie_inv t' \<and> (\<forall>x. marked t' x \<longleftrightarrow> x \<in> set ips \<or> marked t x)"
proof (induction n arbitrary: t buf ips)
  case (Suc n)
  let ?ip = "take (unat (hd buf)) (tl buf)"
  obtain ips' where ips: "ips = ?ip # ips'" "ip_list n (drop (unat (hd buf)) (tl buf)) = Some (ips', rest)"
      and ok: "buf \<noteq> []" "unat (hd buf) \<le> length (tl buf)"
    using Suc.prems(2) by (auto split: if_splits)
  have a: "key_fits (dom (trie_map t)) ?ip" "addable (insert ?ip (dom (trie_map t))) ips'"
    using addable_Cons [of "dom (trie_map t)" ?ip ips'] Suc.prems(3) ips(1) by auto
  obtain t1 where t1: "trie_put t ?ip (Some ()) = Inr t1" "trie_inv t1" "dom (trie_map t1) = insert ?ip (dom (trie_map t))"
      "\<forall>x. marked t1 x \<longleftrightarrow> x = ?ip \<or> marked t x"
    using trie_put_marked [OF Suc.prems(1) a(1)] by blast
  obtain t' where "parse_ips n t1 (drop (unat (hd buf)) (tl buf)) = Inr (t', rest)" "trie_inv t'"
      "\<forall>x. marked t' x \<longleftrightarrow> x \<in> set ips' \<or> marked t1 x"
    using Suc.IH [OF t1(2) ips(2)] a(2) t1(3) by auto
  with t1 ips ok show ?case
    by (auto simp: Let_def)
qed auto

fun port_list :: "nat \<Rightarrow> bytes \<Rightarrow> bytes list" where
  "port_list 0 buf = []"
| "port_list (Suc n) buf = take 2 buf # port_list n (drop 2 buf)"

lemma parse_ports_ok:
  assumes "trie_inv t" and "\<forall>k \<in> dom (trie_map t). length k = 2"
  shows "if 2 * n \<le> length buf
         then \<exists>t'. parse_ports n t buf = Inr (t', drop (2 * n) buf) \<and> trie_inv t' \<and>
                (\<forall>x. marked t' x \<longleftrightarrow> x \<in> set (port_list n buf) \<or> marked t x)
         else parse_ports n t buf = Inl Sanity"
  using assms
proof (induction n arbitrary: t buf)
  case (Suc n)
  show ?case
  proof (cases "2 \<le> length buf")
    case True
    have "key_fits (dom (trie_map t)) (take 2 buf)"
      using same_length_prefix_free [of "insert (take 2 buf) (dom (trie_map t))" 2] Suc.prems(2) True
      by (intro prefix_free_fits) auto
    then obtain t1 where t1: "trie_put t (take 2 buf) (Some ()) = Inr t1" "trie_inv t1"
        "dom (trie_map t1) = insert (take 2 buf) (dom (trie_map t))" "\<forall>x. marked t1 x \<longleftrightarrow> x = take 2 buf \<or> marked t x"
      using trie_put_marked [OF Suc.prems(1)] by blast
    have "\<forall>k \<in> dom (trie_map t1). length k = 2"
      using t1(3) Suc.prems(2) True by auto
    from Suc.IH [OF t1(2) this, of "drop 2 buf"] True t1 show ?thesis
      by (auto split: if_splits)
  qed simp
qed auto

text \<open>Range filters: the mask and the address compare exactly the first \<open>netmask\<close> bits.\<close>

lemma blocks_match_bytes:
  assumes "length addr = 4 * n" and "length m = 4 * n" and "length ex = 4 * n"
  shows "blocks_match n addr m ex \<longleftrightarrow> map2 (AND) addr m = ex"
proof -
  have b: "map2 (AND) (block i addr) (block i m) = block i (map2 (AND) addr m)" for i
    by (simp add: block_def take_map drop_map take_zip drop_zip)
  have "(\<forall>i \<in> set [0..<n]. block i xs = block i ys) \<longleftrightarrow> xs = ys" if "length xs = 4 * n" "length ys = 4 * n" for xs ys
  proof
    assume bl: "\<forall>i \<in> set [0..<n]. block i xs = block i ys"
    show "xs = ys"
    proof (rule nth_equalityI)
      fix j assume j: "j < length xs"
      then have "block (j div 4) xs = block (j div 4) ys"
        using bl that by auto
      then have "block (j div 4) xs ! (j mod 4) = block (j div 4) ys ! (j mod 4)"
        by simp
      then show "xs ! j = ys ! j"
        using j that by (simp add: block_def)
    qed (use that in simp)
  qed simp
  from this [of "map2 (AND) addr m" ex] assms show ?thesis
    by (simp add: blocks_match_def b)
qed

lemma middle_mask_and:
  fixes a p :: byte
  assumes "k < 8"
  shows "a AND push_bit k 255 = p AND push_bit k 255 \<longleftrightarrow> unat a div 2 ^ k = unat p div 2 ^ k"
proof -
  have m1: "(255 :: byte) = - 1"
    by simp
  have "a AND push_bit k 255 = p AND push_bit k 255 \<longleftrightarrow> (\<forall>i. k \<le> i \<and> i < 8 \<longrightarrow> bit a i = bit p i)"
    unfolding m1 bit_eq_iff by (auto simp: bit_simps)
  also have "\<dots> \<longleftrightarrow> (\<forall>i. bit (drop_bit k (unat a)) i = bit (drop_bit k (unat p)) i)"
  proof -
    have b: "bit (drop_bit k (unat x)) i \<longleftrightarrow> bit x (k + i)" for x :: byte and i
      by (auto simp: bit_simps dest: bit_imp_le_length)
    have out: "\<not> bit x i" if "8 \<le> i" for x :: byte and i
      using that bit_imp_le_length [of x i] by auto
    show ?thesis
      unfolding b using out by (metis le_add1 le_add_diff_inverse linorder_not_le)
  qed
  also have "\<dots> \<longleftrightarrow> unat a div 2 ^ k = unat p div 2 ^ k"
    unfolding drop_bit_eq_div [symmetric] by (auto simp: bit_eq_iff)
  finally show ?thesis .
qed

lemma be_nat_inject: "length xs = length ys \<Longrightarrow> be_nat xs = be_nat ys \<longleftrightarrow> xs = ys"
  using nat_be_be_nat [OF refl, of xs] nat_be_be_nat [of ys "length xs"] by metis

lemma be_nat_drop_tail: "be_nat (xs @ ys) div 256 ^ length ys = be_nat xs"
  using be_nat_bound [of ys] by (simp add: be_nat_append)

lemma split_digit_div:
  fixes X Y x y :: nat
  assumes "x < 256" and "y < 256" and "k < 8"
  shows "(X * 256 + x) div 2 ^ k = (Y * 256 + y) div 2 ^ k \<longleftrightarrow> X = Y \<and> x div 2 ^ k = y div 2 ^ k"
proof -
  obtain j where j: "8 = k + j"
    using assms(3) le_Suc_ex [of k 8] by auto
  have "(2 :: nat) ^ (k + j) = 256"
    unfolding j [symmetric] by simp
  then have e: "(256 :: nat) = 2 ^ j * 2 ^ k"
    by (simp add: power_add mult.commute)
  have d: "(Z * 256 + z) div 2 ^ k = Z * 2 ^ j + z div 2 ^ k" for Z z :: nat
    unfolding e by (simp add: mult.assoc [symmetric])
  have b: "z div 2 ^ k < 2 ^ j" if "z < 256" for z :: nat
    using that e by (simp add: less_mult_imp_div_less)
  have "X * 2 ^ j + x div 2 ^ k = Y * 2 ^ j + y div 2 ^ k \<longleftrightarrow> X = Y \<and> x div 2 ^ k = y div 2 ^ k"
  proof
    assume eq: "X * 2 ^ j + x div 2 ^ k = Y * 2 ^ j + y div 2 ^ k"
    have dd: "(Z * 2 ^ j + z) div 2 ^ j = Z" if "z < 2 ^ j" for Z z :: nat
      using that by simp
    have "X = Y"
      using dd [OF b [OF assms(1)], of X] dd [OF b [OF assms(2)], of Y] eq by simp
    then show "X = Y \<and> x div 2 ^ k = y div 2 ^ k"
      using eq by simp
  qed simp
  then show ?thesis
    by (simp only: d)
qed

lemma prefix_split:
  fixes netmask :: nat
  assumes "0 < netmask"
  defines "pl \<equiv> (netmask + 7) div 8" and "k \<equiv> (8 - netmask mod 8) mod 8"
  shows "0 < pl" "k < 8" "8 * pl = netmask + k"
proof -
  obtain q r where n: "netmask = 8 * q + r" "r < 8"
    by (metis mult_div_mod_eq mod_less_divisor zero_less_numeral)
  have "0 < pl \<and> k < 8 \<and> 8 * pl = netmask + k"
  proof (cases "r = 0")
    case True
    have "(8 * q + 7) div 8 = q"
      by simp
    then show ?thesis
      using True n assms(1) by (simp add: pl_def k_def)
  next
    case False
    have "(8 * q + r + 7) div 8 = q + (r + 7) div 8" "(r + 7) div 8 = 1"
      using False n(2) by (auto intro!: div_nat_eqI)
    then show ?thesis
      using False n by (simp add: pl_def k_def)
  qed
  then show "0 < pl" "k < 8" "8 * pl = netmask + k"
    by auto
qed

lemma and_255 [simp]: "(a :: byte) AND 255 = a"
proof -
  have "(255 :: byte) = - 1"
    by simp
  then show ?thesis
    by (simp only: and.right_neutral)
qed

lemma map2_and_ones: "map2 (AND) (xs :: bytes) (replicate (length xs) 255) = xs"
  by (induction xs) simp_all

lemma map2_and_zeros: "map2 (AND) (xs :: bytes) (replicate (length xs) 0) = replicate (length xs) 0"
  by (induction xs) simp_all

text \<open>The comparison of a prefix of whole bytes, one masked byte and a free rest.\<close>

lemma masked_match:
  fixes A P C :: bytes
  assumes "length A = length P" and "k < 8"
  shows "map2 (AND) (A @ a # C) (replicate (length P) 255 @ push_bit k 255 # replicate (length C) 0) =
           P @ (p AND push_bit k 255) # replicate (length C) 0 \<longleftrightarrow>
         be_nat (A @ a # C) div 2 ^ (8 * length C + k) = be_nat (P @ p # replicate (length C) 0) div 2 ^ (8 * length C + k)"
proof -
  have l: "map2 (AND) (A @ a # C) (replicate (length P) 255 @ push_bit k 255 # replicate (length C) 0) =
      A @ (a AND push_bit k 255) # replicate (length C) 0"
    using assms(1) map2_and_ones [of A] map2_and_zeros [of C] by simp
  have d: "be_nat (Z @ z # Y) div 2 ^ (8 * length Y + k) = (be_nat Z * 256 + unat z) div 2 ^ k" for Z z Y
  proof -
    have "be_nat (Z @ z # Y) div 2 ^ (8 * length Y) = be_nat (Z @ [z])"
      using be_nat_drop_tail [of "Z @ [z]" Y] by (simp add: power_mult)
    then show ?thesis
      by (simp add: power_add div_mult2_eq be_nat_append)
  qed
  have u: "unat z < 256" for z :: byte
    using unsigned_less [where ?'a = nat, of z] by simp
  have "be_nat (A @ a # C) div 2 ^ (8 * length C + k) = be_nat (P @ p # replicate (length C) 0) div 2 ^ (8 * length C + k) \<longleftrightarrow>
      A = P \<and> unat a div 2 ^ k = unat p div 2 ^ k"
    using d [of A a C] d [of P p "replicate (length C) 0"] split_digit_div [OF u u assms(2)] be_nat_inject [OF assms(1)]
    by simp
  also have "\<dots> \<longleftrightarrow> A = P \<and> a AND push_bit k 255 = p AND push_bit k 255"
    using middle_mask_and [OF assms(2)] by simp
  finally show ?thesis
    unfolding l using assms(1) by auto
qed

lemma range_match:
  assumes parse: "parse_range buf = Inr (v6, ex, m, rest)" and len: "length addr = (if v6 then 16 else 4)"
  defines "n \<equiv> unat (buf ! 1)" and "w \<equiv> (if v6 then 128 else 32)"
  shows "blocks_match ((if v6 then 16 else 4) div 4) addr m ex \<longleftrightarrow>
    be_nat addr div 2 ^ (w - n) =
      be_nat (take ((n + 7) div 8) (drop 2 buf) @ replicate (length addr - (n + 7) div 8) 0) div 2 ^ (w - n)"
proof -
  let ?pl = "(n + 7) div 8" and ?k = "(8 - n mod 8) mod 8" and ?al = "length addr"
  have n: "0 < n" and plal: "?pl \<le> ?al" and plb: "?pl \<le> length (drop 2 buf)"
    and m: "m = replicate (?pl - 1) 255 @ [push_bit ?k 255] @ replicate (?al - ?pl) 0"
    and ex: "ex = (take ?pl (drop 2 buf) @ replicate (?al - ?pl) 0)
        [?pl - 1 := (take ?pl (drop 2 buf) @ replicate (?al - ?pl) 0) ! (?pl - 1) AND push_bit ?k 255]"
    using parse len by (auto simp: parse_range_def Let_def result_simps n_def middle_mask_def)
  note ps = prefix_split [OF n]
  have "length (take ?pl (drop 2 buf)) = ?pl"
    using plb by simp
  then obtain P p where Pp: "take ?pl (drop 2 buf) = P @ [p]" "length P = ?pl - 1"
    using ps(1) by (cases "take ?pl (drop 2 buf)" rule: rev_cases) (metis length_0_conv less_numeral_extra(3), metis length_append_singleton diff_Suc_1)
  obtain A a C where A: "addr = A @ a # C" "length A = ?pl - 1" "length C = ?al - ?pl"
  proof
    have "?pl - 1 < ?al" "Suc (?pl - 1) = ?pl"
      using plal ps(1) by auto
    then show "addr = take (?pl - 1) addr @ addr ! (?pl - 1) # drop ?pl addr"
      using id_take_nth_drop [of "?pl - 1" addr] by simp
    show "length (take (?pl - 1) addr) = ?pl - 1"
      using plal by auto
    show "length (drop ?pl addr) = ?al - ?pl"
      by simp
  qed
  have w: "w - n = 8 * length C + ?k"
  proof -
    have "w = 8 * ?al"
      using len by (simp add: w_def)
    moreover have "8 * length C = 8 * ?al - 8 * ?pl" "8 * ?pl \<le> 8 * ?al"
      using plal by (simp_all add: A(3) diff_mult_distrib2)
    ultimately show ?thesis
      using ps(3) by linarith
  qed
  have bytes: "blocks_match ((if v6 then 16 else 4) div 4) addr m ex \<longleftrightarrow> map2 (AND) addr m = ex"
    using len plal plb ps(1) by (intro blocks_match_bytes) (auto simp: m ex)
  have ex': "ex = P @ (p AND push_bit ?k 255) # replicate (length C) 0"
    using Pp A(3) by (simp add: ex nth_append list_update_append)
  have m': "m = replicate (length P) 255 @ push_bit ?k 255 # replicate (length C) 0"
    using Pp A(3) by (simp add: m)
  have "map2 (AND) addr m = ex \<longleftrightarrow>
      be_nat addr div 2 ^ (8 * length C + ?k) = be_nat (P @ p # replicate (length C) 0) div 2 ^ (8 * length C + ?k)"
    unfolding A(1) ex' m' using Pp(2) A(2) ps(2) by (intro masked_match) simp_all
  moreover have "take ?pl (drop 2 buf) @ replicate (length addr - ?pl) 0 = P @ p # replicate (length C) 0"
    using Pp(1) A(3) by simp
  ultimately show ?thesis
    unfolding bytes w by (simp only:)
qed

text \<open>The parser consumes at least the code of each filter, so it ends.\<close>

lemma parse_ips_length: "parse_ips n t buf = Inr (t', rest) \<Longrightarrow> length rest \<le> length buf"
proof (induction n arbitrary: t buf)
  case (Suc n)
  then obtain t1 where "parse_ips n t1 (drop (unat (hd buf)) (tl buf)) = Inr (t', rest)"
    by (auto simp: Let_def result_simps)
  from Suc.IH [OF this] show ?case
    by simp
qed simp

lemma parse_ports_length: "parse_ports n t buf = Inr (t', rest) \<Longrightarrow> length rest \<le> length buf"
proof (induction n arbitrary: t buf)
  case (Suc n)
  then obtain t1 where "parse_ports n t1 (drop 2 buf) = Inr (t', rest)"
    by (auto simp: result_simps)
  from Suc.IH [OF this] show ?case
    by simp
qed simp

lemma leaf_parsers_length:
  "parse_ip_match buf = Inr (t, rest) \<Longrightarrow> length rest \<le> length buf"
  "parse_port_match buf = Inr (t, rest) \<Longrightarrow> length rest \<le> length buf"
  "parse_differential buf = Inr (s, rest) \<Longrightarrow> length rest \<le> length buf"
  "parse_range buf = Inr (v6, a, m, rest) \<Longrightarrow> length rest \<le> length buf"
  using parse_ips_length [of _ _ "drop 4 buf" t rest] parse_ports_length [of _ _ "drop 2 buf" t rest]
  by (fastforce simp: parse_ip_match_def parse_port_match_def parse_differential_def parse_range_def
      uplink_parse_string_def Let_def result_simps split: option.splits if_splits)+

definition parse_ends :: "bytes \<Rightarrow> ('a \<times> bytes) result option \<Rightarrow> nat \<Rightarrow> bool" where
  "parse_ends buf r d \<longleftrightarrow> (case r of None \<Rightarrow> False | Some (Inl _) \<Rightarrow> True | Some (Inr (_, rest)) \<Rightarrow> length rest + d \<le> length buf)"

lemma parse_ends_map:
  "parse_ends buf r d \<Longrightarrow> parse_ends buf (map_option (\<lambda>r. rbind r (\<lambda>(x, rest). Inr (g x rest, rest))) r) d"
  by (auto simp: parse_ends_def split: option.splits sum.splits)

lemma parse_ends_mono: "parse_ends buf' r d' \<Longrightarrow> length buf' + d \<le> length buf + d' \<Longrightarrow> parse_ends buf r d"
  by (auto simp: parse_ends_def split: option.splits sum.splits)

lemma parse_ends_leaf:
  "(\<And>x rest. r = Inr (x, rest) \<Longrightarrow> length rest + d \<le> length buf) \<Longrightarrow> parse_ends buf (Some r) d"
  by (auto simp: parse_ends_def split: sum.splits)

lemma parse_many_ends:
  "(\<And>b. length b \<le> length buf \<Longrightarrow> parse_ends b (parse_one fuel b) 1) \<Longrightarrow> parse_ends buf (parse_many fuel n buf) 0"
proof (induction n arbitrary: buf)
  case 0
  then show ?case by (simp add: parse_ends_def)
next
  case (Suc n)
  have one: "parse_ends buf (parse_one fuel buf) 1"
    by (rule Suc.prems) simp
  show ?case
  proof (cases "parse_one fuel buf")
    case None
    with one show ?thesis by (simp add: parse_ends_def)
  next
    case (Some r)
    show ?thesis
    proof (cases r)
      case (Inl e)
      with Some show ?thesis by (simp add: parse_ends_def)
    next
      case (Inr fr)
      obtain f rest where fr: "fr = (f, rest)" by (cases fr)
      have len: "length rest + 1 \<le> length buf"
        using one Some Inr fr by (simp add: parse_ends_def)
      have "parse_ends rest (parse_many fuel n rest) 0"
        using len by (intro Suc.IH Suc.prems) simp
      then have a: "parse_ends buf (parse_many fuel n rest) 0"
        by (rule parse_ends_mono) (use len in simp)
      have "parse_ends buf (map_option (\<lambda>r. rbind r (\<lambda>(fs, rest'). Inr (f # fs, rest'))) (parse_many fuel n rest)) 0"
        by (rule parse_ends_map [OF a, of "\<lambda>fs _. f # fs"])
      then show ?thesis
        using Some Inr fr by simp
    qed
  qed
qed

lemma parse_one_ends: "length buf < fuel \<Longrightarrow> parse_ends buf (parse_one fuel buf) 1"
proof (induction fuel arbitrary: buf)
  case (Suc fuel)
  show ?case
  proof (cases buf)
    case (Cons c rest)
    have many: "parse_ends buf (map_option (\<lambda>r. rbind r (\<lambda>(fs, rest'). Inr (Filter c fs trie_alloc None [] [] False, rest')))
        (parse_many fuel n b)) 1" if "length b \<le> length rest" for n b
    proof -
      have "parse_ends b (parse_many fuel n b) 0"
        using that Suc.prems Cons by (intro parse_many_ends Suc.IH) simp
      then have a: "parse_ends buf (parse_many fuel n b) 1"
        by (rule parse_ends_mono) (use that Cons in simp)
      show ?thesis
        by (rule parse_ends_map [OF a, of "\<lambda>fs _. Filter c fs trie_alloc None [] [] False"])
    qed
    have "parse_ends buf (Some (rbind (parse_ip_match rest) (\<lambda>(t, rest'). Inr (Filter c [] t None [] [] False, rest')))) 1"
      "parse_ends buf (Some (rbind (parse_port_match rest) (\<lambda>(t, rest'). Inr (Filter c [] t None [] [] False, rest')))) 1"
      "parse_ends buf (Some (rbind (parse_differential rest) (\<lambda>(s, rest'). Inr (Filter c [] trie_alloc (Some s) [] [] False, rest')))) 1"
      "parse_ends buf (Some (rbind (parse_range rest) (\<lambda>(v6, addr, fmsk, rest'). Inr (Filter c [] trie_alloc None addr fmsk v6, rest')))) 1"
      using Cons by (auto intro!: parse_ends_leaf simp: rbind_eq_Inr dest!: leaf_parsers_length)
    with many [of rest 1] many [of "drop 4 rest" "unat (get32 rest)"] Cons show ?thesis
      by (auto simp: parse_ends_def [of _ "Some (Inl _)"] parse_ends_def [of _ "Some (Inr _)"] Let_def
          simp del: parse_many.simps)
  qed (simp add: parse_ends_def)
qed simp

subsection \<open>Finding and updating a differential filter\<close>

lemma filter_store_find:
  "filter_find name f = Some s \<Longrightarrow> cstring (ds_name new) = cstring (ds_name s) \<Longrightarrow>
     filter_find name (filter_store name new f) = Some new"
  "filter_find_list name fs = Some s \<Longrightarrow> cstring (ds_name new) = cstring (ds_name s) \<Longrightarrow>
     filter_find_list name (filter_store_list name new fs) = Some new"
proof (induction name f and name fs rule: filter_find_filter_find_list.induct)
  case (3 name f fs)
  then show ?case
    by (cases "filter_find name f") auto
qed (auto split: option.splits if_splits)

lemma filter_store_other:
  "cstring other \<noteq> cstring name \<Longrightarrow> cstring (ds_name new) = cstring name \<Longrightarrow>
     filter_find other (filter_store name new f) = filter_find other f"
  "cstring other \<noteq> cstring name \<Longrightarrow> cstring (ds_name new) = cstring name \<Longrightarrow>
     filter_find_list other (filter_store_list name new fs) = filter_find_list other fs"
proof (induction name new f and name new fs rule: filter_store_filter_store_list.induct)
qed (auto split: option.splits)

text \<open>A packet for the examples.\<close>

definition sample_packet :: packet_info where
  "sample_packet = (captured ''eth0'' True 1 0 [])
     \<lparr>layer := CHR ''I'', ip_protocol := 4, addr_len := 4, addr_src := Some [10, 0, 0, 1], addr_dst := Some [10, 0, 0, 2],
      app_protocol := CHR ''T'', port_src := 1234, port_dst := 80\<rparr>"

lemma sample_filterable [simp]: "filterable sample_packet"
  by (simp add: filterable_def tidy_def sample_packet_def captured_def)

lemma sample_dst: "pdirection sample_packet = DIR_IN" "ip_protocol sample_packet = 4"
  "address_key sample_packet END_DST = [10, 0, 0, 2]" "port_of sample_packet END_DST = 80"
  by (simp_all add: sample_packet_def captured_def address_key_def)

lemma filter_find_name:
  "filter_find name f = Some s \<Longrightarrow> cstring (ds_name s) = cstring name"
  "filter_find_list name fs = Some s \<Longrightarrow> cstring (ds_name s) = cstring name"
  by (induction name f and name fs rule: filter_find_filter_find_list.induct) (auto split: option.splits if_splits)

lemma apply_addr_name: "apply_addr s add addr = Inr s' \<Longrightarrow> ds_name s' = ds_name s"
  by (auto simp: apply_addr_def rbind_eq_Inr Let_def split: option.splits if_splits)

lemma apply_loop_name: "apply_loop s d = Inr s' \<Longrightarrow> ds_name s' = ds_name s"
proof (induction s d rule: apply_loop.induct)
  case (2 s flags rest)
  then show ?case
    by (auto simp: Let_def rbind_eq_Inr sanity_eq_Inr dest: apply_addr_name)
qed simp

lemma diff_addr_store_apply_name:
  "diff_addr_store_apply s full ep from to d = Inr (s', act, orig) \<Longrightarrow> ds_name s' = ds_name s"
  by (auto simp: diff_addr_store_apply_def rbind_eq_Inr Let_def dest!: apply_loop_name split: if_splits)

subsection \<open>Properties\<close>

text \<open>
  C8: applying a well-formed filter to a tidy IP packet with a known direction never fails and
  returns exactly the meaning of the filter (the boolean combination of set membership of the
  ports and addresses, of the differential stores and of the ranges); the filter left behind,
  whose tries were reordered by the lookups, is well-formed and means the same for every
  packet.
\<close>

theorem filter_apply_refines_meaning:
  assumes "filterable p" and "wf_filter f"
  shows "\<exists>f'. filter_apply e p f = Inr (fsem e p f, f') \<and> wf_filter f' \<and> (\<forall>q. fsem e q f' = fsem e q f)"
  using filter_apply_sem(1) [OF assms] by (auto simp: same_meaning_def)

theorem filter_apply_refines_meaning_witness:
  "\<exists>f'. filter_apply BigEndian sample_packet
     (Filter (code (CHR ''!'')) [blank (code (CHR ''F''))] trie_alloc None [] [] False) = Inr (True, f')"
proof -
  have "wf_filter (Filter (code (CHR ''!'')) [blank (code (CHR ''F''))] trie_alloc None [] [] False)"
    by (auto simp: filter_codes_def blank_def)
  from filter_apply_refines_meaning [OF sample_filterable this, of BigEndian] show ?thesis
    by (auto simp: blank_def)
qed

text \<open>
  C16: a range filter built by the parser accepts a packet of its address family exactly when
  the packet's address and the given prefix agree in the first \<open>netmask\<close> bits, for every
  length of the netmask, whole bytes or not, in IPv4 and IPv6.
\<close>

theorem range_filter_compares_prefix:
  assumes "parse_range buf = Inr (v6, address, fmsk, rest)" and "filterable p"
    and "ip_protocol p = (if v6 then 6 else 4)" and "c \<in> {code (CHR ''r''), code (CHR ''R'')}"
  shows "filter_range p c v6 address fmsk = Inr
    (let ep = (if c = code (CHR ''r'') then local_endpoint (pdirection p) else remote_endpoint (pdirection p));
         n = unat (buf ! 1); w = (if v6 then 128 else 32)
     in be_nat (address_key p ep) div 2 ^ (w - n) =
        be_nat (take ((n + 7) div 8) (drop 2 buf) @ replicate (w div 8 - (n + 7) div 8) 0) div 2 ^ (w - n))"
proof -
  let ?ep = "if c = code (CHR ''r'') then local_endpoint (pdirection p) else remote_endpoint (pdirection p)"
  have ep: "?ep \<noteq> END_COUNT"
    using filterable_endpoints [OF assms(2)] by simp
  have len: "length (address_key p ?ep) = (if v6 then 16 else 4)"
    using assms(2,3) ep by (cases ?ep) (auto simp: address_key_def filterable_def tidy_def split: if_splits)
  have "filter_range p c v6 address fmsk = Inr (blocks_match ((if v6 then 16 else 4) div 4) (address_key p ?ep) fmsk address)"
    using range_spec [OF assms(2,4), of v6 address fmsk BigEndian "[]" trie_alloc None] assms(3,4) ep by (auto simp: Let_def)
  with range_match [OF assms(1) len] len show ?thesis
    by (auto simp: Let_def)
qed

theorem range_filter_compares_prefix_witness:
  "filter_range sample_packet (code (CHR ''r'')) False [10, 0, 0, 0] [255, 255, 252, 0] = Inr True"
proof -
  have "replicate 2 (255 :: byte) = [255, 255]"
    by (simp add: numeral_2_eq_2)
  then have "parse_range [4, 22, 10, 0, 3] = Inr (False, [10, 0, 0, 0], [255, 255, 252, 0], [])"
    by (simp add: parse_range_def middle_mask_def Let_def)
  from range_filter_compares_prefix [OF this sample_filterable, of "code (CHR ''r'')"] show ?thesis
    by (simp add: sample_dst Let_def)
qed

text \<open>
  C15: parsing a filter description always ends, with a filter or with a failed check, whatever
  bytes the server sent: fuel for two steps more than the bytes of the description is enough.
\<close>

theorem filter_parse_terminates:
  assumes "length desc + 2 \<le> fuel"
  shows "\<exists>r. filter_parse fuel desc = Some r"
proof -
  have "length [code (CHR ''T'')] < fuel" "length desc < fuel"
    using assms by auto
  from this [THEN parse_one_ends] show ?thesis
    by (auto simp: filter_parse_def parse_ends_def split: option.splits)
qed

theorem filter_parse_terminates_witness: "\<exists>r. filter_parse 9 [33, 38, 0, 0, 0, 2, 84] = Some r"
  using filter_parse_terminates [of "[33, 38, 0, 0, 0, 2, 84]" 9] by simp

text \<open>
  C19: a port filter keeps the ports in the byte order of the wire but looks them up in the
  byte order of the host. On a big-endian host the filter for one port accepts exactly that
  port; on a little-endian host it accepts exactly the port with the bytes swapped.
\<close>

theorem port_filter_byte_order:
  assumes "filterable p"
  shows "\<exists>t. parse_port_match (put16 1 @ put16 w) = Inr (t, []) \<and>
    (\<exists>t'. filter_value_match BigEndian p (code (CHR ''p'')) t =
       Inr (put16 (port_of p (local_endpoint (pdirection p))) = put16 w, t')) \<and>
    (\<exists>t'. filter_value_match LittleEndian p (code (CHR ''p'')) t =
       Inr (put16 (port_of p (local_endpoint (pdirection p))) = rev (put16 w), t'))"
proof -
  obtain t where t: "parse_ports 1 trie_alloc (put16 w) = Inr (t, [])" "trie_inv t" "\<forall>x. marked t x \<longleftrightarrow> x = put16 w"
    using parse_ports_ok [of trie_alloc 1 "put16 w"] by (auto simp: marked_def slot_value_def)
  have "fsem e p (Filter (code (CHR ''p'')) [] t None [] [] False) \<longleftrightarrow>
      host16 e (port_of p (local_endpoint (pdirection p))) = put16 w" for e
    using t(3) by simp
  moreover have "\<exists>t'. filter_value_match e p (code (CHR ''p'')) t = Inr (fsem e p (Filter (code (CHR ''p'')) [] t None [] [] False), t')" for e
    using value_match_spec [OF assms t(2), of "code (CHR ''p'')" e "[]" None "[]" "[]" False] by blast
  ultimately have m: "\<exists>t'. filter_value_match e p (code (CHR ''p'')) t =
      Inr (host16 e (port_of p (local_endpoint (pdirection p))) = put16 w, t')" for e
    by metis
  have "rev (put16 q) = put16 w \<longleftrightarrow> put16 q = rev (put16 w)" for q
    by (rule rev_swap)
  then show ?thesis
    using t(1) m [of BigEndian] m [of LittleEndian] by (intro exI [of _ t]) (simp add: parse_port_match_def)
qed

theorem port_filter_byte_order_witness:
  "\<exists>t t'. parse_port_match (put16 1 @ put16 80) = Inr (t, []) \<and>
     filter_value_match LittleEndian sample_packet (code (CHR ''p'')) t = Inr (False, t')"
proof -
  have "put16 80 = ([0, 80] :: bytes)"
    unfolding put16_def numeral_2_eq_2 by simp
  then have "(put16 (port_of sample_packet (local_endpoint (pdirection sample_packet))) = rev (put16 80)) = False"
    by (simp add: sample_packet_def captured_def)
  moreover obtain t t' where "parse_port_match (put16 1 @ put16 80) = Inr (t, [])"
    "filter_value_match LittleEndian sample_packet (code (CHR ''p'')) t =
       Inr (put16 (port_of sample_packet (local_endpoint (pdirection sample_packet))) = rev (put16 80), t')"
    using port_filter_byte_order [OF sample_filterable, of 80] by blast
  ultimately show ?thesis
    by metis
qed

text \<open>
  a difference from the server reaches exactly the filter it names: the first one of that
  name in the order of the description is updated as the store's own operation says, every
  other differential filter stays as it is, and an unknown name changes nothing.
\<close>

theorem filter_diff_apply_local:
  assumes "filter_diff_apply f name full ep from to diff = Inr (f', act, orig)"
  shows "case filter_find name f of
           None \<Rightarrow> f' = f \<and> act = DIFF_STORE_UNKNOWN
         | Some s \<Rightarrow> (\<exists>s'. diff_addr_store_apply s full ep from to diff = Inr (s', act, orig) \<and>
              filter_find name f' = Some s' \<and>
              (\<forall>other. cstring other \<noteq> cstring name \<longrightarrow> filter_find other f' = filter_find other f))"
proof (cases "filter_find name f")
  case None
  with assms show ?thesis
    by (simp add: filter_diff_apply_def)
next
  case (Some s)
  with assms obtain s' where s': "diff_addr_store_apply s full ep from to diff = Inr (s', act, orig)"
      "f' = filter_store name s' f"
    by (auto simp: filter_diff_apply_def rbind_eq_Inr)
  have n: "cstring (ds_name s') = cstring name"
    using diff_addr_store_apply_name [OF s'(1)] filter_find_name(1) [OF Some] by simp
  show ?thesis
    using Some s' filter_store_find(1) [OF Some, of s'] filter_store_other(1) [OF _ n, of _ f] n filter_find_name(1) [OF Some]
    by auto
qed

theorem filter_diff_apply_local_witness:
  "\<exists>f'. filter_diff_apply (Filter (code (CHR ''d'')) [] trie_alloc (Some (diff_addr_store_init [65])) [] [] False) [66] True 1 0 2 [] =
     Inr (f', DIFF_STORE_UNKNOWN, None) \<and>
     f' = Filter (code (CHR ''d'')) [] trie_alloc (Some (diff_addr_store_init [65])) [] [] False"
proof -
  let ?f = "Filter (code (CHR ''d'')) [] trie_alloc (Some (diff_addr_store_init [65])) [] [] False"
  have none: "filter_find [66] ?f = None"
    by (simp add: diff_addr_store_init_def cstring_def)
  then have "filter_diff_apply ?f [66] True 1 0 2 [] = Inr (?f, DIFF_STORE_UNKNOWN, None)"
    by (simp add: filter_diff_apply_def)
  from this filter_diff_apply_local [OF this] show ?thesis
    by auto
qed

end
