(* ===== verification/Timeouts.thy ===== *)
theory Timeouts
  imports Prelude
begin

text \<open>
  The timeouts of the main loop (\<open>core/loop.c\<close>): the array sorted by time, adding, cancelling,
  dropping those of a destroyed plugin, the time to wait for, and the loop that fires what is
  due. The used part of the array is a list; its capacity is kept beside it. The callback with
  its data is a value of type \<open>'c\<close>, the context the number of the plugin, if any. The static
  counter of identifiers is part of the state.
\<close>

record 'c timeout =
  fire_at :: u64
  callback :: 'c
  tcontext :: "nat option"
  tid :: u64

record 'c timeouts =
  queue :: "'c timeout list"
  capacity :: nat
  now :: u64
  last_id :: u64

definition timeouts_start :: "'c timeouts" where
  "timeouts_start = \<lparr>queue = [], capacity = 0, now = 0, last_id = 0\<rparr>"

text \<open>The search for the place from the end of the array; later timeouts move up.\<close>

fun sort_pos :: "'c timeout list \<Rightarrow> u64 \<Rightarrow> nat \<Rightarrow> nat" where
  "sort_pos ts w 0 = 0"
| "sort_pos ts w (Suc i) = (if fire_at (ts ! i) > w then sort_pos ts w i else Suc i)"

text \<open>The search for an unused identifier: the \<open>do\<close> loop, each round of which tries the next
  number. The bound is one round more than there are timeouts.\<close>

fun find_id :: "nat \<Rightarrow> u64 list \<Rightarrow> u64 \<Rightarrow> u64 option" where
  "find_id 0 used i = None"
| "find_id (Suc rounds) used i = (if i + 1 \<in> set used then find_id rounds used (i + 1) else Some (i + 1))"

definition loop_timeout_add :: "'c timeouts \<Rightarrow> u32 \<Rightarrow> nat option \<Rightarrow> 'c \<Rightarrow> (u64 \<times> 'c timeouts) result" where
  "loop_timeout_add l after ctx cb =
     (let after1 = (if after = 0 then 1 else after);
          cap = (if length (queue l) = capacity l
                 then (if capacity l * 2 = 0 then 2 else capacity l * 2) else capacity l);
          w = now l + ucast after1;
          p = sort_pos (queue l) w (length (queue l))
      in case find_id (Suc (length (queue l))) (map tid (queue l)) (last_id l) of
           None \<Rightarrow> Inl Diverged
         | Some i \<Rightarrow>
             assert_then (now l < w)
               (Inr (i, l\<lparr>queue := take p (queue l) @ [\<lparr>fire_at = w, callback = cb, tcontext = ctx, tid = i\<rparr>] @ drop p (queue l),
                           capacity := cap, last_id := i\<rparr>)))"

fun cancel_list :: "'c timeout list \<Rightarrow> u64 \<Rightarrow> 'c timeout list option" where
  "cancel_list [] i = None"
| "cancel_list (t # ts) i = (if tid t = i then Some ts else map_option ((#) t) (cancel_list ts i))"

definition loop_timeout_cancel :: "'c timeouts \<Rightarrow> u64 \<Rightarrow> 'c timeouts result" where
  "loop_timeout_cancel l i =
     (case cancel_list (queue l) i of None \<Rightarrow> Inl Assertion | Some ts \<Rightarrow> Inr (l\<lparr>queue := ts\<rparr>))"

text \<open>The part of \<open>plugin_destroy\<close> that kills the timeouts of the plugin, by position.\<close>

function kill_from :: "'c timeout list \<Rightarrow> nat \<Rightarrow> nat \<Rightarrow> 'c timeout list" where
  "kill_from ts c i =
     (if i < length ts
      then (if tcontext (ts ! i) = Some c then kill_from (take i ts @ drop (Suc i) ts) c i
            else kill_from ts c (Suc i))
      else ts)"
  by pat_completeness auto
termination
  by (relation "measure (\<lambda>(ts, c, i). length ts - i)") auto

declare kill_from.simps [simp del]

definition kill_timeouts :: "'c timeouts \<Rightarrow> nat \<Rightarrow> 'c timeouts" where
  "kill_timeouts l c = l\<lparr>queue := kill_from (queue l) c 0\<rparr>"

text \<open>How long to wait for events: the difference taken as signed, within the range of \<open>int\<close>;
  -1 is forever.\<close>

definition wait_time :: "'c timeouts \<Rightarrow> int" where
  "wait_time l =
     (case queue l of
        [] \<Rightarrow> - 1
      | t # ts \<Rightarrow>
          (let wait = sint (fire_at t - now l);
               wait1 = (if wait < 0 then 0 else wait)
           in if wait1 > 2147483647 then 2147483647 else wait1))"

text \<open>Firing: the timeout is taken out, then its callback runs, which may add and cancel. The
  callback is a parameter; \<open>None\<close> when the rounds run out.\<close>

fun fire_due ::
  "('c timeout \<Rightarrow> 'c timeouts \<Rightarrow> 's \<Rightarrow> ('c timeouts \<times> 's) result) \<Rightarrow> nat \<Rightarrow> 'c timeouts \<Rightarrow> 's \<Rightarrow>
     ('c timeouts \<times> 's \<times> 'c timeout list) result option" where
  "fire_due cb 0 l s = None"
| "fire_due cb (Suc n) l s =
     (case queue l of
        [] \<Rightarrow> Some (Inr (l, s, []))
      | t # ts \<Rightarrow>
          if fire_at t \<le> now l then
            (case cb t (l\<lparr>queue := ts\<rparr>) s of
               Inl e \<Rightarrow> Some (Inl e)
             | Inr (l', s') \<Rightarrow>
                 map_option (\<lambda>r. rbind r (\<lambda>(l2, s2, fired). Inr (l2, s2, t # fired))) (fire_due cb n l' s'))
          else Some (Inr (l, s, [])))"

subsection \<open>The invariant\<close>

definition tmo_inv :: "'c timeouts \<Rightarrow> bool" where
  "tmo_inv l \<longleftrightarrow> sorted (map fire_at (queue l)) \<and> distinct (map tid (queue l)) \<and> length (queue l) \<le> capacity l"

lemma start_inv [simp]: "tmo_inv timeouts_start"
  by (simp add: tmo_inv_def timeouts_start_def)

lemma sort_pos_le: "sort_pos ts w n \<le> n"
  by (induction n) auto

lemma sort_pos_before:
  "sorted (map fire_at ts) \<Longrightarrow> n \<le> length ts \<Longrightarrow> t \<in> set (take (sort_pos ts w n) ts) \<Longrightarrow> fire_at t \<le> w"
proof (induction n)
  case (Suc n)
  show ?case
  proof (cases "fire_at (ts ! n) > w")
    case False
    have "t \<in> set (take (Suc n) ts)"
      using Suc.prems False by simp
    then obtain k where k: "k \<le> n" "t = ts ! k"
      using Suc.prems(2) by (auto simp: in_set_conv_nth less_Suc_eq_le)
    then have "fire_at t \<le> fire_at (ts ! n)"
      using sorted_nth_mono [OF Suc.prems(1), of k n] Suc.prems(2) by simp
    with False show ?thesis
      by simp
  qed (use Suc in simp)
qed simp

lemma sort_pos_after:
  "n \<le> length ts \<Longrightarrow> sort_pos ts w n \<le> k \<Longrightarrow> k < n \<Longrightarrow> w < fire_at (ts ! k)"
proof (induction n)
  case (Suc n)
  then show ?case
    by (cases "k = n") (auto split: if_splits)
qed simp

lemma find_id_fresh: "find_id n used i = Some j \<Longrightarrow> j \<notin> set used"
  by (induction n arbitrary: i) (auto split: if_splits)

text \<open>The search for an identifier ends: each round that fails meets another used one.\<close>

lemma find_id_None:
  "find_id n used i = None \<Longrightarrow> k < n \<Longrightarrow> i + 1 + word_of_nat k \<in> set used"
proof (induction n arbitrary: i k)
  case (Suc n)
  then have step: "i + 1 \<in> set used" "find_id n used (i + 1) = None"
    by (auto split: if_splits)
  show ?case
  proof (cases k)
    case 0
    with step show ?thesis by simp
  next
    case (Suc k')
    with Suc.IH [OF step(2), of k'] Suc.prems(2) show ?thesis
      by (simp add: ac_simps)
  qed
qed simp

lemma find_id_ends:
  assumes "length used < 2 ^ 64"
  shows "\<exists>j. find_id (Suc (length used)) used i = Some j"
proof (rule ccontr)
  assume "\<nexists>j. find_id (Suc (length used)) used i = Some j"
  then have none: "find_id (Suc (length used)) used i = None"
    by (meson not_None_eq)
  let ?A = "{..< Suc (length used)}" and ?f = "\<lambda>k. i + 1 + (word_of_nat k :: u64)"
  have "?f ` ?A \<subseteq> set used"
    using find_id_None [OF none] by auto
  then have "card (?f ` ?A) \<le> length used"
    by (meson List.finite_set card_length card_mono order_trans)
  moreover have "inj_on ?f ?A"
  proof (rule inj_onI)
    fix a b assume "a \<in> ?A" "b \<in> ?A" "?f a = ?f b"
    then have "word_of_nat a = (word_of_nat b :: u64)" "a < 2 ^ 64" "b < 2 ^ 64"
      using assms by auto
    moreover have "unat (word_of_nat k :: u64) = k" if "k < 2 ^ 64" for k
      using that by (simp add: unat_of_nat)
    ultimately show "a = b"
      by metis
  qed
  ultimately show False
    by (simp add: card_image)
qed

subsection \<open>Adding, cancelling and killing\<close>

text \<open>Adding puts exactly one timeout in, with an unused identifier, and keeps the order.\<close>

definition clock_room :: "'c timeouts \<Rightarrow> bool" where
  "clock_room l \<longleftrightarrow> unat (now l) + 2 ^ 32 < 2 ^ 64 \<and> length (queue l) < 2 ^ 64"

lemma when_later:
  assumes "unat (now l) + 2 ^ 32 < 2 ^ 64" and "a \<noteq> (0 :: u32)"
  shows "now l < now l + ucast a" and "unat (now l + ucast a) = unat (now l) + unat a"
proof -
  have a: "0 < unat a" "unat a < 2 ^ 32"
    using assms(2) unsigned_less [where ?'a = nat, of a] by (auto simp: unat_gt_0)
  have u: "unat (ucast a :: u64) = unat a"
    unfolding unsigned_ucast_eq using a(2) by (intro take_bit_nat_eq_self) simp
  show "unat (now l + ucast a) = unat (now l) + unat a"
    using a u assms(1) by (simp add: unat_word_ariths)
  then show "now l < now l + ucast a"
    using a(1) by (simp add: word_less_nat_alt)
qed

lemma timeout_add_total:
  assumes room: "clock_room l"
  shows "\<exists>i l'. loop_timeout_add l after ctx cb = Inr (i, l')"
proof -
  obtain i where "find_id (Suc (length (queue l))) (map tid (queue l)) (last_id l) = Some i"
    using find_id_ends [of "map tid (queue l)" "last_id l"] room by (auto simp: clock_room_def simp del: find_id.simps)
  moreover have "now l < now l + ucast (if after = 0 then 1 else after)"
    using when_later(1) [of l "if after = 0 then 1 else after"] room by (auto simp: clock_room_def)
  ultimately show ?thesis
    by (simp add: loop_timeout_add_def Let_def del: find_id.simps)
qed

definition added_timeout :: "'c timeouts \<Rightarrow> u32 \<Rightarrow> nat option \<Rightarrow> 'c \<Rightarrow> u64 \<Rightarrow> 'c timeout" where
  "added_timeout l after ctx cb i =
     \<lparr>fire_at = now l + ucast (if after = 0 then 1 else after), callback = cb, tcontext = ctx, tid = i\<rparr>"

lemma timeout_add_spec:
  assumes inv: "tmo_inv l" and add: "loop_timeout_add l after ctx cb = Inr (i, l')"
  shows "tmo_inv l' \<and> now l' = now l \<and> mset (queue l') = add_mset (added_timeout l after ctx cb i) (mset (queue l)) \<and>
    now l < fire_at (added_timeout l after ctx cb i) \<and> i \<notin> tid ` set (queue l)"
proof -
  let ?ts = "queue l"
  define a where "a = (if after = 0 then 1 else after)"
  define w where "w = now l + ucast a"
  define p where "p = sort_pos ?ts w (length ?ts)"
  define t where "t = \<lparr>fire_at = w, callback = cb, tcontext = ctx, tid = i\<rparr>"
  let ?q = "take p ?ts @ [t] @ drop p ?ts"
  have i: "find_id (Suc (length ?ts)) (map tid ?ts) (last_id l) = Some i" and later: "now l < w"
    and l': "queue l' = ?q" "now l' = now l"
      "capacity l' = (if length ?ts = capacity l then (if capacity l * 2 = 0 then 2 else capacity l * 2) else capacity l)"
    using add by (auto simp: loop_timeout_add_def Let_def result_simps t_def p_def w_def a_def
        simp del: find_id.simps split: option.splits)
  have fresh: "i \<notin> tid ` set ?ts"
    using find_id_fresh [OF i] by simp
  have srt: "sorted (map fire_at ?ts)"
    using inv by (simp add: tmo_inv_def)
  have before: "\<forall>t \<in> set (take p ?ts). fire_at t \<le> w"
    using sort_pos_before [OF srt order_refl] unfolding p_def by blast
  have after: "\<forall>t \<in> set (drop p ?ts). w \<le> fire_at t"
  proof
    fix t assume "t \<in> set (drop p ?ts)"
    then obtain k where "k < length ?ts - p" "t = ?ts ! (p + k)"
      by (auto simp: in_set_conv_nth)
    then show "w \<le> fire_at t"
      using sort_pos_after [of "length ?ts" ?ts w "p + k"] by (simp add: p_def less_imp_le)
  qed
  have "sorted (map fire_at (take p ?ts @ drop p ?ts))"
    using srt by simp
  then have "sorted (map fire_at ?q)"
    using before after by (auto simp only: map_append sorted_append) (auto simp: t_def)
  moreover have "distinct (map tid ?q)"
  proof -
    have "distinct (map tid (take p ?ts @ drop p ?ts))"
      using inv by (simp add: tmo_inv_def)
    then show ?thesis
      using fresh by (auto simp only: map_append distinct_append) (auto simp: t_def dest: in_set_takeD in_set_dropD)
  qed
  moreover have "length ?q = Suc (length ?ts)"
    using sort_pos_le [of ?ts w "length ?ts"] by (simp add: p_def)
  moreover have "mset ?q = add_mset t (mset ?ts)"
    using mset_append [of "take p ?ts" "drop p ?ts"] by simp
  moreover have "added_timeout l after ctx cb i = t"
    by (simp add: added_timeout_def t_def w_def a_def)
  ultimately show ?thesis
    using later fresh inv l' by (simp add: tmo_inv_def t_def)
qed

lemma cancel_list_spec:
  "i \<in> tid ` set ts \<Longrightarrow> distinct (map tid ts) \<Longrightarrow> cancel_list ts i = Some (filter (\<lambda>t. tid t \<noteq> i) ts)"
proof (induction ts)
  case (Cons t ts)
  show ?case
  proof (cases "tid t = i")
    case True
    then have "\<forall>x \<in> set ts. tid x \<noteq> i"
      using Cons.prems(2) by (auto simp: image_iff)
    then have "filter (\<lambda>t. tid t \<noteq> i) ts = ts"
      by simp
    with True show ?thesis by simp
  qed (use Cons in auto)
qed simp

lemma cancel_list_None: "i \<notin> tid ` set ts \<Longrightarrow> cancel_list ts i = None"
  by (induction ts) auto

lemma tmo_inv_filter: "tmo_inv l \<Longrightarrow> tmo_inv (l\<lparr>queue := filter P (queue l)\<rparr>)"
  by (auto simp: tmo_inv_def sorted_filter distinct_map_filter intro: order_trans [OF length_filter_le])

lemma timeout_cancel_spec:
  assumes "tmo_inv l"
  shows "loop_timeout_cancel l i =
    (if i \<in> tid ` set (queue l) then Inr (l\<lparr>queue := filter (\<lambda>t. tid t \<noteq> i) (queue l)\<rparr>) else Inl Assertion)"
  using assms by (simp add: loop_timeout_cancel_def cancel_list_spec cancel_list_None tmo_inv_def)

lemma kill_from_filter:
  "i \<le> length ts \<Longrightarrow> kill_from ts c i = take i ts @ filter (\<lambda>t. tcontext t \<noteq> Some c) (drop i ts)"
proof (induction ts c i rule: kill_from.induct)
  case (1 ts c i)
  show ?case
  proof (cases "i < length ts")
    case True
    then have d: "drop i ts = ts ! i # drop (Suc i) ts"
      by (rule Cons_nth_drop_Suc [symmetric])
    show ?thesis
    proof (cases "tcontext (ts ! i) = Some c")
      case kill: True
      have "kill_from (take i ts @ drop (Suc i) ts) c i =
          take i ts @ filter (\<lambda>t. tcontext t \<noteq> Some c) (drop (Suc i) ts)"
        using 1(1) [OF True kill] True by (simp add: min_def)
      with True kill d show ?thesis
        by (subst kill_from.simps) simp
    next
      case False
      have "take (Suc i) ts = take i ts @ [ts ! i]"
        using True by (rule take_Suc_conv_app_nth)
      with 1(2) [OF True False] True False d show ?thesis
        by (subst kill_from.simps) simp
    qed
  qed (use 1 in \<open>subst kill_from.simps, simp\<close>)
qed

subsection \<open>The service the plugins use\<close>

text \<open>Pending timeouts as a multiset, with what adding and cancelling promise.\<close>

locale timer_service =
  fixes inv :: "'l \<Rightarrow> bool"
    and pending :: "'l \<Rightarrow> 'c timeout multiset"
    and add :: "'l \<Rightarrow> u32 \<Rightarrow> nat option \<Rightarrow> 'c \<Rightarrow> (u64 \<times> 'l) result"
    and cancel :: "'l \<Rightarrow> u64 \<Rightarrow> 'l result"
  assumes add_ok: "inv l \<Longrightarrow> add l a ctx cb = Inr (i, l') \<Longrightarrow>
      inv l' \<and> i \<notin># image_mset tid (pending l) \<and>
      (\<exists>t. pending l' = add_mset t (pending l) \<and> callback t = cb \<and> tcontext t = ctx \<and> tid t = i)"
    and cancel_ok: "inv l \<Longrightarrow> cancel l i = Inr l' \<Longrightarrow>
      inv l' \<and> pending l' = filter_mset (\<lambda>t. tid t \<noteq> i) (pending l)"
    and cancel_pending: "inv l \<Longrightarrow> i \<in># image_mset tid (pending l) \<Longrightarrow> \<exists>l'. cancel l i = Inr l'"
begin

text \<open>What was added can be cancelled, and that undoes the adding.\<close>

lemma add_cancel:
  assumes "inv l" and "add l a ctx cb = Inr (i, l')"
  shows "\<exists>l''. cancel l' i = Inr l'' \<and> inv l'' \<and> pending l'' = pending l"
proof -
  obtain t where t: "inv l'" "i \<notin># image_mset tid (pending l)" "pending l' = add_mset t (pending l)" "tid t = i"
    using add_ok [OF assms] by blast
  then obtain l'' where l'': "cancel l' i = Inr l''"
    using cancel_pending [of l' i] by auto
  have "filter_mset (\<lambda>t. tid t \<noteq> i) (pending l) = pending l"
    using t(2) by (auto simp: filter_mset_eq_conv)
  with cancel_ok [OF t(1) l''] t l'' show ?thesis
    by auto
qed

end

interpretation ts: timer_service tmo_inv "\<lambda>l. mset (queue l)" loop_timeout_add loop_timeout_cancel
proof
  fix l l' :: "'c timeouts" and a ctx cb i
  assume "tmo_inv l" "loop_timeout_add l a ctx cb = Inr (i, l')"
  from timeout_add_spec [OF this] show "tmo_inv l' \<and> i \<notin># image_mset tid (mset (queue l)) \<and>
      (\<exists>t. mset (queue l') = add_mset t (mset (queue l)) \<and> callback t = cb \<and> tcontext t = ctx \<and> tid t = i)"
    by (auto simp: added_timeout_def)
next
  fix l l' :: "'c timeouts" and i
  assume "tmo_inv l" "loop_timeout_cancel l i = Inr l'"
  then show "tmo_inv l' \<and> mset (queue l') = filter_mset (\<lambda>t. tid t \<noteq> i) (mset (queue l))"
    using tmo_inv_filter [of l] by (auto simp: timeout_cancel_spec mset_filter split: if_splits)
next
  fix l :: "'c timeouts" and i
  assume "tmo_inv l" "i \<in># image_mset tid (mset (queue l))"
  then show "\<exists>l'. loop_timeout_cancel l i = Inr l'"
    by (auto simp: timeout_cancel_spec)
qed

subsection \<open>Firing\<close>

text \<open>What a callback may do to the timeouts.\<close>

inductive timer_use :: "'c timeouts \<Rightarrow> 'c timeouts \<Rightarrow> bool" where
  refl: "timer_use l l"
| add: "timer_use l l1 \<Longrightarrow> loop_timeout_add l1 after ctx cb = Inr (i, l2) \<Longrightarrow> timer_use l l2"
| cancel: "timer_use l l1 \<Longrightarrow> loop_timeout_cancel l1 i = Inr l2 \<Longrightarrow> timer_use l l2"

definition uses_timers :: "('c timeout \<Rightarrow> 'c timeouts \<Rightarrow> 's \<Rightarrow> ('c timeouts \<times> 's) result) \<Rightarrow> bool" where
  "uses_timers cb \<longleftrightarrow> (\<forall>t l s l' s'. cb t l s = Inr (l', s') \<longrightarrow> timer_use l l')"

definition due :: "'c timeouts \<Rightarrow> 'c timeout multiset" where
  "due l = filter_mset (\<lambda>t. fire_at t \<le> now l) (mset (queue l))"

lemma timer_use_spec:
  "timer_use l l' \<Longrightarrow> tmo_inv l \<Longrightarrow> tmo_inv l' \<and> now l' = now l \<and> due l' \<subseteq># due l"
proof (induction rule: timer_use.induct)
  case (add l l1 after ctx cb i l2)
  then have "tmo_inv l1" "now l1 = now l" "due l1 \<subseteq># due l"
    by auto
  with timeout_add_spec [OF _ add.hyps(2)] show ?case
    by (auto simp: due_def)
next
  case (cancel l l1 i l2)
  then have l1: "tmo_inv l1" "now l1 = now l" "due l1 \<subseteq># due l"
    by auto
  then have "l2 = l1\<lparr>queue := filter (\<lambda>t. tid t \<noteq> i) (queue l1)\<rparr>"
    using cancel.hyps(2) by (auto simp: timeout_cancel_spec split: if_splits)
  moreover from this have "due l2 = filter_mset (\<lambda>t. tid t \<noteq> i) (due l1)"
    by (auto simp: due_def filter_filter_mset intro!: multiset_eqI)
  then have "due l2 \<subseteq># due l1"
    by (simp add: multiset_filter_subset)
  ultimately show ?case
    using l1 tmo_inv_filter [OF l1(1)] by (auto intro: subset_mset.order_trans)
qed simp

lemma not_due: "tmo_inv l \<Longrightarrow> queue l = t # ts \<Longrightarrow> now l < fire_at t \<Longrightarrow> due l = {#}"
  by (fastforce simp: due_def tmo_inv_def intro!: multiset_eqI)

lemma fire_due_spec:
  assumes cb: "uses_timers cb"
  shows "tmo_inv l \<Longrightarrow> size (due l) < n \<Longrightarrow>
    \<exists>r. fire_due cb n l s = Some r \<and>
      (\<forall>l' s' fired. r = Inr (l', s', fired) \<longrightarrow> tmo_inv l' \<and> due l' = {#} \<and> mset fired \<subseteq># due l \<and> sorted (map fire_at fired))"
proof (induction n arbitrary: l s)
  case (Suc n)
  show ?case
  proof (cases "queue l")
    case Nil
    with Suc.prems show ?thesis by (simp add: due_def)
  next
    case (Cons t ts)
    show ?thesis
    proof (cases "fire_at t \<le> now l")
      case False
      then show ?thesis
        using Cons Suc.prems not_due [OF Suc.prems(1) Cons] by simp
    next
      case True
      let ?l = "l\<lparr>queue := ts\<rparr>"
      have inv: "tmo_inv ?l" and d: "due l = add_mset t (due ?l)"
        using Suc.prems(1) Cons True by (auto simp: tmo_inv_def due_def)
      show ?thesis
      proof (cases "cb t ?l s")
        case (Inl e)
        with Cons True show ?thesis by simp
      next
        case (Inr ls)
        obtain l1 s1 where ls: "ls = (l1, s1)" by (cases ls)
        have "timer_use ?l l1"
          using cb Inr ls unfolding uses_timers_def by blast
        then have u: "tmo_inv l1" "now l1 = now ?l" "due l1 \<subseteq># due ?l"
          using timer_use_spec [OF _ inv] by auto
        then have "size (due l1) < n"
          using size_mset_mono [OF u(3)] Suc.prems(2) d by simp
        then obtain r where r: "fire_due cb n l1 s1 = Some r"
          "\<forall>l' s' fired. r = Inr (l', s', fired) \<longrightarrow> tmo_inv l' \<and> due l' = {#} \<and> mset fired \<subseteq># due l1 \<and> sorted (map fire_at fired)"
          using Suc.IH [OF u(1)] by blast
        have first: "fire_at t \<le> fire_at x" if "x \<in># due l1" for x
          using mset_subset_eqD [OF u(3) that] Suc.prems(1) Cons by (auto simp: due_def tmo_inv_def)
        show ?thesis
        proof (intro exI conjI)
          show "fire_due cb (Suc n) l s = Some (rbind r (\<lambda>(l2, s2, fired). Inr (l2, s2, t # fired)))"
            using Cons True Inr ls r(1) by simp
          show "\<forall>l' s' fired. rbind r (\<lambda>(l2, s2, fired). Inr (l2, s2, t # fired)) = Inr (l', s', fired) \<longrightarrow>
              tmo_inv l' \<and> due l' = {#} \<and> mset fired \<subseteq># due l \<and> sorted (map fire_at fired)"
          proof (intro allI impI)
            fix l' s' fired
            assume "rbind r (\<lambda>(l2, s2, fired). Inr (l2, s2, t # fired)) = Inr (l', s', fired)"
            then obtain rest where rest: "r = Inr (l', s', rest)" "fired = t # rest"
              by (auto simp: rbind_eq_Inr)
            then have b: "mset rest \<subseteq># due l1" and "tmo_inv l'" "due l' = {#}" "sorted (map fire_at rest)"
              using r(2) by auto
            moreover have "fire_at t \<le> fire_at x" if "x \<in> set rest" for x
              using first mset_subset_eqD [OF b, of x] that by simp
            moreover have "mset rest \<subseteq># due ?l"
              using b u(3) by (rule subset_mset.order_trans)
            ultimately show "tmo_inv l' \<and> due l' = {#} \<and> mset fired \<subseteq># due l \<and> sorted (map fire_at fired)"
              using rest(2) d by simp
          qed
        qed
      qed
    qed
  qed
qed simp


subsection \<open>Properties\<close>

text \<open>
  C10: Adding a timeout always succeeds while the clock is not within 2^32 ms of wrapping: the
  search for an identifier ends with one no pending timeout has, the timeout is sorted in at
  the requested time (at least 1 ms ahead), nothing else changes and the array stays sorted,
  with unique identifiers, within its capacity.
\<close>

theorem timeout_add_sorts_in:
  assumes "tmo_inv l" and "clock_room l"
  shows "\<exists>i l'. loop_timeout_add l after ctx cb = Inr (i, l') \<and> tmo_inv l' \<and> now l' = now l \<and>
    i \<notin> tid ` set (queue l) \<and>
    mset (queue l') = add_mset \<lparr>fire_at = now l + ucast (if after = 0 then 1 else after),
        callback = cb, tcontext = ctx, tid = i\<rparr> (mset (queue l))"
proof -
  obtain i l' where "loop_timeout_add l after ctx cb = Inr (i, l')"
    using timeout_add_total [OF assms(2)] by blast
  with timeout_add_spec [OF assms(1) this] show ?thesis
    by (auto simp: added_timeout_def)
qed

definition sample_timeouts :: "nat timeouts" where
  "sample_timeouts = \<lparr>queue =
     [\<lparr>fire_at = 5, callback = 0, tcontext = Some 0, tid = 1\<rparr>,
      \<lparr>fire_at = 7, callback = 1, tcontext = Some 1, tid = 3\<rparr>,
      \<lparr>fire_at = 30, callback = 2, tcontext = None, tid = 2\<rparr>], capacity = 4, now = 10, last_id = 3\<rparr>"

lemma sample_timeouts_ok: "tmo_inv sample_timeouts" "clock_room sample_timeouts"
  by (simp_all add: tmo_inv_def clock_room_def sample_timeouts_def)

theorem timeout_add_sorts_in_witness:
  "\<exists>i l'. loop_timeout_add sample_timeouts 5 None 9 = Inr (i, l') \<and> tmo_inv l' \<and> now l' = 10 \<and>
     i \<notin> {1, 2, 3}"
  using timeout_add_sorts_in [OF sample_timeouts_ok, of 5 None 9]
  unfolding sample_timeouts_def by auto

text \<open>
  C9: The firing loop of \<open>loop_run\<close> ends, whatever the callbacks add or cancel (a timeout added
  by a callback is never due in the same round): each of the timeouts due at most once, in the
  order of their times, and, unless a callback fails, none is left that is due.
\<close>

theorem firing_leaves_nothing_due:
  assumes "uses_timers cb" and "tmo_inv l"
  shows "\<exists>r. fire_due cb (Suc (length (queue l))) l s = Some r \<and>
    (\<forall>l' s' fired. r = Inr (l', s', fired) \<longrightarrow>
       tmo_inv l' \<and> (\<forall>t \<in> set (queue l'). now l' < fire_at t) \<and>
       mset fired \<subseteq># due l \<and> sorted (map fire_at fired))"
proof -
  have "size (due l) \<le> size (mset (queue l))"
    unfolding due_def by (intro size_mset_mono multiset_filter_subset)
  then have "size (due l) < Suc (length (queue l))"
    by simp
  from fire_due_spec [OF assms this, of s]
  obtain r where "fire_due cb (Suc (length (queue l))) l s = Some r"
    "\<forall>l' s' fired. r = Inr (l', s', fired) \<longrightarrow> tmo_inv l' \<and> due l' = {#} \<and> mset fired \<subseteq># due l \<and> sorted (map fire_at fired)"
    by blast
  moreover have "now l' < fire_at t" if "due l' = {#}" "t \<in> set (queue l')" for l' :: "'a timeouts" and t
    using that by (auto simp: due_def filter_mset_eq_conv not_le)
  ultimately show ?thesis
    by blast
qed

definition rearm :: "nat timeout \<Rightarrow> nat timeouts \<Rightarrow> nat list \<Rightarrow> (nat timeouts \<times> nat list) result" where
  "rearm t l s = rbind (loop_timeout_add l 20 (tcontext t) (callback t)) (\<lambda>(i, l'). Inr (l', callback t # s))"

lemma rearm_use: "uses_timers rearm"
  by (auto simp: uses_timers_def rearm_def rbind_eq_Inr intro: timer_use.intros)

theorem firing_leaves_nothing_due_witness:
  "\<exists>r. fire_due rearm 4 sample_timeouts [] = Some r \<and>
     (\<forall>l' s' fired. r = Inr (l', s', fired) \<longrightarrow> (\<forall>t \<in> set (queue l'). now l' < fire_at t))"
proof -
  have n: "Suc (length (queue sample_timeouts)) = 4"
    by (simp add: sample_timeouts_def)
  show ?thesis
    using firing_leaves_nothing_due [of rearm, OF rearm_use sample_timeouts_ok(1), of "[]"]
    unfolding n by blast
qed

lemma signed_difference:
  "0 \<le> a \<Longrightarrow> 0 \<le> b \<Longrightarrow> a < 9223372036854775808 \<Longrightarrow> b < 9223372036854775808 \<Longrightarrow>
    signed_take_bit 63 (a - b) = (a - b :: int)"
  by (intro signed_take_bit_int_eq_self) simp_all

text \<open>
  C17: The wait for events never oversleeps: the time is within the range of \<open>int\<close>, no timeout
  still in the future comes before its end, and it is zero as soon as one is due, provided the
  first one is less than 2^63 ms away.
\<close>

theorem wait_never_oversleeps:
  assumes "tmo_inv l" and "t \<in> set (queue l)" and "unat (fire_at t) < 2 ^ 63" and "unat (now l) < 2 ^ 63"
  shows "0 \<le> wait_time l \<and> wait_time l \<le> 2147483647 \<and>
    (if fire_at t \<le> now l then wait_time l = 0 else int (unat (now l)) + wait_time l \<le> int (unat (fire_at t)))"
proof -
  obtain f ts where q: "queue l = f # ts"
    using assms(2) by (cases "queue l") auto
  have "fire_at f \<le> fire_at t"
    using assms(1,2) q by (auto simp: tmo_inv_def)
  then have le: "unat (fire_at f) \<le> unat (fire_at t)"
    by (simp add: word_le_nat_alt)
  have d: "sint (fire_at f - now l) = int (unat (fire_at f)) - int (unat (now l))"
  proof -
    have "sint (fire_at f - now l) = signed_take_bit 63 (take_bit 64 (uint (fire_at f) - uint (now l)))"
      by (simp add: sint_uint uint_word_ariths take_bit_eq_mod)
    also have "\<dots> = signed_take_bit 63 (uint (fire_at f) - uint (now l))"
      by (simp add: signed_take_bit_take_bit)
    also have "\<dots> = uint (fire_at f) - uint (now l)"
    proof -
      have "uint (fire_at f) < 9223372036854775808" "uint (now l) < 9223372036854775808"
        using assms(3,4) [simplified] le uint_nat [of "fire_at f"] uint_nat [of "now l"] by linarith+
      moreover have "0 \<le> uint (fire_at f)" "0 \<le> uint (now l)"
        by simp_all
      ultimately show ?thesis
        by (rule signed_difference [rotated 2])
    qed
    finally show ?thesis
      using uint_nat [of "fire_at f"] uint_nat [of "now l"] by linarith
  qed
  show ?thesis
    using \<open>fire_at f \<le> fire_at t\<close> by (auto simp: wait_time_def q Let_def d word_le_def)
qed

theorem wait_never_oversleeps_witness:
  "wait_time sample_timeouts = 0 \<and> \<lparr>fire_at = 5, callback = 0, tcontext = Some 0, tid = 1\<rparr> \<in> set (queue sample_timeouts)"
  using wait_never_oversleeps [OF sample_timeouts_ok(1),
      of "\<lparr>fire_at = 5, callback = 0, tcontext = Some 0, tid = 1\<rparr>"]
  by (simp add: sample_timeouts_def)

text \<open>
  The removal by position in \<open>plugin_destroy\<close>, which moves the rest of the array down as it
  goes, drops exactly the timeouts of the destroyed plugin and keeps the others in order.
\<close>

theorem kill_timeouts_exact:
  "queue (kill_timeouts l c) = filter (\<lambda>t. tcontext t \<noteq> Some c) (queue l) \<and>
   (tmo_inv l \<longrightarrow> tmo_inv (kill_timeouts l c))"
  using tmo_inv_filter [of l "\<lambda>t. tcontext t \<noteq> Some c"] by (simp add: kill_timeouts_def kill_from_filter)

theorem kill_timeouts_exact_witness:
  "map tid (queue (kill_timeouts sample_timeouts 1)) = [1, 2] \<and> tmo_inv (kill_timeouts sample_timeouts 1)"
  using kill_timeouts_exact [of sample_timeouts 1] sample_timeouts_ok(1) by (simp add: sample_timeouts_def)

end
