(* ===== verification/Uplink.thy ===== *)
theory Uplink
  imports Timeouts UplinkCodec
begin

text \<open>
  The connection to the server (\<open>core/uplink.c\<close>): connecting, reconnecting with growing delays,
  pings, disconnecting and sending through the compression, with the parts of the loop they call
  (\<open>loop_uplink_disconnected\<close> of \<open>core/loop.c\<close>).

  The state of the daemon is one record, \<open>world\<close>: the fields of \<open>struct uplink\<close>, the timeouts of
  the loop, the plugin holders, and what the operating system will answer to the calls of the
  daemon (connecting, sending, receiving), as lists that are consumed. \<open>w_wire\<close> is what was
  handed to the current connection.

  Parameters, in the record \<open>platform\<close>: the functions of zlib, on an abstract stream state; the
  answer of the crypto chip and the size of its challenges; what lies in uninitialised memory; the process id and the compiled-in half of the password; and the
  callbacks of the plugins, by the name of their library, since in C they are function pointers.
  The resolver (\<open>update_addrinfo\<close>) only fills data for other clients and is left out.
\<close>

datatype auth_status = AUTHENTICATED | SENT | NOT_STARTED | FAILED

datatype send_outcome = Sent nat | SendIntr | SendLost | SendFatal
datatype recv_outcome = Recv bytes | RecvAgain | RecvIntr | RecvReset | RecvFatal

text \<open>The callbacks given to \<open>loop_timeout_add\<close>.\<close>

datatype 'c timer = SendPing | ReconnectNow | PluginTimer 'c

record 'p holder =
  h_id :: nat
  h_name :: bytes
  h_libname :: bytes
  h_hash :: bytes
  h_version :: u16
  h_active :: bool
  h_failed :: nat
  h_data :: 'p

record ('z, 'c, 'p) world =
  u_remote_name :: "string option"
  u_service :: "string option"
  u_login :: "string option"
  u_password :: "string option"
  u_cert :: "string option"
  u_buffer :: "bytes option"
  u_buffer_size :: nat
  u_size_rest :: nat
  u_reconnect_timeout :: u32
  u_has_size :: bool
  u_last_ipv6 :: bool
  u_ping_timeout :: u64
  u_pings_unanswered :: nat
  u_ping_scheduled :: bool
  u_reconnect_scheduled :: bool
  u_seen_data :: bool
  u_reconnect_id :: u64
  u_fd :: int
  u_last_connect :: u64
  u_auth_status :: auth_status
  u_login_failure_count :: nat
  u_zsend :: 'z
  u_zrecv :: 'z
  u_inc :: bytes
  u_status_file :: "string option"
  u_handlers :: "int list"
  u_empty_handler :: "nat list"
  w_timeouts :: "'c timer timeouts"
  w_plugins :: "'p holder list"
  w_connects :: "(int \<times> int) option list"
  w_sends :: "send_outcome list"
  w_recvs :: "recv_outcome list"
  w_wire :: bytes
  w_status :: "string list"

record ('z, 'c, 'p) platform =
  z_deflate :: "'z \<Rightarrow> bool \<Rightarrow> bytes \<Rightarrow> nat \<Rightarrow> 'z \<times> nat \<times> bytes"
  z_inflate :: "'z \<Rightarrow> bytes \<Rightarrow> nat \<Rightarrow> 'z \<times> nat \<times> bytes \<times> bool"
  z_deflate_reset :: "'z \<Rightarrow> 'z"
  z_inflate_reset :: "'z \<Rightarrow> 'z"
  z_rounds :: nat
  own_pid :: u32
  passwd_half :: bytes
  challenge_size :: nat
  chip :: "bytes \<Rightarrow> (bytes \<times> bytes) option"
  junk :: bytes
  connected_callback :: "bytes \<Rightarrow> (nat \<Rightarrow> ('z, 'c, 'p) world \<Rightarrow> ('z, 'c, 'p) world result) option"
  disconnected_callback :: "bytes \<Rightarrow> (nat \<Rightarrow> ('z, 'c, 'p) world \<Rightarrow> ('z, 'c, 'p) world result) option"
  data_callback :: "bytes \<Rightarrow> (nat \<Rightarrow> bytes \<Rightarrow> ('z, 'c, 'p) world \<Rightarrow> ('z, 'c, 'p) world result) option"

definition RECONNECT_BASE :: u32 where "RECONNECT_BASE = 2000"
definition RECONNECT_MAX :: u32 where "RECONNECT_MAX = 300000"
definition RECONNECT_MULTIPLY :: u32 where "RECONNECT_MULTIPLY = 2"
definition RECONNECT_AUTH :: u32 where "RECONNECT_AUTH = 600000"
definition PING_TIMEOUT :: u32 where "PING_TIMEOUT = 60000"
definition PING_COUNT :: nat where "PING_COUNT = 2"
definition RECONN_TIME :: u64 where "RECONN_TIME = 1000"
definition LOGIN_FAILURE_LIMIT :: nat where "LOGIN_FAILURE_LIMIT = 10"
definition COMPRESSION_BUFFSIZE :: nat where "COMPRESSION_BUFFSIZE = 1024"
definition PROTOCOL_VERSION :: byte where "PROTOCOL_VERSION = 1"

subsection \<open>The plugins as the uplink sees them\<close>

definition holder_of :: "('z, 'c, 'p) world \<Rightarrow> nat \<Rightarrow> 'p holder option" where
  "holder_of w i = find (\<lambda>h. h_id h = i) (w_plugins w)"

definition upd_holder :: "nat \<Rightarrow> ('p holder \<Rightarrow> 'p holder) \<Rightarrow> ('z, 'c, 'p) world \<Rightarrow> ('z, 'c, 'p) world" where
  "upd_holder i f w = w\<lparr>w_plugins := map (\<lambda>h. if h_id h = i then f h else h) (w_plugins w)\<rparr>"

definition set_active :: "nat \<Rightarrow> bool \<Rightarrow> ('z, 'c, 'p) world \<Rightarrow> ('z, 'c, 'p) world" where
  "set_active i b = upd_holder i (h_active_update (\<lambda>_. b))"

text \<open>The generated wrappers around the callbacks without a parameter: a missing one is skipped.\<close>

definition plugin_call ::
  "(bytes \<Rightarrow> (nat \<Rightarrow> ('z, 'c, 'p) world \<Rightarrow> ('z, 'c, 'p) world result) option) \<Rightarrow> 'p holder \<Rightarrow>
     ('z, 'c, 'p) world \<Rightarrow> ('z, 'c, 'p) world result" where
  "plugin_call cbs h w = (case cbs (h_libname h) of None \<Rightarrow> Inr w | Some cb \<Rightarrow> cb (h_id h) w)"

definition plugin_disconnect :: "('z, 'c, 'p) platform \<Rightarrow> ('z, 'c, 'p) world \<Rightarrow> nat \<Rightarrow> ('z, 'c, 'p) world result" where
  "plugin_disconnect m w i =
     (case holder_of w i of
        None \<Rightarrow> Inl BadAccess
      | Some h \<Rightarrow>
          rbind (if h_active h then plugin_call (disconnected_callback m) h w else Inr w)
            (\<lambda>w. Inr (set_active i False w)))"

definition loop_uplink_disconnected :: "('z, 'c, 'p) platform \<Rightarrow> ('z, 'c, 'p) world \<Rightarrow> ('z, 'c, 'p) world result" where
  "loop_uplink_disconnected m w = fold_result (plugin_disconnect m) w (map h_id (w_plugins w))"

subsection \<open>The connection\<close>

definition dump_status :: "('z, 'c, 'p) world \<Rightarrow> ('z, 'c, 'p) world" where
  "dump_status w =
     (let status = (if u_fd w = - 1 then ''offline''
                    else case u_auth_status w of
                           AUTHENTICATED \<Rightarrow> ''online''
                         | SENT \<Rightarrow> ''connecting''
                         | NOT_STARTED \<Rightarrow> ''connecting''
                         | FAILED \<Rightarrow> ''bad-auth'')
      in if u_status_file w = None then w else w\<lparr>w_status := status # w_status w\<rparr>)"

text \<open>The calls of the loop's timeouts.\<close>

definition add_timer :: "('z, 'c, 'p) world \<Rightarrow> u32 \<Rightarrow> nat option \<Rightarrow> 'c timer \<Rightarrow> (u64 \<times> ('z, 'c, 'p) world) result" where
  "add_timer w after ctx cb =
     rbind (loop_timeout_add (w_timeouts w) after ctx cb) (\<lambda>(i, l). Inr (i, w\<lparr>w_timeouts := l\<rparr>))"

definition cancel_timer :: "('z, 'c, 'p) world \<Rightarrow> u64 \<Rightarrow> ('z, 'c, 'p) world result" where
  "cancel_timer w i = rbind (loop_timeout_cancel (w_timeouts w) i) (\<lambda>l. Inr (w\<lparr>w_timeouts := l\<rparr>))"

text \<open>The loop takes a due timeout off before it calls its callback.\<close>

definition unqueue :: "('z, 'c, 'p) world \<Rightarrow> ('z, 'c, 'p) world" where
  "unqueue w = w\<lparr>w_timeouts := (w_timeouts w)\<lparr>queue := tl (queue (w_timeouts w))\<rparr>\<rparr>"

definition schedule_reconnect :: "('z, 'c, 'p) world \<Rightarrow> u32 \<Rightarrow> ('z, 'c, 'p) world result" where
  "schedule_reconnect w after =
     rbind (add_timer w after None ReconnectNow) (\<lambda>(i, w).
       Inr (w\<lparr>u_reconnect_id := i, u_reconnect_scheduled := True\<rparr>))"

definition schedule_ping :: "('z, 'c, 'p) world \<Rightarrow> ('z, 'c, 'p) world result" where
  "schedule_ping w =
     rbind (add_timer w PING_TIMEOUT None SendPing) (\<lambda>(i, w).
       Inr (w\<lparr>u_ping_timeout := i, u_ping_scheduled := True\<rparr>))"

text \<open>\<open>uplink_connect_internal\<close>: the sockets, the fork of socat and the handler of its error
  output. The operating system answers with the two descriptors, or the call fails.\<close>

definition take_handler :: "int \<Rightarrow> ('z, 'c, 'p) world \<Rightarrow> ('z, 'c, 'p) world" where
  "take_handler fd w =
     (case u_empty_handler w of
        [] \<Rightarrow> w\<lparr>u_handlers := u_handlers w @ [fd]\<rparr>
      | h # hs \<Rightarrow> w\<lparr>u_empty_handler := hs, u_handlers := (u_handlers w)[h := fd]\<rparr>)"

definition uplink_connect_internal :: "('z, 'c, 'p) world \<Rightarrow> bool \<times> ('z, 'c, 'p) world" where
  "uplink_connect_internal w =
     (case w_connects w of
        [] \<Rightarrow> (False, w)
      | None # cs \<Rightarrow> (False, w\<lparr>w_connects := cs\<rparr>)
      | Some (fd, err) # cs \<Rightarrow>
          (True, dump_status (take_handler err
             (w\<lparr>w_connects := cs, u_last_ipv6 := \<not> u_last_ipv6 w, u_fd := fd, u_auth_status := NOT_STARTED,
                w_wire := []\<rparr>))))"

text \<open>The delay of the next attempt: long after a refused login, else doubled up to the maximum.\<close>

definition backoff :: "('z, 'c, 'p) world \<Rightarrow> ('z, 'c, 'p) world" where
  "backoff w =
     (if u_auth_status w = FAILED
      then w\<lparr>u_auth_status := NOT_STARTED, u_reconnect_timeout := RECONNECT_AUTH\<rparr>
      else if u_reconnect_timeout w \<noteq> 0
      then (let t = u_reconnect_timeout w * RECONNECT_MULTIPLY
            in w\<lparr>u_reconnect_timeout := (if t > RECONNECT_MAX then RECONNECT_MAX else t)\<rparr>)
      else w\<lparr>u_reconnect_timeout := RECONNECT_BASE\<rparr>)"

definition connect_fail :: "('z, 'c, 'p) world \<Rightarrow> ('z, 'c, 'p) world result" where
  "connect_fail w =
     assert_then (\<not> u_reconnect_scheduled w) (schedule_reconnect (backoff w) (u_reconnect_timeout (backoff w)))"

definition uplink_connect :: "('z, 'c, 'p) platform \<Rightarrow> ('z, 'c, 'p) world \<Rightarrow> ('z, 'c, 'p) world result" where
  "uplink_connect m w =
     assert_then (u_fd w = - 1)
       (if u_last_connect w + RECONN_TIME > now (w_timeouts w) then connect_fail w
        else let w1 = w\<lparr>u_login_failure_count := u_login_failure_count w + 1\<rparr>
          in if u_login_failure_count w \<ge> LOGIN_FAILURE_LIMIT then Inl Died
          else case uplink_connect_internal (w1\<lparr>u_last_connect := now (w_timeouts w)\<rparr>) of
              (False, w2) \<Rightarrow> connect_fail w2
            | (True, w2) \<Rightarrow>
                rbind (schedule_ping
                  (w2\<lparr>u_reconnect_timeout := (if u_seen_data w2 then 0 else u_reconnect_timeout w2),
                      u_seen_data := False, u_pings_unanswered := 0\<rparr>))
                  (\<lambda>w. Inr (w\<lparr>u_zsend := z_deflate_reset m (u_zsend w), u_zrecv := z_inflate_reset m (u_zrecv w)\<rparr>)))"

definition reconnect_now :: "('z, 'c, 'p) platform \<Rightarrow> ('z, 'c, 'p) world \<Rightarrow> ('z, 'c, 'p) world result" where
  "reconnect_now m w = uplink_connect m (w\<lparr>u_reconnect_scheduled := False\<rparr>)"

definition buffer_reset :: "('z, 'c, 'p) world \<Rightarrow> ('z, 'c, 'p) world" where
  "buffer_reset w = w\<lparr>u_buffer_size := 0, u_size_rest := 0, u_buffer := None, u_has_size := False\<rparr>"

definition uplink_disconnect :: "('z, 'c, 'p) platform \<Rightarrow> ('z, 'c, 'p) world \<Rightarrow> bool \<Rightarrow> ('z, 'c, 'p) world result" where
  "uplink_disconnect m w reset_reconnect =
     rbind (if u_reconnect_scheduled w \<and> reset_reconnect
            then rbind (cancel_timer w (u_reconnect_id w)) (\<lambda>w. Inr (w\<lparr>u_reconnect_scheduled := False\<rparr>))
            else Inr w) (\<lambda>w.
       if u_fd w \<noteq> - 1 then
         rbind (loop_uplink_disconnected m w) (\<lambda>w.
           let w1 = buffer_reset (w\<lparr>u_fd := - 1\<rparr>)
           in rbind (if u_ping_scheduled w1 then cancel_timer w1 (u_ping_timeout w1) else Inr w1) (\<lambda>w.
                Inr (dump_status (w\<lparr>u_ping_scheduled := False\<rparr>))))
       else Inr (dump_status w))"

definition uplink_reconnect :: "('z, 'c, 'p) platform \<Rightarrow> ('z, 'c, 'p) world \<Rightarrow> ('z, 'c, 'p) world result" where
  "uplink_reconnect m w =
     rbind (if u_reconnect_scheduled w then Inr w else schedule_reconnect w 0) (\<lambda>w.
       uplink_disconnect m w False)"

subsection \<open>Sending\<close>

datatype raw_end = RawDone | RawBlocked | RawLost | RawFatal

text \<open>The calls of \<open>send\<close> until everything is taken: how it ended, the answers left and what the
  socket took.\<close>

fun raw_loop :: "send_outcome list \<Rightarrow> bytes \<Rightarrow> raw_end \<times> send_outcome list \<times> bytes" where
  "raw_loop outs [] = (RawDone, outs, [])"
| "raw_loop [] (b # bs) = (RawBlocked, [], [])"
| "raw_loop (Sent n # outs) (b # bs) =
     (case raw_loop outs (drop n (b # bs)) of (e, outs', sent) \<Rightarrow> (e, outs', take n (b # bs) @ sent))"
| "raw_loop (SendIntr # outs) (b # bs) = raw_loop outs (b # bs)"
| "raw_loop (SendLost # outs) (b # bs) = (RawLost, outs, [])"
| "raw_loop (SendFatal # outs) (b # bs) = (RawFatal, outs, [])"

definition send_raw_data :: "('z, 'c, 'p) platform \<Rightarrow> ('z, 'c, 'p) world \<Rightarrow> bytes \<Rightarrow> (bool \<times> ('z, 'c, 'p) world) result" where
  "send_raw_data m w buf =
     (case raw_loop (w_sends w) buf of
        (e, outs, sent) \<Rightarrow>
          let w1 = w\<lparr>w_sends := outs, w_wire := w_wire w @ sent\<rparr>
          in case e of
               RawDone \<Rightarrow> Inr (True, w1)
             | RawBlocked \<Rightarrow> Inl Diverged
             | RawLost \<Rightarrow> rbind (uplink_reconnect m w1) (\<lambda>w. Inr (False, w))
             | RawFatal \<Rightarrow> Inl Died)"

text \<open>The loop that feeds the input to \<open>deflate\<close>, and the one that flushes; each is bounded by
  \<open>z_rounds\<close>.\<close>

fun deflate_rounds :: "('z, 'c, 'p) platform \<Rightarrow> nat \<Rightarrow> ('z, 'c, 'p) world \<Rightarrow> bytes \<Rightarrow> (bool \<times> ('z, 'c, 'p) world) result" where
  "deflate_rounds m 0 w input = (if input = [] then Inr (True, w) else Inl Diverged)"
| "deflate_rounds m (Suc n) w input =
     (if input = [] then Inr (True, w)
      else case z_deflate m (u_zsend w) False input COMPRESSION_BUFFSIZE of
        (z, used, out) \<Rightarrow>
          rbind (send_raw_data m (w\<lparr>u_zsend := z\<rparr>) out) (\<lambda>(ok, w).
            if ok then deflate_rounds m n w (drop used input) else Inr (False, w)))"

fun flush_rounds :: "('z, 'c, 'p) platform \<Rightarrow> nat \<Rightarrow> ('z, 'c, 'p) world \<Rightarrow> (bool \<times> ('z, 'c, 'p) world) result" where
  "flush_rounds m 0 w = Inl Diverged"
| "flush_rounds m (Suc n) w =
     (case z_deflate m (u_zsend w) True [] COMPRESSION_BUFFSIZE of
        (z, used, out) \<Rightarrow>
          rbind (send_raw_data m (w\<lparr>u_zsend := z\<rparr>) out) (\<lambda>(ok, w).
            if \<not> ok then Inr (False, w)
            else if length out = COMPRESSION_BUFFSIZE then flush_rounds m n w
            else Inr (True, w)))"

definition buffer_send :: "('z, 'c, 'p) platform \<Rightarrow> ('z, 'c, 'p) world \<Rightarrow> bytes \<Rightarrow> bool \<Rightarrow> (bool \<times> ('z, 'c, 'p) world) result" where
  "buffer_send m w input msg_more =
     rbind (deflate_rounds m (z_rounds m) w input) (\<lambda>(ok, w).
       if \<not> ok then Inr (False, w)
       else if msg_more then Inr (True, w) else flush_rounds m (z_rounds m) w)"

definition uplink_send_message :: "('z, 'c, 'p) platform \<Rightarrow> ('z, 'c, 'p) world \<Rightarrow> byte \<Rightarrow> bytes \<Rightarrow> (bool \<times> ('z, 'c, 'p) world) result" where
  "uplink_send_message m w type payload =
     (if u_fd w = - 1 then Inr (False, w)
      else rbind (buffer_send m w (put32 (word_of_nat (length payload + 1)) @ [type]) True) (\<lambda>(ok, w).
        if ok then buffer_send m w payload False else Inr (False, w)))"

definition loop_plugin_active :: "('z, 'c, 'p) world \<Rightarrow> nat \<Rightarrow> bool result" where
  "loop_plugin_active w i = (case holder_of w i of None \<Rightarrow> Inl BadAccess | Some h \<Rightarrow> Inr (h_active h))"

definition loop_plugin_get_name :: "('z, 'c, 'p) world \<Rightarrow> nat \<Rightarrow> bytes result" where
  "loop_plugin_get_name w i = (case holder_of w i of None \<Rightarrow> Inl BadAccess | Some h \<Rightarrow> Inr (h_name h))"

definition uplink_plugin_send_message :: "('z, 'c, 'p) platform \<Rightarrow> ('z, 'c, 'p) world \<Rightarrow> nat \<Rightarrow> bytes \<Rightarrow> (bool \<times> ('z, 'c, 'p) world) result" where
  "uplink_plugin_send_message m w i payload =
     rbind (loop_plugin_active w i) (\<lambda>active.
       if \<not> active then Inr (False, w)
       else rbind (loop_plugin_get_name w i) (\<lambda>name.
         rbind (route_payload name payload) (\<lambda>msg.
           uplink_send_message m w (code (CHR ''R'')) msg)))"

definition uplink_connected :: "('z, 'c, 'p) world \<Rightarrow> bool" where
  "uplink_connected w \<longleftrightarrow> u_fd w \<noteq> - 1 \<and> u_auth_status w = AUTHENTICATED"

definition send_ping :: "('z, 'c, 'p) platform \<Rightarrow> ('z, 'c, 'p) world \<Rightarrow> ('z, 'c, 'p) world result" where
  "send_ping m w =
     (let w1 = w\<lparr>u_ping_scheduled := False\<rparr>
      in if u_pings_unanswered w1 \<ge> PING_COUNT
         then rbind (uplink_reconnect m w1) (\<lambda>w. Inr (w\<lparr>u_pings_unanswered := 0\<rparr>))
         else rbind (uplink_send_message m (w1\<lparr>u_pings_unanswered := u_pings_unanswered w1 + 1\<rparr>) (code (CHR ''P'')) [])
           (\<lambda>(ok, w). schedule_ping w))"

subsection \<open>Configuring and destroying\<close>

text \<open>\<open>strcmp\<close> on the new value, which faults on a missing one.\<close>

definition str_same :: "string \<Rightarrow> string option \<Rightarrow> bool result" where
  "str_same old new = (case new of None \<Rightarrow> Inl BadAccess | Some s \<Rightarrow> Inr (s = old))"

definition both :: "bool result \<Rightarrow> bool result \<Rightarrow> bool result" where
  "both a b = rbind a (\<lambda>x. if x then b else Inr False)"

definition required_same :: "string option \<Rightarrow> string option \<Rightarrow> bool result" where
  "required_same old new = (case old of None \<Rightarrow> Inr False | Some s \<Rightarrow> str_same s new)"

definition login_same :: "string option \<Rightarrow> string option \<Rightarrow> bool result" where
  "login_same old new = (if old = new then Inr True else required_same old new)"

definition password_same :: "string option \<Rightarrow> string option \<Rightarrow> bool result" where
  "password_same old new =
     (if old = new then Inr True else case old of None \<Rightarrow> Inr True | Some s \<Rightarrow> str_same s new)"

definition uplink_configure ::
  "('z, 'c, 'p) platform \<Rightarrow> ('z, 'c, 'p) world \<Rightarrow> string option \<Rightarrow> string option \<Rightarrow> string option \<Rightarrow> string option \<Rightarrow>
     string option \<Rightarrow> ('z, 'c, 'p) world result" where
  "uplink_configure m w remote_name service login password cert =
     rbind (both (required_same (u_remote_name w) remote_name)
           (both (required_same (u_service w) service)
           (both (required_same (u_cert w) cert)
           (both (login_same (u_login w) login) (password_same (u_password w) password))))) (\<lambda>same.
       let w1 = w\<lparr>u_remote_name := remote_name, u_service := service, u_login := login, u_password := password,
                  u_cert := cert\<rparr>
       in if same then Inr w1 else uplink_reconnect m w1)"

definition uplink_set_status_file :: "('z, 'c, 'p) world \<Rightarrow> string \<Rightarrow> ('z, 'c, 'p) world result" where
  "uplink_set_status_file w file =
     assert_then (u_status_file w = None) (Inr (dump_status (w\<lparr>u_status_file := Some file\<rparr>)))"

definition uplink_destroy :: "('z, 'c, 'p) platform \<Rightarrow> ('z, 'c, 'p) world \<Rightarrow> ('z, 'c, 'p) world result" where
  "uplink_destroy m w = uplink_disconnect m w True"

text \<open>The error output of socat; the answer of \<open>recv\<close> on that socket is an argument.\<close>

definition err_read :: "('z, 'c, 'p) platform \<Rightarrow> ('z, 'c, 'p) world \<Rightarrow> nat \<Rightarrow> recv_outcome \<Rightarrow> ('z, 'c, 'p) world result" where
  "err_read m w h outcome =
     (if h \<ge> length (u_handlers w) then Inl BadAccess
      else if u_handlers w ! h = - 1 then
        rbind (uplink_disconnect m w True) connect_fail
      else case outcome of
          RecvAgain \<Rightarrow> Inr w
        | Recv (b # bs) \<Rightarrow> Inr w
        | _ \<Rightarrow> Inr (w\<lparr>u_handlers := (u_handlers w)[h := - 1], u_empty_handler := h # u_empty_handler w\<rparr>))"

subsection \<open>The invariant of the connection\<close>

definition reconnect_ids :: "'c timer timeouts \<Rightarrow> u64 multiset" where
  "reconnect_ids l = image_mset tid (filter_mset (\<lambda>t. callback t = ReconnectNow) (mset (queue l)))"

definition ping_ids :: "'c timer timeouts \<Rightarrow> u64 multiset" where
  "ping_ids l = image_mset tid (filter_mset (\<lambda>t. callback t = SendPing) (mset (queue l)))"

definition good_fds :: "(int \<times> int) option list \<Rightarrow> bool" where
  "good_fds cs \<longleftrightarrow> (\<forall>e \<in> set cs. \<forall>fd err. e = Some (fd, err) \<longrightarrow> fd \<noteq> - 1)"

lemma good_fds_simps [simp]:
  "good_fds (None # cs) = good_fds cs" "good_fds (Some (fd, err) # cs) \<longleftrightarrow> fd \<noteq> - 1 \<and> good_fds cs"
  by (auto simp: good_fds_def)

text \<open>The timeouts of the plugins, and the clock: what the uplink leaves alone.\<close>

definition plugin_part :: "'c timer timeouts \<Rightarrow> u64 \<times> 'c timer timeout multiset" where
  "plugin_part l = (now l, filter_mset (\<lambda>t. callback t \<noteq> ReconnectNow \<and> callback t \<noteq> SendPing) (mset (queue l)))"

text \<open>The timers agree with the flags: exactly one pending reconnect when one is scheduled, none
  otherwise; the ping the uplink remembers is pending. The clock is far from wrapping, and the
  operating system never gives the descriptor -1. \<open>K\<close> is the part of the others.\<close>

definition core_inv :: "u64 \<times> 'c timer timeout multiset \<Rightarrow> ('z, 'c, 'p) world \<Rightarrow> bool" where
  "core_inv K w \<longleftrightarrow> tmo_inv (w_timeouts w) \<and> unat (now (w_timeouts w)) + 2 ^ 32 < 2 ^ 64 \<and>
     reconnect_ids (w_timeouts w) = (if u_reconnect_scheduled w then {#u_reconnect_id w#} else {#}) \<and>
     (u_ping_scheduled w \<longrightarrow> u_ping_timeout w \<in># ping_ids (w_timeouts w)) \<and>
     good_fds (w_connects w) \<and> plugin_part (w_timeouts w) = K"

text \<open>Between two events a connection is open or a reconnect is scheduled, never both.\<close>

definition up_inv :: "u64 \<times> 'c timer timeout multiset \<Rightarrow> ('z, 'c, 'p) world \<Rightarrow> bool" where
  "up_inv K w \<longleftrightarrow> core_inv K w \<and> (u_fd w = - 1 \<longleftrightarrow> u_reconnect_scheduled w)"

text \<open>What a plugin may do when it is told of the disconnection: anything but touch the uplink and
  the timeouts. (No plugin of the repository has such a callback.)\<close>

definition same_uplink :: "('z, 'c, 'p) world \<Rightarrow> ('z, 'c, 'p) world \<Rightarrow> bool" where
  "same_uplink w w' \<longleftrightarrow>
     u_fd w' = u_fd w \<and> u_reconnect_scheduled w' = u_reconnect_scheduled w \<and> u_reconnect_id w' = u_reconnect_id w \<and>
     u_ping_scheduled w' = u_ping_scheduled w \<and> u_ping_timeout w' = u_ping_timeout w \<and>
     w_timeouts w' = w_timeouts w \<and>
     map h_id (w_plugins w') = map h_id (w_plugins w) \<and> w_connects w' = w_connects w"

definition quiet_disconnect :: "('z, 'c, 'p) platform \<Rightarrow> bool" where
  "quiet_disconnect m \<longleftrightarrow>
     (\<forall>lib cb. disconnected_callback m lib = Some cb \<longrightarrow> (\<forall>i w. safe (same_uplink w) (cb i w)))"

lemma same_uplink_refl [simp]: "same_uplink w w"
  by (simp add: same_uplink_def)

lemma same_uplink_trans: "same_uplink a b \<Longrightarrow> same_uplink b c \<Longrightarrow> same_uplink a c"
  unfolding same_uplink_def by simp

lemma same_uplink_core: "same_uplink w w' \<Longrightarrow> core_inv K w \<Longrightarrow> core_inv K w'"
  by (auto simp: same_uplink_def core_inv_def)

lemma same_uplink_set_active [simp]: "same_uplink w (set_active i b w)"
  by (simp add: same_uplink_def set_active_def upd_holder_def)

lemma dump_status_fields [simp]:
  "u_fd (dump_status w) = u_fd w" "u_reconnect_scheduled (dump_status w) = u_reconnect_scheduled w"
  "core_inv K (dump_status w) = core_inv K w" "u_auth_status (dump_status w) = u_auth_status w"
  "w_timeouts (dump_status w) = w_timeouts w" "u_reconnect_id (dump_status w) = u_reconnect_id w"
  "u_ping_scheduled (dump_status w) = u_ping_scheduled w" "u_ping_timeout (dump_status w) = u_ping_timeout w"
  "w_connects (dump_status w) = w_connects w" "u_seen_data (dump_status w) = u_seen_data w"
  "w_sends (dump_status w) = w_sends w" "w_wire (dump_status w) = w_wire w" "u_zsend (dump_status w) = u_zsend w"
  "u_inc (dump_status w) = u_inc w" "w_plugins (dump_status w) = w_plugins w"
  "u_buffer (dump_status w) = u_buffer w" "u_buffer_size (dump_status w) = u_buffer_size w"
  "u_reconnect_timeout (dump_status w) = u_reconnect_timeout w"
  by (simp_all add: dump_status_def Let_def core_inv_def)

lemma reconnect_ids_add:
  assumes "tmo_inv l" and "loop_timeout_add l a ctx cb = Inr (i, l')"
  shows "reconnect_ids l' = (if cb = ReconnectNow then add_mset i (reconnect_ids l) else reconnect_ids l)"
    and "ping_ids l' = (if cb = SendPing then add_mset i (ping_ids l) else ping_ids l)"
  using timeout_add_spec [OF assms] by (simp_all add: reconnect_ids_def ping_ids_def added_timeout_def)

lemma reconnect_ids_cancel:
  assumes "tmo_inv l" and "loop_timeout_cancel l i = Inr l'"
  shows "reconnect_ids l' = filter_mset (\<lambda>j. j \<noteq> i) (reconnect_ids l)"
    and "ping_ids l' = filter_mset (\<lambda>j. j \<noteq> i) (ping_ids l)"
proof -
  have "l' = l\<lparr>queue := filter (\<lambda>t. tid t \<noteq> i) (queue l)\<rparr>"
    using assms by (auto simp: timeout_cancel_spec split: if_splits)
  then show "reconnect_ids l' = filter_mset (\<lambda>j. j \<noteq> i) (reconnect_ids l)"
    "ping_ids l' = filter_mset (\<lambda>j. j \<noteq> i) (ping_ids l)"
    by (simp_all add: reconnect_ids_def ping_ids_def filter_mset_image_mset filter_filter_mset conj_commute)
qed

lemma plugin_part_cancel:
  assumes "tmo_inv l" and "loop_timeout_cancel l i = Inr l'" and "i \<in># reconnect_ids l + ping_ids l"
  shows "plugin_part l' = plugin_part l"
proof -
  obtain t where t: "t \<in> set (queue l)" "tid t = i" "callback t = ReconnectNow \<or> callback t = SendPing"
    using assms(3) by (auto simp: reconnect_ids_def ping_ids_def)
  have "inj_on tid (set (queue l))"
    using assms(1) by (simp add: tmo_inv_def distinct_map)
  then have other: "tid s \<noteq> i" if "s \<in> set (queue l)" "callback s \<noteq> ReconnectNow" "callback s \<noteq> SendPing" for s
    using that t by (metis inj_onD)
  have "l' = l\<lparr>queue := filter (\<lambda>t. tid t \<noteq> i) (queue l)\<rparr>"
    using assms(1,2) by (auto simp: timeout_cancel_spec split: if_splits)
  then show ?thesis
    unfolding plugin_part_def by (simp add: filter_filter_mset, intro filter_mset_cong) (use other in auto)
qed

text \<open>A reconnect and a ping never share an identifier.\<close>

lemma ids_disjoint:
  assumes "tmo_inv l" and "i \<in># reconnect_ids l" and "i \<in># ping_ids l"
  shows False
proof -
  obtain s t where "s \<in> set (queue l)" "callback s = ReconnectNow" "tid s = i"
    "t \<in> set (queue l)" "callback t = SendPing" "tid t = i"
    using assms(2,3) by (auto simp: reconnect_ids_def ping_ids_def)
  moreover have "inj_on tid (set (queue l))"
    using assms(1) by (simp add: tmo_inv_def distinct_map)
  ultimately show False
    by (metis inj_onD timer.distinct(1))
qed

lemma cancel_pending_id:
  assumes "tmo_inv l" and "i \<in># reconnect_ids l + ping_ids l"
  shows "\<exists>l'. loop_timeout_cancel l i = Inr l' \<and> tmo_inv l' \<and> now l' = now l"
proof -
  have "i \<in> tid ` set (queue l)"
    using assms(2) by (auto simp: reconnect_ids_def ping_ids_def)
  with assms(1) tmo_inv_filter [OF assms(1)] show ?thesis
    by (simp add: timeout_cancel_spec)
qed

subsection \<open>Every operation keeps the invariant\<close>

lemma add_timer_safe:
  assumes w: "core_inv K w"
    and post: "\<And>i l. tmo_inv l \<Longrightarrow> now l = now (w_timeouts w) \<Longrightarrow>
      reconnect_ids l = (if cb = ReconnectNow then add_mset i (reconnect_ids (w_timeouts w)) else reconnect_ids (w_timeouts w)) \<Longrightarrow>
      ping_ids l = (if cb = SendPing then add_mset i (ping_ids (w_timeouts w)) else ping_ids (w_timeouts w)) \<Longrightarrow>
      plugin_part l = (if cb = ReconnectNow \<or> cb = SendPing then plugin_part (w_timeouts w)
        else (now (w_timeouts w), add_mset (added_timeout (w_timeouts w) after ctx cb i) (snd (plugin_part (w_timeouts w))))) \<Longrightarrow>
      Q (i, w\<lparr>w_timeouts := l\<rparr>)"
  shows "safe Q (add_timer w after ctx cb)"
proof (cases "loop_timeout_add (w_timeouts w) after ctx cb")
  case (Inl e)
  have "now (w_timeouts w) < now (w_timeouts w) + ucast (if after = 0 then 1 else after)"
    using when_later(1) [of "w_timeouts w" "if after = 0 then 1 else after"] w by (auto simp: core_inv_def)
  with Inl have "e = Diverged"
    by (auto simp: loop_timeout_add_def Let_def simp del: find_id.simps split: option.splits)
  with Inl show ?thesis
    by (simp add: add_timer_def)
next
  case (Inr r)
  have inv: "tmo_inv (w_timeouts w)"
    using w by (simp add: core_inv_def)
  obtain i l where r: "r = (i, l)" by (cases r)
  note spec = timeout_add_spec [OF inv Inr [unfolded r]] and ids = reconnect_ids_add [OF inv Inr [unfolded r]]
  have part: "plugin_part l = (if cb = ReconnectNow \<or> cb = SendPing then plugin_part (w_timeouts w)
        else (now (w_timeouts w), add_mset (added_timeout (w_timeouts w) after ctx cb i) (snd (plugin_part (w_timeouts w)))))"
    using spec by (simp add: plugin_part_def added_timeout_def)
  have "Q (i, w\<lparr>w_timeouts := l\<rparr>)"
    by (rule post [OF _ _ ids part]) (use spec in blast)+
  then show ?thesis
    unfolding add_timer_def Inr r by simp
qed

lemma schedule_reconnect_safe:
  assumes "core_inv K w" and "\<not> u_reconnect_scheduled w"
  shows "safe (\<lambda>w'. core_inv K w' \<and> u_reconnect_scheduled w' \<and> u_fd w' = u_fd w) (schedule_reconnect w after)"
proof -
  let ?Q = "\<lambda>(i, w'). core_inv K (w'\<lparr>u_reconnect_id := i, u_reconnect_scheduled := True\<rparr>) \<and> u_fd w' = u_fd w"
  have "safe ?Q (add_timer w after None ReconnectNow)"
    by (rule add_timer_safe [OF assms(1)]) (use assms in \<open>simp add: core_inv_def\<close>)
  then show ?thesis
    unfolding schedule_reconnect_def by (rule safe_bind) (simp split: prod.splits)
qed

lemma schedule_ping_safe:
  assumes "core_inv K w"
  shows "safe (\<lambda>w'. core_inv K w' \<and> u_reconnect_scheduled w' = u_reconnect_scheduled w \<and> u_fd w' = u_fd w) (schedule_ping w)"
proof -
  let ?Q = "\<lambda>(i, w'). core_inv K (w'\<lparr>u_ping_timeout := i, u_ping_scheduled := True\<rparr>) \<and>
    u_reconnect_scheduled w' = u_reconnect_scheduled w \<and> u_fd w' = u_fd w"
  have "safe ?Q (add_timer w PING_TIMEOUT None SendPing)"
    by (rule add_timer_safe [OF assms]) (use assms in \<open>simp add: core_inv_def\<close>)
  then show ?thesis
    unfolding schedule_ping_def by (rule safe_bind) (simp split: prod.splits)
qed

lemma cancel_timer_safe:
  assumes inv: "tmo_inv (w_timeouts w)" and i: "i \<in># reconnect_ids (w_timeouts w) + ping_ids (w_timeouts w)"
    and post: "\<And>l. tmo_inv l \<Longrightarrow> now l = now (w_timeouts w) \<Longrightarrow>
      reconnect_ids l = filter_mset (\<lambda>j. j \<noteq> i) (reconnect_ids (w_timeouts w)) \<Longrightarrow>
      ping_ids l = filter_mset (\<lambda>j. j \<noteq> i) (ping_ids (w_timeouts w)) \<Longrightarrow>
      plugin_part l = plugin_part (w_timeouts w) \<Longrightarrow> Q (w\<lparr>w_timeouts := l\<rparr>)"
  shows "safe Q (cancel_timer w i)"
proof -
  obtain l where l: "loop_timeout_cancel (w_timeouts w) i = Inr l" "tmo_inv l" "now l = now (w_timeouts w)"
    using cancel_pending_id [OF inv i] by blast
  have "Q (w\<lparr>w_timeouts := l\<rparr>)"
    by (rule post [OF l(2,3) reconnect_ids_cancel [OF inv l(1)] plugin_part_cancel [OF inv l(1) i]])
  with l(1) show ?thesis
    by (simp add: cancel_timer_def)
qed

lemma loop_uplink_disconnected_safe:
  assumes "quiet_disconnect m"
  shows "safe (same_uplink w) (loop_uplink_disconnected m w)"
proof -
  have step: "safe (same_uplink w) (plugin_disconnect m s i)" if s: "same_uplink w s" and i: "i \<in> set (map h_id (w_plugins w))" for s i
  proof -
    have "i \<in> set (map h_id (w_plugins s))"
      using s i unfolding same_uplink_def by simp
    then obtain h where h: "holder_of s i = Some h"
      by (cases "holder_of s i") (auto simp: holder_of_def find_None_iff)
    have "safe (same_uplink s) (if h_active h then plugin_call (disconnected_callback m) h s else Inr s)"
      using assms by (auto simp: plugin_call_def quiet_disconnect_def split: option.splits)
    then have "safe (same_uplink w) (if h_active h then plugin_call (disconnected_callback m) h s else Inr s)"
      by (rule safe_mono) (rule same_uplink_trans [OF s])
    then show ?thesis
      unfolding plugin_disconnect_def h option.case
      by (rule safe_bind) (simp add: same_uplink_trans [OF _ same_uplink_set_active])
  qed
  show ?thesis
    unfolding loop_uplink_disconnected_def by (rule safe_fold [OF step]) simp_all
qed

text \<open>Disconnecting: no connection is left, and the scheduled reconnect only with
  \<open>reset_reconnect\<close>.\<close>

lemma uplink_disconnect_safe:
  assumes m: "quiet_disconnect m" and inv: "core_inv K w"
  shows "safe (\<lambda>w'. core_inv K w' \<and> u_fd w' = - 1 \<and> u_reconnect_scheduled w' = (u_reconnect_scheduled w \<and> \<not> reset))
    (uplink_disconnect m w reset)"
  unfolding uplink_disconnect_def
proof (rule safe_bind [where P = "\<lambda>w'. core_inv K w' \<and> u_reconnect_scheduled w' = (u_reconnect_scheduled w \<and> \<not> reset)"])
  show "safe (\<lambda>w'. core_inv K w' \<and> u_reconnect_scheduled w' = (u_reconnect_scheduled w \<and> \<not> reset))
     (if u_reconnect_scheduled w \<and> reset
      then rbind (cancel_timer w (u_reconnect_id w)) (\<lambda>w. Inr (w\<lparr>u_reconnect_scheduled := False\<rparr>)) else Inr w)"
  proof (cases "u_reconnect_scheduled w \<and> reset")
    case True
    then have pend: "u_reconnect_id w \<in># reconnect_ids (w_timeouts w)" and ti: "tmo_inv (w_timeouts w)"
      using inv by (simp_all add: core_inv_def)
    have np: "u_reconnect_id w \<notin># ping_ids (w_timeouts w)"
      using ids_disjoint [OF ti pend] by blast
    have "safe (\<lambda>w'. core_inv K (w'\<lparr>u_reconnect_scheduled := False\<rparr>)) (cancel_timer w (u_reconnect_id w))"
    proof (rule cancel_timer_safe [OF ti])
      show "u_reconnect_id w \<in># reconnect_ids (w_timeouts w) + ping_ids (w_timeouts w)"
        using pend by simp
    qed (use True inv np in \<open>auto simp: core_inv_def\<close>)
    with True show ?thesis
      by (auto intro: safe_bind)
  qed (use inv in auto)
next
  fix v :: "('a, 'b, 'c) world"
  assume v: "core_inv K v \<and> u_reconnect_scheduled v = (u_reconnect_scheduled w \<and> \<not> reset)"
  let ?post = "\<lambda>w'. core_inv K w' \<and> u_fd w' = - 1 \<and> u_reconnect_scheduled w' = (u_reconnect_scheduled w \<and> \<not> reset)"
  have tail: "safe ?post
      (let w1 = buffer_reset (w\<lparr>u_fd := - 1\<rparr>)
       in rbind (if u_ping_scheduled w1 then cancel_timer w1 (u_ping_timeout w1) else Inr w1)
            (\<lambda>w. Inr (dump_status (w\<lparr>u_ping_scheduled := False\<rparr>))))"
    if s: "same_uplink v w" for w
  proof -
    define w1 where "w1 = buffer_reset (w\<lparr>u_fd := - 1\<rparr>)"
    have w1: "core_inv K w1" "u_fd w1 = - 1" "u_reconnect_scheduled w1 = u_reconnect_scheduled v"
      using same_uplink_core [OF s] v s by (simp_all add: w1_def buffer_reset_def core_inv_def same_uplink_def)
    have "safe (\<lambda>w'. ?post (w'\<lparr>u_ping_scheduled := False\<rparr>)) (if u_ping_scheduled w1 then cancel_timer w1 (u_ping_timeout w1) else Inr w1)"
    proof (cases "u_ping_scheduled w1")
      case True
      then have pend: "u_ping_timeout w1 \<in># ping_ids (w_timeouts w1)" and ti: "tmo_inv (w_timeouts w1)"
        using w1 by (simp_all add: core_inv_def)
      have np: "u_ping_timeout w1 \<notin># reconnect_ids (w_timeouts w1)"
        using ids_disjoint [OF ti _ pend] by blast
      have "safe (\<lambda>w'. ?post (w'\<lparr>u_ping_scheduled := False\<rparr>)) (cancel_timer w1 (u_ping_timeout w1))"
      proof (rule cancel_timer_safe [OF ti])
        show "u_ping_timeout w1 \<in># reconnect_ids (w_timeouts w1) + ping_ids (w_timeouts w1)"
          using pend by simp
      qed (use np w1 v in \<open>auto simp: core_inv_def filter_mset_eq_conv\<close>)
      with True show ?thesis by simp
    qed (use w1 v in \<open>auto simp: core_inv_def\<close>)
    then show ?thesis
      unfolding Let_def w1_def [symmetric] by (rule safe_bind) simp
  qed
  show "safe ?post
     (if u_fd v \<noteq> - 1
      then rbind (loop_uplink_disconnected m v) (\<lambda>w.
             let w1 = buffer_reset (w\<lparr>u_fd := - 1\<rparr>)
             in rbind (if u_ping_scheduled w1 then cancel_timer w1 (u_ping_timeout w1) else Inr w1)
                  (\<lambda>w. Inr (dump_status (w\<lparr>u_ping_scheduled := False\<rparr>))))
      else Inr (dump_status v))"
    using v by (auto intro!: safe_bind [OF loop_uplink_disconnected_safe [OF m] tail])
qed

lemma uplink_reconnect_safe:
  assumes "quiet_disconnect m" and "core_inv K w"
  shows "safe (up_inv K) (uplink_reconnect m w)"
  unfolding uplink_reconnect_def
proof (rule safe_bind [where P = "\<lambda>w. core_inv K w \<and> u_reconnect_scheduled w"])
  show "safe (\<lambda>w. core_inv K w \<and> u_reconnect_scheduled w)
      (if u_reconnect_scheduled w then Inr w else schedule_reconnect w 0)"
    using assms(2) by (auto intro: safe_mono [OF schedule_reconnect_safe])
  show "safe (up_inv K) (uplink_disconnect m v False)" if "core_inv K v \<and> u_reconnect_scheduled v" for v
    using that by (auto simp: up_inv_def intro: safe_mono [OF uplink_disconnect_safe [OF assms(1)]])
qed

lemma core_inv_cong:
  "u_reconnect_scheduled w' = u_reconnect_scheduled w \<Longrightarrow> u_reconnect_id w' = u_reconnect_id w \<Longrightarrow>
   u_ping_scheduled w' = u_ping_scheduled w \<Longrightarrow> u_ping_timeout w' = u_ping_timeout w \<Longrightarrow>
   w_timeouts w' = w_timeouts w \<Longrightarrow> w_connects w' = w_connects w \<Longrightarrow> core_inv K w' = core_inv K w"
  by (simp add: core_inv_def)

lemma connect_fail_safe:
  assumes inv: "core_inv K w" and n: "\<not> u_reconnect_scheduled w" and fd: "u_fd w = - 1"
  shows "safe (up_inv K) (connect_fail w)"
proof -
  have "core_inv K (backoff w)" "\<not> u_reconnect_scheduled (backoff w)" "u_fd (backoff w) = - 1"
    using assms by (simp_all add: backoff_def Let_def core_inv_def)
  then have "safe (up_inv K) (schedule_reconnect (backoff w) (u_reconnect_timeout (backoff w)))"
    by (auto simp: up_inv_def intro: safe_mono [OF schedule_reconnect_safe])
  then show ?thesis
    using n unfolding connect_fail_def by simp
qed

lemma connect_internal_core:
  assumes "uplink_connect_internal w = (b, w')" and "u_fd w = - 1"
  shows "(core_inv K w \<longrightarrow> core_inv K w') \<and> u_reconnect_scheduled w' = u_reconnect_scheduled w \<and> (\<not> b \<longrightarrow> u_fd w' = - 1)"
  using assms by (auto simp: uplink_connect_internal_def take_handler_def core_inv_def split: list.splits option.splits)

lemma connect_internal_fd:
  assumes "uplink_connect_internal w = (True, w')" and "core_inv K w"
  shows "u_fd w' \<noteq> - 1"
  using assms by (auto simp: uplink_connect_internal_def take_handler_def core_inv_def split: list.splits option.splits)

lemma uplink_connect_safe:
  assumes inv: "core_inv K w" and n: "\<not> u_reconnect_scheduled w" and fd: "u_fd w = - 1"
  shows "safe (up_inv K) (uplink_connect m w)"
proof (cases "u_last_connect w + RECONN_TIME > now (w_timeouts w) \<or> u_login_failure_count w \<ge> LOGIN_FAILURE_LIMIT")
  case True
  then show ?thesis
    using fd connect_fail_safe [OF inv n fd] by (auto simp: uplink_connect_def Let_def)
next
  case False
  define v where "v = w\<lparr>u_login_failure_count := u_login_failure_count w + 1, u_last_connect := now (w_timeouts w)\<rparr>"
  obtain b w2 where r: "uplink_connect_internal v = (b, w2)"
    by (cases "uplink_connect_internal v")
  have v: "core_inv K v" "\<not> u_reconnect_scheduled v" "u_fd v = - 1"
    using assms by (simp_all add: v_def core_inv_def)
  have w2: "core_inv K w2" "\<not> u_reconnect_scheduled w2" "\<not> b \<longrightarrow> u_fd w2 = - 1"
    using connect_internal_core [OF r v(3)] v by auto
  show ?thesis
  proof (cases b)
    case b: False
    have "safe (up_inv K) (connect_fail w2)"
      using connect_fail_safe w2 b by blast
    with b False fd r show ?thesis
      by (simp add: uplink_connect_def Let_def v_def)
  next
    case b: True
    define w3 where "w3 = w2\<lparr>u_reconnect_timeout := (if u_seen_data w2 then 0 else u_reconnect_timeout w2),
                      u_seen_data := False, u_pings_unanswered := 0\<rparr>"
    have w3: "core_inv K w3" "\<not> u_reconnect_scheduled w3" "u_fd w3 \<noteq> - 1"
      using w2 connect_internal_fd [OF _ v(1)] r b by (simp_all add: w3_def core_inv_def)
    have "safe (up_inv K) (rbind (schedule_ping w3)
        (\<lambda>w. Inr (w\<lparr>u_zsend := z_deflate_reset m (u_zsend w), u_zrecv := z_inflate_reset m (u_zrecv w)\<rparr>)))"
      by (rule safe_bind [OF schedule_ping_safe [OF w3(1)]]) (use w3 in \<open>simp add: up_inv_def core_inv_def\<close>)
    with b False fd r show ?thesis
      by (simp add: uplink_connect_def Let_def v_def w3_def)
  qed
qed

lemma send_raw_data_safe:
  assumes "quiet_disconnect m" and "up_inv K w"
  shows "safe (\<lambda>(ok, w'). up_inv K w') (send_raw_data m w buf)"
proof -
  obtain e outs sent where r: "raw_loop (w_sends w) buf = (e, outs, sent)"
    by (cases "raw_loop (w_sends w) buf") auto
  define w1 where "w1 = w\<lparr>w_sends := outs, w_wire := w_wire w @ sent\<rparr>"
  have w1: "up_inv K w1"
    using assms(2) by (simp add: w1_def up_inv_def core_inv_def)
  then have "core_inv K w1"
    by (simp add: up_inv_def)
  then have "safe (\<lambda>(ok, w'). up_inv K w') (rbind (uplink_reconnect m w1) (\<lambda>w. Inr (False, w)))"
    by (intro safe_bind [OF uplink_reconnect_safe [OF assms(1)]]) simp_all
  with w1 show ?thesis
    unfolding send_raw_data_def r by (simp add: Let_def w1_def [symmetric] split: raw_end.splits)
qed

lemma up_inv_zsend [simp]: "up_inv K (w\<lparr>u_zsend := z\<rparr>) = up_inv K w"
  by (simp add: up_inv_def core_inv_def)

lemma deflate_rounds_safe:
  assumes m: "quiet_disconnect m"
  shows "up_inv K w \<Longrightarrow> safe (\<lambda>(ok, w'). up_inv K w') (deflate_rounds m n w input)"
proof (induction n arbitrary: w input)
  case (Suc n)
  obtain z used out where z: "z_deflate m (u_zsend w) False input COMPRESSION_BUFFSIZE = (z, used, out)"
    by (cases "z_deflate m (u_zsend w) False input COMPRESSION_BUFFSIZE") auto
  have "safe (\<lambda>(ok, w'). up_inv K w') (send_raw_data m (w\<lparr>u_zsend := z\<rparr>) out)"
    using send_raw_data_safe [OF m] Suc.prems by simp
  then have "safe (\<lambda>(ok, w'). up_inv K w') (rbind (send_raw_data m (w\<lparr>u_zsend := z\<rparr>) out) (\<lambda>(ok, w).
            if ok then deflate_rounds m n w (drop used input) else Inr (False, w)))"
    by (rule safe_bind) (auto simp: Suc.IH)
  with Suc.prems show ?case
    by (simp add: z)
qed simp

lemma flush_rounds_safe:
  assumes m: "quiet_disconnect m"
  shows "up_inv K w \<Longrightarrow> safe (\<lambda>(ok, w'). up_inv K w') (flush_rounds m n w)"
proof (induction n arbitrary: w)
  case (Suc n)
  obtain z used out where z: "z_deflate m (u_zsend w) True [] COMPRESSION_BUFFSIZE = (z, used, out)"
    by (cases "z_deflate m (u_zsend w) True [] COMPRESSION_BUFFSIZE") auto
  have "safe (\<lambda>(ok, w'). up_inv K w') (send_raw_data m (w\<lparr>u_zsend := z\<rparr>) out)"
    using send_raw_data_safe [OF m] Suc.prems by simp
  then show ?case
    unfolding flush_rounds.simps z prod.case by (rule safe_bind) (auto simp: Suc.IH)
qed simp

lemma buffer_send_safe:
  assumes "quiet_disconnect m" and "up_inv K w"
  shows "safe (\<lambda>(ok, w'). up_inv K w') (buffer_send m w input msg_more)"
  unfolding buffer_send_def
  by (rule safe_bind [OF deflate_rounds_safe [OF assms]]) (auto simp: flush_rounds_safe [OF assms(1)])

lemma uplink_send_message_safe:
  assumes "quiet_disconnect m" and "up_inv K w"
  shows "safe (\<lambda>(ok, w'). up_inv K w') (uplink_send_message m w type payload)"
proof -
  have "safe (\<lambda>(ok, w'). up_inv K w')
      (rbind (buffer_send m w (put32 (word_of_nat (length payload + 1)) @ [type]) True) (\<lambda>(ok, w).
        if ok then buffer_send m w payload False else Inr (False, w)))"
    by (rule safe_bind [OF buffer_send_safe [OF assms]]) (auto simp: buffer_send_safe [OF assms(1)])
  with assms(2) show ?thesis
    by (simp add: uplink_send_message_def)
qed

lemma route_payload_no_assert: "route_payload name bs \<noteq> Inl Assertion"
  by (auto simp: route_payload_def uplink_render_string_def uplink_render_def render_command_def Let_def sanity_def rbind_def
      split: sum.splits if_splits)

lemma uplink_plugin_send_message_safe:
  assumes "quiet_disconnect m" and "up_inv K w"
  shows "safe (\<lambda>(ok, w'). up_inv K w') (uplink_plugin_send_message m w i payload)"
  using assms uplink_send_message_safe [OF assms] route_payload_no_assert [of _ payload]
  by (auto simp: uplink_plugin_send_message_def loop_plugin_active_def loop_plugin_get_name_def rbind_def
      split: option.splits sum.splits)

lemma uplink_configure_safe:
  assumes "quiet_disconnect m" and "core_inv K w" and "u_remote_name w = None \<or> up_inv K w"
  shows "safe (up_inv K) (uplink_configure m w rn s l p c)"
proof -
  let ?w = "w\<lparr>u_remote_name := rn, u_service := s, u_login := l, u_password := p, u_cert := c\<rparr>"
  have w: "core_inv K ?w" "up_inv K ?w = up_inv K w"
    using assms(2) by (simp_all add: core_inv_def up_inv_def)
  have "safe (\<lambda>same. same \<longrightarrow> up_inv K w) (both (required_same (u_remote_name w) rn)
           (both (required_same (u_service w) s)
           (both (required_same (u_cert w) c)
           (both (login_same (u_login w) l) (password_same (u_password w) p)))))"
    using assms(3) by (auto simp: both_def required_same_def str_same_def login_same_def password_same_def
        split: option.splits)
  then show ?thesis
    unfolding uplink_configure_def
    by (rule safe_bind) (use uplink_reconnect_safe [OF assms(1) w(1)] w(2) in \<open>auto simp: Let_def\<close>)
qed

lemma err_read_safe:
  assumes "quiet_disconnect m" and "up_inv K w"
  shows "safe (up_inv K) (err_read m w h outcome)"
proof -
  have "core_inv K w"
    using assms(2) by (simp add: up_inv_def)
  then have "safe (up_inv K) (rbind (uplink_disconnect m w True) connect_fail)"
    by (rule safe_bind [OF uplink_disconnect_safe [OF assms(1)]]) (auto intro: connect_fail_safe)
  with assms(2) show ?thesis
    by (auto simp: err_read_def up_inv_def core_inv_def split: recv_outcome.splits list.splits)
qed

subsection \<open>The invariant without the others' part\<close>

definition core_live :: "('z, 'c, 'p) world \<Rightarrow> bool" where
  "core_live w \<longleftrightarrow> core_inv (plugin_part (w_timeouts w)) w"

definition live :: "('z, 'c, 'p) world \<Rightarrow> bool" where
  "live w \<longleftrightarrow> up_inv (plugin_part (w_timeouts w)) w"

lemma live_iff: "live w \<longleftrightarrow> core_live w \<and> (u_fd w = - 1 \<longleftrightarrow> u_reconnect_scheduled w)"
  by (simp add: live_def core_live_def up_inv_def)

lemma core_live_iff:
  "core_live w \<longleftrightarrow> tmo_inv (w_timeouts w) \<and> unat (now (w_timeouts w)) + 2 ^ 32 < 2 ^ 64 \<and>
     reconnect_ids (w_timeouts w) = (if u_reconnect_scheduled w then {#u_reconnect_id w#} else {#}) \<and>
     (u_ping_scheduled w \<longrightarrow> u_ping_timeout w \<in># ping_ids (w_timeouts w)) \<and> good_fds (w_connects w)"
  by (simp add: core_live_def core_inv_def)

lemma up_inv_live: "up_inv K w \<Longrightarrow> live w"
  by (simp add: live_def up_inv_def core_inv_def)

lemma core_inv_live: "core_inv K w \<Longrightarrow> core_live w"
  by (simp add: core_live_def core_inv_def)

lemma safe_live: "safe (up_inv K) r \<Longrightarrow> safe live r"
  by (rule safe_mono [OF _ up_inv_live])

lemma safe_live_snd: "safe (\<lambda>(ok, w'). up_inv K w') r \<Longrightarrow> safe (\<lambda>(ok, w'). live w') r"
  by (erule safe_mono) (auto intro: up_inv_live)

lemmas buffer_send_live = safe_live_snd [OF buffer_send_safe, OF _ live_def [THEN iffD1]]
lemmas uplink_send_message_live = safe_live_snd [OF uplink_send_message_safe, OF _ live_def [THEN iffD1]]
lemmas uplink_plugin_send_message_live = safe_live_snd [OF uplink_plugin_send_message_safe, OF _ live_def [THEN iffD1]]
lemmas uplink_reconnect_live = safe_live [OF uplink_reconnect_safe, OF _ core_live_def [THEN iffD1]]
lemmas connect_fail_live = safe_live [OF connect_fail_safe, OF core_live_def [THEN iffD1]]
lemmas uplink_connect_live = safe_live [OF uplink_connect_safe, OF core_live_def [THEN iffD1]]
lemmas err_read_live = safe_live [OF err_read_safe, OF _ live_def [THEN iffD1]]

lemma uplink_disconnect_live:
  assumes "quiet_disconnect m" and "core_live w"
  shows "safe (\<lambda>w'. core_live w' \<and> u_fd w' = - 1 \<and> u_reconnect_scheduled w' = (u_reconnect_scheduled w \<and> \<not> reset))
    (uplink_disconnect m w reset)"
  by (rule safe_mono [OF uplink_disconnect_safe [OF assms(1) assms(2) [unfolded core_live_def]]]) (auto intro: core_inv_live)

lemma schedule_reconnect_live:
  assumes "core_live w" and "\<not> u_reconnect_scheduled w"
  shows "safe (\<lambda>w'. core_live w' \<and> u_reconnect_scheduled w' \<and> u_fd w' = u_fd w) (schedule_reconnect w after)"
  by (rule safe_mono [OF schedule_reconnect_safe [OF assms(1) [unfolded core_live_def] assms(2)]]) (auto intro: core_inv_live)

lemma schedule_ping_live:
  assumes "core_live w"
  shows "safe (\<lambda>w'. core_live w' \<and> u_reconnect_scheduled w' = u_reconnect_scheduled w \<and> u_fd w' = u_fd w) (schedule_ping w)"
  by (rule safe_mono [OF schedule_ping_safe [OF assms [unfolded core_live_def]]]) (auto intro: core_inv_live)

lemma uplink_configure_live:
  assumes "quiet_disconnect m" and "core_live w" and "u_remote_name w = None \<or> live w"
  shows "safe live (uplink_configure m w rn s l p c)"
  by (rule safe_live [OF uplink_configure_safe [OF assms(1) assms(2) [unfolded core_live_def]]])
     (use assms(3) in \<open>simp add: live_def\<close>)

end
