(* ===== verification/UplinkRead.thy ===== *)
theory UplinkRead
  imports Uplink
begin

text \<open>
  The receiving side of \<open>core/uplink.c\<close>: decompressing, putting the messages together, and
  handling them, with the parts of \<open>core/loop.c\<close> a message reaches (routing to a plugin,
  activation, the list of plugin versions). What the buffer pointed to by \<open>buffer\<close> holds up to
  \<open>buffer_pos\<close> is the list \<open>u_buffer\<close>.
\<close>

subsection \<open>Plugins reached by messages\<close>

text \<open>The file name of the library, after the last slash.\<close>

definition libname :: "bytes \<Rightarrow> bytes" where
  "libname path = rev (takeWhile (\<lambda>b. b \<noteq> code (CHR ''/'')) (rev path))"

definition version_size :: "'p holder \<Rightarrow> nat" where
  "version_size h = 2 * 4 + 2 + length (h_name h) + length (h_hash h) + length (libname (h_libname h)) + 1"

definition render_version :: "bytes \<times> nat \<Rightarrow> 'p holder \<Rightarrow> (bytes \<times> nat) result" where
  "render_version = (\<lambda>(out, rest) h.
     rbind (uplink_render_string (h_name h) rest) (\<lambda>(name, rest).
       assert_then (rest \<ge> 2)
         (let rest = rest - 2
          in if rest < length (h_hash h) then Inl BadAccess
             else rbind (uplink_render_string (libname (h_libname h)) (rest - length (h_hash h))) (\<lambda>(ln, rest).
               if rest < 1 then Inl BadAccess
               else Inr (out @ name @ put16 (h_version h) @ h_hash h @ ln @
                         [code (if h_active h then CHR ''A'' else CHR ''I'')], rest - 1)))))"

definition send_plugin_versions :: "('z, 'c, 'p) platform \<Rightarrow> ('z, 'c, 'p) world \<Rightarrow> ('z, 'c, 'p) world result" where
  "send_plugin_versions m w =
     rbind (fold_result render_version ([], sum_list (map version_size (w_plugins w))) (w_plugins w)) (\<lambda>(out, rest).
       assert_then (rest = 0)
         (rbind (uplink_send_message m w (code (CHR ''V'')) out) (\<lambda>(ok, w). Inr w)))"

definition loop_uplink_connected :: "('z, 'c, 'p) platform \<Rightarrow> ('z, 'c, 'p) world \<Rightarrow> ('z, 'c, 'p) world result" where
  "loop_uplink_connected m w = send_plugin_versions m w"

definition loop_plugin_send_data ::
  "('z, 'c, 'p) platform \<Rightarrow> ('z, 'c, 'p) world \<Rightarrow> bytes \<Rightarrow> bytes \<Rightarrow> (bool \<times> ('z, 'c, 'p) world) result" where
  "loop_plugin_send_data m w name payload =
     (case find (\<lambda>h. cstring (h_name h) = cstring name \<and> h_active h) (w_plugins w) of
        None \<Rightarrow> Inr (False, w)
      | Some h \<Rightarrow>
          (case data_callback m (h_libname h) of
             None \<Rightarrow> Inr (True, w)
           | Some cb \<Rightarrow> rbind (cb (h_id h) payload w) (\<lambda>w. Inr (True, w))))"

text \<open>One plugin of an activation message. The error for an unknown plugin is rendered over its own
  header and sent from one byte further, so the last byte read lies behind the buffer; only a
  connection that is closed, or that breaks before, hides that.\<close>

definition activate_one ::
  "('z, 'c, 'p) platform \<Rightarrow> bool \<times> ('z, 'c, 'p) world \<Rightarrow> bytes \<times> bytes \<times> bool \<Rightarrow> (bool \<times> ('z, 'c, 'p) world) result" where
  "activate_one m = (\<lambda>(changed, w) (name, hash, activate).
     case find (\<lambda>h. cstring (h_name h) = cstring name \<and> h_hash h = hash) (w_plugins w) of
       Some h \<Rightarrow>
         if activate = h_active h then Inr (changed, w)
         else rbind (plugin_call (if activate then connected_callback m else disconnected_callback m) h
                      (set_active (h_id h) activate w)) (\<lambda>w. Inr (True, w))
     | None \<Rightarrow>
         let len = length (cstring name); size = 1 + 4 + len + length hash
         in rbind (uplink_render_string (cstring name) (size - 1)) (\<lambda>(out, rest).
              assert_then (rest = length hash)
                (if u_fd w = - 1 then Inr (changed, w)
                 else rbind (buffer_send m w (put32 (word_of_nat (size + 1)) @ [code (CHR ''E'')]) True) (\<lambda>(ok, w).
                   if ok then Inl BadAccess else Inr (changed, w)))))"

definition loop_plugin_activation ::
  "('z, 'c, 'p) platform \<Rightarrow> ('z, 'c, 'p) world \<Rightarrow> (bytes \<times> bytes \<times> bool) list \<Rightarrow> ('z, 'c, 'p) world result" where
  "loop_plugin_activation m w plugins =
     rbind (fold_result (activate_one m) (False, w) plugins) (\<lambda>(changed, w).
       if changed then send_plugin_versions m w else Inr w)"

subsection \<open>Messages\<close>

definition HASH_LEN :: nat where "HASH_LEN = 16"

fun parse_activations :: "nat \<Rightarrow> bytes \<Rightarrow> (bytes \<times> bytes \<times> bool) list result" where
  "parse_activations 0 buf = Inr []"
| "parse_activations (Suc n) buf =
     (case uplink_parse_string buf of
        None \<Rightarrow> Inl Died
      | Some (name, rest) \<Rightarrow>
          if length rest \<le> HASH_LEN then Inl Died
          else rbind (parse_activations n (drop (HASH_LEN + 1) rest)) (\<lambda>ps.
            Inr ((name, take HASH_LEN rest, rest ! HASH_LEN = code (CHR ''A'')) # ps)))"

definition handle_activation :: "('z, 'c, 'p) platform \<Rightarrow> ('z, 'c, 'p) world \<Rightarrow> bytes \<Rightarrow> ('z, 'c, 'p) world result" where
  "handle_activation m w buf =
     rbind (uplink_parse_uint32 buf) (\<lambda>(amount, rest).
       if amount = 0 then Inr w
       else rbind (parse_activations (unat amount) rest) (\<lambda>plugins.
         loop_plugin_activation m (buffer_reset w) plugins))"

text \<open>A message to a plugin: the failure to find it is reported with four bytes too many.\<close>

definition handle_route :: "('z, 'c, 'p) platform \<Rightarrow> ('z, 'c, 'p) world \<Rightarrow> bytes \<Rightarrow> ('z, 'c, 'p) world result" where
  "handle_route m w buf =
     (case uplink_parse_string buf of
        None \<Rightarrow> Inl Died
      | Some (name, payload) \<Rightarrow>
          rbind (loop_plugin_send_data m (buffer_reset (w\<lparr>u_login_failure_count := 0\<rparr>)) name payload) (\<lambda>(found, w).
            if found then Inr (dump_status w)
            else let pname = cstring name
              in rbind (uplink_send_message m w (code (CHR ''E''))
                   ([code (CHR ''P'')] @ put32 (word_of_nat (length pname)) @ pname @ take 4 (junk m @ [0, 0, 0, 0]))) (\<lambda>(ok, w).
                   Inr w)))"

text \<open>The refused login.\<close>

definition handle_refused :: "('z, 'c, 'p) platform \<Rightarrow> ('z, 'c, 'p) world \<Rightarrow> ('z, 'c, 'p) world result" where
  "handle_refused m w =
     rbind (uplink_disconnect m w True) (\<lambda>w. connect_fail (dump_status (w\<lparr>u_auth_status := FAILED\<rparr>)))"

definition handle_command :: "('z, 'c, 'p) platform \<Rightarrow> ('z, 'c, 'p) world \<Rightarrow> byte \<Rightarrow> bytes \<Rightarrow> ('z, 'c, 'p) world result" where
  "handle_command m w command rest =
     (if command = code (CHR ''R'') then handle_route m w rest
      else if command = code (CHR ''P'') then
        rbind (uplink_send_message m w (code (CHR ''p'')) rest) (\<lambda>(ok, w). Inr (dump_status w))
      else if command = code (CHR ''p'') then Inr (w\<lparr>u_pings_unanswered := 0\<rparr>)
      else if command = code (CHR ''F'') then handle_refused m w
      else if command = code (CHR ''A'') then handle_activation m w rest
      else Inr w)"

text \<open>The answer to the challenge. The session identifier is sent first, and whatever that does
  to the buffer counts for the check of the challenge's length.\<close>

definition login_message :: "bytes \<Rightarrow> bytes \<Rightarrow> bytes result" where
  "login_message serial response =
     (let len = 1 + 2 * 4 + length serial + length response
      in rbind (uplink_render_string serial (len - 1)) (\<lambda>(s, rest).
           rbind (uplink_render_string response rest) (\<lambda>(r, rest).
             assert_then (rest = 0) (Inr ([code (CHR ''O'')] @ s @ r)))))"

definition handle_challenge :: "('z, 'c, 'p) platform \<Rightarrow> ('z, 'c, 'p) world \<Rightarrow> ('z, 'c, 'p) world result" where
  "handle_challenge m w =
     rbind (uplink_send_message m w (code (CHR ''S'')) (put32 (own_pid m))) (\<lambda>(ok, w).
       sanity (length (passwd_half m) + u_buffer_size w = challenge_size m)
         (case chip m (passwd_half m @ (case u_buffer w of None \<Rightarrow> [] | Some b \<Rightarrow> b)) of
            None \<Rightarrow> Inl Died
          | Some (serial, response) \<Rightarrow>
              rbind (login_message serial response) (\<lambda>msg.
              rbind (uplink_send_message m w (code (CHR ''L'')) msg) (\<lambda>(ok, w).
              rbind (uplink_send_message m (w\<lparr>u_auth_status := SENT\<rparr>) (code (CHR ''H'')) [PROTOCOL_VERSION]) (\<lambda>(ok, w).
                loop_uplink_connected m w)))))"

definition handle_message :: "('z, 'c, 'p) platform \<Rightarrow> ('z, 'c, 'p) world \<Rightarrow> byte \<Rightarrow> bytes \<Rightarrow> ('z, 'c, 'p) world result" where
  "handle_message m w command rest =
     (let w1 = w\<lparr>u_buffer := Some rest, u_buffer_size := length rest\<rparr>
      in if u_auth_status w = AUTHENTICATED \<or> u_auth_status w = SENT then
           rbind (handle_command m w1 command rest) (\<lambda>w.
             Inr (if u_auth_status w = SENT then w\<lparr>u_auth_status := AUTHENTICATED\<rparr> else w))
         else if command = code (CHR ''C'') \<and> u_auth_status w = NOT_STARTED then handle_challenge m w1
         else Inr w1)"

definition handle_buffer :: "('z, 'c, 'p) platform \<Rightarrow> ('z, 'c, 'p) world \<Rightarrow> ('z, 'c, 'p) world result" where
  "handle_buffer m w =
     (case u_buffer w of
        None \<Rightarrow> Inl BadAccess
      | Some buf \<Rightarrow>
          if u_has_size w then
            rbind (case buf of [] \<Rightarrow> Inr w | command # rest \<Rightarrow> handle_message m w command rest) (\<lambda>w.
              Inr (buffer_reset w))
          else let n = unat (get32 buf)
            in Inr (w\<lparr>u_buffer_size := n, u_size_rest := n, u_buffer := Some [], u_has_size := True\<rparr>))"

subsection \<open>Reading\<close>

datatype rdd_status = RDD_END_LOOP | RDD_REPEAT | RDD_DATA bytes

definition remote_closed :: "('z, 'c, 'p) platform \<Rightarrow> ('z, 'c, 'p) world \<Rightarrow> ('z, 'c, 'p) world result" where
  "remote_closed m w =
     assert_then (\<not> u_reconnect_scheduled w)
       (rbind (schedule_reconnect w (u_reconnect_timeout w div 1000)) (\<lambda>w. uplink_disconnect m w False))"

text \<open>One call of \<open>inflate\<close> into the rest of the message.\<close>

definition inflate_some :: "('z, 'c, 'p) platform \<Rightarrow> ('z, 'c, 'p) world \<Rightarrow> bytes \<times> bool \<times> ('z, 'c, 'p) world" where
  "inflate_some m w =
     (case z_inflate m (u_zrecv w) (u_inc w) (u_size_rest w) of
        (z, used, out, err) \<Rightarrow> (out, err, w\<lparr>u_zrecv := z, u_inc := drop used (u_inc w)\<rparr>))"

definition second_inflate :: "('z, 'c, 'p) platform \<Rightarrow> ('z, 'c, 'p) world \<Rightarrow> (rdd_status \<times> ('z, 'c, 'p) world) result" where
  "second_inflate m w =
     (case inflate_some m w of
        (out, err, w) \<Rightarrow>
          if err then rbind (uplink_reconnect m w) (\<lambda>w. Inr (RDD_END_LOOP, w))
          else if out = [] then Inr (RDD_END_LOOP, w) else Inr (RDD_DATA out, w))"

definition receive :: "('z, 'c, 'p) platform \<Rightarrow> ('z, 'c, 'p) world \<Rightarrow> (rdd_status \<times> ('z, 'c, 'p) world) result" where
  "receive m w =
     (case w_recvs w of
        [] \<Rightarrow> Inr (RDD_END_LOOP, w)
      | RecvAgain # rs \<Rightarrow> Inr (RDD_END_LOOP, w\<lparr>w_recvs := rs\<rparr>)
      | RecvIntr # rs \<Rightarrow> Inr (RDD_REPEAT, w\<lparr>w_recvs := rs\<rparr>)
      | RecvFatal # rs \<Rightarrow> Inl Died
      | RecvReset # rs \<Rightarrow> rbind (remote_closed m (w\<lparr>w_recvs := rs\<rparr>)) (\<lambda>w. Inr (RDD_END_LOOP, w))
      | Recv [] # rs \<Rightarrow> rbind (remote_closed m (w\<lparr>w_recvs := rs\<rparr>)) (\<lambda>w. Inr (RDD_END_LOOP, w))
      | Recv bs # rs \<Rightarrow>
          second_inflate m
            (w\<lparr>w_recvs := (if length bs > COMPRESSION_BUFFSIZE then Recv (drop COMPRESSION_BUFFSIZE bs) # rs else rs),
               u_inc := take COMPRESSION_BUFFSIZE bs\<rparr>))"

definition read_decompressed_data :: "('z, 'c, 'p) platform \<Rightarrow> ('z, 'c, 'p) world \<Rightarrow> (rdd_status \<times> ('z, 'c, 'p) world) result" where
  "read_decompressed_data m w =
     (case inflate_some m w of
        (out, err, w) \<Rightarrow>
          if err then rbind (uplink_reconnect m w) (\<lambda>w. Inr (RDD_END_LOOP, w))
          else if out \<noteq> [] then Inr (RDD_DATA out, w)
          else if u_inc w = [] then receive m w
          else second_inflate m w)"

definition prepare_buffer :: "('z, 'c, 'p) world \<Rightarrow> ('z, 'c, 'p) world" where
  "prepare_buffer w =
     (if u_buffer w = None then w\<lparr>u_buffer_size := 4, u_size_rest := 4, u_buffer := Some []\<rparr> else w)"

definition store_data :: "bytes \<Rightarrow> ('z, 'c, 'p) world \<Rightarrow> ('z, 'c, 'p) world" where
  "store_data out w =
     w\<lparr>u_seen_data := True, u_buffer := map_option (\<lambda>b. b @ out) (u_buffer w),
       u_size_rest := u_size_rest w - length out\<rparr>"

fun read_rounds :: "('z, 'c, 'p) platform \<Rightarrow> nat \<Rightarrow> ('z, 'c, 'p) world \<Rightarrow> ('z, 'c, 'p) world result" where
  "read_rounds m 0 w = Inr w"
| "read_rounds m (Suc limit) w =
     rbind (read_decompressed_data m (prepare_buffer w)) (\<lambda>(status, w).
       case status of
         RDD_END_LOOP \<Rightarrow> Inr w
       | RDD_REPEAT \<Rightarrow> read_rounds m limit w
       | RDD_DATA out \<Rightarrow>
           let w1 = store_data out w
           in if u_size_rest w1 = 0 then
                rbind (handle_buffer m w1) (\<lambda>w. if u_fd w = - 1 then Inr w else read_rounds m limit w)
              else read_rounds m limit w1)"

definition uplink_read :: "('z, 'c, 'p) platform \<Rightarrow> ('z, 'c, 'p) world \<Rightarrow> ('z, 'c, 'p) world result" where
  "uplink_read m w = (if u_fd w = - 1 then Inr w else read_rounds m 50 w)"

subsection \<open>No message breaks the invariant\<close>

text \<open>What is asked of the callbacks of the plugins: they keep the invariant, as they do when they
  act on the connection through the uplink's own functions.\<close>

definition good_plugins :: "('z, 'c, 'p) platform \<Rightarrow> bool" where
  "good_plugins m \<longleftrightarrow> quiet_disconnect m \<and>
     (\<forall>lib cb i w. connected_callback m lib = Some cb \<longrightarrow> live w \<longrightarrow> safe live (cb i w)) \<and>
     (\<forall>lib cb i bs w. data_callback m lib = Some cb \<longrightarrow> live w \<longrightarrow> safe live (cb i bs w))"

lemma render_string_eq:
  "uplink_render_string s space =
     (if 4 + length s \<le> space then Inr (put32 (word_of_nat (length s)) @ s, space - 4 - length s) else Inl Sanity)"
  by (auto simp: uplink_render_string_def uplink_render_def render_command_def Let_def sanity_def)

definition version_bytes :: "'p holder \<Rightarrow> bytes" where
  "version_bytes h = put32 (word_of_nat (length (h_name h))) @ h_name h @ put16 (h_version h) @ h_hash h @
     put32 (word_of_nat (length (libname (h_libname h)))) @ libname (h_libname h) @
     [code (if h_active h then CHR ''A'' else CHR ''I'')]"

lemma render_version_exact:
  "version_size h \<le> rest \<Longrightarrow> render_version (out, rest) h = Inr (out @ version_bytes h, rest - version_size h)"
  by (simp add: render_version_def render_string_eq version_size_def version_bytes_def Let_def) linarith

lemma render_versions_exact:
  "fold_result render_version (out, sum_list (map version_size hs) + k) hs = Inr (out @ concat (map version_bytes hs), k)"
proof (induction hs arbitrary: out)
  case (Cons h hs)
  have "render_version (out, sum_list (map version_size (h # hs)) + k) h =
      Inr (out @ version_bytes h, sum_list (map version_size hs) + k)"
    by (subst render_version_exact) simp_all
  with Cons show ?case
    by simp
qed simp

lemma live_cong:
  "u_reconnect_scheduled w' = u_reconnect_scheduled w \<Longrightarrow> u_reconnect_id w' = u_reconnect_id w \<Longrightarrow>
   u_ping_scheduled w' = u_ping_scheduled w \<Longrightarrow> u_ping_timeout w' = u_ping_timeout w \<Longrightarrow>
   w_timeouts w' = w_timeouts w \<Longrightarrow> w_connects w' = w_connects w \<Longrightarrow> u_fd w' = u_fd w \<Longrightarrow> live w' = live w"
  by (simp add: live_iff core_live_iff)

lemma same_uplink_live: "same_uplink w w' \<Longrightarrow> live w \<Longrightarrow> live w'"
  by (auto simp: live_iff core_live_iff same_uplink_def)

lemma live_updates [simp]:
  "live (buffer_reset w) = live w" "live (dump_status w) = live w"
  "live (w\<lparr>u_auth_status := a\<rparr>) = live w" "live (w\<lparr>u_pings_unanswered := n\<rparr>) = live w"
  "live (w\<lparr>u_login_failure_count := n\<rparr>) = live w"
  "live (w\<lparr>u_buffer := b, u_buffer_size := n\<rparr>) = live w"
  "live (w\<lparr>u_zrecv := z, u_inc := i\<rparr>) = live w"
  "live (w\<lparr>w_recvs := rs\<rparr>) = live w" "live (w\<lparr>w_recvs := rs, u_inc := i\<rparr>) = live w"
  "live (store_data out w) = live w" "live (prepare_buffer w) = live w"
  "live (w\<lparr>u_buffer_size := n, u_size_rest := k, u_buffer := b, u_has_size := h\<rparr>) = live w"
  by (rule live_cong; simp add: buffer_reset_def store_data_def prepare_buffer_def)+

lemma send_plugin_versions_safe:
  assumes "quiet_disconnect m" and "live w"
  shows "safe live (send_plugin_versions m w)"
proof -
  have r: "fold_result render_version ([], sum_list (map version_size (w_plugins w))) (w_plugins w) =
      Inr (concat (map version_bytes (w_plugins w)), 0)"
    using render_versions_exact [of "[]" "w_plugins w" 0] by simp
  have "safe live (rbind (uplink_send_message m w (code CHR ''V'') (concat (map version_bytes (w_plugins w)))) (\<lambda>(ok, w). Inr w))"
    by (rule safe_bind [OF uplink_send_message_live [OF assms]]) auto
  with r show ?thesis
    by (simp add: send_plugin_versions_def)
qed

lemma plugin_call_safe:
  assumes "good_plugins m" and "live w"
  shows "safe live (plugin_call (if a then connected_callback m else disconnected_callback m) h w)"
proof -
  have "safe live (cb i w)" if "disconnected_callback m lib = Some cb" for cb i lib
    by (rule safe_mono [OF _ same_uplink_live [OF _ assms(2)]])
       (use assms(1) that in \<open>auto simp: good_plugins_def quiet_disconnect_def\<close>)
  with assms show ?thesis
    by (auto simp: plugin_call_def good_plugins_def split: option.splits)
qed

lemma activate_one_safe:
  assumes m: "good_plugins m" and w: "live w"
  shows "safe (\<lambda>(c, w'). live w') (activate_one m (ch, w) p)"
proof -
  obtain name hash a where p: "p = (name, hash, a)" by (cases p)
  have q: "quiet_disconnect m"
    using m by (simp add: good_plugins_def)
  show ?thesis
  proof (cases "find (\<lambda>h. cstring (h_name h) = cstring name \<and> h_hash h = hash) (w_plugins w)")
    case None
    have "safe (\<lambda>(c, w'). live w') (rbind (buffer_send m w head True) (\<lambda>(ok, w). if ok then Inl BadAccess else Inr (ch, w)))" for head
      by (rule safe_bind [OF buffer_send_live [OF q w]]) auto
    with None w show ?thesis
      by (simp add: activate_one_def p Let_def render_string_eq)
  next
    case (Some h)
    have "live (set_active (h_id h) a w)"
      by (rule same_uplink_live [OF same_uplink_set_active w])
    then have "safe (\<lambda>(c, w'). live w') (rbind (plugin_call (if a then connected_callback m else disconnected_callback m) h
        (set_active (h_id h) a w)) (\<lambda>w. Inr (True, w)))"
      by (rule safe_bind [OF plugin_call_safe [OF m]]) simp
    with Some w show ?thesis
      unfolding activate_one_def p prod.case by (cases a) simp_all
  qed
qed

lemma loop_plugin_activation_safe:
  assumes m: "good_plugins m" and w: "live w"
  shows "safe live (loop_plugin_activation m w ps)"
proof -
  have "safe (\<lambda>(c, w'). live w') (fold_result (activate_one m) (False, w) ps)"
    by (rule safe_fold) (use activate_one_safe [OF m] w in auto)
  then show ?thesis
    unfolding loop_plugin_activation_def
    by (rule safe_bind) (use m in \<open>auto simp: good_plugins_def send_plugin_versions_safe\<close>)
qed

lemma parse_activations_no_assert: "parse_activations n buf \<noteq> Inl Assertion"
  by (induction n arbitrary: buf) (auto simp: rbind_def split: option.splits sum.splits)

lemma handle_activation_safe:
  assumes "good_plugins m" and "live w"
  shows "safe live (handle_activation m w buf)"
proof -
  have "safe (\<lambda>_. True) (parse_activations n b)" for n b
    using parse_activations_no_assert [of n b] by (cases "parse_activations n b") auto
  then have "safe live (rbind (parse_activations n b) (\<lambda>ps. loop_plugin_activation m (buffer_reset w) ps))" for n b
    by (rule safe_bind) (simp add: loop_plugin_activation_safe [OF assms(1)] assms(2))
  then show ?thesis
    using assms(2) by (simp add: handle_activation_def uplink_parse_uint32_eq)
qed

lemma handle_route_safe:
  assumes m: "good_plugins m" and w: "live w"
  shows "safe live (handle_route m w buf)"
proof (cases "uplink_parse_string buf")
  case (Some np)
  obtain name payload where np: "np = (name, payload)" by (cases np)
  have q: "quiet_disconnect m"
    using m by (simp add: good_plugins_def)
  have "safe (\<lambda>(f, w'). live w') (loop_plugin_send_data m (buffer_reset (w\<lparr>u_login_failure_count := 0\<rparr>)) name payload)"
    using m w by (auto simp: loop_plugin_send_data_def good_plugins_def split: option.splits intro!: safe_bind [where P = live])
  moreover have "safe live (rbind (uplink_send_message m v c msg) (\<lambda>(ok, w). Inr w))" if "live v" for v c msg
    by (rule safe_bind [OF uplink_send_message_live [OF q that]]) auto
  ultimately show ?thesis
    unfolding handle_route_def Some np option.case prod.case
    by (intro safe_bind [where P = "\<lambda>(f, w'). live w'"]) (auto simp: Let_def)
qed (simp add: handle_route_def)

lemma handle_refused_safe:
  assumes "quiet_disconnect m" and "live w"
  shows "safe live (handle_refused m w)"
  unfolding handle_refused_def
proof (rule safe_bind [OF uplink_disconnect_live [OF assms(1)]])
  show "core_live w"
    using assms(2) by (simp add: live_iff)
  fix v :: "('a, 'b, 'c) world"
  assume "core_live v \<and> u_fd v = - 1 \<and> u_reconnect_scheduled v = (u_reconnect_scheduled w \<and> \<not> True)"
  then show "safe live (connect_fail (dump_status (v\<lparr>u_auth_status := FAILED\<rparr>)))"
    by (intro connect_fail_live) (simp_all add: core_live_iff)
qed

lemma handle_command_safe:
  assumes m: "good_plugins m" and w: "live w"
  shows "safe live (handle_command m w c rest)"
proof -
  have q: "quiet_disconnect m"
    using m by (simp add: good_plugins_def)
  have "safe live (rbind (uplink_send_message m w d rest) (\<lambda>(ok, w). Inr (dump_status w)))" for d
    by (rule safe_bind [OF uplink_send_message_live [OF q w]]) auto
  with w show ?thesis
    by (simp add: handle_command_def handle_route_safe [OF m] handle_refused_safe [OF q] handle_activation_safe [OF m])
qed

lemma login_message_exact:
  "login_message serial response =
     Inr ([code (CHR ''O'')] @ put32 (word_of_nat (length serial)) @ serial @ put32 (word_of_nat (length response)) @ response)"
  by (simp add: login_message_def Let_def render_string_eq)

lemma handle_challenge_safe:
  assumes q: "quiet_disconnect m" and w: "live w"
  shows "safe live (handle_challenge m w)"
proof -
  have hello: "safe live (rbind (uplink_send_message m (v\<lparr>u_auth_status := SENT\<rparr>) (code (CHR ''H'')) [PROTOCOL_VERSION])
      (\<lambda>(ok, w). loop_uplink_connected m w))" if "live v" for v
    by (rule safe_bind [OF uplink_send_message_live [OF q]])
       (use that q in \<open>auto simp: loop_uplink_connected_def send_plugin_versions_safe\<close>)
  have login: "safe live (rbind (uplink_send_message m v (code (CHR ''L'')) msg) (\<lambda>(ok, w).
      rbind (uplink_send_message m (w\<lparr>u_auth_status := SENT\<rparr>) (code (CHR ''H'')) [PROTOCOL_VERSION])
      (\<lambda>(ok, w). loop_uplink_connected m w)))" if "live v" for v msg
    by (rule safe_bind [OF uplink_send_message_live [OF q that]]) (auto simp: hello)
  show ?thesis
    unfolding handle_challenge_def
    by (rule safe_bind [OF uplink_send_message_live [OF q w]])
       (auto simp: sanity_def login_message_exact login simp del: append_assoc append_Cons append_Nil split: option.splits)
qed

lemma handle_message_safe:
  assumes m: "good_plugins m" and w: "live w"
  shows "safe live (handle_message m w c rest)"
proof -
  let ?w = "w\<lparr>u_buffer := Some rest, u_buffer_size := length rest\<rparr>"
  have w1: "live ?w"
    using w by simp
  have q: "quiet_disconnect m"
    using m by (simp add: good_plugins_def)
  have "safe live (rbind (handle_command m ?w c rest) (\<lambda>w. Inr (if u_auth_status w = SENT then w\<lparr>u_auth_status := AUTHENTICATED\<rparr> else w)))"
    by (rule safe_bind [OF handle_command_safe [OF m w1]]) simp
  then show ?thesis
    using handle_challenge_safe [OF q w1] w1 unfolding handle_message_def Let_def by simp
qed

lemma handle_buffer_safe:
  assumes m: "good_plugins m" and w: "live w"
  shows "safe live (handle_buffer m w)"
proof -
  have "safe live (rbind (case buf of [] \<Rightarrow> Inr w | c # rest \<Rightarrow> handle_message m w c rest) (\<lambda>w. Inr (buffer_reset w)))" for buf
    by (rule safe_bind [where P = live]) (use w handle_message_safe [OF m w] in \<open>auto split: list.splits\<close>)
  with w show ?thesis
    by (auto simp: handle_buffer_def Let_def split: option.splits)
qed

subsection \<open>Reading keeps the invariant\<close>

definition rdd_ok :: "rdd_status \<times> ('z, 'c, 'p) world \<Rightarrow> bool" where
  "rdd_ok = (\<lambda>(status, w). live w \<and> (status \<noteq> RDD_END_LOOP \<longrightarrow> u_fd w \<noteq> - 1))"

lemma reconnect_end_safe:
  assumes "quiet_disconnect m" and "live w"
  shows "safe rdd_ok (rbind (uplink_reconnect m w) (\<lambda>w. Inr (RDD_END_LOOP, w)))"
  using assms by (intro safe_bind [OF uplink_reconnect_live]) (auto simp: live_iff rdd_ok_def)

lemma remote_closed_safe:
  assumes "quiet_disconnect m" and "live w" and "u_fd w \<noteq> - 1"
  shows "safe live (remote_closed m w)"
proof -
  have "safe live (rbind (schedule_reconnect w t) (\<lambda>w. uplink_disconnect m w False))" for t
    by (rule safe_bind [OF schedule_reconnect_live])
       (use assms in \<open>auto simp: live_iff intro: safe_mono [OF uplink_disconnect_live]\<close>)
  with assms(2,3) show ?thesis
    by (simp add: remote_closed_def live_iff)
qed

lemma inflate_some_up:
  "inflate_some m w = (out, err, w') \<Longrightarrow> live w' = live w \<and> u_fd w' = u_fd w"
  by (auto simp: inflate_some_def split: prod.splits)

lemma second_inflate_safe:
  assumes "quiet_disconnect m" and "live w" and "u_fd w \<noteq> - 1"
  shows "safe rdd_ok (second_inflate m w)"
proof -
  obtain out err w' where i: "inflate_some m w = (out, err, w')"
    by (cases "inflate_some m w")
  show ?thesis
    using inflate_some_up [OF i] assms reconnect_end_safe [OF assms(1), of w'] by (simp add: second_inflate_def i rdd_ok_def)
qed

lemma receive_safe:
  assumes q: "quiet_disconnect m" and w: "live w" and fd: "u_fd w \<noteq> - 1"
  shows "safe rdd_ok (receive m w)"
proof -
  have closed: "safe rdd_ok (rbind (remote_closed m (w\<lparr>w_recvs := rs\<rparr>)) (\<lambda>w. Inr (RDD_END_LOOP, w)))" for rs
    by (rule safe_bind [OF remote_closed_safe [OF q]]) (use w fd in \<open>auto simp: rdd_ok_def\<close>)
  have data: "safe rdd_ok (second_inflate m (w\<lparr>w_recvs := rs, u_inc := i\<rparr>))" for rs i
    by (rule second_inflate_safe [OF q]) (simp_all add: w fd)
  show ?thesis
    using w closed data fd by (auto simp: receive_def rdd_ok_def split: list.splits recv_outcome.splits)
qed

lemma read_decompressed_data_safe:
  assumes q: "quiet_disconnect m" and w: "live w" and fd: "u_fd w \<noteq> - 1"
  shows "safe rdd_ok (read_decompressed_data m w)"
proof -
  obtain out err w' where i: "inflate_some m w = (out, err, w')"
    by (cases "inflate_some m w")
  have w': "live w'" "u_fd w' \<noteq> - 1"
    using inflate_some_up [OF i] w fd by auto
  show ?thesis
    using w' reconnect_end_safe [OF q w'(1)] receive_safe [OF q w'] second_inflate_safe [OF q w']
    by (simp add: read_decompressed_data_def i rdd_ok_def)
qed

lemma fd_updates [simp]: "u_fd (store_data out w) = u_fd w" "u_fd (prepare_buffer w) = u_fd w"
  by (simp_all add: store_data_def prepare_buffer_def)

lemma read_rounds_safe:
  assumes m: "good_plugins m"
  shows "live w \<Longrightarrow> u_fd w \<noteq> - 1 \<Longrightarrow> safe live (read_rounds m n w)"
proof (induction n arbitrary: w)
  case (Suc n)
  have q: "quiet_disconnect m"
    using m by (simp add: good_plugins_def)
  have handled: "safe live (rbind (handle_buffer m v) (\<lambda>w. if u_fd w = - 1 then Inr w else read_rounds m n w))"
    if "live v" for v
    by (rule safe_bind [OF handle_buffer_safe [OF m that]]) (use Suc.IH in simp)
  have "safe rdd_ok (read_decompressed_data m (prepare_buffer w))"
    using Suc.prems by (intro read_decompressed_data_safe [OF q]) simp_all
  then show ?case
    unfolding read_rounds.simps
    by (rule safe_bind)
       (use Suc.IH handled in \<open>auto simp: rdd_ok_def Let_def split: rdd_status.splits\<close>)
qed simp

lemma uplink_read_safe:
  assumes "good_plugins m" and "live w"
  shows "safe live (uplink_read m w)"
  using assms read_rounds_safe [OF assms] by (simp add: uplink_read_def)

subsection \<open>The connection as a state machine\<close>

text \<open>The events of the main loop that reach the uplink. A due timeout is taken off before its
  callback runs; plugins send messages and use timeouts of their own.\<close>

definition set_clock :: "u64 \<Rightarrow> ('z, 'c, 'p) world \<Rightarrow> ('z, 'c, 'p) world" where
  "set_clock t w = w\<lparr>w_timeouts := (w_timeouts w)\<lparr>now := t\<rparr>\<rparr>"

inductive up_step :: "('z, 'c, 'p) platform \<Rightarrow> ('z, 'c, 'p) world \<Rightarrow> ('z, 'c, 'p) world result \<Rightarrow> bool"
  for m w where
  readable: "up_step m w (uplink_read m w)"
| errors: "up_step m w (err_read m w h outcome)"
| reconnect: "queue (w_timeouts w) = t # ts \<Longrightarrow> callback t = ReconnectNow \<Longrightarrow> up_step m w (reconnect_now m (unqueue w))"
| ping: "queue (w_timeouts w) = t # ts \<Longrightarrow> callback t = SendPing \<Longrightarrow> up_step m w (send_ping m (unqueue w))"
| plugin_timeout: "queue (w_timeouts w) = t # ts \<Longrightarrow> callback t = PluginTimer c \<Longrightarrow> up_step m w (Inr (unqueue w))"
| plugin_send: "up_step m w (rbind (uplink_plugin_send_message m w i payload) (\<lambda>(ok, w). Inr w))"
| plugin_timer: "up_step m w (rbind (add_timer w after (Some i) (PluginTimer c)) (\<lambda>(j, w). Inr w))"
| configure: "up_step m w (uplink_configure m w rn s l p c)"
| clock: "unat t + 2 ^ 32 < 2 ^ 64 \<Longrightarrow> up_step m w (Inr (set_clock t w))"

definition uplink_create :: "'z \<Rightarrow> 'z \<Rightarrow> ('z, 'c, 'p) world \<Rightarrow> ('z, 'c, 'p) world" where
  "uplink_create zs zr w =
     w\<lparr>u_remote_name := None, u_service := None, u_login := None, u_password := None, u_cert := None,
       u_buffer := None, u_buffer_size := 0, u_size_rest := 0, u_reconnect_timeout := 0, u_has_size := False,
       u_last_ipv6 := False, u_ping_timeout := 0, u_pings_unanswered := 0, u_ping_scheduled := False,
       u_reconnect_scheduled := False, u_seen_data := False, u_reconnect_id := 0, u_fd := - 1, u_last_connect := 0,
       u_auth_status := AUTHENTICATED, u_login_failure_count := 0, u_zsend := zs, u_zrecv := zr, u_inc := [],
       u_status_file := None, u_handlers := [], u_empty_handler := []\<rparr>"

text \<open>What the daemon is like when the uplink is created: no timeout of the uplink is pending.\<close>

definition boot :: "('z, 'c, 'p) world \<Rightarrow> bool" where
  "boot w \<longleftrightarrow> tmo_inv (w_timeouts w) \<and> unat (now (w_timeouts w)) + 2 ^ 32 < 2 ^ 64 \<and>
     reconnect_ids (w_timeouts w) = {#} \<and> good_fds (w_connects w)"

inductive up_reach :: "('z, 'c, 'p) platform \<Rightarrow> ('z, 'c, 'p) world \<Rightarrow> bool" for m where
  start: "boot w \<Longrightarrow> uplink_configure m (uplink_create zs zr w) rn s l p c = Inr w' \<Longrightarrow> up_reach m w'"
| step: "up_reach m w \<Longrightarrow> up_step m w (Inr w') \<Longrightarrow> up_reach m w'"

lemma send_ping_safe:
  assumes q: "quiet_disconnect m" and w: "core_live (w\<lparr>u_ping_scheduled := False\<rparr>)" and fd: "u_fd w = - 1 \<longleftrightarrow> u_reconnect_scheduled w"
  shows "safe live (send_ping m w)"
proof -
  define w1 where "w1 = w\<lparr>u_ping_scheduled := False\<rparr>"
  have w1: "live w1"
    using w fd by (simp add: live_iff w1_def)
  then have core: "core_live w1"
    by (simp add: live_iff)
  have "safe live (rbind (uplink_reconnect m w1) (\<lambda>w. Inr (w\<lparr>u_pings_unanswered := 0\<rparr>)))"
    by (rule safe_bind [OF uplink_reconnect_live [OF q core]]) simp
  moreover have "safe live (rbind (uplink_send_message m (w1\<lparr>u_pings_unanswered := n\<rparr>) c []) (\<lambda>(ok, w). schedule_ping w))" for c n
    by (rule safe_bind [OF uplink_send_message_live [OF q]])
       (use w1 in \<open>auto simp: live_iff core_live_iff [of "w\<lparr>u_pings_unanswered := n\<rparr>" for w]
          core_live_iff [of w1] intro: safe_mono [OF schedule_ping_live]\<close>)
  ultimately show ?thesis
    by (simp add: send_ping_def Let_def w1_def [symmetric])
qed

lemma unqueue_core:
  assumes "live w" and "queue (w_timeouts w) = t # ts"
  shows "callback t = ReconnectNow \<Longrightarrow> core_live ((unqueue w)\<lparr>u_reconnect_scheduled := False\<rparr>) \<and> u_fd (unqueue w) = - 1"
    and "callback t = SendPing \<Longrightarrow> core_live ((unqueue w)\<lparr>u_ping_scheduled := False\<rparr>)"
    and "callback t = PluginTimer c \<Longrightarrow> live (unqueue w)"
proof -
  let ?l = "(w_timeouts w)\<lparr>queue := ts\<rparr>"
  have inv: "tmo_inv ?l"
    using assms by (auto simp: live_iff core_live_iff tmo_inv_def)
  have ids: "reconnect_ids (w_timeouts w) = (if callback t = ReconnectNow then add_mset (tid t) (reconnect_ids ?l) else reconnect_ids ?l)"
      "ping_ids (w_timeouts w) = (if callback t = SendPing then add_mset (tid t) (ping_ids ?l) else ping_ids ?l)"
    using assms(2) by (simp_all add: reconnect_ids_def ping_ids_def)
  show "callback t = ReconnectNow \<Longrightarrow> core_live ((unqueue w)\<lparr>u_reconnect_scheduled := False\<rparr>) \<and> u_fd (unqueue w) = - 1"
    "callback t = SendPing \<Longrightarrow> core_live ((unqueue w)\<lparr>u_ping_scheduled := False\<rparr>)"
    "callback t = PluginTimer c \<Longrightarrow> live (unqueue w)"
    using assms inv ids by (auto simp: live_iff core_live_iff unqueue_def split: if_splits)
qed

lemma up_step_safe:
  assumes m: "good_plugins m" and w: "live w" and s: "up_step m w r"
  shows "safe live r"
  using s
proof cases
  case readable
  with uplink_read_safe [OF m w] show ?thesis by simp
next
  case (errors h outcome)
  with err_read_live [OF _ w] m show ?thesis by (simp add: good_plugins_def)
next
  case (reconnect t ts)
  have "safe live (uplink_connect m ((unqueue w)\<lparr>u_reconnect_scheduled := False\<rparr>))"
    using unqueue_core(1) [OF w reconnect(2,3)] by (intro uplink_connect_live) simp_all
  with reconnect(1) show ?thesis
    by (simp add: reconnect_now_def)
next
  case (ping t ts)
  have "safe live (send_ping m (unqueue w))"
    by (rule send_ping_safe [OF _ unqueue_core(2) [OF w ping(2,3)]])
       (use m w in \<open>auto simp: good_plugins_def live_iff unqueue_def\<close>)
  with ping(1) show ?thesis by simp
next
  case (plugin_timeout t ts c)
  with unqueue_core(3) [OF w plugin_timeout(2,3)] show ?thesis by simp
next
  case (plugin_send i payload)
  have "quiet_disconnect m"
    using m by (simp add: good_plugins_def)
  then show ?thesis
    unfolding plugin_send by (rule safe_bind [OF uplink_plugin_send_message_live [OF _ w]]) auto
next
  case (plugin_timer after i c)
  have "safe (\<lambda>(j, w'). live w') (add_timer w after (Some i) (PluginTimer c))"
    by (rule add_timer_safe [of "plugin_part (w_timeouts w)"])
       (use w in \<open>auto simp: live_iff core_live_iff core_inv_def\<close>)
  then show ?thesis
    unfolding plugin_timer by (rule safe_bind) auto
next
  case (configure rn s l p c)
  have "quiet_disconnect m" "core_live w"
    using m w by (simp_all add: good_plugins_def live_iff)
  with configure w show ?thesis
    by (simp add: uplink_configure_live)
next
  case (clock t)
  have "tmo_inv (w_timeouts w) \<Longrightarrow> tmo_inv ((w_timeouts w)\<lparr>now := t\<rparr>)"
    by (simp add: tmo_inv_def)
  with clock w show ?thesis
    by (simp add: set_clock_def live_iff core_live_iff reconnect_ids_def ping_ids_def)
qed

lemma up_reach_inv:
  assumes m: "good_plugins m"
  shows "up_reach m w \<Longrightarrow> live w"
proof (induction rule: up_reach.induct)
  case (start w zs zr rn s l p c w')
  have "core_live (uplink_create zs zr w)" "u_remote_name (uplink_create zs zr w) = None"
    using start(1) by (simp_all add: uplink_create_def core_live_iff boot_def)
  then have "safe live (uplink_configure m (uplink_create zs zr w) rn s l p c)"
    using m by (simp add: uplink_configure_live good_plugins_def)
  with start(2) show ?case by simp
next
  case (step w w')
  with up_step_safe [OF m step.IH step.hyps(2)] show ?case by simp
qed

subsection \<open>Properties\<close>

text \<open>
  C20: The connection is never stuck. In every state reachable from a configured uplink, through
  messages, errors, timeouts, plugins and the passing of time, either a connection is open or
  exactly one reconnect is pending (never both), the flags agree with the timeouts of the loop,
  and no event makes an assertion of the uplink, or of the timeouts it uses, fail.
\<close>

theorem uplink_never_stuck:
  assumes "good_plugins m" and "up_reach m w"
  shows "(u_fd w = - 1 \<longleftrightarrow> u_reconnect_scheduled w) \<and>
    (u_reconnect_scheduled w \<longrightarrow> (\<exists>t \<in> set (queue (w_timeouts w)). callback t = ReconnectNow \<and> tid t = u_reconnect_id w)) \<and>
    length (filter (\<lambda>t. callback t = ReconnectNow) (queue (w_timeouts w))) = (if u_fd w = - 1 then 1 else 0) \<and>
    (u_ping_scheduled w \<longrightarrow> (\<exists>t \<in> set (queue (w_timeouts w)). callback t = SendPing \<and> tid t = u_ping_timeout w)) \<and>
    \<not> up_step m w (Inl Assertion)"
proof -
  have inv: "live w"
    by (rule up_reach_inv [OF assms])
  then have ids: "reconnect_ids (w_timeouts w) = (if u_fd w = - 1 then {#u_reconnect_id w#} else {#})"
    by (simp add: live_iff core_live_iff)
  have "size (reconnect_ids (w_timeouts w)) = length (filter (\<lambda>t. callback t = ReconnectNow) (queue (w_timeouts w)))"
    unfolding reconnect_ids_def by (simp flip: mset_filter)
  then have n: "length (filter (\<lambda>t. callback t = ReconnectNow) (queue (w_timeouts w))) = (if u_fd w = - 1 then 1 else 0)"
    using ids by (auto split: if_splits)
  have r: "\<exists>t \<in> set (queue (w_timeouts w)). callback t = ReconnectNow \<and> tid t = u_reconnect_id w" if "u_reconnect_scheduled w"
  proof -
    have "u_reconnect_id w \<in># reconnect_ids (w_timeouts w)"
      using inv that by (simp add: live_iff core_live_iff)
    then show ?thesis
      by (auto simp: reconnect_ids_def)
  qed
  have p: "\<exists>t \<in> set (queue (w_timeouts w)). callback t = SendPing \<and> tid t = u_ping_timeout w" if "u_ping_scheduled w"
  proof -
    have "u_ping_timeout w \<in># ping_ids (w_timeouts w)"
      using inv that by (simp add: live_iff core_live_iff)
    then show ?thesis
      by (auto simp: ping_ids_def)
  qed
  have "\<not> up_step m w (Inl Assertion)"
    using up_step_safe [OF assms(1) inv, of "Inl Assertion"] by auto
  with inv n r p show ?thesis
    by (simp add: live_iff)
qed

text \<open>A small platform: a codec that copies its input, no plugins with callbacks.\<close>

definition copy_platform :: "(unit, unit, unit) platform" where
  "copy_platform = \<lparr>z_deflate = (\<lambda>z sync input space. (z, space, take space input)),
     z_inflate = (\<lambda>z input space. (z, space, take space input, False)),
     z_deflate_reset = (\<lambda>z. z), z_inflate_reset = (\<lambda>z. z), z_rounds = Suc (Suc (Suc 0)), own_pid = 42,
     passwd_half = replicate 16 7, challenge_size = 32, chip = (\<lambda>c. Some ([1, 2], c)), junk = [],
     connected_callback = Map.empty, disconnected_callback = Map.empty, data_callback = Map.empty\<rparr>"

lemma copy_platform_good: "good_plugins copy_platform"
  by (simp add: good_plugins_def quiet_disconnect_def copy_platform_def)

definition booted :: "(unit, unit, unit) world" where
  "booted = uplink_create () ()
     \<lparr>u_remote_name = None, u_service = None, u_login = None, u_password = None, u_cert = None,
       u_buffer = None, u_buffer_size = 0, u_size_rest = 0, u_reconnect_timeout = 0, u_has_size = False,
       u_last_ipv6 = False, u_ping_timeout = 0, u_pings_unanswered = 0, u_ping_scheduled = False,
       u_reconnect_scheduled = False, u_seen_data = False, u_reconnect_id = 0, u_fd = 0, u_last_connect = 0,
       u_auth_status = FAILED, u_login_failure_count = 0, u_zsend = (), u_zrecv = (), u_inc = [],
       u_status_file = None, u_handlers = [], u_empty_handler = [],
       w_timeouts = \<lparr>queue = [], capacity = 0, now = 5000, last_id = 0\<rparr>, w_plugins = [],
       w_connects = [Some (7, 8), Some (9, 10)], w_sends = [], w_recvs = [], w_wire = [], w_status = []\<rparr>"

lemma booted_boot: "boot booted"
  by (simp add: boot_def booted_def uplink_create_def tmo_inv_def reconnect_ids_def good_fds_def)

definition configured :: "(unit, unit, unit) world result" where
  "configured = uplink_configure copy_platform (uplink_create () () booted) (Some ''host'') (Some ''port'') None None (Some ''cert'')"

lemmas uplink_eval =
  uplink_configure_def uplink_reconnect_def uplink_disconnect_def schedule_reconnect_def schedule_ping_def add_timer_def
  cancel_timer_def loop_timeout_add_def loop_timeout_cancel_def uplink_create_def booted_def both_def required_same_def
  dump_status_def Let_def

lemma configured_eq:
  "\<exists>w. configured = Inr w \<and> u_fd w = - 1 \<and> u_reconnect_scheduled w"
  by (simp add: configured_def uplink_eval)

theorem uplink_never_stuck_witness:
  "\<exists>w. up_reach copy_platform w \<and> u_fd w = - 1 \<and>
     length (filter (\<lambda>t. callback t = ReconnectNow) (queue (w_timeouts w))) = 1 \<and>
     \<not> up_step copy_platform w (Inl Assertion)"
proof -
  obtain w where w: "configured = Inr w" "u_fd w = - 1"
    using configured_eq by blast
  have "up_reach copy_platform w"
    by (rule up_reach.start [OF booted_boot w(1) [unfolded configured_def]])
  with uplink_never_stuck [OF copy_platform_good this] w show ?thesis
    by auto
qed

subsection \<open>What a lost connection does to a login\<close>

text \<open>A send that fails has closed the connection and thrown away the received message.\<close>

lemma timer_fields:
  "add_timer w a ctx cb = Inr (i, w') \<Longrightarrow> u_fd w' = u_fd w \<and> u_buffer_size w' = u_buffer_size w"
  "cancel_timer w j = Inr w' \<Longrightarrow> u_fd w' = u_fd w \<and> u_buffer_size w' = u_buffer_size w"
  by (auto simp: add_timer_def cancel_timer_def rbind_eq_Inr)

lemma disconnect_drops:
  assumes "uplink_disconnect m w False = Inr w'" and "u_fd w \<noteq> - 1"
  shows "u_fd w' = - 1 \<and> u_buffer_size w' = 0"
  using assms
  by (auto simp: uplink_disconnect_def rbind_eq_Inr Let_def buffer_reset_def split: if_splits dest: timer_fields(2))

lemma reconnect_drops:
  assumes "uplink_reconnect m w = Inr w'" and "u_fd w \<noteq> - 1"
  shows "u_fd w' = - 1 \<and> u_buffer_size w' = 0"
  using assms disconnect_drops
  by (auto simp: uplink_reconnect_def schedule_reconnect_def rbind_eq_Inr split: if_splits dest!: timer_fields(1))

lemma send_raw_data_fd:
  assumes "send_raw_data m w buf = Inr (ok, w')" and "u_fd w \<noteq> - 1"
  shows "if ok then u_fd w' \<noteq> - 1 else u_fd w' = - 1 \<and> u_buffer_size w' = 0"
  using assms reconnect_drops [of m "w\<lparr>w_sends := outs, w_wire := v\<rparr>" w' for outs v]
  by (auto simp: send_raw_data_def rbind_eq_Inr Let_def split: prod.splits raw_end.splits)

lemma deflate_rounds_fd:
  assumes "deflate_rounds m n w input = Inr (ok, w')" and "u_fd w \<noteq> - 1"
  shows "if ok then u_fd w' \<noteq> - 1 else u_fd w' = - 1 \<and> u_buffer_size w' = 0"
  using assms
proof (induction n arbitrary: w input)
  case (Suc n)
  show ?case
  proof (cases "input = []")
    case False
    obtain z used out where z: "z_deflate m (u_zsend w) False input COMPRESSION_BUFFSIZE = (z, used, out)"
      by (cases "z_deflate m (u_zsend w) False input COMPRESSION_BUFFSIZE") auto
    obtain ok1 w1 where r: "send_raw_data m (w\<lparr>u_zsend := z\<rparr>) out = Inr (ok1, w1)"
        "(if ok1 then deflate_rounds m n w1 (drop used input) else Inr (False, w1)) = Inr (ok, w')"
      using Suc.prems(1) False by (auto simp: z rbind_eq_Inr)
    show ?thesis
      using send_raw_data_fd [OF r(1)] r(2) Suc.IH [of w1 "drop used input"] Suc.prems(2) by (cases ok1) auto
  qed (use Suc.prems in auto)
qed (auto split: if_splits)

lemma flush_rounds_fd:
  assumes "flush_rounds m n w = Inr (ok, w')" and "u_fd w \<noteq> - 1"
  shows "if ok then u_fd w' \<noteq> - 1 else u_fd w' = - 1 \<and> u_buffer_size w' = 0"
  using assms
proof (induction n arbitrary: w)
  case (Suc n)
  obtain z used out where z: "z_deflate m (u_zsend w) True [] COMPRESSION_BUFFSIZE = (z, used, out)"
    by (cases "z_deflate m (u_zsend w) True [] COMPRESSION_BUFFSIZE") auto
  obtain ok1 w1 where r: "send_raw_data m (w\<lparr>u_zsend := z\<rparr>) out = Inr (ok1, w1)"
      "(if \<not> ok1 then Inr (False, w1) else if length out = COMPRESSION_BUFFSIZE then flush_rounds m n w1 else Inr (True, w1)) = Inr (ok, w')"
    using Suc.prems(1) by (auto simp: z rbind_eq_Inr)
  show ?case
    using send_raw_data_fd [OF r(1)] r(2) Suc.IH [of w1] Suc.prems(2) by (cases ok1) (auto split: if_splits)
qed simp

lemma buffer_send_fd:
  assumes "buffer_send m w input msg_more = Inr (ok, w')" and "u_fd w \<noteq> - 1"
  shows "if ok then u_fd w' \<noteq> - 1 else u_fd w' = - 1 \<and> u_buffer_size w' = 0"
proof -
  obtain ok1 w1 where r: "deflate_rounds m (z_rounds m) w input = Inr (ok1, w1)"
      "(if \<not> ok1 then Inr (False, w1) else if msg_more then Inr (True, w1) else flush_rounds m (z_rounds m) w1) = Inr (ok, w')"
    using assms(1) by (auto simp: buffer_send_def rbind_eq_Inr)
  show ?thesis
    using deflate_rounds_fd [OF r(1) assms(2)] r(2) flush_rounds_fd [of m "z_rounds m" w1 ok w']
    by (cases ok1) (auto split: if_splits)
qed

lemma send_message_fd:
  assumes "uplink_send_message m w c payload = Inr (ok, w')" and "u_fd w \<noteq> - 1"
  shows "if ok then u_fd w' \<noteq> - 1 else u_fd w' = - 1 \<and> u_buffer_size w' = 0"
proof -
  obtain ok1 w1 where r: "buffer_send m w (put32 (word_of_nat (length payload + 1)) @ [c]) True = Inr (ok1, w1)"
      "(if ok1 then buffer_send m w1 payload False else Inr (False, w1)) = Inr (ok, w')"
    using assms by (auto simp: uplink_send_message_def rbind_eq_Inr)
  show ?thesis
    using buffer_send_fd [OF r(1) assms(2)] r(2) buffer_send_fd [of m w1 payload False ok w']
    by (cases ok1) auto
qed

text \<open>
  C21: When the connection breaks while the session identifier is being sent, the answer to the
  server's challenge does not end in a reconnect: the reconnect that the failed send started has
  emptied the buffer, so the check of the challenge's length fails and aborts the daemon.
\<close>

theorem lost_connection_aborts_login:
  assumes "u_fd w \<noteq> - 1" and "u_auth_status w = NOT_STARTED" and "u_has_size w"
    and "u_buffer w = Some (code (CHR ''C'') # challenge)"
    and "length (passwd_half m) + length challenge = challenge_size m" and "challenge \<noteq> []"
    and "uplink_send_message m (w\<lparr>u_buffer := Some challenge, u_buffer_size := length challenge\<rparr>)
           (code (CHR ''S'')) (put32 (own_pid m)) = Inr (False, w')"
  shows "handle_buffer m w = Inl Sanity"
proof -
  have "u_buffer_size w' = 0"
    using send_message_fd [OF assms(7)] assms(1) by simp
  moreover have "length (passwd_half m) \<noteq> challenge_size m"
    using assms(5,6) by (metis add_cancel_left_right length_0_conv)
  ultimately have "handle_challenge m (w\<lparr>u_buffer := Some challenge, u_buffer_size := length challenge\<rparr>) = Inl Sanity"
    using assms(7) by (simp add: handle_challenge_def)
  then show ?thesis
    using assms(2,3,4) by (simp add: handle_buffer_def handle_message_def Let_def)
qed

definition challenged :: "(unit, unit, unit) world" where
  "challenged = booted\<lparr>u_fd := 7, u_auth_status := NOT_STARTED, u_has_size := True,
     u_buffer := Some (code (CHR ''C'') # replicate 16 1), u_buffer_size := 17, w_sends := [SendLost]\<rparr>"

lemma send_message_lost:
  assumes "u_fd w \<noteq> - 1" and "w_sends w = SendLost # outs" and "z_rounds m = Suc n"
    and "z_deflate m (u_zsend w) False (put32 (word_of_nat (length payload + 1)) @ [c]) COMPRESSION_BUFFSIZE = (z, used, out)"
    and "out \<noteq> []"
  shows "uplink_send_message m w c payload =
    rbind (uplink_reconnect m (w\<lparr>u_zsend := z, w_sends := outs\<rparr>)) (\<lambda>w. Inr (False, w))"
proof -
  obtain b bs where out: "out = b # bs"
    using assms(5) by (cases out) auto
  show ?thesis
    unfolding uplink_send_message_def buffer_send_def assms(3) deflate_rounds.simps assms(4) send_raw_data_def
    using assms(1,2) out by (simp add: Let_def rbind_assoc)
qed

lemma copy_deflate:
  "z_deflate copy_platform z False (put32 k @ [c]) COMPRESSION_BUFFSIZE = ((), 1024, put32 k @ [c])"
  by (simp add: copy_platform_def COMPRESSION_BUFFSIZE_def)

lemma copy_message_lost:
  assumes "u_fd w \<noteq> - 1" and "w_sends w = SendLost # outs"
  shows "uplink_send_message copy_platform w c payload =
    rbind (uplink_reconnect copy_platform (w\<lparr>u_zsend := (), w_sends := outs\<rparr>)) (\<lambda>w. Inr (False, w))"
  using assms by (intro send_message_lost [OF _ _ _ copy_deflate]) (simp_all add: copy_platform_def)

lemma challenged_send:
  "\<exists>w'. uplink_send_message copy_platform (challenged\<lparr>u_buffer := Some (replicate 16 1), u_buffer_size := 16\<rparr>)
     (code (CHR ''S'')) (put32 (own_pid copy_platform)) = Inr (False, w')"
  by (subst copy_message_lost)
     (simp_all add: challenged_def loop_uplink_disconnected_def buffer_reset_def uplink_eval)

theorem lost_connection_aborts_login_witness: "handle_buffer copy_platform challenged = Inl Sanity"
proof -
  obtain w' where w': "uplink_send_message copy_platform (challenged\<lparr>u_buffer := Some (replicate 16 1), u_buffer_size := 16\<rparr>)
     (code (CHR ''S'')) (put32 (own_pid copy_platform)) = Inr (False, w')"
    using challenged_send by blast
  show ?thesis
    by (rule lost_connection_aborts_login [of _ "replicate 16 1" _ w'])
       (use w' in \<open>simp_all add: challenged_def copy_platform_def\<close>)
qed

subsection \<open>Pings after a failed ping\<close>

lemma connect_fail_fd: "connect_fail w = Inr w' \<Longrightarrow> u_fd w' = u_fd w"
  by (auto simp: connect_fail_def schedule_reconnect_def result_simps backoff_def Let_def split: if_splits dest!: timer_fields(1))

lemma schedule_ping_ids:
  assumes "tmo_inv (w_timeouts w)" and "schedule_ping w = Inr w'"
  shows "\<exists>i. ping_ids (w_timeouts w') = add_mset i (ping_ids (w_timeouts w)) \<and> u_fd w' = u_fd w \<and> u_ping_scheduled w'"
  using assms reconnect_ids_add(2) [OF assms(1)]
  by (fastforce simp: schedule_ping_def add_timer_def rbind_eq_Inr)

lemma connect_internal_timeouts:
  assumes "uplink_connect_internal w = (b, w')"
  shows "w_timeouts w' = w_timeouts w \<and> (\<not> b \<longrightarrow> u_fd w' = u_fd w)"
  using assms by (auto simp: uplink_connect_internal_def take_handler_def split: list.splits option.splits)

lemma connect_adds_ping:
  assumes "uplink_connect m w = Inr w'" and "u_fd w' \<noteq> - 1" and "tmo_inv (w_timeouts w)"
  shows "\<exists>i. ping_ids (w_timeouts w') = add_mset i (ping_ids (w_timeouts w))"
proof -
  define v where "v = w\<lparr>u_login_failure_count := u_login_failure_count w + 1, u_last_connect := now (w_timeouts w)\<rparr>"
  obtain b w2 where i: "uplink_connect_internal v = (b, w2)"
    by (cases "uplink_connect_internal v")
  have fd: "u_fd w = - 1" and not_early: "\<not> u_last_connect w + RECONN_TIME > now (w_timeouts w)"
    using assms(1,2) connect_fail_fd [of w w'] by (auto simp: uplink_connect_def result_simps split: if_splits)
  have w2: "w_timeouts w2 = w_timeouts w" "\<not> b \<longrightarrow> u_fd w2 = - 1"
    using connect_internal_timeouts [OF i] fd by (auto simp: v_def)
  have b: b
    using assms(1,2) connect_fail_fd [of w2 w'] not_early w2 i
    by (auto simp: uplink_connect_def v_def result_simps Let_def split: if_splits bool.splits)
  define w3 where "w3 = w2\<lparr>u_reconnect_timeout := (if u_seen_data w2 then 0 else u_reconnect_timeout w2),
                      u_seen_data := False, u_pings_unanswered := 0\<rparr>"
  obtain w4 where w4: "schedule_ping w3 = Inr w4" "ping_ids (w_timeouts w') = ping_ids (w_timeouts w4)"
    using assms(1) not_early i b
    by (auto simp: uplink_connect_def v_def w3_def result_simps Let_def split: if_splits)
  have "tmo_inv (w_timeouts w3)" "ping_ids (w_timeouts w3) = ping_ids (w_timeouts w)"
    using assms(3) w2(1) by (simp_all add: w3_def)
  with schedule_ping_ids [OF this(1) w4(1)] w4(2) show ?thesis
    by auto
qed

text \<open>
  When sending a ping finds the connection lost, \<open>send_ping\<close> still schedules the next ping
  although it has just disconnected; nothing cancels it before the reconnect, which schedules its
  own, so that from then on at least two chains of pings run and unanswered pings are counted
  twice as fast.
\<close>

theorem failed_ping_doubles_pings:
  assumes "u_fd w \<noteq> - 1" and "u_pings_unanswered w < PING_COUNT"
    and "uplink_send_message m (w\<lparr>u_ping_scheduled := False, u_pings_unanswered := u_pings_unanswered w + 1\<rparr>)
           (code (CHR ''P'')) [] = Inr (False, v)"
    and "tmo_inv (w_timeouts v)" and "send_ping m w = Inr w1"
  shows "u_fd w1 = - 1 \<and> u_ping_scheduled w1 \<and>
    (\<forall>w2 w3. ping_ids (w_timeouts w2) = ping_ids (w_timeouts w1) \<longrightarrow> tmo_inv (w_timeouts w2) \<longrightarrow>
       uplink_connect m w2 = Inr w3 \<longrightarrow> u_fd w3 \<noteq> - 1 \<longrightarrow> 2 \<le> size (ping_ids (w_timeouts w3)))"
proof -
  have "schedule_ping v = Inr w1"
    using assms(2,3,5) by (simp add: send_ping_def Let_def)
  moreover have "u_fd v = - 1"
    using send_message_fd [OF assms(3)] assms(1) by simp
  ultimately obtain i where w1: "ping_ids (w_timeouts w1) = add_mset i (ping_ids (w_timeouts v))" "u_fd w1 = - 1" "u_ping_scheduled w1"
    using schedule_ping_ids [OF assms(4)] by auto
  have "2 \<le> size (ping_ids (w_timeouts w3))"
    if "ping_ids (w_timeouts w2) = ping_ids (w_timeouts w1)" "tmo_inv (w_timeouts w2)" "uplink_connect m w2 = Inr w3" "u_fd w3 \<noteq> - 1"
    for w2 w3
    using connect_adds_ping [OF that(3,4,2)] that(1) w1(1) by auto
  with w1 show ?thesis
    by blast
qed

definition pinging :: "(unit, unit, unit) world" where
  "pinging = booted\<lparr>u_fd := 7, u_auth_status := AUTHENTICATED, w_sends := [SendLost]\<rparr>"

theorem failed_ping_doubles_pings_witness:
  "\<exists>w1. send_ping copy_platform pinging = Inr w1 \<and> u_fd w1 = - 1 \<and> u_ping_scheduled w1"
proof -
  let ?w = "pinging\<lparr>u_ping_scheduled := False, u_pings_unanswered := u_pings_unanswered pinging + 1\<rparr>"
  obtain v where v: "uplink_send_message copy_platform ?w (code (CHR ''P'')) [] = Inr (False, v)" "tmo_inv (w_timeouts v)"
    by (subst (asm) copy_message_lost)
       (simp_all add: pinging_def loop_uplink_disconnected_def buffer_reset_def uplink_eval tmo_inv_def)
  have n: "u_fd pinging \<noteq> - 1" "u_pings_unanswered pinging < PING_COUNT"
    by (simp_all add: pinging_def booted_def uplink_create_def PING_COUNT_def)
  obtain w1 where w1: "send_ping copy_platform pinging = Inr w1"
    by (simp add: send_ping_def Let_def copy_message_lost pinging_def loop_uplink_disconnected_def buffer_reset_def uplink_eval PING_COUNT_def PING_TIMEOUT_def)
  show ?thesis
    using failed_ping_doubles_pings [OF n v w1] w1 by blast
qed

subsection \<open>The empty message\<close>

definition stalled :: "('z, 'c, 'p) world \<Rightarrow> bool" where
  "stalled w \<longleftrightarrow> u_has_size w \<and> u_buffer w = Some [] \<and> u_size_rest w = 0"

definition no_room_no_output :: "('z, 'c, 'p) platform \<Rightarrow> bool" where
  "no_room_no_output m \<longleftrightarrow> (\<forall>z input. fst (snd (snd (z_inflate m z input 0))) = [])"

lemma stalled_inflate:
  assumes "no_room_no_output m" and "stalled w" and "inflate_some m w = (out, err, w')"
  shows "out = [] \<and> stalled w' \<and> u_fd w' = u_fd w"
proof -
  obtain z used o' e where "z_inflate m (u_zrecv w) (u_inc w) 0 = (z, used, o', e)"
    by (cases "z_inflate m (u_zrecv w) (u_inc w) 0") auto
  moreover have "fst (snd (snd (z_inflate m (u_zrecv w) (u_inc w) 0))) = []"
    using assms(1) by (simp add: no_room_no_output_def)
  ultimately show ?thesis
    using assms(2,3) by (auto simp: inflate_some_def stalled_def)
qed

lemma remote_closed_fd: "remote_closed m w = Inr w' \<Longrightarrow> u_fd w \<noteq> - 1 \<Longrightarrow> u_fd w' = - 1"
  by (auto simp: remote_closed_def schedule_reconnect_def result_simps dest!: timer_fields(1) disconnect_drops)

lemma stalled_second:
  assumes m: "no_room_no_output m" and s: "stalled w" and fd: "u_fd w \<noteq> - 1" and r: "second_inflate m w = Inr (st, w')"
  shows "st = RDD_END_LOOP \<and> (stalled w' \<or> u_fd w' = - 1)"
proof -
  obtain out err v where i: "inflate_some m w = (out, err, v)"
    by (cases "inflate_some m w")
  show ?thesis
    using stalled_inflate [OF m s i] r fd reconnect_drops [of m v w']
    by (auto simp: second_inflate_def i rbind_eq_Inr split: if_splits)
qed

lemma stalled_receive:
  assumes m: "no_room_no_output m" and s: "stalled w" and fd: "u_fd w \<noteq> - 1" and r: "receive m w = Inr (st, w')"
  shows "(st = RDD_END_LOOP \<and> (stalled w' \<or> u_fd w' = - 1)) \<or> (st = RDD_REPEAT \<and> stalled w' \<and> u_fd w' \<noteq> - 1)"
proof -
  have "stalled (w\<lparr>w_recvs := rs, u_inc := i\<rparr>)" "stalled (w\<lparr>w_recvs := rs\<rparr>)" for rs i
    using s by (simp_all add: stalled_def)
  with s fd r show ?thesis
    using stalled_second [OF m, of "w\<lparr>w_recvs := rs, u_inc := i\<rparr>" for rs i] remote_closed_fd [of m "w\<lparr>w_recvs := rs\<rparr>" for rs]
    by (auto simp: receive_def rbind_eq_Inr split: list.splits recv_outcome.splits)
qed

lemma stalled_read:
  assumes m: "no_room_no_output m" and s: "stalled w" and fd: "u_fd w \<noteq> - 1"
    and r: "read_decompressed_data m w = Inr (st, w')"
  shows "(st = RDD_END_LOOP \<and> (stalled w' \<or> u_fd w' = - 1)) \<or> (st = RDD_REPEAT \<and> stalled w' \<and> u_fd w' \<noteq> - 1)"
proof -
  obtain out err v where i: "inflate_some m w = (out, err, v)"
    by (cases "inflate_some m w")
  have v: "out = []" "stalled v" "u_fd v \<noteq> - 1"
    using stalled_inflate [OF m s i] fd by auto
  show ?thesis
    using r v reconnect_drops [of m v w'] stalled_receive [OF m v(2,3), of st w'] stalled_second [OF m v(2,3), of st w']
    by (auto simp: read_decompressed_data_def i rbind_eq_Inr split: if_splits)
qed

lemma stalled_rounds:
  assumes m: "no_room_no_output m"
  shows "stalled w \<Longrightarrow> u_fd w \<noteq> - 1 \<Longrightarrow> read_rounds m n w = Inr w' \<Longrightarrow> stalled w' \<or> u_fd w' = - 1"
proof (induction n arbitrary: w)
  case (Suc n)
  have p: "prepare_buffer w = w"
    using Suc.prems(1) by (simp add: prepare_buffer_def stalled_def)
  obtain st v where v: "read_decompressed_data m w = Inr (st, v)"
    using Suc.prems(3) by (auto simp: rbind_eq_Inr p)
  show ?case
    using stalled_read [OF m Suc.prems(1,2) v] Suc.prems(3) Suc.IH [of v]
    by (auto simp: v p)
qed simp

text \<open>
  A message of length zero from the server is never handled. After its size was read the
  uplink waits for zero bytes, which \<open>inflate\<close> cannot deliver: every further read returns in the
  same state, whatever arrives, until the connection is given up.
\<close>

theorem empty_message_stalls:
  assumes "no_room_no_output m" and "u_fd w \<noteq> - 1" and "\<not> u_has_size w" and "u_buffer w = Some [0, 0, 0, 0]"
  shows "\<exists>v. handle_buffer m w = Inr v \<and> stalled v \<and> u_fd v \<noteq> - 1 \<and>
    (\<forall>u u'. stalled u \<longrightarrow> uplink_read m u = Inr u' \<longrightarrow> stalled u' \<or> u_fd u' = - 1)"
proof -
  have "get32 [0, 0, 0, 0] = 0"
    by (simp add: get32_def)
  then have "\<exists>v. handle_buffer m w = Inr v \<and> stalled v \<and> u_fd v \<noteq> - 1"
    using assms(2-4) by (simp add: handle_buffer_def stalled_def Let_def)
  moreover have "stalled u' \<or> u_fd u' = - 1" if "stalled u" "uplink_read m u = Inr u'" for u u'
    using stalled_rounds [OF assms(1) that(1), of 50 u'] that by (auto simp: uplink_read_def split: if_splits)
  ultimately show ?thesis
    by blast
qed

theorem empty_message_stalls_witness:
  "\<exists>v. handle_buffer copy_platform (booted\<lparr>u_fd := 7, u_buffer := Some [0, 0, 0, 0]\<rparr>) = Inr v \<and> stalled v"
  using empty_message_stalls [of copy_platform "booted\<lparr>u_fd := 7, u_buffer := Some [0, 0, 0, 0]\<rparr>"]
  by (auto simp: no_room_no_output_def copy_platform_def booted_def uplink_create_def)

end
