(* ===== verification/Services.thy ===== *)
theory Services
  imports Uplink
begin

text \<open>
  What a plugin gets through its \<open>struct context\<close>: sending a message to its counterpart on the
  server, asking whether the uplink is connected, timeouts and the clock. The plugins are written
  over the record \<open>services\<close>, the laws they rely on are the locale \<open>plugin_services\<close>, and the
  uplink with the timeouts of the loop is its interpretation.
\<close>

record ('c, 'w) services =
  sv_send :: "'w \<Rightarrow> bytes \<Rightarrow> (bool \<times> 'w) result"
  sv_connected :: "'w \<Rightarrow> bool"
  sv_timeout_add :: "'w \<Rightarrow> u32 \<Rightarrow> 'c \<Rightarrow> (u64 \<times> 'w) result"
  sv_timeout_cancel :: "'w \<Rightarrow> u64 \<Rightarrow> 'w result"
  sv_now :: "'w \<Rightarrow> u64"

text \<open>A message whose success the caller does not look at.\<close>

definition sv_tell :: "('c, 'w) services \<Rightarrow> 'w \<Rightarrow> bytes \<Rightarrow> 'w result" where
  "sv_tell sv w msg = rbind (sv_send sv w msg) (\<lambda>(ok, w). Inr w)"

locale plugin_services =
  fixes sv :: "('c, 'w) services"
    and inv :: "'w \<Rightarrow> bool"
    and mine :: "'w \<Rightarrow> (u64 \<times> 'c) set"
  assumes send_ok: "inv w \<Longrightarrow>
      safe (\<lambda>(ok, w'). inv w' \<and> mine w' = mine w \<and> sv_now sv w' = sv_now sv w) (sv_send sv w msg)"
    and add_ok: "inv w \<Longrightarrow>
      safe (\<lambda>(i, w'). inv w' \<and> i \<notin> fst ` mine w \<and> mine w' = insert (i, c) (mine w) \<and> sv_now sv w' = sv_now sv w)
        (sv_timeout_add sv w after c)"
    and cancel_ok: "inv w \<Longrightarrow> i \<in> fst ` mine w \<Longrightarrow>
      safe (\<lambda>w'. inv w' \<and> mine w' = {p \<in> mine w. fst p \<noteq> i} \<and> sv_now sv w' = sv_now sv w) (sv_timeout_cancel sv w i)"
begin

lemma tell_ok: "inv w \<Longrightarrow> safe (\<lambda>w'. inv w' \<and> mine w' = mine w \<and> sv_now sv w' = sv_now sv w) (sv_tell sv w msg)"
  unfolding sv_tell_def by (rule safe_bind [OF send_ok]) auto

end

subsection \<open>The services of the daemon\<close>

definition plugin_service :: "('z, 'c, 'p) platform \<Rightarrow> nat \<Rightarrow> ('c, ('z, 'c, 'p) world) services" where
  "plugin_service m i =
     \<lparr>sv_send = (\<lambda>w msg. uplink_plugin_send_message m w i msg),
      sv_connected = uplink_connected,
      sv_timeout_add = (\<lambda>w after c. add_timer w after (Some i) (PluginTimer c)),
      sv_timeout_cancel = cancel_timer,
      sv_now = (\<lambda>w. now (w_timeouts w))\<rparr>"

definition plugin_timers :: "nat \<Rightarrow> ('z, 'c, 'p) world \<Rightarrow> (u64 \<times> 'c) set" where
  "plugin_timers i w = {(tid t, c) | t c. t \<in># snd (plugin_part (w_timeouts w)) \<and> tcontext t = Some i \<and> callback t = PluginTimer c}"

lemma plugin_timer_pending:
  assumes "(j, c) \<in> plugin_timers i w"
  shows "\<exists>t \<in> set (queue (w_timeouts w)). tid t = j \<and> callback t = PluginTimer c"
  using assms by (auto simp: plugin_timers_def plugin_part_def)

lemma plugin_send_keeps:
  assumes "quiet_disconnect m" and "live w"
  shows "safe (\<lambda>(ok, w'). live w' \<and> plugin_timers i w' = plugin_timers i w \<and> now (w_timeouts w') = now (w_timeouts w))
    (uplink_plugin_send_message m w j msg)"
proof -
  let ?K = "plugin_part (w_timeouts w)"
  have part: "live w' \<and> plugin_timers i w' = plugin_timers i w \<and> now (w_timeouts w') = now (w_timeouts w)"
    if "up_inv ?K w'" for w'
  proof -
    have "plugin_part (w_timeouts w') = ?K"
      using that by (simp add: up_inv_def core_inv_def)
    then show ?thesis
      using that by (simp add: plugin_timers_def up_inv_live) (simp add: plugin_part_def)
  qed
  show ?thesis
    by (rule safe_mono [OF uplink_plugin_send_message_safe [OF assms(1) assms(2) [unfolded live_def]]])
       (auto dest: part)
qed

lemma plugin_add_keeps:
  assumes w: "live w"
  shows "safe (\<lambda>(j, w'). live w' \<and> j \<notin> fst ` plugin_timers i w \<and> plugin_timers i w' = insert (j, c) (plugin_timers i w) \<and>
      now (w_timeouts w') = now (w_timeouts w)) (add_timer w after (Some i) (PluginTimer c))"
proof (cases "loop_timeout_add (w_timeouts w) after (Some i) (PluginTimer c)")
  case (Inl e)
  have "safe (\<lambda>_. True) (add_timer w after (Some i) (PluginTimer c))"
    by (rule add_timer_safe [of "plugin_part (w_timeouts w)"]) (use w in \<open>auto simp: live_def up_inv_def\<close>)
  with Inl show ?thesis
    by (simp add: add_timer_def)
next
  case (Inr r)
  obtain j l where r: "r = (j, l)" by (cases r)
  have inv: "tmo_inv (w_timeouts w)"
    using w by (simp add: live_iff core_live_iff)
  note spec = timeout_add_spec [OF inv Inr [unfolded r]] and ids = reconnect_ids_add [OF inv Inr [unfolded r]]
  have part: "snd (plugin_part l) =
      add_mset (added_timeout (w_timeouts w) after (Some i) (PluginTimer c) j) (snd (plugin_part (w_timeouts w)))"
    using spec by (simp add: plugin_part_def added_timeout_def)
  have "live (w\<lparr>w_timeouts := l\<rparr>)"
    using w spec ids by (auto simp: live_iff core_live_iff)
  moreover have "j \<notin> fst ` plugin_timers i w"
    using spec by (force dest: plugin_timer_pending)
  moreover have "plugin_timers i (w\<lparr>w_timeouts := l\<rparr>) = insert (j, c) (plugin_timers i w)"
  proof -
    define t where "t = added_timeout (w_timeouts w) after (Some i) (PluginTimer c) j"
    have "tid t = j" "tcontext t = Some i" "callback t = PluginTimer c"
      by (simp_all add: t_def added_timeout_def)
    then show ?thesis
      unfolding plugin_timers_def by (auto simp: part t_def [symmetric])
  qed
  ultimately show ?thesis
    using spec by (simp add: add_timer_def Inr r)
qed

lemma plugin_cancel_keeps:
  assumes w: "live w" and j: "j \<in> fst ` plugin_timers i w"
  shows "safe (\<lambda>w'. live w' \<and> plugin_timers i w' = {p \<in> plugin_timers i w. fst p \<noteq> j} \<and>
      now (w_timeouts w') = now (w_timeouts w)) (cancel_timer w j)"
proof -
  let ?l = "w_timeouts w"
  have inv: "tmo_inv ?l"
    using w by (simp add: live_iff core_live_iff)
  obtain t c where t: "t \<in> set (queue ?l)" "tid t = j" "callback t = PluginTimer c"
    using j plugin_timer_pending by fastforce
  then have l: "loop_timeout_cancel ?l j = Inr (?l\<lparr>queue := filter (\<lambda>t. tid t \<noteq> j) (queue ?l)\<rparr>)"
    using inv by (auto simp: timeout_cancel_spec)
  define l' where "l' = ?l\<lparr>queue := filter (\<lambda>t. tid t \<noteq> j) (queue ?l)\<rparr>"
  have inj: "inj_on tid (set (queue ?l))"
    using inv by (simp add: tmo_inv_def distinct_map)
  have own: "j \<notin># reconnect_ids ?l" "j \<notin># ping_ids ?l"
  proof -
    have "callback s = PluginTimer c" if "s \<in> set (queue ?l)" "tid s = j" for s
      using inj_onD [OF inj, of s t] that t by simp
    then show "j \<notin># reconnect_ids ?l" "j \<notin># ping_ids ?l"
      by (auto simp: reconnect_ids_def ping_ids_def)
  qed
  have "reconnect_ids l' = reconnect_ids ?l" "ping_ids l' = ping_ids ?l"
    using reconnect_ids_cancel [OF inv l] own by (auto simp: l'_def filter_mset_eq_conv)
  then have "live (w\<lparr>w_timeouts := l'\<rparr>)"
    using w tmo_inv_filter [OF inv] by (auto simp: live_iff core_live_iff l'_def)
  moreover have "plugin_timers i (w\<lparr>w_timeouts := l'\<rparr>) = {p \<in> plugin_timers i w. fst p \<noteq> j}"
    by (fastforce simp: plugin_timers_def plugin_part_def l'_def)
  ultimately show ?thesis
    by (simp add: cancel_timer_def l l'_def [symmetric]) (simp add: l'_def)
qed

text \<open>The uplink keeps its promises to every plugin, in every state of the uplink's invariant.\<close>

lemma plugin_service_ok:
  assumes "quiet_disconnect m"
  shows "plugin_services (plugin_service m i) live (plugin_timers i)"
proof
  fix w :: "('a, 'b, 'c) world" and msg after c j
  assume w: "live w"
  show "safe (\<lambda>(ok, w'). live w' \<and> plugin_timers i w' = plugin_timers i w \<and>
      sv_now (plugin_service m i) w' = sv_now (plugin_service m i) w) (sv_send (plugin_service m i) w msg)"
    using plugin_send_keeps [OF assms w] by (simp add: plugin_service_def)
  show "safe (\<lambda>(j, w'). live w' \<and> j \<notin> fst ` plugin_timers i w \<and> plugin_timers i w' = insert (j, c) (plugin_timers i w) \<and>
      sv_now (plugin_service m i) w' = sv_now (plugin_service m i) w) (sv_timeout_add (plugin_service m i) w after c)"
    using plugin_add_keeps [OF w] by (simp add: plugin_service_def)
  show "safe (\<lambda>w'. live w' \<and> plugin_timers i w' = {p \<in> plugin_timers i w. fst p \<noteq> j} \<and>
      sv_now (plugin_service m i) w' = sv_now (plugin_service m i) w) (sv_timeout_cancel (plugin_service m i) w j)"
    if "j \<in> fst ` plugin_timers i w"
    using plugin_cancel_keeps [OF w that] by (simp add: plugin_service_def)
qed

definition silent :: "('z, 'c, 'p) platform \<Rightarrow> ('z, 'c, 'p) platform" where
  "silent m = m\<lparr>disconnected_callback := Map.empty\<rparr>"

lemma silent_quiet [simp]: "quiet_disconnect (silent m)"
  by (simp add: quiet_disconnect_def silent_def)

text \<open>As in the repository: no plugin has a callback for the disconnection.\<close>

interpretation ps: plugin_services "plugin_service (silent m) i" live "plugin_timers i"
  by (rule plugin_service_ok) simp

text \<open>A timeout of a plugin that is taken out of the queue to be fired.\<close>

lemma unqueue_plugin:
  assumes w: "live w" and q: "queue (w_timeouts w) = t # ts" and t: "tcontext t = Some i" "callback t = PluginTimer c"
  shows "live (unqueue w) \<and> plugin_timers i (unqueue w) = {p \<in> plugin_timers i w. fst p \<noteq> tid t} \<and> (tid t, c) \<in> plugin_timers i w"
proof -
  let ?l = "(w_timeouts w)\<lparr>queue := ts\<rparr>"
  have dist: "tid t \<notin> tid ` set ts" and inv: "tmo_inv ?l"
    using w q by (auto simp: live_iff core_live_iff tmo_inv_def)
  have l: "w_timeouts (unqueue w) = ?l"
    using q by (simp add: unqueue_def)
  have ids: "reconnect_ids (w_timeouts w) = reconnect_ids ?l" "ping_ids (w_timeouts w) = ping_ids ?l"
    using q t by (simp_all add: reconnect_ids_def ping_ids_def)
  have "live (unqueue w)"
    using w inv ids unfolding live_iff core_live_iff l by (simp add: unqueue_def)
  moreover have "plugin_timers i (unqueue w) = {p \<in> plugin_timers i w. fst p \<noteq> tid t}"
  proof -
    have mem: "s \<in># snd (plugin_part ?l) \<longleftrightarrow> s \<in># snd (plugin_part (w_timeouts w)) \<and> tid s \<noteq> tid t" for s
      using q dist t by (auto simp: plugin_part_def) (metis image_eqI)
    show ?thesis
      unfolding plugin_timers_def l mem by fastforce
  qed
  moreover have "(tid t, c) \<in> plugin_timers i w"
    using q t by (auto simp: plugin_timers_def plugin_part_def)
  ultimately show ?thesis
    by blast
qed

subsection \<open>A daemon at rest\<close>

text \<open>A concrete platform and state, on which the properties of the plugins are tried.\<close>

definition idle_platform :: "(unit, 'c, unit) platform" where
  "idle_platform = \<lparr>z_deflate = (\<lambda>z sync input space. (z, space, take space input)),
     z_inflate = (\<lambda>z input space. (z, space, take space input, False)),
     z_deflate_reset = (\<lambda>z. z), z_inflate_reset = (\<lambda>z. z), z_rounds = Suc (Suc (Suc 0)), own_pid = 42,
     passwd_half = replicate 16 7, challenge_size = 32, chip = (\<lambda>c. Some ([1, 2], c)), junk = [],
     connected_callback = Map.empty, disconnected_callback = Map.empty, data_callback = Map.empty\<rparr>"

text \<open>A daemon that is not connected, with one plugin.\<close>

definition offline_world :: "(unit, 'c, unit) world" where
  "offline_world =
     \<lparr>u_remote_name = Some ''host'', u_service = Some ''port'', u_login = None, u_password = None, u_cert = None,
       u_buffer = None, u_buffer_size = 0, u_size_rest = 0, u_reconnect_timeout = 2000, u_has_size = False,
       u_last_ipv6 = False, u_ping_timeout = 0, u_pings_unanswered = 0, u_ping_scheduled = False,
       u_reconnect_scheduled = True, u_seen_data = False, u_reconnect_id = 1, u_fd = - 1, u_last_connect = 0,
       u_auth_status = NOT_STARTED, u_login_failure_count = 0, u_zsend = (), u_zrecv = (), u_inc = [],
       u_status_file = None, u_handlers = [], u_empty_handler = [],
       w_timeouts = \<lparr>queue = [\<lparr>fire_at = 7000, callback = ReconnectNow, tcontext = None, tid = 1\<rparr>], capacity = 2,
         now = 5000, last_id = 1\<rparr>,
       w_plugins = [\<lparr>h_id = 0, h_name = [70, 108, 111, 119], h_libname = [], h_hash = replicate 16 0, h_version = 2,
         h_active = False, h_failed = 0, h_data = ()\<rparr>],
       w_connects = [Some (7, 8)], w_sends = [], w_recvs = [], w_wire = [], w_status = []\<rparr>"

lemma offline_live: "live offline_world" "plugin_timers 0 offline_world = {}"
  by (simp_all add: live_iff core_live_iff offline_world_def tmo_inv_def reconnect_ids_def good_fds_def
      plugin_timers_def plugin_part_def)

lemma offline_send:
  "sv_send (plugin_service (silent idle_platform) 0) offline_world msg = Inr (False, offline_world)"
  by (simp add: plugin_service_def uplink_plugin_send_message_def loop_plugin_active_def holder_of_def offline_world_def)

end
