(* ===== verification/Flow.thy ===== *)
theory Flow
  imports FlowFilter Services
begin

text \<open>
  The flow plugin (\<open>plugins/flow/flow.c\<close> and \<open>plugins/flow/main.c\<close>): packets that pass the
  filter are summed up per flow in a trie, and the flows are sent when the trie is full, on a
  timeout, on a new configuration or when the server asks. Arrays of two elements are pairs. The
  memory pools only say when the trie and the filter are thrown away, which the model does
  directly. The services of the daemon are the argument \<open>sv\<close>.
\<close>

subsection \<open>One flow\<close>

record flow =
  f_count :: "u32 \<times> u32"
  f_size :: "u64 \<times> u64"
  f_first_time :: "u64 \<times> u64"
  f_last_time :: "u64 \<times> u64"
  f_ports :: "u16 \<times> u16"
  f_addrs :: "bytes \<times> bytes"
  f_v6 :: bool
  f_udp :: bool
  f_seen_start :: "bool \<times> bool"

definition pad16 :: "bytes \<Rightarrow> bytes result" where
  "pad16 a = (if length a \<le> 16 then Inr (a @ replicate (16 - length a) 0) else Inl BadAccess)"

definition flow_parse :: "packet_info \<Rightarrow> flow result" where
  "flow_parse p =
     (let l = local_endpoint (pdirection p); r = remote_endpoint (pdirection p)
      in if l = END_COUNT then Inl BadAccess
         else rbind (rbind (address_bytes p l) pad16) (\<lambda>la.
              rbind (rbind (address_bytes p r) pad16) (\<lambda>ra.
                Inr \<lparr>f_count = (0, 0), f_size = (0, 0), f_first_time = (0, 0), f_last_time = (0, 0),
                     f_ports = (port_of p l, port_of p r), f_addrs = (la, ra),
                     f_v6 = (ip_protocol p \<noteq> 4), f_udp = (app_protocol p \<noteq> CHR ''T''), f_seen_start = (False, False)\<rparr>)))"

definition flow_key :: "endian \<Rightarrow> packet_info \<Rightarrow> bytes result" where
  "flow_key e p =
     sanity ((if ip_protocol p = 4 then 4 else 16) = unat (addr_len p))
       (sanity (pdirection p = DIR_IN \<or> pdirection p = DIR_OUT)
         (let l = local_endpoint (pdirection p); r = remote_endpoint (pdirection p)
          in rbind (address_bytes p l) (\<lambda>la.
             rbind (address_bytes p r) (\<lambda>ra.
               Inr ([ip_protocol p, code (app_protocol p)] @ la @ ra @ host16 e (port_of p l) @ host16 e (port_of p r))))))"

definition flow_size :: "flow \<Rightarrow> nat" where
  "flow_size f = 1 + 2 * 4 + 2 * 8 + 2 * 2 + 4 * 8 + (if f_v6 f then 2 * 16 else 2 * 4)"

definition flow_flags :: "flow \<Rightarrow> byte" where
  "flow_flags f = (if f_v6 f then 1 else 0) OR (if f_udp f then 2 else 0) OR
     (if fst (f_seen_start f) then 4 else 0) OR (if snd (f_seen_start f) then 8 else 0)"

definition flow_bytes :: "flow \<Rightarrow> bytes" where
  "flow_bytes f =
     (let n = (if f_v6 f then 16 else 4)
      in [flow_flags f] @ put32 (fst (f_count f)) @ put32 (snd (f_count f)) @ put64 (fst (f_size f)) @ put64 (snd (f_size f)) @
         put16 (fst (f_ports f)) @ put16 (snd (f_ports f)) @
         put64 (fst (f_first_time f)) @ put64 (snd (f_first_time f)) @ put64 (fst (f_last_time f)) @ put64 (snd (f_last_time f)) @
         take n (fst (f_addrs f)) @ take n (snd (f_addrs f)))"

definition flow_render :: "nat \<Rightarrow> flow \<Rightarrow> bytes result" where
  "flow_render dst_size f = sanity (dst_size = flow_size f) (Inr (flow_bytes f))"

subsection \<open>The plugin\<close>

record flow_data =
  fu_trie :: "flow trie"
  fu_filter :: "flow_filter option"
  fu_conf_id :: u32
  fu_max_flows :: u32
  fu_timeout :: u32
  fu_min_packets :: u32
  fu_timeout_id :: u64
  fu_configured :: bool
  fu_timeout_scheduled :: bool
  fu_timeout_missed :: bool

text \<open>Is the flow sent? Entries without data stem from a full table.\<close>

definition sent_flow :: "u32 \<Rightarrow> flow option \<Rightarrow> bool" where
  "sent_flow mp d = (case d of None \<Rightarrow> False | Some f \<Rightarrow> fst (f_count f) + snd (f_count f) \<ge> mp)"

text \<open>The first walk: the total size and the array of sizes, which has room for \<open>n\<close>.\<close>

definition get_size :: "u32 \<Rightarrow> nat \<Rightarrow> nat \<times> nat list \<Rightarrow> bytes \<Rightarrow> flow option \<Rightarrow> (nat \<times> nat list) result" where
  "get_size mp n = (\<lambda>(total, sizes) key d.
     if n \<le> length sizes then Inl BadAccess
     else if sent_flow mp d then Inr (total + flow_size (the d), sizes @ [flow_size (the d)])
     else Inr (total, sizes @ [0]))"

text \<open>The second walk: position in the sizes, position in the output, the output.\<close>

definition format_flow :: "u32 \<Rightarrow> nat list \<Rightarrow> nat \<times> nat \<times> bytes \<Rightarrow> bytes \<Rightarrow> flow option \<Rightarrow> (nat \<times> nat \<times> bytes) result" where
  "format_flow mp sizes = (\<lambda>(i, pos, out) key d.
     if sent_flow mp d then
       if length sizes \<le> i then Inl BadAccess
       else rbind (flow_render (sizes ! i) (the d)) (\<lambda>bs.
              rbind (buf_write out pos bs) (\<lambda>out. Inr (i + 1, pos + sizes ! i, out)))
     else Inr (i + 1, pos, out))"

definition flow_header :: "u32 \<Rightarrow> u64 \<Rightarrow> bytes" where
  "flow_header conf_id t = [code (CHR ''D'')] @ put32 conf_id @ put64 t"

definition flush :: "(unit, 'w) services \<Rightarrow> 'w \<Rightarrow> flow_data \<Rightarrow> bool \<Rightarrow> (bool \<times> 'w \<times> flow_data) result" where
  "flush sv w u force =
     (if \<not> force \<and> \<not> sv_connected sv w then Inr (False, w, u)
      else let n = trie_size (fu_trie u); header = 1 + 4 + 8
        in rbind (trie_walk (fu_trie u) (get_size (fu_min_packets u) n) (0, [])) (\<lambda>(total, sizes).
           sanity (length sizes = n)
             (rbind (trie_walk (fu_trie u) (format_flow (fu_min_packets u) sizes)
                 (0, header, flow_header (fu_conf_id u) (sv_now sv w) @ replicate total 0)) (\<lambda>(i, pos, out).
               sanity (i = n) (sanity (pos = header + total)
                 (rbind (sv_send sv w out) (\<lambda>(ok, w).
                   if \<not> ok \<and> \<not> force then Inr (False, w, u)
                   else Inr (True, w, u\<lparr>fu_trie := trie_alloc, fu_timeout_missed := False\<rparr>))))))))"

definition schedule_timeout :: "(unit, 'w) services \<Rightarrow> 'w \<Rightarrow> flow_data \<Rightarrow> ('w \<times> flow_data) result" where
  "schedule_timeout sv w u =
     sanity (\<not> fu_timeout_scheduled u)
       (rbind (sv_timeout_add sv w (fu_timeout u) ()) (\<lambda>(i, w).
          Inr (w, u\<lparr>fu_timeout_id := i, fu_timeout_scheduled := True\<rparr>)))"

definition timeout_fired :: "(unit, 'w) services \<Rightarrow> 'w \<Rightarrow> flow_data \<Rightarrow> ('w \<times> flow_data) result" where
  "timeout_fired sv w u =
     sanity (fu_timeout_scheduled u)
       (rbind (flush sv w (u\<lparr>fu_timeout_scheduled := False\<rparr>) (fu_timeout_missed u)) (\<lambda>(sent, w, u).
          schedule_timeout sv w (u\<lparr>fu_timeout_missed := \<not> sent\<rparr>)))"

text \<open>\<open>filter_parse\<close> runs with enough fuel for the length of the description.\<close>

definition set_config :: "(unit, 'w) services \<Rightarrow> 'w \<Rightarrow> flow_data \<Rightarrow> u32 \<Rightarrow> u32 \<Rightarrow> u32 \<Rightarrow> u32 \<Rightarrow> bytes \<Rightarrow> ('w \<times> flow_data) result" where
  "set_config sv w u conf_id max_flows timeout min_packets desc =
     (let u1 = u\<lparr>fu_conf_id := conf_id, fu_max_flows := max_flows, fu_timeout := timeout\<rparr>
      in rbind (if fu_timeout_scheduled u1 then Inr (w, u1) else schedule_timeout sv w u1) (\<lambda>(w, u).
           case filter_parse (length desc + 2) desc of
             None \<Rightarrow> Inl Diverged
           | Some r \<Rightarrow> rbind r (\<lambda>f.
               Inr (w, u\<lparr>fu_filter := Some f, fu_min_packets := min_packets, fu_configured := True\<rparr>))))"

definition stop_timeout :: "(unit, 'w) services \<Rightarrow> 'w \<Rightarrow> flow_data \<Rightarrow> ('w \<times> flow_data) result" where
  "stop_timeout sv w u =
     sanity (fu_timeout_scheduled u)
       (rbind (sv_timeout_cancel sv w (fu_timeout_id u)) (\<lambda>w. Inr (w, u\<lparr>fu_timeout_scheduled := False\<rparr>)))"

definition configure :: "(unit, 'w) services \<Rightarrow> 'w \<Rightarrow> flow_data \<Rightarrow> u32 \<Rightarrow> u32 \<Rightarrow> u32 \<Rightarrow> u32 \<Rightarrow> bytes \<Rightarrow> ('w \<times> flow_data) result" where
  "configure sv w u conf_id max_flows timeout min_packets desc =
     (if fu_configured u then
        if fu_conf_id u \<noteq> conf_id then
          rbind (flush sv w u True) (\<lambda>(sent, w, u).
            rbind (stop_timeout sv w u) (\<lambda>(w, u).
              set_config sv w u conf_id max_flows timeout min_packets desc))
        else Inr (w, u)
      else set_config sv w u conf_id max_flows timeout min_packets desc)"

text \<open>The statistics of a packet, in the slot of its direction.\<close>

definition upd_dir :: "direction \<Rightarrow> ('a \<Rightarrow> 'a) \<Rightarrow> 'a \<times> 'a \<Rightarrow> 'a \<times> 'a" where
  "upd_dir d g p = (if d = DIR_IN then (g (fst p), snd p) else (fst p, g (snd p)))"

definition add_packet :: "u64 \<Rightarrow> packet_info \<Rightarrow> flow \<Rightarrow> flow" where
  "add_packet t p f =
     (let d = pdirection p
      in f\<lparr>f_count := upd_dir d (\<lambda>n. n + 1) (f_count f),
           f_size := upd_dir d (\<lambda>n. n + word_of_nat (plength p)) (f_size f),
           f_last_time := upd_dir d (\<lambda>_. t) (f_last_time f),
           f_first_time := upd_dir d (\<lambda>x. if x = 0 then t else x) (f_first_time f),
           f_seen_start := (if app_protocol p = CHR ''T'' \<and> tcp_flags p AND TCP_SYN \<noteq> 0 \<and> tcp_flags p AND TCP_ACK = 0
                            then upd_dir d (\<lambda>_. True) (f_seen_start f) else f_seen_start f)\<rparr>)"

definition tracked :: "packet_info \<Rightarrow> bool" where
  "tracked p \<longleftrightarrow> (pdirection p = DIR_IN \<or> pdirection p = DIR_OUT) \<and> layer p = CHR ''I'' \<and>
     (ip_protocol p = 4 \<or> ip_protocol p = 6) \<and> (app_protocol p = CHR ''T'' \<or> app_protocol p = CHR ''U'')"

text \<open>A full table: flush, restart the timeout and index the key again, maybe in a new trie.\<close>

definition make_room :: "(unit, 'w) services \<Rightarrow> 'w \<Rightarrow> flow_data \<Rightarrow> bytes \<Rightarrow> slot \<Rightarrow> ('w \<times> flow_data \<times> slot) result" where
  "make_room sv w u key p =
     (if trie_size (fu_trie u) \<ge> unat (fu_max_flows u) then
        rbind (flush sv w u (trie_size (fu_trie u) \<ge> unat (2 * fu_max_flows u))) (\<lambda>(sent, w, u).
        rbind (stop_timeout sv w u) (\<lambda>(w, u).
        rbind (schedule_timeout sv w u) (\<lambda>(w, u).
        rbind (trie_index (fu_trie u) key) (\<lambda>(t, s).
          case s of None \<Rightarrow> Inl BadAccess | Some p \<Rightarrow> Inr (w, u\<lparr>fu_trie := t\<rparr>, p)))))
      else Inr (w, u, p))"

definition handle_tracked :: "endian \<Rightarrow> (unit, 'w) services \<Rightarrow> 'w \<Rightarrow> flow_data \<Rightarrow> packet_info \<Rightarrow> ('w \<times> flow_data) result" where
  "handle_tracked e sv w u info =
     rbind (flow_key e info) (\<lambda>key.
     rbind (trie_index (fu_trie u) key) (\<lambda>(t, s).
       case s of
         None \<Rightarrow> Inl Sanity
       | Some p \<Rightarrow>
           rbind (case trie_slot t p of
                    Some f \<Rightarrow> Inr (w, u\<lparr>fu_trie := t\<rparr>, p, f)
                  | None \<Rightarrow>
                      rbind (make_room sv w (u\<lparr>fu_trie := t\<rparr>) key p) (\<lambda>(w, u, p).
                        rbind (flow_parse info) (\<lambda>f. Inr (w, u, p, f)))) (\<lambda>(w, u, p, f).
             Inr (w, u\<lparr>fu_trie := trie_store (fu_trie u) p (Some (add_packet (sv_now sv w) info f))\<rparr>))))"

definition packet_handle :: "endian \<Rightarrow> (unit, 'w) services \<Rightarrow> 'w \<Rightarrow> flow_data \<Rightarrow> packet \<Rightarrow> ('w \<times> flow_data) result" where
  "packet_handle e sv w u packet =
     (if \<not> fu_configured u then Inr (w, u)
      else if packet = [] then Inl BadAccess
      else let info = last packet
        in if \<not> tracked info then Inr (w, u)
           else case fu_filter u of
               None \<Rightarrow> Inl BadAccess
             | Some f \<Rightarrow>
                 rbind (filter_apply e info f) (\<lambda>(ok, f).
                   if \<not> ok then Inr (w, u\<lparr>fu_filter := Some f\<rparr>)
                   else handle_tracked e sv w (u\<lparr>fu_filter := Some f\<rparr>) info))"

definition connected :: "(unit, 'w) services \<Rightarrow> 'w \<Rightarrow> flow_data \<Rightarrow> ('w \<times> flow_data) result" where
  "connected sv w u =
     rbind (sv_tell sv w [code (CHR ''C'')]) (\<lambda>w.
       if \<not> fu_configured u then Inr (w, u)
       else if fu_timeout_missed u \<or> trie_size (fu_trie u) \<ge> unat (fu_max_flows u) then
         rbind (flush sv w u False) (\<lambda>(sent, w, u). Inr (w, u))
       else Inr (w, u))"

definition flow_data_init :: flow_data where
  "flow_data_init = \<lparr>fu_trie = trie_alloc, fu_filter = None, fu_conf_id = 0, fu_max_flows = 0, fu_timeout = 0,
     fu_min_packets = 0, fu_timeout_id = 0, fu_configured = False, fu_timeout_scheduled = False,
     fu_timeout_missed = False\<rparr>"

definition initialize :: "(unit, 'w) services \<Rightarrow> 'w \<Rightarrow> ('w \<times> flow_data) result" where
  "initialize sv w = connected sv w flow_data_init"

definition config_parse :: "(unit, 'w) services \<Rightarrow> 'w \<Rightarrow> flow_data \<Rightarrow> bytes \<Rightarrow> ('w \<times> flow_data) result" where
  "config_parse sv w u bs =
     sanity (length bs \<ge> 16)
       (configure sv w u (get32 bs) (get32 (drop 4 bs)) (get32 (drop 8 bs)) (get32 (drop 12 bs)) (drop 16 bs))"

text \<open>The request of an update. \<open>old_version\<close> is only set where the store wrote it.\<close>

definition update_request :: "bool \<Rightarrow> bytes \<Rightarrow> u32 \<Rightarrow> u32 \<Rightarrow> u32 \<Rightarrow> bytes result" where
  "update_request full name ep old_version new_version =
     (let len = 1 + 1 + 4 + length name + (if full then 2 else 3) * 4
      in rbind (uplink_render_string name (len - 2)) (\<lambda>(n, rest).
         rbind (uplink_render_uint32 ep rest) (\<lambda>(e, rest).
         rbind (if full then Inr ([], rest) else uplink_render_uint32 old_version rest) (\<lambda>(old, rest).
         rbind (uplink_render_uint32 new_version rest) (\<lambda>(new, rest).
           sanity (rest = 0) (Inr ([code (CHR ''U''), if full then 1 else 0] @ n @ e @ old @ new)))))))"

fun handle_filter_action ::
  "(unit, 'w) services \<Rightarrow> 'w \<Rightarrow> diff_store_action \<Rightarrow> bytes \<Rightarrow> u32 \<Rightarrow> u32 option \<Rightarrow> u32 \<Rightarrow> 'w result" where
  "handle_filter_action sv w DIFF_STORE_UNKNOWN name ep old new = Inr w"
| "handle_filter_action sv w DIFF_STORE_NO_ACTION name ep old new = Inr w"
| "handle_filter_action sv w DIFF_STORE_CONFIG_RELOAD name ep old new = sv_tell sv w [code (CHR ''C'')]"
| "handle_filter_action sv w DIFF_STORE_INCREMENTAL name ep old new =
     (case old of
        None \<Rightarrow> Inl BadAccess
      | Some v \<Rightarrow> rbind (update_request False (cstring name) ep v new) (sv_tell sv w))"
| "handle_filter_action sv w DIFF_STORE_FULL name ep old new =
     rbind (update_request True (cstring name) ep 0 new) (sv_tell sv w)"

definition offer_update :: "(unit, 'w) services \<Rightarrow> 'w \<Rightarrow> flow_data \<Rightarrow> bytes \<Rightarrow> ('w \<times> flow_data) result" where
  "offer_update sv w u bs =
     (case (uplink_parse_string bs, fu_filter u) of
        (Some (name, rest), Some f) \<Rightarrow>
          rbind (uplink_parse_uint32 rest) (\<lambda>(ep, rest).
          rbind (uplink_parse_uint32 rest) (\<lambda>(ver, rest).
            case filter_action f name ep ver of
              (action, old) \<Rightarrow> rbind (handle_filter_action sv w action name ep old ver) (\<lambda>w. Inr (w, u))))
      | (None, _) \<Rightarrow> Inl Sanity
      | (_, None) \<Rightarrow> Inl BadAccess)"

definition apply_update :: "(unit, 'w) services \<Rightarrow> 'w \<Rightarrow> flow_data \<Rightarrow> bytes \<Rightarrow> ('w \<times> flow_data) result" where
  "apply_update sv w u bs =
     (case (uplink_parse_string bs, fu_filter u) of
        (Some (name, rest), Some f) \<Rightarrow>
          if rest = [] then Inl Aborted
          else let full = (hd rest \<noteq> 0)
            in rbind (uplink_parse_uint32 (tl rest)) (\<lambda>(ep, rest).
               rbind (if full then Inr (0, rest) else uplink_parse_uint32 rest) (\<lambda>(from, rest).
               rbind (uplink_parse_uint32 rest) (\<lambda>(to, rest).
               rbind (filter_diff_apply f name full ep from to rest) (\<lambda>(f, action, old).
                 rbind (handle_filter_action sv w action name ep old to) (\<lambda>w.
                   Inr (w, u\<lparr>fu_filter := Some f\<rparr>))))))
      | (None, _) \<Rightarrow> Inl Aborted
      | (_, None) \<Rightarrow> Inl BadAccess)"

definition communicate :: "(unit, 'w) services \<Rightarrow> 'w \<Rightarrow> flow_data \<Rightarrow> bytes \<Rightarrow> ('w \<times> flow_data) result" where
  "communicate sv w u bs =
     sanity (bs \<noteq> [])
       (if hd bs = code (CHR ''F'') then
          sanity (length bs = 1) (rbind (flush sv w u False) (\<lambda>(sent, w, u). Inr (w, u)))
        else if hd bs = code (CHR ''C'') then config_parse sv w u (tl bs)
        else if hd bs = code (CHR ''U'') then (if \<not> fu_configured u then Inr (w, u) else offer_update sv w u (tl bs))
        else if hd bs = code (CHR ''D'') then (if \<not> fu_configured u then Inr (w, u) else apply_update sv w u (tl bs))
        else Inr (w, u))"

subsection \<open>What a flush sends\<close>

definition wf_flow :: "flow \<Rightarrow> bool" where
  "wf_flow f \<longleftrightarrow> length (fst (f_addrs f)) = 16 \<and> length (snd (f_addrs f)) = 16"

definition flow_entry :: "u32 \<Rightarrow> flow option \<Rightarrow> bytes" where
  "flow_entry mp d = (if sent_flow mp d then flow_bytes (the d) else [])"

definition wf_entry :: "flow option \<Rightarrow> bool" where
  "wf_entry d \<longleftrightarrow> (\<forall>f. d = Some f \<longrightarrow> wf_flow f)"

lemma length_flow_bytes: "wf_flow f \<Longrightarrow> length (flow_bytes f) = flow_size f"
  by (simp add: wf_flow_def flow_bytes_def flow_size_def Let_def)

lemma sent_flow_Some: "sent_flow mp d \<Longrightarrow> \<exists>f. d = Some f"
  by (cases d) (simp_all add: sent_flow_def)

lemma length_flow_entry:
  "wf_entry d \<Longrightarrow> length (flow_entry mp d) = (if sent_flow mp d then flow_size (the d) else 0)"
  using sent_flow_Some [of mp d] by (auto simp: flow_entry_def wf_entry_def length_flow_bytes)

lemma size_walk:
  assumes "\<forall>e \<in> set es. wf_entry (snd e)" and "length sizes + length es \<le> n"
  shows "fold_result (visit (get_size mp n)) (tot, sizes) es =
    Inr (tot + length (concat (map (flow_entry mp \<circ> snd) es)), sizes @ map (length \<circ> flow_entry mp \<circ> snd) es)"
  using assms
proof (induction es arbitrary: tot sizes)
  case (Cons e es)
  obtain k d where e: "e = (k, d)" by (cases e)
  have "get_size mp n (tot, sizes) k d = Inr (tot + length (flow_entry mp d), sizes @ [length (flow_entry mp d)])"
    using Cons.prems by (simp add: get_size_def length_flow_entry e)
  with Cons show ?case
    by (simp add: e)
qed simp

lemma buf_write_fill:
  "length bs = k \<Longrightarrow> pos = length pre \<Longrightarrow>
     buf_write (pre @ replicate (k + m) 0) pos bs = Inr ((pre @ bs) @ replicate m (0 :: byte))"
  by (simp add: buf_write_def)

lemma format_walk:
  assumes "\<forall>e \<in> set es. wf_entry (snd e)" and "sizes = pre @ map (length \<circ> flow_entry mp \<circ> snd) es"
    and "pos = length out"
  shows "fold_result (visit (format_flow mp sizes))
      (length pre, pos, out @ replicate (length (concat (map (flow_entry mp \<circ> snd) es))) 0) es =
    Inr (length pre + length es, pos + length (concat (map (flow_entry mp \<circ> snd) es)),
         out @ concat (map (flow_entry mp \<circ> snd) es))"
  using assms
proof (induction es arbitrary: pre pos out)
  case (Cons e es)
  obtain k d where e: "e = (k, d)" by (cases e)
  let ?rest = "length (concat (map (flow_entry mp \<circ> snd) es))"
  have wf: "wf_entry d"
    using Cons.prems(1) by (simp add: e)
  have i: "sizes ! length pre = length (flow_entry mp d)" "length pre < length sizes"
    using Cons.prems(2) by (simp_all add: e nth_append)
  have "format_flow mp sizes (length pre, pos, out @ replicate (length (flow_entry mp d) + ?rest) 0) k d =
      Inr (length pre + 1, pos + length (flow_entry mp d), (out @ flow_entry mp d) @ replicate ?rest 0)"
  proof (cases "sent_flow mp d")
    case True
    then have "flow_render (sizes ! length pre) (the d) = Inr (flow_entry mp d)"
      using i(1) length_flow_entry [OF wf, of mp] by (simp add: flow_render_def flow_entry_def)
    moreover have "buf_write (out @ replicate (length (flow_entry mp d) + ?rest) 0) pos (flow_entry mp d) =
        Inr ((out @ flow_entry mp d) @ replicate ?rest 0)"
      by (rule buf_write_fill) (simp_all add: Cons.prems(3))
    ultimately show ?thesis
      using True i by (simp add: format_flow_def del: append_assoc)
  qed (simp add: format_flow_def flow_entry_def)
  moreover have "fold_result (visit (format_flow mp sizes))
      (length (pre @ [length (flow_entry mp d)]), pos + length (flow_entry mp d), (out @ flow_entry mp d) @ replicate ?rest 0) es =
    Inr (length (pre @ [length (flow_entry mp d)]) + length es, pos + length (flow_entry mp d) + ?rest,
         (out @ flow_entry mp d) @ concat (map (flow_entry mp \<circ> snd) es))"
    by (rule Cons.IH) (use Cons.prems e in auto)
  ultimately show ?case
    by (simp add: e comp_def)
qed simp

text \<open>The message: the header, then the flows with enough packets, in the order of the trie.\<close>

definition flush_message :: "flow_data \<Rightarrow> u64 \<Rightarrow> bytes" where
  "flush_message u t = flow_header (fu_conf_id u) t @ concat (map (flow_entry (fu_min_packets u) \<circ> snd) (entries (troot (fu_trie u))))"

definition wf_flows :: "flow trie \<Rightarrow> bool" where
  "wf_flows t \<longleftrightarrow> trie_inv t \<and> (\<forall>d \<in> ran (trie_map t). wf_entry d)"

lemma wf_flows_entries:
  assumes "wf_flows t" shows "\<forall>e \<in> set (entries (troot t)). wf_entry (snd e)"
proof
  fix e assume e: "e \<in> set (entries (troot t))"
  have "distinct (map fst (entries (troot t)))"
    using assms by (simp add: wf_flows_def trie_inv_def twf_keys_distinct)
  then have "trie_map t (fst e) = Some (snd e)"
    using e by (simp add: trie_map_def)
  then show "wf_entry (snd e)"
    using assms by (auto simp: wf_flows_def ran_def)
qed

lemma length_entries: "trie_inv t \<Longrightarrow> length (entries (troot t)) = trie_size t"
  by (simp add: trie_inv_def trie_size_def)

lemma flush_eq:
  assumes "wf_flows (fu_trie u)"
  shows "flush sv w u force =
    (if \<not> force \<and> \<not> sv_connected sv w then Inr (False, w, u)
     else rbind (sv_send sv w (flush_message u (sv_now sv w))) (\<lambda>(ok, w).
       if \<not> ok \<and> \<not> force then Inr (False, w, u)
       else Inr (True, w, u\<lparr>fu_trie := trie_alloc, fu_timeout_missed := False\<rparr>)))"
proof -
  let ?es = "entries (troot (fu_trie u))" and ?mp = "fu_min_packets u"
  let ?out = "concat (map (flow_entry ?mp \<circ> snd) ?es)"
  have inv: "trie_inv (fu_trie u)"
    using assms by (simp add: wf_flows_def)
  note wf = wf_flows_entries [OF assms] and n = length_entries [OF inv]
  have first: "trie_walk (fu_trie u) (get_size ?mp (trie_size (fu_trie u))) (0, []) =
      Inr (length ?out, map (length \<circ> flow_entry ?mp \<circ> snd) ?es)"
    using size_walk [OF wf, of "[]" "trie_size (fu_trie u)"] n by (simp add: trie_walk_fold [OF inv])
  have h: "length (flow_header c t) = 13" for c t
    by (simp add: flow_header_def)
  have "trie_walk (fu_trie u) (format_flow ?mp (map (length \<circ> flow_entry ?mp \<circ> snd) ?es))
      (0, 13, flow_header (fu_conf_id u) (sv_now sv w) @ replicate (length ?out) 0) =
      Inr (length ?es, 13 + length ?out, flow_header (fu_conf_id u) (sv_now sv w) @ ?out)"
    using format_walk [OF wf, of "map (length \<circ> flow_entry ?mp \<circ> snd) ?es" "[]" ?mp 13 "flow_header (fu_conf_id u) (sv_now sv w)"] h
    by (simp add: trie_walk_fold [OF inv])
  with first n show ?thesis
    unfolding flush_def by (simp add: Let_def flush_message_def del: length_concat)
qed

subsection \<open>The table of flows\<close>

text \<open>The keys of flows: no key is a proper prefix of another, so the trie serves all of them.\<close>

definition flow_keys :: "bytes set" where
  "flow_keys = {k. k \<noteq> [] \<and> (hd k = 4 \<and> length k = 14 \<or> hd k = 6 \<and> length k = 38)}"

lemma flow_keys_prefix_free: "prefix_free flow_keys"
  by (auto simp: prefix_free_def flow_keys_def strict_prefix_def prefix_def neq_Nil_conv)

lemma address_bytes_length: "address_bytes p ep = Inr bs \<Longrightarrow> length bs = unat (addr_len p)"
  by (auto simp: address_bytes_def split: option.splits if_splits)

lemma flow_key_in: "tracked p \<Longrightarrow> flow_key e p = Inr k \<Longrightarrow> k \<in> flow_keys"
  by (auto simp: flow_key_def flow_keys_def tracked_def result_simps Let_def split: if_splits dest!: address_bytes_length)

definition flow_inv :: "flow_data \<Rightarrow> bool" where
  "flow_inv u \<longleftrightarrow> wf_flows (fu_trie u) \<and> dom (trie_map (fu_trie u)) \<subseteq> flow_keys"

lemma flow_inv_cong: "fu_trie u' = fu_trie u \<Longrightarrow> flow_inv u' = flow_inv u"
  by (simp add: flow_inv_def)

lemma flow_inv_empty [simp]: "fu_trie u = trie_alloc \<Longrightarrow> flow_inv u"
  by (simp add: flow_inv_def wf_flows_def)

lemma flow_inv_upd:
  assumes "flow_inv u" and "trie_inv t" and "trie_map t = (trie_map (fu_trie u))(key \<mapsto> v)" and "key \<in> flow_keys" and "wf_entry v"
  shows "flow_inv (u\<lparr>fu_trie := t\<rparr>)"
proof -
  have "wf_entry d" if "d \<in> ran (trie_map t)" for d
    using that assms(1,3,5) by (auto simp: flow_inv_def wf_flows_def ran_def split: if_splits)
  then show ?thesis
    using assms by (auto simp: flow_inv_def wf_flows_def)
qed

lemma slot_value_wf: "flow_inv u \<Longrightarrow> wf_entry (slot_value (fu_trie u) key)"
  by (auto simp: flow_inv_def wf_flows_def slot_value_def wf_entry_def ran_def split: option.splits)

lemma flow_index:
  assumes u: "flow_inv u" and key: "key \<in> flow_keys"
  shows "\<exists>t p. trie_index (fu_trie u) key = Inr (t, Some p) \<and> flow_inv (u\<lparr>fu_trie := t\<rparr>) \<and>
    trie_slot t p = slot_value (fu_trie u) key \<and> trie_map t = (trie_map (fu_trie u))(key \<mapsto> slot_value (fu_trie u) key) \<and>
    (\<forall>v. wf_entry v \<longrightarrow> flow_inv (u\<lparr>fu_trie := trie_store t p v\<rparr>)) \<and>
    (\<forall>v. trie_map (trie_store t p v) = (trie_map (fu_trie u))(key \<mapsto> v))"
proof -
  have inv: "trie_inv (fu_trie u)" and dom: "dom (trie_map (fu_trie u)) \<subseteq> flow_keys"
    using u by (auto simp: flow_inv_def wf_flows_def)
  have "trie_admits (fu_trie u) key"
    using prefix_free_fits [OF flow_keys_prefix_free key dom] by (simp add: trie_admits_fits)
  then obtain t p where t: "trie_index (fu_trie u) key = Inr (t, Some p)" "trie_inv t" "at_slot (troot t) p key"
    "trie_map t = (trie_map (fu_trie u))(key \<mapsto> slot_value (fu_trie u) key)" "trie_slot t p = slot_value (fu_trie u) key"
    using trie_index_spec [OF inv] by blast
  note st = trie_store_spec [OF t(2,3)]
  have m: "trie_map (trie_store t p v) = (trie_map (fu_trie u))(key \<mapsto> v)" for v
    using st(2) t(4) by simp
  have "flow_inv (u\<lparr>fu_trie := trie_store t p v\<rparr>)" if "wf_entry v" for v
    by (rule flow_inv_upd [OF u st(1) m key that])
  moreover have "flow_inv (u\<lparr>fu_trie := t\<rparr>)"
    by (rule flow_inv_upd [OF u t(2,4) key slot_value_wf [OF u]])
  ultimately show ?thesis
    using t m by blast
qed

lemma pad16_length: "pad16 a = Inr b \<Longrightarrow> length b = 16"
  by (auto simp: pad16_def split: if_splits)

lemma flow_parse_wf: "flow_parse p = Inr f \<Longrightarrow> wf_flow f"
  by (auto simp: flow_parse_def Let_def rbind_eq_Inr wf_flow_def split: if_splits dest: pad16_length)

lemma add_packet_wf: "wf_flow f \<Longrightarrow> wf_flow (add_packet t p f)"
  by (simp add: wf_flow_def add_packet_def Let_def)

subsection \<open>The plugin and its timeout\<close>

definition flow_ok :: "(u64 \<times> unit) set \<Rightarrow> flow_data \<Rightarrow> bool" where
  "flow_ok timers u \<longleftrightarrow> flow_inv u \<and> (fu_configured u \<longrightarrow> fu_timeout_scheduled u) \<and>
     timers = (if fu_timeout_scheduled u then {(fu_timeout_id u, ())} else {})"

text \<open>The plugin as a client of the services: every callback that returns leaves at most one
  timeout of the plugin, the one it remembers.\<close>

locale flow_client = plugin_services sv inv mine for sv :: "(unit, 'w) services" and inv and mine
begin

abbreviation good :: "'w \<Rightarrow> flow_data \<Rightarrow> bool" where
  "good w u \<equiv> inv w \<and> flow_ok (mine w) u"

lemma flush_good:
  assumes "inv w" and "flow_inv u"
  shows "yields (\<lambda>(sent, w', u'). inv w' \<and> mine w' = mine w \<and> flow_inv u' \<and> fu_timeout_scheduled u' = fu_timeout_scheduled u \<and>
      fu_timeout_id u' = fu_timeout_id u \<and> fu_configured u' = fu_configured u) (flush sv w u force)"
proof -
  have wf: "wf_flows (fu_trie u)"
    using assms(2) by (simp add: flow_inv_def)
  have "yields (\<lambda>(sent, w', u'). inv w' \<and> mine w' = mine w \<and> flow_inv u' \<and> fu_timeout_scheduled u' = fu_timeout_scheduled u \<and>
      fu_timeout_id u' = fu_timeout_id u \<and> fu_configured u' = fu_configured u)
    (rbind (sv_send sv w (flush_message u (sv_now sv w))) (\<lambda>(ok, w).
       if \<not> ok \<and> \<not> force then Inr (False, w, u)
       else Inr (True, w, u\<lparr>fu_trie := trie_alloc, fu_timeout_missed := False\<rparr>)))"
    by (rule yields_bind [OF safe_yields [OF send_ok [OF assms(1)]]]) (use assms(2) in auto)
  with assms show ?thesis
    by (simp add: flush_eq [OF wf])
qed

lemma schedule_good:
  assumes "inv w" and "flow_inv u" and "mine w = {}"
  shows "yields (\<lambda>(w', u'). good w' u' \<and> fu_timeout_scheduled u' \<and> fu_configured u' = fu_configured u \<and> fu_trie u' = fu_trie u)
    (schedule_timeout sv w u)"
  unfolding schedule_timeout_def
  by (rule yields_sanity, rule yields_bind [OF safe_yields [OF add_ok [OF assms(1)]]])
     (use assms in \<open>auto simp: flow_ok_def flow_inv_def\<close>)

lemma stop_good:
  assumes "good w u"
  shows "yields (\<lambda>(w', u'). inv w' \<and> mine w' = {} \<and> flow_inv u' \<and> \<not> fu_timeout_scheduled u' \<and> fu_trie u' = fu_trie u)
    (stop_timeout sv w u)"
  unfolding stop_timeout_def
proof (rule yields_sanity)
  assume s: "fu_timeout_scheduled u"
  then have "mine w = {(fu_timeout_id u, ())}"
    using assms by (simp add: flow_ok_def)
  then have "fu_timeout_id u \<in> fst ` mine w"
    by simp
  with assms have "safe (\<lambda>w'. inv w' \<and> mine w' = {}) (sv_timeout_cancel sv w (fu_timeout_id u))"
    using \<open>mine w = _\<close> by (intro safe_mono [OF cancel_ok]) auto
  then show "yields (\<lambda>(w', u'). inv w' \<and> mine w' = {} \<and> flow_inv u' \<and> \<not> fu_timeout_scheduled u' \<and> fu_trie u' = fu_trie u)
      (rbind (sv_timeout_cancel sv w (fu_timeout_id u)) (\<lambda>w. Inr (w, u\<lparr>fu_timeout_scheduled := False\<rparr>)))"
    by (rule yields_bind [OF safe_yields]) (use assms in \<open>auto simp: flow_ok_def flow_inv_def\<close>)
qed

lemma set_config_good:
  assumes "inv w" and "flow_inv u" and "mine w = (if fu_timeout_scheduled u then {(fu_timeout_id u, ())} else {})"
  shows "yields (\<lambda>(w', u'). good w' u') (set_config sv w u conf_id max_flows timeout min_packets desc)"
proof -
  define u1 where "u1 = u\<lparr>fu_conf_id := conf_id, fu_max_flows := max_flows, fu_timeout := timeout\<rparr>"
  have u1: "flow_inv u1" "fu_timeout_scheduled u1 = fu_timeout_scheduled u" "fu_timeout_id u1 = fu_timeout_id u"
    using assms(2) by (simp_all add: u1_def flow_inv_def)
  have "yields (\<lambda>(w', u'). inv w' \<and> flow_inv u' \<and> fu_timeout_scheduled u' \<and> mine w' = {(fu_timeout_id u', ())})
      (if fu_timeout_scheduled u1 then Inr (w, u1) else schedule_timeout sv w u1)"
    using assms u1 yields_mono [OF schedule_good [OF assms(1) u1(1)]]
    by (auto simp: flow_ok_def)
  then show ?thesis
    unfolding set_config_def u1_def [symmetric] Let_def
    by (rule yields_bind) (auto simp: flow_ok_def flow_inv_def split: option.splits intro!: yields_bind [OF yields_True])
qed

lemma configure_good:
  assumes "good w u"
  shows "yields (\<lambda>(w', u'). good w' u') (configure sv w u conf_id max_flows timeout min_packets desc)"
proof -
  have parts: "inv w" "flow_inv u" "mine w = (if fu_timeout_scheduled u then {(fu_timeout_id u, ())} else {})"
    using assms by (simp_all add: flow_ok_def)
  have "yields (\<lambda>(w', u'). good w' u')
      (rbind (flush sv w u True) (\<lambda>(sent, w, u). rbind (stop_timeout sv w u) (\<lambda>(w, u).
         set_config sv w u conf_id max_flows timeout min_packets desc)))"
  proof (rule yields_bind [OF flush_good [OF parts(1,2)]], clarsimp)
    fix w' u'
    assume "inv w'" "mine w' = mine w" "flow_inv u'" "fu_timeout_scheduled u' = fu_timeout_scheduled u"
      "fu_timeout_id u' = fu_timeout_id u" "fu_configured u' = fu_configured u"
    then have "good w' u'"
      using assms by (simp add: flow_ok_def)
    then show "yields (\<lambda>(w', u'). good w' u') (rbind (stop_timeout sv w' u') (\<lambda>(w, u).
         set_config sv w u conf_id max_flows timeout min_packets desc))"
      by (rule yields_bind [OF stop_good]) (auto intro!: set_config_good)
  qed
  then show ?thesis
    using assms set_config_good [OF parts] by (simp add: configure_def)
qed

lemma timeout_fired_good:
  assumes "inv w" and "mine w = {}" and "flow_inv u"
  shows "yields (\<lambda>(w', u'). good w' u') (timeout_fired sv w u)"
  unfolding timeout_fired_def
proof (rule yields_sanity, rule yields_bind [OF flush_good])
  show "inv w" "flow_inv (u\<lparr>fu_timeout_scheduled := False\<rparr>)"
    using assms by (simp_all add: flow_inv_def)
  show "yields (\<lambda>(w', u'). good w' u') (case x of (sent, w, u) \<Rightarrow> schedule_timeout sv w (u\<lparr>fu_timeout_missed := \<not> sent\<rparr>))"
    if "case x of (sent, w', u') \<Rightarrow> inv w' \<and> mine w' = mine w \<and> flow_inv u' \<and>
        fu_timeout_scheduled u' = fu_timeout_scheduled (u\<lparr>fu_timeout_scheduled := False\<rparr>) \<and>
        fu_timeout_id u' = fu_timeout_id (u\<lparr>fu_timeout_scheduled := False\<rparr>) \<and>
        fu_configured u' = fu_configured (u\<lparr>fu_timeout_scheduled := False\<rparr>)" for x
    using that assms(2) by (auto split: prod.splits intro!: yields_mono [OF schedule_good] simp: flow_inv_def)
qed

lemma make_room_good:
  assumes "good w u" and "key \<in> flow_keys"
    and "\<forall>v. wf_entry v \<longrightarrow> flow_inv (u\<lparr>fu_trie := trie_store (fu_trie u) p v\<rparr>)"
  shows "yields (\<lambda>(w', u', p'). good w' u' \<and> (\<forall>v. wf_entry v \<longrightarrow> flow_inv (u'\<lparr>fu_trie := trie_store (fu_trie u') p' v\<rparr>)))
    (make_room sv w u key p)"
proof -
  let ?Q = "\<lambda>(w', u', p'). good w' u' \<and> (\<forall>v. wf_entry v \<longrightarrow> flow_inv (u'\<lparr>fu_trie := trie_store (fu_trie u') p' v\<rparr>))"
  have again: "yields ?Q (rbind (trie_index (fu_trie u) key) (\<lambda>(t, s).
      case s of None \<Rightarrow> Inl BadAccess | Some p \<Rightarrow> Inr (w, u\<lparr>fu_trie := t\<rparr>, p)))" if g: "good w u" for w u
  proof -
    have "flow_inv u"
      using g by (simp add: flow_ok_def)
    from flow_index [OF this assms(2)] g show ?thesis
      by (auto simp: flow_ok_def)
  qed
  have restart: "yields ?Q (rbind (stop_timeout sv w u) (\<lambda>(w, u). rbind (schedule_timeout sv w u) (\<lambda>(w, u).
        rbind (trie_index (fu_trie u) key) (\<lambda>(t, s).
          case s of None \<Rightarrow> Inl BadAccess | Some p \<Rightarrow> Inr (w, u\<lparr>fu_trie := t\<rparr>, p)))))" if "good w u" for w u
  proof (rule yields_bind [OF stop_good [OF that]], clarify)
    fix w1 u1
    assume a: "inv w1" "mine w1 = {}" "flow_inv u1"
    show "yields ?Q (rbind (schedule_timeout sv w1 u1) (\<lambda>(w, u). rbind (trie_index (fu_trie u) key) (\<lambda>(t, s).
        case s of None \<Rightarrow> Inl BadAccess | Some p \<Rightarrow> Inr (w, u\<lparr>fu_trie := t\<rparr>, p))))"
    proof (rule yields_bind [OF schedule_good [OF a(1,3,2)]], clarify)
      fix w2 u2
      assume "inv w2" "flow_ok (mine w2) u2"
      then show "yields ?Q (rbind (trie_index (fu_trie u2) key) (\<lambda>(t, s).
          case s of None \<Rightarrow> Inl BadAccess | Some p \<Rightarrow> Inr (w2, u2\<lparr>fu_trie := t\<rparr>, p)))"
        using again by blast
    qed
  qed
  have inv: "inv w" "flow_inv u"
    using assms(1) by (simp_all add: flow_ok_def)
  have "yields ?Q (rbind (flush sv w u force) (\<lambda>(sent, w, u). rbind (stop_timeout sv w u) (\<lambda>(w, u).
        rbind (schedule_timeout sv w u) (\<lambda>(w, u). rbind (trie_index (fu_trie u) key) (\<lambda>(t, s).
          case s of None \<Rightarrow> Inl BadAccess | Some p \<Rightarrow> Inr (w, u\<lparr>fu_trie := t\<rparr>, p))))))" for force
    by (rule yields_bind [OF flush_good [OF inv]]) (use assms(1) restart in \<open>auto simp: flow_ok_def\<close>)
  with assms(1,3) show ?thesis
    by (simp add: make_room_def)
qed

lemma handle_tracked_good:
  assumes g: "good w u" and p: "tracked p"
  shows "yields (\<lambda>(w', u'). good w' u') (handle_tracked e sv w u p)"
proof (cases "flow_key e p")
  case (Inr key)
  have key: "key \<in> flow_keys"
    by (rule flow_key_in [OF p Inr])
  have u: "flow_inv u"
    using g by (simp add: flow_ok_def)
  obtain t s where t: "trie_index (fu_trie u) key = Inr (t, Some s)" "flow_inv (u\<lparr>fu_trie := t\<rparr>)"
      "trie_slot t s = slot_value (fu_trie u) key" "\<forall>v. wf_entry v \<longrightarrow> flow_inv (u\<lparr>fu_trie := trie_store t s v\<rparr>)"
    using flow_index [OF u key] by blast
  let ?Q = "\<lambda>(w', u', s', f). good w' u' \<and> wf_flow f \<and>
    (\<forall>v. wf_entry v \<longrightarrow> flow_inv (u'\<lparr>fu_trie := trie_store (fu_trie u') s' v\<rparr>))"
  have g1: "good w (u\<lparr>fu_trie := t\<rparr>)"
    using g t(2) by (simp add: flow_ok_def)
  have "yields ?Q (rbind (make_room sv w (u\<lparr>fu_trie := t\<rparr>) key s) (\<lambda>(w, u, s). rbind (flow_parse p) (\<lambda>f. Inr (w, u, s, f))))"
    by (rule yields_bind [OF make_room_good [OF g1 key]])
       (use t(4) in \<open>auto simp: yields_def rbind_eq_Inr dest: flow_parse_wf\<close>)
  moreover have "wf_flow f" if "slot_value (fu_trie u) key = Some f" for f
    using slot_value_wf [OF u, of key] that by (simp add: wf_entry_def)
  ultimately have "yields ?Q (case trie_slot t s of
        Some f \<Rightarrow> Inr (w, u\<lparr>fu_trie := t\<rparr>, s, f)
      | None \<Rightarrow> rbind (make_room sv w (u\<lparr>fu_trie := t\<rparr>) key s) (\<lambda>(w, u, s). rbind (flow_parse p) (\<lambda>f. Inr (w, u, s, f))))"
    using g1 t(3,4) by (auto split: option.splits)
  then have "yields (\<lambda>(w', u'). good w' u') (rbind (case trie_slot t s of
        Some f \<Rightarrow> Inr (w, u\<lparr>fu_trie := t\<rparr>, s, f)
      | None \<Rightarrow> rbind (make_room sv w (u\<lparr>fu_trie := t\<rparr>) key s) (\<lambda>(w, u, s). rbind (flow_parse p) (\<lambda>f. Inr (w, u, s, f))))
      (\<lambda>(w, u, p', f). Inr (w, u\<lparr>fu_trie := trie_store (fu_trie u) p' (Some (add_packet (sv_now sv w) p f))\<rparr>)))"
    by (rule yields_bind) (auto simp: flow_ok_def wf_entry_def add_packet_wf)
  then show ?thesis
    by (simp add: handle_tracked_def Inr t(1))
qed (simp add: handle_tracked_def)

lemma packet_handle_good:
  assumes "good w u"
  shows "yields (\<lambda>(w', u'). good w' u') (packet_handle e sv w u packet)"
proof -
  have "good w (u\<lparr>fu_filter := f\<rparr>)" for f
    using assms by (simp add: flow_ok_def flow_inv_def)
  then show ?thesis
    using assms handle_tracked_good [of w "u\<lparr>fu_filter := f\<rparr>" for f]
    by (auto simp: packet_handle_def Let_def split: option.splits intro!: yields_bind [OF yields_True])
qed

lemma connected_good:
  assumes "good w u"
  shows "yields (\<lambda>(w', u'). good w' u') (connected sv w u)"
  unfolding connected_def
proof (rule yields_bind [OF safe_yields [OF tell_ok]])
  show "inv w" using assms by simp
  fix w' assume w': "inv w' \<and> mine w' = mine w \<and> sv_now sv w' = sv_now sv w"
  have "yields (\<lambda>(w', u'). good w' u') (rbind (flush sv w' u False) (\<lambda>(sent, w, u). Inr (w, u)))"
    by (rule yields_bind [OF flush_good]) (use assms w' in \<open>auto simp: flow_ok_def\<close>)
  with assms w' show "yields (\<lambda>(w', u'). good w' u')
     (if \<not> fu_configured u then Inr (w', u)
      else if fu_timeout_missed u \<or> trie_size (fu_trie u) \<ge> unat (fu_max_flows u)
      then rbind (flush sv w' u False) (\<lambda>(sent, w, u). Inr (w, u)) else Inr (w', u))"
    by simp
qed

lemma filter_action_good:
  assumes "inv w"
  shows "yields (\<lambda>w'. inv w' \<and> mine w' = mine w) (handle_filter_action sv w action name ep old new)"
proof -
  have tell: "yields (\<lambda>w'. inv w' \<and> mine w' = mine w) (sv_tell sv w msg)" for msg
    by (rule yields_mono [OF safe_yields [OF tell_ok [OF assms]]]) simp
  show ?thesis
    using assms by (cases action) (auto split: option.splits intro!: tell yields_bind [OF yields_True])
qed

lemma after_action:
  assumes "good w u" and "flow_ok (mine w) u'"
  shows "yields (\<lambda>(w', u'). good w' u') (rbind (handle_filter_action sv w action name ep old new) (\<lambda>w. Inr (w, u')))"
  by (rule yields_bind [OF filter_action_good]) (use assms in auto)

lemma offer_update_good:
  assumes "good w u"
  shows "yields (\<lambda>(w', u'). good w' u') (offer_update sv w u bs)"
proof (cases "(uplink_parse_string bs, fu_filter u)")
  case (Pair n f)
  have tail: "yields (\<lambda>(w', u'). good w' u') (case filter_action f name ep ver of
      (action, old) \<Rightarrow> rbind (handle_filter_action sv w action name ep old ver) (\<lambda>w. Inr (w, u)))" for f name ep ver
    using after_action [OF assms] assms by (auto split: prod.splits)
  have "yields (\<lambda>(w', u'). good w' u') (rbind (uplink_parse_uint32 rest) (\<lambda>(ep, rest).
      rbind (uplink_parse_uint32 rest) (\<lambda>(ver, rest). case filter_action f name ep ver of
      (action, old) \<Rightarrow> rbind (handle_filter_action sv w action name ep old ver) (\<lambda>w. Inr (w, u)))))" for f name rest
    by (rule yields_bind [OF yields_True], clarify, rule yields_bind [OF yields_True], clarify, rule tail)
  with Pair show ?thesis
    by (auto simp: offer_update_def split: option.splits)
qed

lemma apply_update_good:
  assumes "good w u"
  shows "yields (\<lambda>(w', u'). good w' u') (apply_update sv w u bs)"
proof -
  have "flow_ok (mine w) (u\<lparr>fu_filter := f\<rparr>)" for f
    using assms by (simp add: flow_ok_def flow_inv_def)
  then have tail: "yields (\<lambda>(w', u'). good w' u') (rbind (handle_filter_action sv w action name ep old to) (\<lambda>w.
      Inr (w, u\<lparr>fu_filter := f\<rparr>)))" for action name ep old to f
    by (rule after_action [OF assms])
  have "yields (\<lambda>(w', u'). good w' u')
      (rbind (uplink_parse_uint32 bs) (\<lambda>(ep, rest).
       rbind (if full then Inr (0, rest) else uplink_parse_uint32 rest) (\<lambda>(from, rest).
       rbind (uplink_parse_uint32 rest) (\<lambda>(to, rest).
       rbind (filter_diff_apply f name full ep from to rest) (\<lambda>(f, action, old).
         rbind (handle_filter_action sv w action name ep old to) (\<lambda>w. Inr (w, u\<lparr>fu_filter := Some f\<rparr>)))))))" for bs full f name
    by (rule yields_bind [OF yields_True], clarify, rule yields_bind [OF yields_True], clarify,
        rule yields_bind [OF yields_True], clarify, rule yields_bind [OF yields_True], clarify, rule tail)
  then show ?thesis
    by (auto simp: apply_update_def Let_def split: option.splits)
qed

lemma communicate_good:
  assumes "good w u"
  shows "yields (\<lambda>(w', u'). good w' u') (communicate sv w u bs)"
proof -
  have "yields (\<lambda>(w', u'). good w' u') (rbind (flush sv w u False) (\<lambda>(sent, w, u). Inr (w, u)))"
    by (rule yields_bind [OF flush_good]) (use assms in \<open>auto simp: flow_ok_def\<close>)
  then show ?thesis
    using assms by (auto simp: communicate_def config_parse_def intro!: yields_sanity configure_good offer_update_good apply_update_good)
qed

end

interpretation fc: flow_client "plugin_service (silent m) i" live "plugin_timers i"
  by unfold_locales

subsection \<open>Properties\<close>

text \<open>The life of the plugin in the daemon: it is initialised, gets packets, messages, the news of
  a connection and its timeout, and in between anything may happen that leaves its timeouts alone.\<close>

inductive flow_reach ::
  "('z, unit, 'p) platform \<Rightarrow> nat \<Rightarrow> endian \<Rightarrow> ('z, unit, 'p) world \<Rightarrow> flow_data \<Rightarrow> bool"
  for m i e where
  init: "live w \<Longrightarrow> plugin_timers i w = {} \<Longrightarrow> initialize (plugin_service (silent m) i) w = Inr (w', u) \<Longrightarrow> flow_reach m i e w' u"
| others: "flow_reach m i e w u \<Longrightarrow> live w' \<Longrightarrow> plugin_timers i w' = plugin_timers i w \<Longrightarrow> flow_reach m i e w' u"
| packet: "flow_reach m i e w u \<Longrightarrow> packet_handle e (plugin_service (silent m) i) w u p = Inr (w', u') \<Longrightarrow> flow_reach m i e w' u'"
| message: "flow_reach m i e w u \<Longrightarrow> communicate (plugin_service (silent m) i) w u bs = Inr (w', u') \<Longrightarrow> flow_reach m i e w' u'"
| connect: "flow_reach m i e w u \<Longrightarrow> connected (plugin_service (silent m) i) w u = Inr (w', u') \<Longrightarrow> flow_reach m i e w' u'"
| timeout: "flow_reach m i e w u \<Longrightarrow> queue (w_timeouts w) = t # ts \<Longrightarrow> tcontext t = Some i \<Longrightarrow> callback t = PluginTimer () \<Longrightarrow>
    timeout_fired (plugin_service (silent m) i) (unqueue w) u = Inr (w', u') \<Longrightarrow> flow_reach m i e w' u'"

lemma flow_reach_good: "flow_reach m i e w u \<Longrightarrow> live w \<and> flow_ok (plugin_timers i w) u"
proof (induction rule: flow_reach.induct)
  case (init w w' u)
  have "live w \<and> flow_ok (plugin_timers i w) flow_data_init"
    using init by (simp add: flow_ok_def flow_data_init_def)
  from fc.connected_good [OF this] init(3) show ?case
    by (auto simp: initialize_def yields_def)
next
  case (timeout w u t ts w' u')
  note q = unqueue_plugin [OF conjunct1 [OF timeout.IH] timeout.hyps(2-4)]
  have mine: "plugin_timers i w = (if fu_timeout_scheduled u then {(fu_timeout_id u, ())} else {})"
    using timeout.IH by (simp add: flow_ok_def)
  then have "plugin_timers i (unqueue w) = {}"
    using q by (auto split: if_splits)
  with fc.timeout_fired_good [of "unqueue w" i u m] q timeout.IH timeout.hyps(5) show ?case
    by (auto simp: yields_def flow_ok_def)
next
  case (packet w u p w' u')
  have "yields (\<lambda>(w', u'). live w' \<and> flow_ok (plugin_timers i w') u') (packet_handle e (plugin_service (silent m) i) w u p)"
    by (rule fc.packet_handle_good [OF packet.IH])
  with packet.hyps(2) show ?case
    by simp
next
  case (message w u bs w' u')
  have "yields (\<lambda>(w', u'). live w' \<and> flow_ok (plugin_timers i w') u') (communicate (plugin_service (silent m) i) w u bs)"
    by (rule fc.communicate_good [OF message.IH])
  with message.hyps(2) show ?case
    by simp
next
  case (connect w u w' u')
  have "yields (\<lambda>(w', u'). live w' \<and> flow_ok (plugin_timers i w') u') (connected (plugin_service (silent m) i) w u)"
    by (rule fc.connected_good [OF connect.IH])
  with connect.hyps(2) show ?case
    by simp
qed simp

lemma prefix_free_subset: "prefix_free K \<Longrightarrow> A \<subseteq> K \<Longrightarrow> prefix_free A"
  unfolding prefix_free_def by blast

text \<open>
  C22: Whatever packets, messages and connections come, and in whatever order timeouts fire, the
  flow plugin has exactly one pending timeout once it is configured, the one whose identifier it
  remembers (so that cancelling it never fails), and its trie stays well formed: every key has
  the form of a flow key, so that none is a prefix of another.
\<close>

theorem flow_keeps_one_timeout:
  assumes "flow_reach m i e w u"
  shows "(fu_configured u \<longrightarrow> fu_timeout_scheduled u) \<and>
    plugin_timers i w = (if fu_timeout_scheduled u then {(fu_timeout_id u, ())} else {}) \<and>
    trie_inv (fu_trie u) \<and> dom (trie_map (fu_trie u)) \<subseteq> flow_keys \<and> prefix_free (dom (trie_map (fu_trie u)))"
  using flow_reach_good [OF assms] prefix_free_subset [OF flow_keys_prefix_free]
  by (auto simp: flow_ok_def flow_inv_def wf_flows_def)

lemma offline_init: "initialize (plugin_service (silent idle_platform) 0) offline_world = Inr (offline_world, flow_data_init)"
  by (simp add: initialize_def connected_def sv_tell_def offline_send flow_data_init_def)

theorem flow_keeps_one_timeout_witness:
  "flow_reach idle_platform 0 LittleEndian offline_world flow_data_init \<and> plugin_timers 0 (offline_world :: (unit, unit, unit) world) = {} \<and>
   trie_inv (fu_trie flow_data_init)"
proof -
  have r: "flow_reach idle_platform 0 LittleEndian offline_world flow_data_init"
    by (rule flow_reach.init [OF offline_live offline_init])
  from flow_keeps_one_timeout [OF r] r show ?thesis
    by (simp add: flow_data_init_def)
qed

text \<open>
  C23: A flush sends exactly one message: the header with the configuration and the time, and then
  the encoding of every flow of the table with enough packets, none twice and in the order of the
  trie, which fits the buffer computed for it. Without \<open>force\<close> nothing is sent while offline, and
  the table is emptied exactly when the message was taken or the flush was forced.
\<close>

theorem flush_sends_flows:
  assumes "flow_inv u"
  shows "flush sv w u force =
    (if \<not> force \<and> \<not> sv_connected sv w then Inr (False, w, u)
     else rbind (sv_send sv w (flow_header (fu_conf_id u) (sv_now sv w) @
         concat (map (\<lambda>(k, d). if sent_flow (fu_min_packets u) d then flow_bytes (the d) else []) (entries (troot (fu_trie u))))))
       (\<lambda>(ok, w). if \<not> ok \<and> \<not> force then Inr (False, w, u)
         else Inr (True, w, u\<lparr>fu_trie := trie_alloc, fu_timeout_missed := False\<rparr>)))"
proof -
  have f: "(\<lambda>(k, d). if sent_flow (fu_min_packets u) d then flow_bytes (the d) else []) = flow_entry (fu_min_packets u) \<circ> snd"
    by (auto simp: flow_entry_def)
  have wf: "wf_flows (fu_trie u)"
    using assms by (simp add: flow_inv_def)
  show ?thesis
    unfolding f flush_eq [OF wf] flush_message_def ..
qed

theorem flush_sends_flows_witness:
  "flush (plugin_service (silent idle_platform) 0) offline_world flow_data_init True = Inr (True, offline_world, flow_data_init)"
proof -
  have "flow_inv flow_data_init"
    by (simp add: flow_data_init_def)
  from flush_sends_flows [OF this, of "plugin_service (silent idle_platform) 0" offline_world True] show ?thesis
    by (simp add: offline_send flow_data_init_def)
qed

text \<open>What a packet does to its flow: the side of its direction grows, the other side and the identity stay.\<close>

definition side :: "direction \<Rightarrow> 'a \<times> 'a \<Rightarrow> 'a" where
  "side d = (if d = DIR_IN then fst else snd)"

definition opposite :: "direction \<Rightarrow> direction" where
  "opposite d = (if d = DIR_IN then DIR_OUT else DIR_IN)"

definition opens_connection :: "packet_info \<Rightarrow> bool" where
  "opens_connection p \<longleftrightarrow> app_protocol p = CHR ''T'' \<and> tcp_flags p AND TCP_SYN \<noteq> 0 \<and> tcp_flags p AND TCP_ACK = 0"

definition grows :: "u64 \<Rightarrow> packet_info \<Rightarrow> flow \<Rightarrow> flow \<Rightarrow> bool" where
  "grows t p f f' \<longleftrightarrow>
     (let d = pdirection p; od = opposite d
      in side d (f_count f') = side d (f_count f) + 1 \<and> side od (f_count f') = side od (f_count f) \<and>
         side d (f_size f') = side d (f_size f) + word_of_nat (plength p) \<and> side od (f_size f') = side od (f_size f) \<and>
         side d (f_last_time f') = t \<and> side od (f_last_time f') = side od (f_last_time f) \<and>
         side d (f_first_time f') = (if side d (f_first_time f) = 0 then t else side d (f_first_time f)) \<and>
         side od (f_first_time f') = side od (f_first_time f) \<and>
         side d (f_seen_start f') = (side d (f_seen_start f) \<or> opens_connection p) \<and>
         side od (f_seen_start f') = side od (f_seen_start f) \<and>
         f_ports f' = f_ports f \<and> f_addrs f' = f_addrs f \<and> f_v6 f' = f_v6 f \<and> f_udp f' = f_udp f)"

lemma add_packet_grows: "grows t p f (add_packet t p f)"
  by (auto simp: grows_def add_packet_def upd_dir_def side_def opposite_def opens_connection_def Let_def)

text \<open>
  C24: A tracked packet is counted in exactly one flow. When its flow is in the table, or the table
  has room for one more, handling it adds one to the count and the length to the size, sets
  the last time, and the first one when there is none yet, and notes the start of a connection, all
  on the side of the packet's direction (a new flow starting from zero); it leaves the other side,
  every other flow and the daemon as they were.
\<close>

theorem packet_counted_in_its_flow:
  assumes "flow_inv u" and "tracked p" and "flow_key e p = Inr key"
    and "case slot_value (fu_trie u) key of
           Some f \<Rightarrow> f0 = f
         | None \<Rightarrow> flow_parse p = Inr f0 \<and> card (insert key (dom (trie_map (fu_trie u)))) < unat (fu_max_flows u)"
  shows "\<exists>u' f'. handle_tracked e sv w u p = Inr (w, u') \<and> flow_inv u' \<and>
    trie_map (fu_trie u') = (trie_map (fu_trie u))(key \<mapsto> Some f') \<and> grows (sv_now sv w) p f0 f'"
proof -
  have key: "key \<in> flow_keys"
    by (rule flow_key_in [OF assms(2,3)])
  obtain t s where t: "trie_index (fu_trie u) key = Inr (t, Some s)" "flow_inv (u\<lparr>fu_trie := t\<rparr>)"
      "trie_slot t s = slot_value (fu_trie u) key" "trie_map t = (trie_map (fu_trie u))(key \<mapsto> slot_value (fu_trie u) key)"
      "\<forall>v. wf_entry v \<longrightarrow> flow_inv (u\<lparr>fu_trie := trie_store t s v\<rparr>)"
      "\<forall>v. trie_map (trie_store t s v) = (trie_map (fu_trie u))(key \<mapsto> v)"
    using flow_index [OF assms(1) key] by blast
  have size: "trie_size t = card (insert key (dom (trie_map (fu_trie u))))"
    using trie_size_card [of t] t(2,4) by (simp add: flow_inv_def wf_flows_def)
  have "wf_flow f0"
    using assms(4) slot_value_wf [OF assms(1), of key] by (auto simp: wf_entry_def split: option.splits dest: flow_parse_wf)
  then have wf: "wf_entry (Some (add_packet (sv_now sv w) p f0))"
    by (simp add: wf_entry_def add_packet_wf)
  have "handle_tracked e sv w u p = Inr (w, u\<lparr>fu_trie := trie_store t s (Some (add_packet (sv_now sv w) p f0))\<rparr>)"
    using assms(3,4) t(1,3) size by (auto simp: handle_tracked_def make_room_def split: option.splits)
  then show ?thesis
    using t(5,6) wf add_packet_grows by auto
qed

theorem packet_counted_in_its_flow_witness:
  "\<exists>u' key f0 f'. flow_key BigEndian sample_packet = Inr key \<and>
     handle_tracked BigEndian (plugin_service (silent idle_platform) 0) offline_world (flow_data_init\<lparr>fu_max_flows := 5\<rparr>) sample_packet
       = Inr (offline_world, u') \<and> trie_map (fu_trie u') = [key \<mapsto> Some f'] \<and> grows 5000 sample_packet f0 f'"
proof -
  obtain key f0 where k: "flow_key BigEndian sample_packet = Inr key" "flow_parse sample_packet = Inr f0"
    by (simp add: sample_packet_def captured_def flow_key_def flow_parse_def address_bytes_def pad16_def Let_def)
  let ?u = "flow_data_init\<lparr>fu_max_flows := 5\<rparr>"
  have u: "flow_inv ?u" "tracked sample_packet" "slot_value (fu_trie ?u) key = None" "dom (trie_map (fu_trie ?u)) = {}"
    by (simp_all add: flow_data_init_def tracked_def sample_packet_def captured_def slot_value_def)
  have "sv_now (plugin_service (silent idle_platform) 0) (offline_world :: (unit, unit, unit) world) = 5000"
    by (simp add: plugin_service_def offline_world_def)
  with packet_counted_in_its_flow [OF u(1,2) k(1), of f0 "plugin_service (silent idle_platform) 0" offline_world] k u(3,4)
  show ?thesis
    by (auto simp: flow_data_init_def)
qed

end
