(* ===== verification/Count.thy ===== *)
theory Count
  imports Packet Services
begin

text \<open>
  The count plugin (\<open>plugins/count/count.c\<close>) and the capture statistics of the loop it reports
  (\<open>loop_pcap_stats\<close> of \<open>core/loop.c\<close>). The array of counters is a function on the selectors.
  What libpcap says of an interface and the addresses the resolver gave for the server are
  arguments.
\<close>

subsection \<open>Statistics of the interfaces\<close>

record pcap_interface =
  pi_captured :: u64
  pi_dropped :: u64
  pi_if_dropped :: u64

text \<open>The answers of \<open>pcap_stats\<close> for the two directions; \<open>None\<close> is an error.\<close>

type_synonym pcap_answer = "(u32 \<times> u32 \<times> u32) option"

fun sum_stats :: "pcap_answer \<Rightarrow> pcap_answer \<Rightarrow> u64 \<times> u64 \<times> u64" where
  "sum_stats (Some (r, d, i)) (Some (r', d', i')) = (ucast r + ucast r', ucast d + ucast d', ucast i + ucast i')"
| "sum_stats _ _ = (- 1, - 1, - 1)"

definition interface_stats :: "pcap_interface \<times> pcap_answer \<times> pcap_answer \<Rightarrow> u64 list \<times> pcap_interface" where
  "interface_stats = (\<lambda>(p, a, b).
     case sum_stats a b of
       (recv, dropped, ifdrop) \<Rightarrow>
         ([recv - pi_captured p, dropped - pi_dropped p, ifdrop - pi_if_dropped p],
          \<lparr>pi_captured = recv, pi_dropped = dropped, pi_if_dropped = ifdrop\<rparr>))"

definition loop_pcap_stats :: "(pcap_interface \<times> pcap_answer \<times> pcap_answer) list \<Rightarrow> u64 list \<times> pcap_interface list" where
  "loop_pcap_stats ifs =
     (word_of_nat (length ifs) # concat (map (fst \<circ> interface_stats) ifs), map (snd \<circ> interface_stats) ifs)"

subsection \<open>Counting\<close>

datatype selector =
    ANY | V4 | V6 | IN | OUT | TCP | UDP | ICMP | LOW_PORT
  | SYN_FLAG | FIN_FLAG | SYN_ACK_FLAG | ACK_FLAG | PUSH_FLAG | SERVER | V6TUNNEL

definition selectors :: "selector list" where
  "selectors = [ANY, V4, V6, IN, OUT, TCP, UDP, ICMP, LOW_PORT, SYN_FLAG, FIN_FLAG, SYN_ACK_FLAG, ACK_FLAG, PUSH_FLAG,
     SERVER, V6TUNNEL]"

text \<open>The value of the enumerator \<open>PUSH_FLAG\<close>, which the code uses as a mask of TCP flags.\<close>

definition PUSH_FLAG_value :: byte where "PUSH_FLAG_value = 13"

record count_data =
  c_timestamp :: u64
  c_data :: "selector \<Rightarrow> u64 \<times> u64"

definition update :: "selector \<Rightarrow> nat \<Rightarrow> count_data \<Rightarrow> count_data" where
  "update s n d = d\<lparr>c_data := (c_data d)(s := (fst (c_data d s) + 1, snd (c_data d s) + word_of_nat n))\<rparr>"

definition update_if :: "bool \<Rightarrow> selector \<Rightarrow> nat \<Rightarrow> count_data \<Rightarrow> count_data" where
  "update_if c s n d = (if c then update s n d else d)"

datatype addrinfo = Inet bytes | Inet6 bytes | OtherFamily

text \<open>Does one address of the server match? The comparison of the bytes comes last but for the port.\<close>

definition server_match :: "packet_info \<Rightarrow> endpoint \<Rightarrow> addrinfo \<Rightarrow> bool result" where
  "server_match p remote a =
     (case (case a of Inet bs \<Rightarrow> Some (4, bs) | Inet6 bs \<Rightarrow> Some (16, bs) | OtherFamily \<Rightarrow> None) of
        None \<Rightarrow> Inr False
      | Some (len, bs) \<Rightarrow>
          if len = unat (addr_len p) then rbind (address_bytes p remote) (\<lambda>x. Inr (bs = x \<and> port_of p remote \<noteq> 22))
          else Inr False)"

fun server_loop :: "packet_info \<Rightarrow> endpoint \<Rightarrow> nat \<Rightarrow> addrinfo list \<Rightarrow> count_data \<Rightarrow> count_data result" where
  "server_loop p remote n [] d = Inr d"
| "server_loop p remote n (a # as) d =
     rbind (server_match p remote a) (\<lambda>hit. if hit then Inr (update SERVER n d) else server_loop p remote n as d)"

definition count_remote :: "addrinfo list \<Rightarrow> packet_info \<Rightarrow> nat \<Rightarrow> count_data \<Rightarrow> count_data result" where
  "count_remote addrs p n d =
     (let remote = remote_endpoint (pdirection p)
      in if remote = END_COUNT then Inr d
         else server_loop p remote n addrs
                (update_if (port_of p remote \<le> 1024 \<and> port_of p remote \<noteq> 0) LOW_PORT n d))"

definition count_tcp :: "packet_info \<Rightarrow> nat \<Rightarrow> count_data \<Rightarrow> count_data" where
  "count_tcp p n d =
     (let f = tcp_flags p
      in update_if (f AND PUSH_FLAG_value \<noteq> 0) PUSH_FLAG n
        (update_if (f AND TCP_ACK \<noteq> 0) ACK_FLAG n
        (update_if (f AND TCP_ACK \<noteq> 0 \<and> f AND TCP_SYN \<noteq> 0) SYN_ACK_FLAG n
        (update_if (f AND TCP_FIN \<noteq> 0) FIN_FLAG n
        (update_if (f AND TCP_SYN \<noteq> 0) SYN_FLAG n (update TCP n d))))))"

definition count_leaf :: "addrinfo list \<Rightarrow> packet_info \<Rightarrow> nat \<Rightarrow> bool \<Rightarrow> count_data \<Rightarrow> count_data result" where
  "count_leaf addrs p n tunnel d =
     (let d1 = update ANY n d;
          d2 = (case pdirection p of DIR_IN \<Rightarrow> update IN n d1 | DIR_OUT \<Rightarrow> update OUT n d1 | _ \<Rightarrow> d1)
      in if layer p \<noteq> CHR ''I'' then Inr d2
         else let d3 = (if ip_protocol p = 4 then update V4 n d2
                        else if ip_protocol p = 6 then update (if tunnel then V6TUNNEL else V6) n d2 else d2);
                  d4 = (if app_protocol p = CHR ''T'' then count_tcp p n d3
                        else if app_protocol p = CHR ''U'' then update UDP n d3
                        else if app_protocol p = CHR ''i'' \<or> app_protocol p = CHR ''I'' then update ICMP n d3 else d3)
              in count_remote addrs p n d4)"

fun packet_handle_internal :: "addrinfo list \<Rightarrow> packet \<Rightarrow> nat \<Rightarrow> bool \<Rightarrow> count_data \<Rightarrow> count_data result" where
  "packet_handle_internal addrs [] n tunnel d = Inl BadAccess"
| "packet_handle_internal addrs [p] n tunnel d = count_leaf addrs p n tunnel d"
| "packet_handle_internal addrs (p # q # ps) n tunnel d =
     packet_handle_internal addrs (q # ps) n
       (tunnel \<or> (layer p = CHR ''I'' \<and> (ip_protocol p = 4 \<or> ip_protocol p = 6))) d"

definition packet_handle :: "addrinfo list \<Rightarrow> packet \<Rightarrow> count_data \<Rightarrow> count_data result" where
  "packet_handle addrs packet d =
     (if packet = [] then Inl BadAccess else packet_handle_internal addrs packet (plength (hd packet)) False d)"

definition count_data_init :: "u64 \<Rightarrow> count_data" where
  "count_data_init t = \<lparr>c_timestamp = t, c_data = (\<lambda>_. (0, 0))\<rparr>"

subsection \<open>Reporting\<close>

definition count_message :: "count_data \<Rightarrow> u64 list \<Rightarrow> bytes" where
  "count_message d stats =
     put64 (c_timestamp d) @ put32 (ucast (hd stats)) @ concat (map (\<lambda>x. put32 (ucast x)) (tl stats)) @
     concat (map (\<lambda>s. put64 (fst (c_data d s)) @ put64 (snd (c_data d s))) selectors)"

definition communicate ::
  "('c, 'w) services \<Rightarrow> 'w \<Rightarrow> count_data \<Rightarrow> (pcap_interface \<times> pcap_answer \<times> pcap_answer) list \<Rightarrow> bytes \<Rightarrow>
     ('w \<times> count_data \<times> pcap_interface list) result" where
  "communicate sv w d ifs bs =
     sanity (length bs = 8)
       (case loop_pcap_stats ifs of
          (stats, ifs') \<Rightarrow>
            rbind (sv_tell sv w (count_message d stats)) (\<lambda>w. Inr (w, count_data_init (get64 bs), ifs')))"

subsection \<open>What is counted\<close>

definition counted :: "selector set \<Rightarrow> nat \<Rightarrow> count_data \<Rightarrow> count_data \<Rightarrow> bool" where
  "counted S n d d' \<longleftrightarrow> c_timestamp d' = c_timestamp d \<and>
     (\<forall>s. c_data d' s = (if s \<in> S then (fst (c_data d s) + 1, snd (c_data d s) + word_of_nat n) else c_data d s))"

lemma counted_refl: "counted {} n d d"
  by (simp add: counted_def)

lemma counted_update: "counted S n d d' \<Longrightarrow> s \<notin> S \<Longrightarrow> counted (insert s S) n d (update s n d')"
  by (simp add: counted_def update_def)

lemma counted_update_if:
  "counted S n d d' \<Longrightarrow> s \<notin> S \<Longrightarrow> counted (S \<union> (if c then {s} else {})) n d (update_if c s n d')"
  using counted_update [of S n d d' s] by (simp add: update_if_def)

text \<open>The selectors of a packet, stated on its own.\<close>

definition direction_selectors :: "packet_info \<Rightarrow> selector set" where
  "direction_selectors p = (case pdirection p of DIR_IN \<Rightarrow> {IN} | DIR_OUT \<Rightarrow> {OUT} | _ \<Rightarrow> {})"

definition ip_selectors :: "bool \<Rightarrow> packet_info \<Rightarrow> selector set" where
  "ip_selectors tunnel p =
     (if ip_protocol p = 4 then {V4} else if ip_protocol p = 6 then {if tunnel then V6TUNNEL else V6} else {})"

definition tcp_selectors :: "packet_info \<Rightarrow> selector set" where
  "tcp_selectors p = {TCP} \<union> (if tcp_flags p AND TCP_SYN \<noteq> 0 then {SYN_FLAG} else {}) \<union>
     (if tcp_flags p AND TCP_FIN \<noteq> 0 then {FIN_FLAG} else {}) \<union>
     (if tcp_flags p AND TCP_ACK \<noteq> 0 \<and> tcp_flags p AND TCP_SYN \<noteq> 0 then {SYN_ACK_FLAG} else {}) \<union>
     (if tcp_flags p AND TCP_ACK \<noteq> 0 then {ACK_FLAG} else {}) \<union>
     (if tcp_flags p AND (TCP_FIN OR TCP_RESET OR TCP_PUSH) \<noteq> 0 then {PUSH_FLAG} else {})"

definition app_selectors :: "packet_info \<Rightarrow> selector set" where
  "app_selectors p =
     (if app_protocol p = CHR ''T'' then tcp_selectors p
      else if app_protocol p = CHR ''U'' then {UDP}
      else if app_protocol p \<in> {CHR ''i'', CHR ''I''} then {ICMP} else {})"

fun addr_bytes :: "addrinfo \<Rightarrow> bytes" where
  "addr_bytes (Inet bs) = take 4 bs"
| "addr_bytes (Inet6 bs) = take 16 bs"
| "addr_bytes OtherFamily = []"

definition remote_selectors :: "addrinfo list \<Rightarrow> packet_info \<Rightarrow> bytes \<Rightarrow> selector set" where
  "remote_selectors addrs p addr =
     (let remote = remote_endpoint (pdirection p)
      in if remote = END_COUNT then {}
         else (if 0 < port_of p remote \<and> port_of p remote \<le> 1024 then {LOW_PORT} else {}) \<union>
              (if (\<exists>a \<in> set addrs. a \<noteq> OtherFamily \<and> addr_bytes a = addr) \<and> port_of p remote \<noteq> 22 then {SERVER} else {}))"

definition selected :: "addrinfo list \<Rightarrow> packet_info \<Rightarrow> bytes \<Rightarrow> bool \<Rightarrow> selector set" where
  "selected addrs p addr tunnel =
     {ANY} \<union> direction_selectors p \<union>
     (if layer p = CHR ''I'' then ip_selectors tunnel p \<union> app_selectors p \<union> remote_selectors addrs p addr else {})"

text \<open>The addresses of the resolver have the length of their family.\<close>

definition wf_addrs :: "addrinfo list \<Rightarrow> bool" where
  "wf_addrs addrs \<longleftrightarrow> (\<forall>bs. (Inet bs \<in> set addrs \<longrightarrow> length bs = 4) \<and> (Inet6 bs \<in> set addrs \<longrightarrow> length bs = 16))"

lemma server_match_eq:
  assumes "address_bytes p remote = Inr addr" and "length addr = unat (addr_len p)"
    and "\<forall>bs. (a = Inet bs \<longrightarrow> length bs = 4) \<and> (a = Inet6 bs \<longrightarrow> length bs = 16)"
  shows "server_match p remote a = Inr (a \<noteq> OtherFamily \<and> addr_bytes a = addr \<and> port_of p remote \<noteq> 22)"
  using assms by (cases a) (auto simp: server_match_def)

lemma server_loop_counts:
  assumes addr: "address_bytes p remote = Inr addr" "length addr = unat (addr_len p)"
    and c: "counted S n d d'" "SERVER \<notin> S"
  shows "wf_addrs addrs \<Longrightarrow> \<exists>d2. server_loop p remote n addrs d' = Inr d2 \<and>
    counted (S \<union> (if (\<exists>a \<in> set addrs. a \<noteq> OtherFamily \<and> addr_bytes a = addr) \<and> port_of p remote \<noteq> 22 then {SERVER} else {})) n d d2"
proof (induction addrs)
  case (Cons a addrs)
  have a: "server_match p remote a = Inr (a \<noteq> OtherFamily \<and> addr_bytes a = addr \<and> port_of p remote \<noteq> 22)"
    by (rule server_match_eq [OF addr]) (use Cons.prems in \<open>auto simp: wf_addrs_def\<close>)
  have "wf_addrs addrs"
    using Cons.prems by (simp add: wf_addrs_def)
  note IH = Cons.IH [OF this]
  show ?case
  proof (cases "a \<noteq> OtherFamily \<and> addr_bytes a = addr \<and> port_of p remote \<noteq> 22")
    case True
    then show ?thesis
      using a counted_update [OF c] by simp
  next
    case False
    then have "(\<exists>b \<in> set (a # addrs). b \<noteq> OtherFamily \<and> addr_bytes b = addr) \<and> port_of p remote \<noteq> 22 \<longleftrightarrow>
        (\<exists>b \<in> set addrs. b \<noteq> OtherFamily \<and> addr_bytes b = addr) \<and> port_of p remote \<noteq> 22"
      by auto
    then show ?thesis
      using a IH False by (simp only: server_loop.simps rbind_Inr if_False)
  qed
qed (use c in simp)

lemma count_tcp_counts:
  assumes "counted S n d d'" and "S \<inter> {TCP, SYN_FLAG, FIN_FLAG, SYN_ACK_FLAG, ACK_FLAG, PUSH_FLAG} = {}"
  shows "counted (S \<union> tcp_selectors p) n d (count_tcp p n d')"
proof -
  have m: "PUSH_FLAG_value = TCP_FIN OR TCP_RESET OR TCP_PUSH"
    by (simp add: PUSH_FLAG_value_def TCP_FIN_def TCP_RESET_def TCP_PUSH_def)
  have "counted (insert TCP S) n d (update TCP n d')"
    using assms by (intro counted_update) auto
  from counted_update_if [OF this, of SYN_FLAG "tcp_flags p AND TCP_SYN \<noteq> 0", THEN counted_update_if,
      of FIN_FLAG "tcp_flags p AND TCP_FIN \<noteq> 0", THEN counted_update_if,
      of SYN_ACK_FLAG "tcp_flags p AND TCP_ACK \<noteq> 0 \<and> tcp_flags p AND TCP_SYN \<noteq> 0", THEN counted_update_if,
      of ACK_FLAG "tcp_flags p AND TCP_ACK \<noteq> 0", THEN counted_update_if,
      of PUSH_FLAG "tcp_flags p AND PUSH_FLAG_value \<noteq> 0"]
  show ?thesis
    using assms(2) unfolding count_tcp_def tcp_selectors_def Let_def m by (auto simp: Un_ac)
qed

lemma count_remote_counts:
  assumes addr: "remote_endpoint (pdirection p) \<noteq> END_COUNT \<Longrightarrow>
      address_bytes p (remote_endpoint (pdirection p)) = Inr addr \<and> length addr = unat (addr_len p)"
    and c: "counted S n d d'" "LOW_PORT \<notin> S" "SERVER \<notin> S" and wf: "wf_addrs addrs"
  shows "\<exists>d2. count_remote addrs p n d' = Inr d2 \<and> counted (S \<union> remote_selectors addrs p addr) n d d2"
proof (cases "remote_endpoint (pdirection p) = END_COUNT")
  case True
  then show ?thesis
    using c by (simp add: count_remote_def remote_selectors_def)
next
  case False
  let ?r = "remote_endpoint (pdirection p)"
  let ?low = "port_of p ?r \<le> 1024 \<and> port_of p ?r \<noteq> 0"
  have low: "(0 < port_of p ?r \<and> port_of p ?r \<le> 1024) = ?low"
    by (auto simp: word_gt_0)
  have "counted (S \<union> (if ?low then {LOW_PORT} else {})) n d (update_if ?low LOW_PORT n d')"
    by (rule counted_update_if) fact+
  from server_loop_counts [OF _ _ this _ wf, of p ?r addr] have
    "\<exists>d2. server_loop p ?r n addrs (update_if ?low LOW_PORT n d') = Inr d2 \<and>
       counted (S \<union> remote_selectors addrs p addr) n d d2"
    using addr [OF False] c False by (simp add: remote_selectors_def low Un_assoc Let_def split del: if_split) auto
  then show ?thesis
    using False by (simp add: count_remote_def Let_def)
qed

lemma counted_direction:
  assumes "counted S n d d'" and "S \<inter> {IN, OUT} = {}"
  shows "counted (S \<union> direction_selectors p) n d
    (case pdirection p of DIR_IN \<Rightarrow> update IN n d' | DIR_OUT \<Rightarrow> update OUT n d' | _ \<Rightarrow> d')"
  using assms by (cases "pdirection p") (simp_all add: direction_selectors_def counted_update)

lemma counted_ip:
  assumes "counted S n d d'" and "S \<inter> {V4, V6, V6TUNNEL} = {}"
  shows "counted (S \<union> ip_selectors tunnel p) n d
    (if ip_protocol p = 4 then update V4 n d'
     else if ip_protocol p = 6 then update (if tunnel then V6TUNNEL else V6) n d' else d')"
  using assms by (simp add: ip_selectors_def counted_update)

lemma counted_app:
  assumes "counted S n d d'" and "S \<inter> {TCP, SYN_FLAG, FIN_FLAG, SYN_ACK_FLAG, ACK_FLAG, PUSH_FLAG, UDP, ICMP} = {}"
  shows "counted (S \<union> app_selectors p) n d
    (if app_protocol p = CHR ''T'' then count_tcp p n d'
     else if app_protocol p = CHR ''U'' then update UDP n d'
     else if app_protocol p = CHR ''i'' \<or> app_protocol p = CHR ''I'' then update ICMP n d' else d')"
  using assms count_tcp_counts [of S n d d' p] by (auto simp: app_selectors_def counted_update)

lemma count_leaf_counts:
  assumes addr: "remote_endpoint (pdirection p) \<noteq> END_COUNT \<Longrightarrow> layer p = CHR ''I'' \<Longrightarrow>
      address_bytes p (remote_endpoint (pdirection p)) = Inr addr \<and> length addr = unat (addr_len p)"
    and wf: "wf_addrs addrs"
  shows "\<exists>d'. count_leaf addrs p n tunnel d = Inr d' \<and> counted (selected addrs p addr tunnel) n d d'"
proof -
  let ?S = "{ANY} \<union> direction_selectors p"
  have "counted ({ANY} \<union> {}) n d (update ANY n d)"
    using counted_update [OF counted_refl, of ANY] by simp
  then have dir: "counted ?S n d (case pdirection p of DIR_IN \<Rightarrow> update IN n (update ANY n d)
      | DIR_OUT \<Rightarrow> update OUT n (update ANY n d) | _ \<Rightarrow> update ANY n d)"
    using counted_direction [of "{ANY}"] by simp
  have S: "?S \<subseteq> {ANY, IN, OUT}" and I: "ip_selectors tunnel p \<subseteq> {V4, V6, V6TUNNEL}"
    and A: "app_selectors p \<subseteq> {TCP, SYN_FLAG, FIN_FLAG, SYN_ACK_FLAG, ACK_FLAG, PUSH_FLAG, UDP, ICMP}"
    by (auto simp: direction_selectors_def ip_selectors_def app_selectors_def tcp_selectors_def split: direction.splits)
  note ip = counted_ip [OF dir, of tunnel p]
  note app = counted_app [OF ip, of p]
  note rem = count_remote_counts [OF _ app _ _ wf, of p addr]
  show ?thesis
  proof (cases "layer p = CHR ''I''")
    case True
    have "LOW_PORT \<notin> ?S \<union> ip_selectors tunnel p \<union> app_selectors p" "SERVER \<notin> ?S \<union> ip_selectors tunnel p \<union> app_selectors p"
      using S I A by auto
    moreover have "?S \<inter> {V4, V6, V6TUNNEL} = {}"
      "(?S \<union> ip_selectors tunnel p) \<inter> {TCP, SYN_FLAG, FIN_FLAG, SYN_ACK_FLAG, ACK_FLAG, PUSH_FLAG, UDP, ICMP} = {}"
      using S I by auto
    ultimately show ?thesis
      using rem addr True by (simp add: count_leaf_def selected_def Let_def Un_assoc)
  next
    case False
    then show ?thesis
      using dir by (simp add: count_leaf_def selected_def Let_def)
  qed
qed

text \<open>Whole packets: the innermost layer is counted, with the length of the outermost one.\<close>

definition remote_address :: "packet_info \<Rightarrow> bytes" where
  "remote_address p =
     (case address_of p (remote_endpoint (pdirection p)) of None \<Rightarrow> [] | Some bs \<Rightarrow> take (unat (addr_len p)) bs)"

definition tunnelled :: "packet \<Rightarrow> bool" where
  "tunnelled packet \<longleftrightarrow> (\<exists>p \<in> set (butlast packet). layer p = CHR ''I'' \<and> ip_protocol p \<in> {4, 6})"

lemma tidy_remote:
  assumes "tidy p" and "remote_endpoint (pdirection p) \<noteq> END_COUNT"
  shows "address_bytes p (remote_endpoint (pdirection p)) = Inr (remote_address p) \<and>
    length (remote_address p) = unat (addr_len p)"
  using assms by (cases "pdirection p") (auto simp: tidy_def address_bytes_def remote_address_def split: if_splits)

lemma packet_handle_internal_last:
  "packet \<noteq> [] \<Longrightarrow>
   packet_handle_internal addrs packet n tunnel d = count_leaf addrs (last packet) n (tunnel \<or> tunnelled packet) d"
  by (induction addrs packet n tunnel d rule: packet_handle_internal.induct) (auto simp: tunnelled_def disj_ac)

subsection \<open>The report\<close>

text \<open>Statistics that fail are reported as the difference to the last ones, and the all-ones value is remembered.\<close>

lemma failed_stats_are_diffed:
  "interface_stats (p, None, b) =
     ([- 1 - pi_captured p, - 1 - pi_dropped p, - 1 - pi_if_dropped p],
      \<lparr>pi_captured = - 1, pi_dropped = - 1, pi_if_dropped = - 1\<rparr>)"
  by (simp add: interface_stats_def)

lemma loop_pcap_stats_length: "length (fst (loop_pcap_stats ifs)) = 1 + 3 * length ifs"
  by (induction ifs) (auto simp: loop_pcap_stats_def interface_stats_def split: prod.splits)

lemma concat_put32_length: "length (concat (map (\<lambda>x. put32 (f x)) xs)) = 4 * length xs"
  by (induction xs) simp_all

lemma count_message_length:
  "length (count_message d (fst (loop_pcap_stats ifs))) = 12 + 12 * length ifs + 256"
  by (simp add: count_message_def concat_put32_length loop_pcap_stats_length selectors_def)

subsection \<open>Properties\<close>


definition sample_packet :: "packet_info" where
  "sample_packet = (captured ''eth0'' True 1 0 (replicate 60 0))
     \<lparr>layer := CHR ''I'', ip_protocol := 4, addr_len := 4, addr_src := Some [10, 0, 0, 1], addr_dst := Some [10, 0, 0, 2],
      app_protocol := CHR ''T'', port_src := 443, port_dst := 50000, tcp_flags := TCP_FIN\<rparr>"


end
