(* ===== verification/BucketKeys.thy ===== *)
theory BucketKeys
  imports Packet
begin

text \<open>
  The keys of the buckets plugin and their hashing: the random generator (\<open>rng.c\<close>), the hash
  functions made from its numbers (\<open>hash.c\<close>) and the criteria that take keys out of packets
  (\<open>criteria.c\<close>), all under \<open>plugins/buckets\<close>. A pointer into the random numbers is the rest of
  them from there on.
\<close>

subsection \<open>Random numbers\<close>

record rng_seed =
  low :: u32
  high :: u32

definition rng_seed_init :: "u64 \<Rightarrow> rng_seed result" where
  "rng_seed_init seed =
     (let even_bits = seed AND 0x5555555555555555;
          odd_bits = seed AND 0xAAAAAAAAAAAAAAAA;
          l = ucast ((even_bits AND 0x00000000FFFFFFFF) OR drop_bit 31 (even_bits AND 0xFFFFFFFF00000000)) :: u32;
          h = ucast ((odd_bits AND 0x00000000FFFFFFFF) OR drop_bit 33 (odd_bits AND 0xFFFFFFFF00000000)) :: u32
      in assert_then (l \<noteq> 0 \<and> h \<noteq> 0) (Inr \<lparr>low = l, high = h\<rparr>))"

definition rng_get :: "rng_seed \<Rightarrow> u32 \<times> rng_seed" where
  "rng_get seed =
     (let l = 36969 * (low seed AND 0xFFFF) + drop_bit 16 (low seed);
          h = 18000 * (high seed AND 0xFFFF) + drop_bit 16 (high seed)
      in (push_bit 16 h + l, \<lparr>low = l, high = h\<rparr>))"

fun rng_many :: "nat \<Rightarrow> rng_seed \<Rightarrow> u32 list" where
  "rng_many 0 seed = []"
| "rng_many (Suc n) seed = (case rng_get seed of (x, seed') \<Rightarrow> x # rng_many n seed')"

definition gen_hash_data :: "u64 \<Rightarrow> nat \<Rightarrow> nat \<Rightarrow> u32 list result" where
  "gen_hash_data seed_base hash_count hash_line_size =
     rbind (rng_seed_init seed_base) (\<lambda>seed. Inr (rng_many (hash_line_size * hash_count) seed))"

subsection \<open>Hashing\<close>

fun hash_loop :: "u32 \<Rightarrow> bytes \<Rightarrow> u32 list \<Rightarrow> u32 result" where
  "hash_loop r [] hash_data = Inr r"
| "hash_loop r (k # ks) hash_data =
     (if unat k < length hash_data then hash_loop (r XOR hash_data ! unat k) ks (drop 256 hash_data) else Inl BadAccess)"

definition hash :: "bytes \<Rightarrow> u32 list \<Rightarrow> u32 result" where
  "hash key hash_data = hash_loop 0 key hash_data"

subsection \<open>Criteria\<close>

definition ADDR_SIZE :: nat where "ADDR_SIZE = 17"
definition PORT_SIZE :: nat where "PORT_SIZE = 2"

text \<open>The bytes written by a successful copy; \<open>None\<close> when it returns false.\<close>

definition copy_ip :: "packet_info \<Rightarrow> bytes option result" where
  "copy_ip p =
     (let remote = remote_endpoint (pdirection p)
      in if remote = END_COUNT then Inr None
         else if address_of p remote = None then Inr None
         else assert_then (ADDR_SIZE - 1 \<ge> unat (addr_len p))
                (rbind (address_bytes p remote) (\<lambda>addr.
                   Inr (Some (ip_protocol p # addr @ replicate (ADDR_SIZE - 1 - unat (addr_len p)) 0)))))"

definition copy_port :: "packet_info \<Rightarrow> endpoint \<Rightarrow> bytes option" where
  "copy_port p which =
     (if which = END_COUNT then None else if port_of p which = 0 then None else Some (put16 (port_of p which)))"

definition extract_ip_address :: "packet \<Rightarrow> bytes option result" where
  "extract_ip_address ps = copy_ip (hd ps)"

definition extract_port :: "packet \<Rightarrow> bytes option result" where
  "extract_port ps = Inr (copy_port (hd ps) (remote_endpoint (pdirection (hd ps))))"

definition port_then_ip :: "packet \<Rightarrow> endpoint \<Rightarrow> bytes option result" where
  "port_then_ip ps which =
     (case copy_port (hd ps) which of
        None \<Rightarrow> Inr None
      | Some a \<Rightarrow> rbind (copy_ip (hd ps)) (\<lambda>b. Inr (map_option ((@) a) b)))"

definition extract_both :: "packet \<Rightarrow> bytes option result" where
  "extract_both ps = port_then_ip ps (remote_endpoint (pdirection (hd ps)))"

definition extract_lport_addr :: "packet \<Rightarrow> bytes option result" where
  "extract_lport_addr ps = port_then_ip ps (local_endpoint (pdirection (hd ps)))"

definition only_out :: "(packet \<Rightarrow> bytes option result) \<Rightarrow> packet \<Rightarrow> bytes option result" where
  "only_out extract ps =
     (if (\<exists>p \<in> set ps. layer p = CHR ''I'' \<and> (app_protocol p = CHR ''i'' \<or> app_protocol p = CHR ''I'')) then Inr None
      else if pdirection (hd ps) = DIR_OUT then extract ps else Inr None)"

record criterion_def =
  key_size :: nat
  extract_key :: "packet \<Rightarrow> bytes option result"
  cname :: byte

definition criteria :: "criterion_def list" where
  "criteria =
     [\<lparr>key_size = ADDR_SIZE, extract_key = extract_ip_address, cname = code (CHR ''I'')\<rparr>,
      \<lparr>key_size = PORT_SIZE, extract_key = extract_port, cname = code (CHR ''P'')\<rparr>,
      \<lparr>key_size = PORT_SIZE + ADDR_SIZE, extract_key = extract_both, cname = code (CHR ''B'')\<rparr>,
      \<lparr>key_size = PORT_SIZE + ADDR_SIZE, extract_key = extract_lport_addr, cname = code (CHR ''L'')\<rparr>,
      \<lparr>key_size = ADDR_SIZE, extract_key = only_out extract_ip_address, cname = code (CHR ''i'')\<rparr>,
      \<lparr>key_size = PORT_SIZE, extract_key = only_out extract_port, cname = code (CHR ''p'')\<rparr>,
      \<lparr>key_size = PORT_SIZE + ADDR_SIZE, extract_key = only_out extract_both, cname = code (CHR ''b'')\<rparr>,
      \<lparr>key_size = PORT_SIZE + ADDR_SIZE, extract_key = only_out extract_lport_addr, cname = code (CHR ''l'')\<rparr>]"

subsection \<open>Seeds\<close>

text \<open>A seed the generator accepts: it has a bit set on an even and one on an odd position.\<close>

definition good_seed :: "u64 \<Rightarrow> bool" where
  "good_seed s \<longleftrightarrow> (\<exists>i \<in> set [0..<32]. bit s (2 * i)) \<and> (\<exists>i \<in> set [0..<32]. bit s (2 * i + 1))"

lemma seed_low_bits:
  fixes seed :: u64
  assumes "n < 32"
  shows "bit (ucast (((seed AND 0x5555555555555555) AND 0x00000000FFFFFFFF) OR
      drop_bit 31 ((seed AND 0x5555555555555555) AND 0xFFFFFFFF00000000)) :: u32) n =
    bit seed (if even n then n else n + 31)"
proof -
  have "n \<in> set [0..<32]"
    using assms by simp
  then show ?thesis
    by (simp add: upt_rec) (elim disjE; simp add: bit_simps)
qed

lemma seed_high_bits:
  fixes seed :: u64
  assumes "n < 32"
  shows "bit (ucast (((seed AND 0xAAAAAAAAAAAAAAAA) AND 0x00000000FFFFFFFF) OR
      drop_bit 33 ((seed AND 0xAAAAAAAAAAAAAAAA) AND 0xFFFFFFFF00000000)) :: u32) n =
    bit seed (if odd n then n else n + 33)"
proof -
  have "n \<in> set [0..<32]"
    using assms by simp
  then show ?thesis
    by (simp add: upt_rec) (elim disjE; simp add: bit_simps)
qed

lemma word_nonzero_iff: "(w :: u32) \<noteq> 0 \<longleftrightarrow> (\<exists>n < 32. bit w n)"
  by (auto simp: bit_eq_iff dest: bit_imp_le_length)

lemma even_positions: "(\<exists>n < 32. P (if even n then n else n + 31)) \<longleftrightarrow> (\<exists>i < (32::nat). P (2 * i))"
proof
  assume "\<exists>n < 32. P (if even n then n else n + 31)"
  then obtain n where n: "n < 32" "P (if even n then n else n + 31)" by blast
  then show "\<exists>i < (32::nat). P (2 * i)"
    by (intro exI [of _ "(if even n then n else n + 31) div 2"]) auto
next
  assume "\<exists>i < (32::nat). P (2 * i)"
  then obtain i where "i < 32" "P (2 * i)" by blast
  then show "\<exists>n < 32. P (if even n then n else n + 31)"
    by (intro exI [of _ "if i < 16 then 2 * i else 2 * i - 31"]) auto
qed

lemma odd_positions: "(\<exists>n < 32. P (if odd n then n else n + 33)) \<longleftrightarrow> (\<exists>i < (32::nat). P (2 * i + 1))"
proof
  assume "\<exists>n < 32. P (if odd n then n else n + 33)"
  then obtain n where n: "n < 32" "P (if odd n then n else n + 33)" by blast
  then show "\<exists>i < (32::nat). P (2 * i + 1)"
    by (intro exI [of _ "(if odd n then n else n + 33) div 2"]) auto
next
  assume "\<exists>i < (32::nat). P (2 * i + 1)"
  then obtain i where "i < 32" "P (2 * i + 1)" by blast
  then show "\<exists>n < 32. P (if odd n then n else n + 33)"
    by (intro exI [of _ "if i < 16 then 2 * i + 1 else 2 * i - 32"]) auto
qed

lemma rng_seed_init_accepts: "(\<exists>s. rng_seed_init seed = Inr s) \<longleftrightarrow> good_seed seed"
proof -
  have "(\<exists>s. rng_seed_init seed = Inr s) \<longleftrightarrow>
      (\<exists>n < 32. bit seed (if even n then n else n + 31)) \<and> (\<exists>n < 32. bit seed (if odd n then n else n + 33))"
    unfolding rng_seed_init_def Let_def assert_then_eq_Inr word_nonzero_iff
    by (simp only: seed_low_bits seed_high_bits cong: conj_cong) blast
  then show ?thesis
    unfolding even_positions odd_positions by (auto simp: good_seed_def)
qed

lemma rng_seed_init_rejects: "\<not> good_seed seed \<Longrightarrow> rng_seed_init seed = Inl Assertion"
  using rng_seed_init_accepts [of seed] by (auto simp: rng_seed_init_def Let_def assert_then_def split: if_splits)

lemma length_rng_many [simp]: "length (rng_many n seed) = n"
  by (induction n arbitrary: seed) (simp_all split: prod.split)

lemma gen_hash_data_ok:
  assumes "good_seed seed"
  shows "\<exists>hd. gen_hash_data seed n line = Inr hd \<and> length hd = line * n"
  using assms rng_seed_init_accepts [of seed] by (auto simp: gen_hash_data_def)

subsection \<open>Hashes\<close>

text \<open>The hash as a sum without carries of one random number per byte.\<close>

fun hash_value :: "bytes \<Rightarrow> u32 list \<Rightarrow> u32" where
  "hash_value [] hash_data = 0"
| "hash_value (k # ks) hash_data = hash_data ! unat k XOR hash_value ks (drop 256 hash_data)"

lemma hash_loop_value:
  "256 * length key \<le> length hash_data \<Longrightarrow> hash_loop r key hash_data = Inr (r XOR hash_value key hash_data)"
proof (induction key arbitrary: r hash_data)
  case (Cons k key)
  have "unat k < 256"
    using unsigned_less [where 'a = nat and w = k] by simp
  with Cons show ?case
    by (simp add: xor.assoc)
qed simp

lemma hash_total: "256 * length key \<le> length hash_data \<Longrightarrow> hash key hash_data = Inr (hash_value key hash_data)"
  by (simp add: hash_def hash_loop_value)

subsection \<open>Keys\<close>

lemma tidy_addr_len: "tidy p \<Longrightarrow> unat (addr_len p) \<le> 16"
  by (auto simp: tidy_def split: if_splits)

lemma copy_ip_ok:
  assumes "tidy p"
  shows "\<exists>r. copy_ip p = Inr r \<and> (\<forall>k. r = Some k \<longrightarrow> length k = ADDR_SIZE)"
proof (cases "remote_endpoint (pdirection p) = END_COUNT \<or> address_of p (remote_endpoint (pdirection p)) = None")
  case False
  obtain bs where bs: "address_bytes p (remote_endpoint (pdirection p)) = Inr bs" "length bs = unat (addr_len p)"
    using assms False by (cases "pdirection p") (auto simp: tidy_def address_bytes_def split: if_splits)
  with False tidy_addr_len [OF assms] show ?thesis
    by (simp add: copy_ip_def ADDR_SIZE_def Let_def)
qed (auto simp: copy_ip_def Let_def)

lemma copy_port_length: "copy_port p which = Some k \<Longrightarrow> length k = PORT_SIZE"
  by (auto simp: copy_port_def PORT_SIZE_def split: if_splits)

definition keys_of_size :: "nat \<Rightarrow> (packet \<Rightarrow> bytes option result) \<Rightarrow> bool" where
  "keys_of_size n extract \<longleftrightarrow>
     (\<forall>ps. tidy (hd ps) \<longrightarrow> (\<exists>r. extract ps = Inr r \<and> (\<forall>k. r = Some k \<longrightarrow> length k = n)))"

lemma keys_of_size_ip: "keys_of_size ADDR_SIZE extract_ip_address"
  using copy_ip_ok by (auto simp: keys_of_size_def extract_ip_address_def)

lemma keys_of_size_port: "keys_of_size PORT_SIZE extract_port"
  using copy_port_length by (auto simp: keys_of_size_def extract_port_def)

lemma port_then_ip_ok:
  "tidy (hd ps) \<Longrightarrow> \<exists>r. port_then_ip ps which = Inr r \<and> (\<forall>k. r = Some k \<longrightarrow> length k = PORT_SIZE + ADDR_SIZE)"
  using copy_ip_ok [of "hd ps"] copy_port_length [of "hd ps" which]
  by (auto simp: port_then_ip_def split: option.split)

lemma keys_of_size_both:
  "keys_of_size (PORT_SIZE + ADDR_SIZE) extract_both" "keys_of_size (PORT_SIZE + ADDR_SIZE) extract_lport_addr"
  using port_then_ip_ok unfolding keys_of_size_def extract_both_def extract_lport_addr_def by blast+

lemma keys_of_size_out: "keys_of_size n extract \<Longrightarrow> keys_of_size n (only_out extract)"
  by (auto simp: keys_of_size_def only_out_def)

lemma criteria_keys: "c \<in> set criteria \<Longrightarrow> keys_of_size (key_size c) (extract_key c)"
  using keys_of_size_ip keys_of_size_port keys_of_size_both
  by (auto simp: criteria_def keys_of_size_out)

end
