(* ===== verification/Buckets.thy ===== *)
theory Buckets
  imports BucketKeys Services Trie
begin

text \<open>
  The buckets plugin (\<open>plugins/buckets/buckets.c\<close>): it counts the keys of packets in hash tables,
  one per hash function and time slot, and remembers the keys of the current and some past
  generations, so that the server can ask which keys fell into given buckets.

  Arrays are lists; the tries and counts of a generation that was never activated are
  uninitialised in C and empty lists here, so that reading them is a fault. The linked list of
  candidates is the list of its keys: removing and appending act on it as \<open>LinkList\<close> shows.
  Allocations are taken to succeed, and a message is shorter than \<open>2 ^ 32\<close> bytes, as its size is
  sent as a 32-bit number.
\<close>

record criterion =
  trie :: "unit trie list"
  counts :: "u32 list"
  key_count :: u32
  packet_count :: u32
  overflow :: bool

record generation =
  g_criteria :: "criterion list"
  g_timestamp :: u64
  g_active :: bool

record buckets_data =
  bucket_count :: nat
  hash_count :: nat
  hash_line_size :: nat
  history_size :: nat
  max_key_count :: nat
  max_timeslots :: nat
  biggest_timeslot :: u64
  timeslot_start :: u64
  time_granularity :: u32
  config_version :: u32
  initialized :: bool
  used_criteria :: "criterion_def list"
  hash_data :: "u32 list"
  current_generation :: nat
  generations :: "generation list"

definition buckets_data_init :: buckets_data where
  "buckets_data_init =
     \<lparr>bucket_count = 0, hash_count = 0, hash_line_size = 0, history_size = 0, max_key_count = 0, max_timeslots = 0,
      biggest_timeslot = 0, timeslot_start = 0, time_granularity = 0, config_version = 0, initialized = False,
      used_criteria = [], hash_data = [], current_generation = 0, generations = []\<rparr>"

definition initialize :: "('c, 'w) services \<Rightarrow> 'w \<Rightarrow> ('w \<times> buckets_data) result" where
  "initialize sv w = rbind (sv_tell sv w [code (CHR ''C'')]) (\<lambda>w. Inr (w, buckets_data_init))"

definition connected :: "('c, 'w) services \<Rightarrow> 'w \<Rightarrow> buckets_data \<Rightarrow> ('w \<times> buckets_data) result" where
  "connected sv w u =
     rbind (sv_tell sv w [code (CHR ''C'')]) (\<lambda>w.
       Inr (w, if initialized u then u\<lparr>generations := map (\<lambda>g. g\<lparr>g_active := False\<rparr>) (generations u)\<rparr> else u))"

subsection \<open>Configuration\<close>

definition activate_criterion :: "buckets_data \<Rightarrow> criterion \<Rightarrow> criterion" where
  "activate_criterion u c =
     c\<lparr>key_count := 0, packet_count := 0, overflow := False,
       counts := replicate (bucket_count u * hash_count u * max_timeslots u) 0,
       trie := replicate (bucket_count u) trie_alloc\<rparr>"

definition generation_activate :: "buckets_data \<Rightarrow> nat \<Rightarrow> u64 \<Rightarrow> u64 \<Rightarrow> buckets_data result" where
  "generation_activate u gen ts t =
     (if gen < length (generations u) then
        let g = generations u ! gen;
            g' = g\<lparr>g_criteria := map (activate_criterion u) (g_criteria g), g_timestamp := ts, g_active := True\<rparr>
        in Inr (u\<lparr>generations := (generations u)[gen := g'], current_generation := gen, timeslot_start := t,
                 biggest_timeslot := 0\<rparr>)
      else Inl BadAccess)"

definition find_criterion :: "byte \<Rightarrow> criterion_def result" where
  "find_criterion c =
     (let ds = filter (\<lambda>d. cname d = c) criteria in sanity (ds \<noteq> []) (Inr (last ds)))"

fun find_criteria :: "bytes \<Rightarrow> criterion_def list result" where
  "find_criteria [] = Inr []"
| "find_criteria (c # cs) = rbind (find_criterion c) (\<lambda>d. rbind (find_criteria cs) (\<lambda>ds. Inr (d # ds)))"

definition empty_criterion :: criterion where
  "empty_criterion = \<lparr>trie = [], counts = [], key_count = 0, packet_count = 0, overflow = False\<rparr>"

definition empty_generation :: "nat \<Rightarrow> generation" where
  "empty_generation n = \<lparr>g_criteria = replicate n empty_criterion, g_timestamp = 0, g_active = False\<rparr>"

definition set_up :: "buckets_data \<Rightarrow> bytes \<Rightarrow> u64 \<Rightarrow> buckets_data result" where
  "set_up u bs t =
     (let seed = get64 bs;
          ts = get64 (drop 8 bs);
          bc = unat (get32 (drop 16 bs));
          hc = unat (get32 (drop 20 bs));
          cc = unat (get32 (drop 24 bs));
          hs = unat (get32 (drop 28 bs))
      in sanity (length bs \<ge> 48 + cc)
        (rbind (find_criteria (take cc (drop 48 bs))) (\<lambda>ds.
           let line = 256 * fold max (map key_size ds) 0
           in rbind (gen_hash_data seed hc line) (\<lambda>rnd.
              rbind (generation_activate
                (u\<lparr>bucket_count := bc, hash_count := hc, history_size := hs,
                   config_version := get32 (drop 32 bs), max_key_count := unat (get32 (drop 36 bs)),
                   max_timeslots := unat (get32 (drop 40 bs)), time_granularity := get32 (drop 44 bs),
                   used_criteria := ds, hash_line_size := line, hash_data := rnd,
                   generations := replicate (1 + hs) (empty_generation cc)\<rparr>) 0 ts t) (\<lambda>u.
                sanity (cc \<noteq> 0 \<and> hc \<noteq> 0 \<and> bc \<noteq> 0) (Inr (u\<lparr>initialized := True\<rparr>)))))))"

definition configure :: "buckets_data \<Rightarrow> bytes \<Rightarrow> u64 \<Rightarrow> buckets_data result" where
  "configure u bs t =
     sanity (length bs \<ge> 48)
       (if initialized u then (if config_version u \<noteq> get32 (drop 32 bs) then Inl Reinit else Inr u)
        else set_up u bs t)"

subsection \<open>Packets\<close>

text \<open>The bucket of a key by hash function \<open>i\<close>.\<close>

definition bucket_of :: "buckets_data \<Rightarrow> nat \<Rightarrow> nat \<Rightarrow> bytes \<Rightarrow> nat result" where
  "bucket_of u ksize i key =
     (if length key < ksize then Inl BadAccess
      else rbind (hash (take ksize key) (drop (i * hash_line_size u) (hash_data u))) (\<lambda>h.
             if bucket_count u = 0 then Inl DivByZero else Inr (unat h mod bucket_count u)))"

definition count_hash :: "buckets_data \<Rightarrow> nat \<Rightarrow> bytes \<Rightarrow> u32 list \<times> nat \<Rightarrow> nat \<Rightarrow> (u32 list \<times> nat) result" where
  "count_hash u ksize key = (\<lambda>(cs, key_index) j.
     rbind (bucket_of u ksize j key) (\<lambda>index.
       let pos = bucket_count u * hash_count u * unat (biggest_timeslot u) + j * bucket_count u + index
       in if pos < length cs then Inr (cs[pos := cs ! pos + 1], if j = 0 then index else key_index) else Inl BadAccess))"

definition count_key :: "buckets_data \<Rightarrow> nat \<Rightarrow> bytes \<Rightarrow> criterion \<Rightarrow> criterion result" where
  "count_key u ksize key c =
     (let c1 = c\<lparr>packet_count := packet_count c + 1\<rparr>
      in rbind (fold_result (count_hash u ksize key) (counts c1, 0) [0..<hash_count u]) (\<lambda>(cs, key_index).
           let c2 = c1\<lparr>counts := cs\<rparr>
           in if overflow c2 then Inr c2
              else if key_index < length (trie c2) then
                rbind (trie_index (trie c2 ! key_index) (take ksize key)) (\<lambda>(t, slot).
                  Inr (c2\<lparr>trie := (trie c2)[key_index := t], overflow := (trie_size t \<ge> max_key_count u)\<rparr>))
              else Inl BadAccess))"

fun count_criteria :: "buckets_data \<Rightarrow> packet_info \<Rightarrow> criterion_def list \<Rightarrow> criterion list \<Rightarrow> criterion list result" where
  "count_criteria u p [] cs = Inr cs"
| "count_criteria u p (d # ds) [] = Inl BadAccess"
| "count_criteria u p (d # ds) (c # cs) =
     rbind (extract_key d [p]) (\<lambda>k.
       rbind (case k of None \<Rightarrow> Inr c | Some key \<Rightarrow> count_key u (key_size d) key c) (\<lambda>c'.
         rbind (count_criteria u p ds cs) (\<lambda>cs'. Inr (c' # cs'))))"

definition advance_slot :: "buckets_data \<Rightarrow> u64 \<Rightarrow> buckets_data result" where
  "advance_slot u t =
     (if time_granularity u = 0 then Inl DivByZero
      else let slot = (t - timeslot_start u) div ucast (time_granularity u)
        in Inr (if slot > biggest_timeslot u then u\<lparr>biggest_timeslot := slot\<rparr> else u))"

definition packet :: "buckets_data \<Rightarrow> packet \<Rightarrow> u64 \<Rightarrow> buckets_data result" where
  "packet u ps t =
     (if \<not> initialized u then Inr u
      else if ps = [] then Inl BadAccess
      else if current_generation u \<ge> length (generations u) then Inl BadAccess
      else if layer (last ps) \<noteq> CHR ''I'' then Inr u
      else rbind (advance_slot u t) (\<lambda>u.
        if unat (biggest_timeslot u) \<ge> max_timeslots u then Inr u
        else let g = generations u ! current_generation u
          in rbind (count_criteria u (last ps) (used_criteria u) (g_criteria g)) (\<lambda>cs.
               Inr (u\<lparr>generations := (generations u)[current_generation u := g\<lparr>g_criteria := cs\<rparr>]\<rparr>))))"

subsection \<open>Answers\<close>

text \<open>The part of a criterion in the message, and the check that every packet is once in each hash.\<close>

definition criterion_bytes :: "buckets_data \<Rightarrow> bool \<Rightarrow> nat \<Rightarrow> criterion \<Rightarrow> bytes result" where
  "criterion_bytes u global_overflow n c =
     (if length (counts c) < n then Inl BadAccess
      else let sent = take n (counts c);
               total_count = sum_list (map ucast sent) :: u64
        in assert_then (global_overflow \<or> total_count = ucast (packet_count c) * word_of_nat (hash_count u))
             (Inr (put32 (if overflow c \<or> global_overflow then 1 else 0) @ concat (map put32 sent))))"

fun criteria_bytes :: "buckets_data \<Rightarrow> bool \<Rightarrow> nat \<Rightarrow> criterion list \<Rightarrow> bytes result" where
  "criteria_bytes u global_overflow n [] = Inr []"
| "criteria_bytes u global_overflow n (c # cs) =
     rbind (criterion_bytes u global_overflow n c) (\<lambda>b.
       rbind (criteria_bytes u global_overflow n cs) (\<lambda>bs. Inr (b @ bs)))"

definition provide_generation :: "('c, 'w) services \<Rightarrow> 'w \<Rightarrow> buckets_data \<Rightarrow> bytes \<Rightarrow> ('w \<times> buckets_data) result" where
  "provide_generation sv w u bs =
     sanity (length bs = 8)
       (if current_generation u \<ge> length (generations u) then Inl BadAccess
        else let big = biggest_timeslot u + 1;
                 global_overflow = (unat big > max_timeslots u);
                 slots = (if global_overflow then 0 else big);
                 g = generations u ! current_generation u
          in rbind (criteria_bytes u global_overflow (hash_count u * bucket_count u * unat slots) (g_criteria g)) (\<lambda>body.
               rbind (sv_tell sv w (code (CHR ''G'') # put64 (g_timestamp g) @ put32 (config_version u) @ put32 (ucast slots) @ body)) (\<lambda>w.
                 rbind (generation_activate (u\<lparr>biggest_timeslot := slots\<rparr>) ((current_generation u + 1) mod (history_size u + 1))
                          (get64 bs) (sv_now sv w)) (\<lambda>u. Inr (w, u)))))"

definition get_key :: "bytes list \<Rightarrow> bytes \<Rightarrow> unit option \<Rightarrow> bytes list result" where
  "get_key candidates key data = Inr (candidates @ [key])"

text \<open>The keys of the buckets asked for by the first hash.\<close>

definition bucket_keys :: "buckets_data \<Rightarrow> criterion \<Rightarrow> bytes list \<Rightarrow> u32 \<Rightarrow> bytes list result" where
  "bucket_keys u c candidates i =
     sanity (unat i < bucket_count u)
       (if unat i < length (trie c) then trie_walk (trie c ! unat i) get_key candidates else Inl BadAccess)"

text \<open>Those of the candidates that are in the buckets asked for by hash \<open>i\<close>.\<close>

fun keep_candidates :: "buckets_data \<Rightarrow> nat \<Rightarrow> nat \<Rightarrow> u32 list \<Rightarrow> bytes list \<Rightarrow> bytes list result" where
  "keep_candidates u ksize i indices [] = Inr []"
| "keep_candidates u ksize i indices (k # ks) =
     rbind (bucket_of u ksize i k) (\<lambda>h.
       rbind (keep_candidates u ksize i indices ks) (\<lambda>r. Inr (if h \<in> set (map unat indices) then k # r else r)))"

text \<open>The other hashes: \<open>indices\<close> starts with the \<open>n\<close> indices of the hash before.\<close>

fun scan_levels :: "buckets_data \<Rightarrow> nat \<Rightarrow> nat list \<Rightarrow> nat \<Rightarrow> u32 list \<Rightarrow> bytes list \<Rightarrow> bytes list result" where
  "scan_levels u ksize [] n indices candidates = sanity (length indices = n) (Inr candidates)"
| "scan_levels u ksize (i # is) n indices candidates =
     (let rest = drop n indices
      in sanity (rest \<noteq> [])
           (let n' = unat (hd rest); indices' = tl rest
            in sanity (length indices' \<ge> n')
                 (rbind (keep_candidates u ksize i (take n' indices') candidates) (\<lambda>candidates.
                    scan_levels u ksize is n' indices' candidates))))"

definition scan_keys :: "buckets_data \<Rightarrow> nat \<Rightarrow> generation \<Rightarrow> u32 list \<Rightarrow> bytes list result" where
  "scan_keys u cr g indices =
     sanity (indices \<noteq> [])
       (let n = unat (hd indices); rest = tl indices
        in sanity (length rest \<ge> n)
             (if cr \<ge> length (used_criteria u) \<or> cr \<ge> length (g_criteria g) then Inl BadAccess
              else rbind (fold_result (bucket_keys u (g_criteria g ! cr)) [] (take n rest)) (\<lambda>candidates.
                     scan_levels u (key_size (used_criteria u ! cr)) [1..<hash_count u] n rest candidates)))"

fun words :: "bytes \<Rightarrow> u32 list" where
  "words (a # b # c # d # bs) = get32 [a, b, c, d] # words bs"
| "words _ = []"

definition add_new :: "bytes list \<Rightarrow> bytes list \<Rightarrow> bytes list" where
  "add_new candidates partial = fold (\<lambda>k cs. if k \<in> set cs then cs else cs @ [k]) partial candidates"

definition all_keys :: "buckets_data \<Rightarrow> nat \<Rightarrow> u32 list \<Rightarrow> bytes list \<Rightarrow> nat \<Rightarrow> bytes list result" where
  "all_keys u cr indices candidates i =
     (if i \<ge> length (generations u) then Inl BadAccess
      else if g_active (generations u ! i) \<and> i \<noteq> current_generation u then
        rbind (scan_keys u cr (generations u ! i) indices) (\<lambda>partial. Inr (add_new candidates partial))
      else Inr candidates)"

definition provide_keys :: "('c, 'w) services \<Rightarrow> 'w \<Rightarrow> buckets_data \<Rightarrow> bytes \<Rightarrow> 'w result" where
  "provide_keys sv w u bs =
     sanity (size_sub (length bs) 16 mod 4 = 0)
       (if length bs < 16 then Inl BadAccess
        else let ts = get64 bs;
                 req_id = take 4 (drop 8 bs);
                 cr = unat (get32 (drop 12 bs));
                 indices = words (drop 16 bs)
          in sanity (cr < length (used_criteria u))
               (let answer = (\<lambda>candidates. sv_tell sv w (code (CHR ''K'') # req_id @
                  concat (map (take (key_size (used_criteria u ! cr))) candidates)))
                in if ts \<noteq> 0 then
                     (case find (\<lambda>g. g_timestamp g = ts) (generations u) of
                        None \<Rightarrow> sv_tell sv w (code (CHR ''M'') # req_id)
                      | Some g \<Rightarrow> rbind (scan_keys u cr g indices) answer)
                   else rbind (fold_result (all_keys u cr indices) [] [0..<history_size u + 1]) answer))"

definition communicate :: "('c, 'w) services \<Rightarrow> 'w \<Rightarrow> buckets_data \<Rightarrow> bytes \<Rightarrow> ('w \<times> buckets_data) result" where
  "communicate sv w u bs =
     sanity (bs \<noteq> [])
       (if hd bs = code (CHR ''C'') then rbind (configure u (tl bs) (sv_now sv w)) (\<lambda>u. Inr (w, u))
        else if hd bs = code (CHR ''G'') then
          (if initialized u then provide_generation sv w u (tl bs) else Inr (w, u))
        else if hd bs = code (CHR ''K'') then
          (if initialized u then rbind (provide_keys sv w u (tl bs)) (\<lambda>w. Inr (w, u)) else Inr (w, u))
        else Inr (w, u))"

subsection \<open>Every packet is once in each hash\<close>

text \<open>The counters of hash \<open>j\<close>, over all time slots, add up to the number of packets.\<close>

definition line_sum :: "nat \<Rightarrow> nat \<Rightarrow> nat \<Rightarrow> u32 list \<Rightarrow> nat" where
  "line_sum bc hc j cs = (\<Sum>i | i < length cs \<and> (i div bc) mod hc = j. unat (cs ! i))"

lemma unat_inc: "(x :: u32) \<noteq> - 1 \<Longrightarrow> unat (x + 1) = unat x + 1"
  using unatSuc [of x] minus_equation_iff [of x 1] by (auto simp: add_eq_0_iff add.commute)

lemma line_sum_update:
  assumes "pos < length cs" and "cs ! pos \<noteq> - 1"
  shows "line_sum bc hc j (cs[pos := cs ! pos + 1]) = line_sum bc hc j cs + (if (pos div bc) mod hc = j then 1 else 0)"
proof -
  let ?S = "{i. i < length cs \<and> (i div bc) mod hc = j}"
  have inc: "unat (cs ! pos + 1) = unat (cs ! pos) + 1"
    using assms(2) by (rule unat_inc)
  have "(\<Sum>i \<in> ?S. unat (cs[pos := cs ! pos + 1] ! i)) = (\<Sum>i \<in> ?S. unat (cs ! i) + (if i = pos then 1 else 0))"
    by (rule sum.cong) (auto simp: inc assms(1))
  also have "\<dots> = (\<Sum>i \<in> ?S. unat (cs ! i)) + (if pos \<in> ?S then 1 else 0)"
    by (simp add: sum.distrib)
  finally show ?thesis
    using assms(1) by (simp add: line_sum_def)
qed

lemma line_sum_entry: "pos < length cs \<Longrightarrow> unat (cs ! pos) \<le> line_sum bc hc ((pos div bc) mod hc) cs"
  unfolding line_sum_def by (rule member_le_sum) auto

lemma line_sums:
  assumes "0 < hc"
  shows "(\<Sum>j < hc. line_sum bc hc j cs) = sum_list (map unat cs)"
proof -
  have "(\<Sum>j < hc. line_sum bc hc j cs) = (\<Sum>j \<in> {..<hc}. \<Sum>i | i \<in> {..<length cs} \<and> (i div bc) mod hc = j. unat (cs ! i))"
    by (simp add: line_sum_def)
  also have "\<dots> = (\<Sum>i < length cs. unat (cs ! i))"
    by (rule sum.group) (use assms in auto)
  finally show ?thesis
    by (simp add: sum_list_sum_nth atLeast0LessThan)
qed

definition counts_ok :: "buckets_data \<Rightarrow> criterion \<Rightarrow> bool" where
  "counts_ok u c \<longleftrightarrow> length (counts c) = bucket_count u * hash_count u * max_timeslots u \<and>
     (\<forall>j < hash_count u. line_sum (bucket_count u) (hash_count u) j (counts c) = unat (packet_count c)) \<and>
     (\<forall>i < length (counts c). bucket_count u * hash_count u * (unat (biggest_timeslot u) + 1) \<le> i \<longrightarrow> counts c ! i = 0)"

definition config_ok :: "buckets_data \<Rightarrow> bool" where
  "config_ok u \<longleftrightarrow> 0 < bucket_count u \<and> 0 < hash_count u \<and> length (hash_data u) = hash_line_size u * hash_count u \<and>
     (\<forall>d \<in> set (used_criteria u). d \<in> set criteria \<and> 256 * key_size d \<le> hash_line_size u)"

lemma bucket_of_total:
  assumes "config_ok u" and "i < hash_count u" and "length key = ksize" and "256 * ksize \<le> hash_line_size u"
  shows "\<exists>b < bucket_count u. bucket_of u ksize i key = Inr b"
proof -
  have "i * hash_line_size u + hash_line_size u \<le> length (hash_data u)"
    using assms(1,2) mult_le_mono1 [of "Suc i" "hash_count u" "hash_line_size u"] by (simp add: config_ok_def mult.commute)
  then have "256 * length key \<le> length (drop (i * hash_line_size u) (hash_data u))"
    using assms(3,4) by simp
  from hash_total [OF this] show ?thesis
    using assms by (simp add: bucket_of_def config_ok_def)
qed

lemma position_line:
  fixes index bc hc j b :: nat
  assumes "index < bc" and "j < hc"
  shows "((bc * hc * b + j * bc + index) div bc) mod hc = j" and "bc * hc * b + j * bc + index < bc * hc * (b + 1)"
proof -
  have "bc * hc * b + j * bc + index = (hc * b + j) * bc + index"
    by (simp add: algebra_simps)
  then have "(bc * hc * b + j * bc + index) div bc = hc * b + j"
    using assms by simp
  then show "((bc * hc * b + j * bc + index) div bc) mod hc = j"
    using assms by simp
  have "j * bc + index < Suc j * bc"
    using assms(1) by simp
  also have "\<dots> \<le> hc * bc"
    using assms(2) by (intro mult_le_mono1) simp
  finally show "bc * hc * b + j * bc + index < bc * hc * (b + 1)"
    by (simp add: algebra_simps)
qed

lemma max_word_unat: "(x :: u32) \<noteq> - 1 \<longleftrightarrow> unat x < 2 ^ 32 - 1"
proof -
  have "unat (- 1 :: u32) = 2 ^ 32 - 1" by (simp add: unsigned_minus_1_eq_mask mask_eq_exp_minus_1)
  moreover have "unat x < 2 ^ 32"
    using unsigned_less [where 'a = nat and w = x] by simp
  ultimately show ?thesis
    using word_unat_eq_iff [of x "- 1"] by linarith
qed

lemma count_hashes:
  assumes u: "config_ok u" and key: "length key = ksize" "256 * ksize \<le> hash_line_size u"
    and slot: "unat (biggest_timeslot u) < max_timeslots u"
    and cs: "length cs = bucket_count u * hash_count u * max_timeslots u"
      "\<forall>j < hash_count u. line_sum (bucket_count u) (hash_count u) j cs = n" "n < 2 ^ 32 - 1"
      "\<forall>i < length cs. bucket_count u * hash_count u * (unat (biggest_timeslot u) + 1) \<le> i \<longrightarrow> cs ! i = 0"
  shows "k \<le> hash_count u \<Longrightarrow> \<exists>cs' ki. fold_result (count_hash u ksize key) (cs, ki0) [0..<k] = Inr (cs', ki) \<and>
    length cs' = length cs \<and> (0 < k \<longrightarrow> bucket_of u ksize 0 key = Inr ki) \<and>
    (\<forall>j < hash_count u. line_sum (bucket_count u) (hash_count u) j cs' = n + (if j < k then 1 else 0)) \<and>
    (\<forall>i < length cs. bucket_count u * hash_count u * (unat (biggest_timeslot u) + 1) \<le> i \<longrightarrow> cs' ! i = 0)"
proof (induction k)
  case (Suc k)
  let ?bc = "bucket_count u" and ?hc = "hash_count u" and ?b = "unat (biggest_timeslot u)"
  obtain cs' ki where IH: "fold_result (count_hash u ksize key) (cs, ki0) [0..<k] = Inr (cs', ki)" "length cs' = length cs"
      "0 < k \<longrightarrow> bucket_of u ksize 0 key = Inr ki" "\<forall>j < ?hc. line_sum ?bc ?hc j cs' = n + (if j < k then 1 else 0)"
      "\<forall>i < length cs. ?bc * ?hc * (?b + 1) \<le> i \<longrightarrow> cs' ! i = 0"
    using Suc by auto
  obtain index where i: "index < ?bc" "bucket_of u ksize k key = Inr index"
    using bucket_of_total [OF u _ key] Suc.prems by (meson Suc_le_eq)
  define pos where "pos = ?bc * ?hc * ?b + k * ?bc + index"
  have pos: "(pos div ?bc) mod ?hc = k" "pos < ?bc * ?hc * (?b + 1)"
    using position_line [OF i(1), of k ?hc ?b] Suc.prems by (simp_all add: pos_def)
  have "?bc * ?hc * (?b + 1) \<le> length cs"
    unfolding cs(1) by (rule mult_le_mono2) (use slot in simp)
  with pos(2) IH(2) have len: "pos < length cs'" by simp
  have "unat (cs' ! pos) \<le> n"
    using line_sum_entry [OF len, of ?bc ?hc] pos(1) IH(4) Suc.prems by simp
  with cs(3) have "cs' ! pos \<noteq> - 1"
    by (simp add: max_word_unat)
  from line_sum_update [OF len this] have
    "\<forall>j < ?hc. line_sum ?bc ?hc j (cs'[pos := cs' ! pos + 1]) = n + (if j < Suc k then 1 else 0)"
    using IH(4) pos(1) by auto
  moreover have "fold_result (count_hash u ksize key) (cs, ki0) [0..<Suc k] =
      Inr (cs'[pos := cs' ! pos + 1], if k = 0 then index else ki)"
    using IH(1) i(2) len by (simp add: count_hash_def pos_def Let_def)
  ultimately show ?case
    using IH i pos(2) by auto
qed (use cs in auto)

definition keys_ok :: "buckets_data \<Rightarrow> criterion_def \<Rightarrow> criterion \<Rightarrow> bool" where
  "keys_ok u d c \<longleftrightarrow> length (trie c) = bucket_count u \<and>
     (\<forall>j < bucket_count u. trie_inv (trie c ! j) \<and>
        dom (trie_map (trie c ! j)) \<subseteq> {k. length k = key_size d \<and> bucket_of u (key_size d) 0 k = Inr j})"

lemma bucket_prefix_free: "prefix_free {k. length k = n \<and> P k}"
  by (auto simp: prefix_free_def strict_prefix_def prefix_def)

lemma count_key_ok:
  assumes u: "config_ok u" and d: "d \<in> set (used_criteria u)" and key: "length key = key_size d"
    and slot: "unat (biggest_timeslot u) < max_timeslots u" and c: "counts_ok u c" "keys_ok u d c" "packet_count c \<noteq> - 1"
  shows "\<exists>c'. count_key u (key_size d) key c = Inr c' \<and> counts_ok u c' \<and> keys_ok u d c' \<and> packet_count c' = packet_count c + 1"
proof -
  have line: "256 * key_size d \<le> hash_line_size u" and hc: "0 < hash_count u"
    using u d by (auto simp: config_ok_def)
  obtain cs ki where f: "fold_result (count_hash u (key_size d) key) (counts c, 0) [0..<hash_count u] = Inr (cs, ki)"
      "length cs = length (counts c)" "bucket_of u (key_size d) 0 key = Inr ki"
      "\<forall>j < hash_count u. line_sum (bucket_count u) (hash_count u) j cs = unat (packet_count c) + 1"
      "\<forall>i < length (counts c). bucket_count u * hash_count u * (unat (biggest_timeslot u) + 1) \<le> i \<longrightarrow> cs ! i = 0"
    using count_hashes [OF u key line slot, of "counts c" "unat (packet_count c)" "hash_count u" 0] c hc
    by (auto simp: counts_ok_def max_word_unat)
  have ki: "ki < bucket_count u"
    using bucket_of_total [OF u hc key line] f(3) by auto
  have ok: "counts_ok u (c\<lparr>packet_count := packet_count c + 1, counts := cs\<rparr>)"
    using c f by (simp add: counts_ok_def unat_inc)
  let ?t = "trie c ! ki" and ?K = "{k. length k = key_size d \<and> bucket_of u (key_size d) 0 k = Inr ki}"
  have t: "trie_inv ?t" "dom (trie_map ?t) \<subseteq> ?K" "length (trie c) = bucket_count u"
    using c(2) ki by (auto simp: keys_ok_def)
  have "trie_admits ?t key"
    using prefix_free_fits [OF bucket_prefix_free _ t(2), of key] key f(3) by (simp add: trie_admits_fits)
  then obtain t' s where t': "trie_index ?t key = Inr (t', Some s)" "trie_inv t'"
      "trie_map t' = (trie_map ?t)(key \<mapsto> slot_value ?t key)"
    using trie_index_spec [OF t(1), of key] by blast
  have "dom (trie_map t') \<subseteq> ?K"
    using t'(3) t(2) key f(3) by auto
  then have "keys_ok u d (c\<lparr>packet_count := packet_count c + 1, counts := cs, trie := (trie c)[ki := t'], overflow := o'\<rparr>)" for o'
    using c(2) t'(2) t(3) ki by (auto simp: keys_ok_def nth_list_update)
  moreover have "keys_ok u d (c\<lparr>packet_count := packet_count c + 1, counts := cs\<rparr>)"
    using c(2) by (simp add: keys_ok_def)
  moreover have "counts_ok u (c\<lparr>packet_count := packet_count c + 1, counts := cs, trie := ts, overflow := o'\<rparr>)" for ts o'
    using ok by (simp add: counts_ok_def)
  ultimately show ?thesis
    using f(1) t(3) ki t'(1) ok key by (simp add: count_key_def Let_def)
qed

subsection \<open>The invariant\<close>

definition gens_ok :: "buckets_data \<Rightarrow> bool" where
  "gens_ok u \<longleftrightarrow> length (generations u) = history_size u + 1 \<and>
     (\<forall>g \<in> set (generations u). length (g_criteria g) = length (used_criteria u) \<and>
        (g_timestamp g \<noteq> 0 \<or> g_active g \<longrightarrow> list_all2 (keys_ok u) (used_criteria u) (g_criteria g)))"

definition current_ok :: "buckets_data \<Rightarrow> bool" where
  "current_ok u \<longleftrightarrow> current_generation u < length (generations u) \<and> biggest_timeslot u \<noteq> - 1 \<and>
     list_all2 (\<lambda>d c. counts_ok u c \<and> keys_ok u d c) (used_criteria u) (g_criteria (generations u ! current_generation u))"

definition buckets_inv :: "buckets_data \<Rightarrow> bool" where
  "buckets_inv u \<longleftrightarrow> (initialized u \<longrightarrow> config_ok u \<and> gens_ok u \<and> current_ok u)"

lemma keys_ok_cong:
  "bucket_count u' = bucket_count u \<Longrightarrow> hash_line_size u' = hash_line_size u \<Longrightarrow> hash_data u' = hash_data u \<Longrightarrow>
   keys_ok u' = keys_ok u"
  by (intro ext) (simp add: keys_ok_def bucket_of_def)

lemma counts_ok_cong:
  "bucket_count u' = bucket_count u \<Longrightarrow> hash_count u' = hash_count u \<Longrightarrow> max_timeslots u' = max_timeslots u \<Longrightarrow>
   biggest_timeslot u' = biggest_timeslot u \<Longrightarrow> counts_ok u' = counts_ok u"
  by (intro ext) (simp add: counts_ok_def)

lemma activate_criterion_ok:
  "biggest_timeslot u' = 0 \<Longrightarrow> bucket_count u' = bucket_count u \<Longrightarrow> hash_count u' = hash_count u \<Longrightarrow>
   max_timeslots u' = max_timeslots u \<Longrightarrow> counts_ok u' (activate_criterion u c) \<and> keys_ok u' d (activate_criterion u c)"
  by (auto simp: counts_ok_def keys_ok_def activate_criterion_def line_sum_def)

lemma generation_activate_ok:
  assumes u: "config_ok u" "gens_ok u" and gen: "gen < length (generations u)"
  shows "\<exists>u'. generation_activate u gen ts t = Inr u' \<and> config_ok u' \<and> gens_ok u' \<and> current_ok u' \<and> initialized u' = initialized u"
proof -
  define g' where "g' = (generations u ! gen)\<lparr>g_criteria := map (activate_criterion u) (g_criteria (generations u ! gen)),
    g_timestamp := ts, g_active := True\<rparr>"
  define u' where "u' = u\<lparr>generations := (generations u)[gen := g'], current_generation := gen, timeslot_start := t, biggest_timeslot := 0\<rparr>"
  have k: "keys_ok u' = keys_ok u"
    by (rule keys_ok_cong) (simp_all add: u'_def)
  have len: "length (g_criteria g') = length (used_criteria u)"
    using u(2) gen by (auto simp: gens_ok_def g'_def)
  have new: "list_all2 (\<lambda>d c. counts_ok u' c \<and> keys_ok u' d c) (used_criteria u) (g_criteria g')"
    unfolding list_all2_conv_all_nth
  proof (intro conjI allI impI)
    show "length (used_criteria u) = length (g_criteria g')"
      by (simp add: len)
    fix i assume "i < length (used_criteria u)"
    then have "g_criteria g' ! i = activate_criterion u (g_criteria (generations u ! gen) ! i)"
      using len by (simp add: g'_def)
    then show "counts_ok u' (g_criteria g' ! i)" "keys_ok u' (used_criteria u ! i) (g_criteria g' ! i)"
      using activate_criterion_ok [of u' u] by (simp_all add: u'_def)
  qed
  have "generation_activate u gen ts t = Inr u'"
    using gen by (simp add: generation_activate_def u'_def g'_def Let_def)
  moreover have "config_ok u'" "initialized u' = initialized u"
    using u(1) by (simp_all add: config_ok_def u'_def)
  moreover have "current_ok u'"
    using new gen by (simp add: current_ok_def) (simp add: u'_def)
  moreover have "gens_ok u'"
  proof -
    have "list_all2 (keys_ok u) (used_criteria u) (g_criteria g')"
      using new by (simp add: k list_all2_mono)
    then show ?thesis
      unfolding gens_ok_def k using u(2) len
      by (auto simp: u'_def gens_ok_def dest!: set_update_subset_insert [THEN subsetD])
  qed
  ultimately show ?thesis
    by blast
qed

lemma find_criteria_ok:
  "find_criteria cs = Inr ds \<Longrightarrow> length ds = length cs \<and> set ds \<subseteq> set criteria"
proof (induction cs arbitrary: ds)
  case (Cons c cs)
  have "d \<in> set criteria" if "find_criterion c = Inr d" for d
    using that last_in_set [of "filter (\<lambda>d. cname d = c) criteria"] by (auto simp: find_criterion_def Let_def sanity_eq_Inr)
  with Cons show ?case
    by (auto simp: result_simps)
qed simp

lemma fold_max_ge: "d \<in> set ds \<Longrightarrow> f d \<le> fold max (map f ds) (m :: nat)"
proof (induction ds arbitrary: m)
  case (Cons a ds)
  have "k \<le> fold max xs k" for xs and k :: nat
    by (induction xs arbitrary: k) (auto intro: order_trans [OF max.cobounded2])
  from order_trans [OF max.cobounded1 this] Cons show ?case
    by auto
qed simp

lemma set_up_ok:
  assumes "good_seed (get64 bs)"
  shows "safe (\<lambda>u'. buckets_inv u') (set_up u bs t)"
proof -
  define cc hc bc hs where "cc = unat (get32 (drop 24 bs))" and "hc = unat (get32 (drop 20 bs))"
    and "bc = unat (get32 (drop 16 bs))" and "hs = unat (get32 (drop 28 bs))"
  show ?thesis
  proof (cases "length bs \<ge> 48 + cc \<and> (\<exists>ds. find_criteria (take cc (drop 48 bs)) = Inr ds)")
    case True
    then obtain ds where ds: "find_criteria (take cc (drop 48 bs)) = Inr ds" by blast
    have dl: "length ds = cc" "set ds \<subseteq> set criteria"
      using find_criteria_ok [OF ds] True by auto
    define line where "line = 256 * fold max (map key_size ds) 0"
    obtain rnd where rnd: "gen_hash_data (get64 bs) hc line = Inr rnd" "length rnd = line * hc"
      using gen_hash_data_ok [OF assms] by blast
    define u1 where "u1 = u\<lparr>bucket_count := bc, hash_count := hc, history_size := hs,
                   config_version := get32 (drop 32 bs), max_key_count := unat (get32 (drop 36 bs)),
                   max_timeslots := unat (get32 (drop 40 bs)), time_granularity := get32 (drop 44 bs),
                   used_criteria := ds, hash_line_size := line, hash_data := rnd,
                   generations := replicate (1 + hs) (empty_generation cc)\<rparr>"
    have some: "0 < length (generations u1)"
      by (simp add: u1_def)
    have gens: "gens_ok u1"
      by (simp add: gens_ok_def u1_def empty_generation_def dl)
    have "256 * key_size d \<le> line" if "d \<in> set ds" for d
      using fold_max_ge [OF that, of key_size 0] by (simp add: line_def)
    then have conf: "config_ok u1" if "hc \<noteq> 0" "bc \<noteq> 0"
      using that rnd(2) dl(2) by (auto simp: config_ok_def u1_def)
    have "safe (\<lambda>u'. buckets_inv u') (rbind (generation_activate u1 0 (get64 (drop 8 bs)) t) (\<lambda>u.
        sanity (cc \<noteq> 0 \<and> hc \<noteq> 0 \<and> bc \<noteq> 0) (Inr (u\<lparr>initialized := True\<rparr>))))"
    proof (cases "cc \<noteq> 0 \<and> hc \<noteq> 0 \<and> bc \<noteq> 0")
      case True
      obtain u2 where "generation_activate u1 0 (get64 (drop 8 bs)) t = Inr u2" "config_ok u2" "gens_ok u2" "current_ok u2"
        using generation_activate_ok [OF conf gens some] True by blast
      moreover have "keys_ok (u2\<lparr>initialized := True\<rparr>) = keys_ok u2"
        by (rule keys_ok_cong) simp_all
      moreover have "counts_ok (u2\<lparr>initialized := True\<rparr>) = counts_ok u2"
        by (rule counts_ok_cong) simp_all
      ultimately show ?thesis
        using True by (simp add: buckets_inv_def config_ok_def gens_ok_def current_ok_def)
    next
      case False
      then show ?thesis
        by (auto simp: generation_activate_def u1_def Let_def)
    qed
    with True ds rnd(1) show ?thesis
      unfolding set_up_def Let_def cc_def [symmetric] hc_def [symmetric] bc_def [symmetric] hs_def [symmetric]
      by (simp add: line_def [symmetric] u1_def)
  next
    case False
    have "find_criteria cs \<noteq> Inl Assertion" for cs
      by (induction cs) (auto simp: find_criterion_def sanity_def Let_def result_simps)
    with False show ?thesis
      unfolding set_up_def Let_def cc_def [symmetric]
      by (cases "find_criteria (take cc (drop 48 bs))") (auto simp: sanity_def)
  qed
qed

abbreviation crit_ok :: "buckets_data \<Rightarrow> criterion_def \<Rightarrow> criterion \<Rightarrow> bool" where
  "crit_ok u d c \<equiv> counts_ok u c \<and> keys_ok u d c"

lemma count_criteria_ok:
  assumes u: "config_ok u" and slot: "unat (biggest_timeslot u) < max_timeslots u" and p: "tidy p"
  shows "list_all2 (crit_ok u) ds cs \<Longrightarrow> set ds \<subseteq> set (used_criteria u) \<Longrightarrow> \<forall>c \<in> set cs. packet_count c \<noteq> - 1 \<Longrightarrow>
    \<exists>cs'. count_criteria u p ds cs = Inr cs' \<and> list_all2 (crit_ok u) ds cs'"
proof (induction ds cs rule: list_all2_induct)
  case (Cons d ds c cs)
  obtain k where k: "extract_key d [p] = Inr k" "\<forall>key. k = Some key \<longrightarrow> length key = key_size d"
  proof -
    have "keys_of_size (key_size d) (extract_key d)"
      using criteria_keys [of d] u Cons.prems by (simp add: config_ok_def)
    then show ?thesis
      using p that unfolding keys_of_size_def by (metis list.sel(1))
  qed
  have "\<exists>c'. (case k of None \<Rightarrow> Inr c | Some key \<Rightarrow> count_key u (key_size d) key c) = Inr c' \<and> crit_ok u d c'"
  proof (cases k)
    case (Some key)
    then show ?thesis
      using count_key_ok [OF u _ _ slot, of d key c] Cons k(2) by auto
  qed (use Cons in simp)
  with Cons k(1) show ?case
    by auto
qed simp

lemma counts_ok_mono:
  assumes "counts_ok u c" and "biggest_timeslot u \<le> b"
  shows "counts_ok (u\<lparr>biggest_timeslot := b\<rparr>) c"
proof -
  have "bucket_count u * hash_count u * (unat (biggest_timeslot u) + 1) \<le> bucket_count u * hash_count u * (unat b + 1)"
    using assms(2) by (intro mult_le_mono2) (simp add: word_le_nat_alt)
  from order_trans [OF this] show ?thesis
    using assms(1) unfolding counts_ok_def by simp
qed

lemma quotient_no_wrap: "(a :: u64) \<noteq> - 1 \<Longrightarrow> a div b \<noteq> - 1"
proof
  assume a: "a \<noteq> - 1" and "a div b = - 1"
  then have "unat a div unat b = unat (- 1 :: u64)"
    by (simp add: unat_div [symmetric])
  then have "unat a div unat b = 2 ^ 64 - 1"
    by (simp add: unsigned_minus_1_eq_mask mask_eq_exp_minus_1)
  then have "2 ^ 64 - 1 \<le> unat a"
    by (metis div_le_dividend)
  then have "unat a = unat (- 1 :: u64)"
    using unsigned_less [where 'a = nat and w = a] by (simp add: unsigned_minus_1_eq_mask mask_eq_exp_minus_1)
  with a show False
    by (simp add: word_unat_eq_iff)
qed

lemma advance_slot_ok:
  assumes "config_ok u" "gens_ok u" "current_ok u" and g: "time_granularity u \<noteq> 0" and t: "t - timeslot_start u \<noteq> - 1"
  shows "\<exists>b. advance_slot u t = Inr (u\<lparr>biggest_timeslot := b\<rparr>) \<and> config_ok (u\<lparr>biggest_timeslot := b\<rparr>) \<and>
    gens_ok (u\<lparr>biggest_timeslot := b\<rparr>) \<and> current_ok (u\<lparr>biggest_timeslot := b\<rparr>)"
proof -
  define s where "s = (t - timeslot_start u) div ucast (time_granularity u)"
  define b where "b = (if s > biggest_timeslot u then s else biggest_timeslot u)"
  have b: "biggest_timeslot u \<le> b" "b \<noteq> - 1"
    using assms(3) quotient_no_wrap [OF t] by (auto simp: b_def s_def current_ok_def)
  have k: "keys_ok (u\<lparr>biggest_timeslot := b\<rparr>) = keys_ok u"
    by (rule keys_ok_cong) simp_all
  have "list_all2 (crit_ok (u\<lparr>biggest_timeslot := b\<rparr>)) (used_criteria u) (g_criteria (generations u ! current_generation u))"
    using assms(3) counts_ok_mono [OF _ b(1)] unfolding k current_ok_def by (auto elim: list_all2_mono)
  then have "current_ok (u\<lparr>biggest_timeslot := b\<rparr>)"
    using assms(3) b(2) by (simp add: current_ok_def)
  moreover have "gens_ok (u\<lparr>biggest_timeslot := b\<rparr>)"
    using assms(2) by (simp add: gens_ok_def k)
  moreover have "advance_slot u t = Inr (u\<lparr>biggest_timeslot := b\<rparr>)"
    using g by (simp add: advance_slot_def b_def s_def Let_def)
  ultimately show ?thesis
    using assms(1) by (auto simp: config_ok_def)
qed

definition room_to_count :: "buckets_data \<Rightarrow> u64 \<Rightarrow> bool" where
  "room_to_count u t \<longleftrightarrow> t - timeslot_start u \<noteq> - 1 \<and>
     (\<forall>c \<in> set (g_criteria (generations u ! current_generation u)). packet_count c \<noteq> - 1)"

lemma packet_ok:
  assumes u: "buckets_inv u" and p: "ps \<noteq> []" "tidy (last ps) \<or> layer (last ps) \<noteq> CHR ''I''"
    and room: "initialized u \<longrightarrow> time_granularity u \<noteq> 0 \<and> room_to_count u t"
  shows "\<exists>u'. packet u ps t = Inr u' \<and> buckets_inv u'"
proof (cases "initialized u \<and> layer (last ps) = CHR ''I''")
  case False
  then show ?thesis
    using u p(1) by (auto simp: packet_def buckets_inv_def current_ok_def)
next
  case True
  then have ok: "config_ok u" "gens_ok u" "current_ok u"
    using u by (auto simp: buckets_inv_def)
  obtain b where b: "advance_slot u t = Inr (u\<lparr>biggest_timeslot := b\<rparr>)" "config_ok (u\<lparr>biggest_timeslot := b\<rparr>)"
      "gens_ok (u\<lparr>biggest_timeslot := b\<rparr>)" "current_ok (u\<lparr>biggest_timeslot := b\<rparr>)"
    using advance_slot_ok [OF ok] room True by (auto simp: room_to_count_def)
  define u1 where "u1 = u\<lparr>biggest_timeslot := b\<rparr>"
  note ok1 = b(2-4) [folded u1_def]
  define g where "g = generations u1 ! current_generation u1"
  have cur: "current_generation u < length (generations u)"
    using ok(3) by (simp add: current_ok_def)
  show ?thesis
  proof (cases "unat b \<ge> max_timeslots u")
    case True
    then show ?thesis
      using \<open>initialized u \<and> _\<close> p(1) cur b by (simp add: packet_def buckets_inv_def)
  next
    case False
    obtain cs where cs: "count_criteria u1 (last ps) (used_criteria u1) (g_criteria g) = Inr cs"
        "list_all2 (crit_ok u1) (used_criteria u1) cs"
      using count_criteria_ok [OF ok1(1), of "last ps" "used_criteria u1" "g_criteria g"] False p(2) True ok1(3) room
      by (auto simp: current_ok_def u1_def room_to_count_def g_def)
    define u2 where "u2 = u1\<lparr>generations := (generations u1)[current_generation u1 := g\<lparr>g_criteria := cs\<rparr>]\<rparr>"
    have k: "keys_ok u2 = keys_ok u1" "counts_ok u2 = counts_ok u1"
      by (rule keys_ok_cong counts_ok_cong; simp add: u2_def)+
    have gm: "current_generation u1 < length (generations u1)"
      using cur by (simp add: u1_def)
    have "current_ok u2"
      using cs(2) ok1(3) gm unfolding current_ok_def k by (simp add: u2_def)
    moreover have "gens_ok u2"
    proof -
      have "list_all2 (keys_ok u1) (used_criteria u1) cs"
        using cs(2) by (auto elim: list_all2_mono)
      then show ?thesis
        using ok1(2) list_all2_lengthD [OF cs(2)] unfolding gens_ok_def k
        by (auto simp: u2_def dest!: set_update_subset_insert [THEN subsetD])
    qed
    moreover have "config_ok u2"
      using ok1(1) by (simp add: config_ok_def u2_def)
    moreover have "packet u ps t = Inr u2"
      using True p(1) cur b(1) False cs(1) by (simp add: packet_def u2_def g_def u1_def Let_def)
    ultimately show ?thesis
      by (simp add: buckets_inv_def)
  qed
qed

subsection \<open>Answering the server\<close>

lemma sum_list_ucast: "sum_list (map ucast cs) = (word_of_nat (sum_list (map unat cs)) :: u64)" for cs :: "u32 list"
  by (induction cs) simp_all

lemma sum_list_zero_tail:
  fixes cs :: "u32 list"
  assumes "\<forall>i < length cs. n \<le> i \<longrightarrow> cs ! i = 0"
  shows "sum_list (map unat (take n cs)) = sum_list (map unat cs)"
proof -
  have "x = 0" if "x \<in> set (drop n cs)" for x
    using that assms by (auto simp: in_set_conv_nth)
  then have "sum_list (map unat (drop n cs)) = 0"
    by (simp add: sum_list_eq_0_iff unat_eq_zero)
  then show ?thesis
    by (metis add_0_right append_take_drop_id map_append sum_list_append)
qed

lemma criterion_bytes_ok:
  assumes "counts_ok u c" and "0 < hash_count u"
    and n: "if glob then n = 0 else n = hash_count u * bucket_count u * (unat (biggest_timeslot u) + 1) \<and>
              unat (biggest_timeslot u) + 1 \<le> max_timeslots u"
  shows "\<exists>bs. criterion_bytes u glob n c = Inr bs"
proof (cases glob)
  case False
  have eq: "n = bucket_count u * hash_count u * (unat (biggest_timeslot u) + 1)"
    using n False by (simp add: ac_simps)
  have len: "n \<le> length (counts c)"
    using assms(1) n False unfolding eq counts_ok_def by (metis mult_le_mono2)
  have "sum_list (map unat (take n (counts c))) = sum_list (map unat (counts c))"
    using assms(1) by (intro sum_list_zero_tail) (simp add: counts_ok_def eq)
  also have "\<dots> = (\<Sum>j < hash_count u. line_sum (bucket_count u) (hash_count u) j (counts c))"
    by (simp add: line_sums assms(2))
  also have "\<dots> = (\<Sum>j < hash_count u. unat (packet_count c))"
    by (rule sum.cong) (use assms(1) in \<open>auto simp: counts_ok_def\<close>)
  finally have "sum_list (map unat (take n (counts c))) = unat (packet_count c) * hash_count u"
    by (simp add: mult.commute)
  then show ?thesis
    using len by (simp add: criterion_bytes_def Let_def sum_list_ucast)
qed (use n in \<open>simp add: criterion_bytes_def Let_def\<close>)

lemma criteria_bytes_ok:
  assumes "\<forall>c \<in> set cs. counts_ok u c" and "0 < hash_count u"
    and "if glob then n = 0 else n = hash_count u * bucket_count u * (unat (biggest_timeslot u) + 1) \<and>
              unat (biggest_timeslot u) + 1 \<le> max_timeslots u"
  shows "\<exists>bs. criteria_bytes u glob n cs = Inr bs"
  using assms(1)
proof (induction cs)
  case (Cons c cs)
  then show ?case
    using criterion_bytes_ok [OF _ assms(2,3), of c] by auto
qed simp

lemma scan_keys_no_assert:
  assumes "list_all2 (keys_ok u) (used_criteria u) (g_criteria g)"
  shows "safe (\<lambda>_. True) (scan_keys u cr g indices)"
proof -
  have hash: "hash_loop r k h \<noteq> Inl Assertion" for r k h
    by (induction r k h rule: hash_loop.induct) auto
  then have bucket: "bucket_of v ksize i k \<noteq> Inl Assertion" for v ksize i k
    by (auto simp: bucket_of_def hash_def rbind_eq_Inl)
  have keep: "keep_candidates v ksize i is ks \<noteq> Inl Assertion" for v ksize i "is" ks
    by (induction v ksize i "is" ks rule: keep_candidates.induct) (auto simp: rbind_eq_Inl bucket)
  have levels: "scan_levels v ksize is n indices ks \<noteq> Inl Assertion" for v ksize "is" n indices ks
    by (induction v ksize "is" n indices ks rule: scan_levels.induct)
       (auto simp: Let_def sanity_def rbind_eq_Inl keep)
  have walk: "fold_result (bucket_keys u c) ks is \<noteq> Inl Assertion" if "keys_ok u d c" for d c ks "is"
  proof (induction "is" arbitrary: ks)
    case (Cons i "is")
    have "bucket_keys u c ks i \<noteq> Inl Assertion"
    proof (cases "unat i < bucket_count u")
      case True
      then have t: "trie_inv (trie c ! unat i)"
        using that by (simp add: keys_ok_def)
      have "fold_result (visit get_key) ks es \<noteq> Inl Assertion" for es
        by (induction es arbitrary: ks) (auto simp: get_key_def visit_def)
      then show ?thesis
        using True by (simp add: bucket_keys_def trie_walk_fold [OF t])
    qed (simp add: bucket_keys_def)
    with Cons show ?case
      by (auto simp: rbind_eq_Inl)
  qed simp
  have "keys_ok u (used_criteria u ! cr) (g_criteria g ! cr)" if "cr < length (used_criteria u)"
    using assms that by (simp add: list_all2_conv_all_nth)
  with walk levels show ?thesis
    by (auto simp: scan_keys_def Let_def sanity_def safe_def rbind_eq_Inl not_le split: sum.split)
qed

text \<open>The plugin as a client of the services of the daemon.\<close>

definition sane_message :: "bytes \<Rightarrow> bool" where
  "sane_message bs \<longleftrightarrow> (bs \<noteq> [] \<and> hd bs = code (CHR ''C'') \<longrightarrow> good_seed (get64 (tl bs)))"

locale buckets_client = plugin_services sv inv mine for sv :: "('c, 'w) services" and inv and mine
begin

lemma provide_generation_safe:
  assumes w: "inv w" and u: "buckets_inv u" "initialized u"
  shows "safe (\<lambda>(w', u'). inv w' \<and> mine w' = mine w \<and> buckets_inv u') (provide_generation sv w u bs)"
proof -
  have ok: "config_ok u" "gens_ok u" "current_ok u"
    using u by (auto simp: buckets_inv_def)
  define big glob slots where "big = biggest_timeslot u + 1" and "glob = (unat big > max_timeslots u)"
    and "slots = (if glob then 0 else big)"
  let ?n = "hash_count u * bucket_count u * unat slots" and ?g = "generations u ! current_generation u"
  let ?u = "u\<lparr>biggest_timeslot := slots\<rparr>" and ?next = "(current_generation u + 1) mod (history_size u + 1)"
  have "biggest_timeslot u \<noteq> - 1"
    using ok(3) by (simp add: current_ok_def)
  then have big: "unat big = unat (biggest_timeslot u) + 1"
    using unatSuc [of "biggest_timeslot u"] minus_equation_iff [of "biggest_timeslot u" 1]
    by (auto simp: big_def add_eq_0_iff add.commute)
  have "\<forall>c \<in> set (g_criteria ?g). counts_ok u c"
    using ok(3) by (auto simp: current_ok_def list_all2_conv_all_nth in_set_conv_nth)
  moreover have "if glob then ?n = 0 else ?n = hash_count u * bucket_count u * (unat (biggest_timeslot u) + 1) \<and>
      unat (biggest_timeslot u) + 1 \<le> max_timeslots u"
    using big by (auto simp: glob_def slots_def)
  ultimately obtain body where body: "criteria_bytes u glob ?n (g_criteria ?g) = Inr body"
    using criteria_bytes_ok ok(1) unfolding config_ok_def by blast
  have k: "keys_ok ?u = keys_ok u"
    by (rule keys_ok_cong) simp_all
  have "config_ok ?u" "gens_ok ?u" "?next < length (generations ?u)"
    using ok(1,2) by (simp_all add: config_ok_def gens_ok_def k)
  from generation_activate_ok [OF this, of "get64 bs"] u(2) have act:
    "\<exists>u'. generation_activate ?u ?next (get64 bs) t = Inr u' \<and> buckets_inv u'" for t
    by (auto simp: buckets_inv_def)
  have tail: "safe (\<lambda>(w', u'). inv w' \<and> mine w' = mine w \<and> buckets_inv u')
      (rbind (sv_tell sv w msg) (\<lambda>w. rbind (generation_activate ?u ?next (get64 bs) (sv_now sv w)) (\<lambda>u. Inr (w, u))))" for msg
  proof (rule safe_bind [OF tell_ok [OF w]])
    fix w' assume w': "inv w' \<and> mine w' = mine w \<and> sv_now sv w' = sv_now sv w"
    obtain u' where "generation_activate ?u ?next (get64 bs) (sv_now sv w') = Inr u'" "buckets_inv u'"
      using act by blast
    then show "safe (\<lambda>(w', u'). inv w' \<and> mine w' = mine w \<and> buckets_inv u')
        (rbind (generation_activate ?u ?next (get64 bs) (sv_now sv w')) (\<lambda>u. Inr (w', u)))"
      using w' by simp
  qed
  have cur: "\<not> current_generation u \<ge> length (generations u)"
    using ok(3) by (simp add: current_ok_def)
  show ?thesis
    unfolding provide_generation_def Let_def if_not_P [OF cur] big_def [symmetric] glob_def [symmetric] slots_def [symmetric]
      body rbind_Inr
    by (rule safe_sanity) (rule tail)
qed

lemma provide_keys_safe:
  assumes w: "inv w" and u: "buckets_inv u" "initialized u"
  shows "safe (\<lambda>w'. inv w' \<and> mine w' = mine w) (provide_keys sv w u bs)"
proof -
  have ok: "gens_ok u"
    using u by (simp add: buckets_inv_def)
  have tell: "safe (\<lambda>w'. inv w' \<and> mine w' = mine w) (sv_tell sv w msg)" for msg
    by (rule safe_mono [OF tell_ok [OF w]]) simp
  have scan: "safe (\<lambda>_. True) (scan_keys u cr g is)" if "g \<in> set (generations u)" "g_timestamp g \<noteq> 0 \<or> g_active g" for cr g "is"
    by (rule scan_keys_no_assert) (use ok that in \<open>auto simp: gens_ok_def\<close>)
  have found: "g \<in> set gs \<and> g_timestamp g = ts" if "find (\<lambda>g. g_timestamp g = ts) gs = Some g" for ts and g :: generation and gs
    using that by (auto simp: find_Some_iff)
  have all: "safe (\<lambda>_. True) (all_keys u cr is ks i)" for cr "is" ks i
    by (auto simp: all_keys_def intro!: safe_bind [OF scan])
  have fold: "safe (\<lambda>_. True) (fold_result (all_keys u cr is) ks xs)" for cr "is" ks xs
    by (rule safe_fold [OF all]) simp
  show ?thesis
    unfolding provide_keys_def Let_def
    by (auto intro!: safe_sanity safe_bind [OF fold] safe_bind [OF scan] tell
        split: option.split dest: found simp del: upt_Suc fold_result_append simp flip: Suc_eq_plus1)
qed

lemma communicate_safe:
  assumes w: "inv w" and u: "buckets_inv u" and bs: "sane_message bs"
  shows "safe (\<lambda>(w', u'). inv w' \<and> mine w' = mine w \<and> buckets_inv u') (communicate sv w u bs)"
proof -
  have conf: "safe buckets_inv (configure u (tl bs) t)" if "bs \<noteq> []" "hd bs = code (CHR ''C'')" for t
    unfolding configure_def by (rule safe_sanity) (use set_up_ok u bs that in \<open>auto simp: sane_message_def\<close>)
  show ?thesis
    unfolding communicate_def
    by (rule safe_sanity)
       (use assms in \<open>auto intro!: safe_bind [OF conf] safe_bind [OF provide_keys_safe] provide_generation_safe\<close>)
qed

lemma communicate_keeps:
  assumes "inv w" and "buckets_inv u" and "communicate sv w u bs = Inr (w', u')"
  shows "inv w' \<and> buckets_inv u'"
proof (cases "sane_message bs")
  case True
  then show ?thesis
    using communicate_safe [OF assms(1,2)] assms(3) by fastforce
next
  case False
  then have c: "bs \<noteq> []" "hd bs = code (CHR ''C'')" "\<not> good_seed (get64 (tl bs))"
    by (auto simp: sane_message_def)
  then have "set_up u (tl bs) t \<noteq> Inr u'" for t
    by (auto simp: set_up_def Let_def result_simps gen_hash_data_def rng_seed_init_rejects)
  with c assms show ?thesis
    by (auto simp: communicate_def configure_def result_simps split: if_splits)
qed

lemma connected_safe:
  assumes "inv w" and "buckets_inv u"
  shows "safe (\<lambda>(w', u'). inv w' \<and> mine w' = mine w \<and> buckets_inv u') (connected sv w u)"
proof -
  let ?u = "u\<lparr>generations := map (\<lambda>g. g\<lparr>g_active := False\<rparr>) (generations u)\<rparr>"
  have k: "keys_ok ?u = keys_ok u" "counts_ok ?u = counts_ok u"
    by (rule keys_ok_cong counts_ok_cong; simp)+
  have "buckets_inv ?u" if "initialized u"
    using assms(2) that by (auto simp: buckets_inv_def config_ok_def gens_ok_def current_ok_def k)
  then show ?thesis
    unfolding connected_def by (rule_tac safe_bind [OF tell_ok [OF assms(1)]]) (use assms(2) in auto)
qed

end

interpretation bc: buckets_client "plugin_service (silent m) i" live "plugin_timers i"
  by unfold_locales

subsection \<open>Which keys are sent\<close>

definition stored_keys :: "criterion \<Rightarrow> bytes set" where
  "stored_keys c = (\<Union>t \<in> set (trie c). dom (trie_map t))"

lemma stored_in_bucket:
  assumes "keys_ok u d c"
  shows "k \<in> dom (trie_map (trie c ! j)) \<and> j < bucket_count u \<longleftrightarrow> k \<in> stored_keys c \<and> bucket_of u (key_size d) 0 k = Inr j"
proof -
  have len: "length (trie c) = bucket_count u"
    and dom: "dom (trie_map (trie c ! i)) \<subseteq> {k. length k = key_size d \<and> bucket_of u (key_size d) 0 k = Inr i}" if "i < bucket_count u" for i
    using assms that by (auto simp: keys_ok_def)
  show ?thesis
  proof
    assume "k \<in> dom (trie_map (trie c ! j)) \<and> j < bucket_count u"
    then show "k \<in> stored_keys c \<and> bucket_of u (key_size d) 0 k = Inr j"
      using dom [of j] assms by (auto simp: stored_keys_def keys_ok_def)
  next
    assume k: "k \<in> stored_keys c \<and> bucket_of u (key_size d) 0 k = Inr j"
    then obtain t where "t \<in> set (trie c)" "k \<in> dom (trie_map t)"
      unfolding stored_keys_def by blast
    moreover have "length (trie c) = bucket_count u"
      using assms by (simp add: keys_ok_def)
    ultimately obtain i where i: "i < bucket_count u" "k \<in> dom (trie_map (trie c ! i))"
      by (metis in_set_conv_nth)
    with dom [OF i(1)] k show "k \<in> dom (trie_map (trie c ! j)) \<and> j < bucket_count u"
      by auto
  qed
qed

lemma get_key_walk:
  assumes "trie_inv t"
  shows "\<exists>ks. trie_walk t get_key cands = Inr (cands @ ks) \<and> set ks = dom (trie_map t)"
proof -
  have "fold_result (visit get_key) cands es = Inr (cands @ map fst es)" for es
    by (induction es arbitrary: cands) (auto simp: visit_def get_key_def)
  moreover have "set (map fst (entries (troot t))) = dom (trie_map t)"
    by (simp add: trie_map_def dom_map_of_conv_image_fst)
  ultimately show ?thesis
    by (simp add: trie_walk_fold [OF assms])
qed

lemma bucket_keys_fold:
  assumes c: "keys_ok u d c"
  shows "\<forall>i \<in> set is. unat i < bucket_count u \<Longrightarrow>
    \<exists>ks. fold_result (bucket_keys u c) cands is = Inr ks \<and>
      set ks = set cands \<union> {k \<in> stored_keys c. \<exists>i \<in> set is. bucket_of u (key_size d) 0 k = Inr (unat i)}"
proof (induction "is" arbitrary: cands)
  case (Cons i "is")
  have t: "trie_inv (trie c ! unat i)" "unat i < bucket_count u" "length (trie c) = bucket_count u"
    using c Cons.prems by (auto simp: keys_ok_def)
  obtain ks where ks: "trie_walk (trie c ! unat i) get_key cands = Inr (cands @ ks)" "set ks = dom (trie_map (trie c ! unat i))"
    using get_key_walk [OF t(1)] by blast
  have "set ks = {k \<in> stored_keys c. bucket_of u (key_size d) 0 k = Inr (unat i)}"
    using stored_in_bucket [OF c, of _ "unat i"] t(2) ks(2) by auto
  moreover obtain ks' where "fold_result (bucket_keys u c) (cands @ ks) is = Inr ks'"
      "set ks' = set (cands @ ks) \<union> {k \<in> stored_keys c. \<exists>i \<in> set is. bucket_of u (key_size d) 0 k = Inr (unat i)}"
    using Cons.IH [of "cands @ ks"] Cons.prems by auto
  moreover have "bucket_keys u c cands i = Inr (cands @ ks)"
    using ks(1) t by (simp add: bucket_keys_def)
  ultimately show ?case
    by auto
qed simp

lemma keep_candidates_filter:
  assumes "\<forall>k \<in> set ks. \<exists>b. bucket_of u ksize i k = Inr b"
  shows "keep_candidates u ksize i is ks = Inr (filter (\<lambda>k. \<exists>x \<in> set is. bucket_of u ksize i k = Inr (unat x)) ks)"
  using assms by (induction ks) auto

text \<open>A request: for every hash the number of buckets and their indices.\<close>

definition request :: "u32 list list \<Rightarrow> u32 list" where
  "request groups = concat (map (\<lambda>g. word_of_nat (length g) # g) groups)"

definition in_groups :: "buckets_data \<Rightarrow> nat \<Rightarrow> nat list \<Rightarrow> u32 list list \<Rightarrow> bytes \<Rightarrow> bool" where
  "in_groups u ksize hashes groups k \<longleftrightarrow>
     (\<forall>(i, g) \<in> set (zip hashes groups). \<exists>x \<in> set g. bucket_of u ksize i k = Inr (unat x))"

lemma in_groups_nth:
  assumes "length groups = n"
  shows "in_groups u ksize [0..<n] groups k \<longleftrightarrow> (\<forall>j < n. \<exists>x \<in> set (groups ! j). bucket_of u ksize j k = Inr (unat x))"
  using assms by (simp add: in_groups_def all_set_conv_all_nth)

lemma unat_of_length: "length g < 2 ^ 32 \<Longrightarrow> unat (word_of_nat (length g) :: u32) = length g"
  by (simp add: unsigned_of_nat take_bit_nat_eq_self)

lemma scan_levels_filter:
  assumes "length is = length groups" and "\<forall>g \<in> set groups. length g < 2 ^ 32" and "length g0 = n"
    and "\<forall>k \<in> set ks. \<forall>i \<in> set is. \<exists>b. bucket_of u ksize i k = Inr b"
  shows "scan_levels u ksize is n (g0 @ request groups) ks = Inr (filter (in_groups u ksize is groups) ks)"
  using assms
proof (induction "is" groups arbitrary: n g0 ks rule: list_induct2)
  case (Cons i "is" g groups)
  let ?f = "\<lambda>k. \<exists>x \<in> set g. bucket_of u ksize i k = Inr (unat x)"
  have "scan_levels u ksize is (length g) (g @ request groups) (filter ?f ks) =
      Inr (filter (in_groups u ksize is groups) (filter ?f ks))"
    by (rule Cons.IH) (use Cons.prems in auto)
  moreover have "keep_candidates u ksize i g ks = Inr (filter ?f ks)"
    by (rule keep_candidates_filter) (use Cons.prems in auto)
  moreover have "unat (word_of_nat (length g) :: u32) = length g"
    by (rule unat_of_length) (use Cons.prems in simp)
  ultimately show ?case
    using Cons.prems(2) by (simp add: request_def Let_def in_groups_def conj_commute)
qed (simp add: request_def in_groups_def)

lemma keys_ok_hashed:
  assumes "config_ok u" and "d \<in> set (used_criteria u)" and "keys_ok u d c" and "k \<in> stored_keys c" and "i < hash_count u"
  shows "\<exists>b < bucket_count u. bucket_of u (key_size d) i k = Inr b"
proof -
  obtain t where t: "t \<in> set (trie c)" "k \<in> dom (trie_map t)"
    using assms(4) unfolding stored_keys_def by blast
  then obtain j where "j < bucket_count u" "trie c ! j = t"
    using assms(3) unfolding keys_ok_def by (metis in_set_conv_nth)
  then have "length k = key_size d"
    using assms(3) t(2) unfolding keys_ok_def by blast
  then show ?thesis
    using assms by (intro bucket_of_total) (auto simp: config_ok_def)
qed

subsection \<open>Properties\<close>

text \<open>The life of the plugin: initialisation, packets, messages and connections, and anything
  else that happens in the daemon in between. A packet is as the parser gives it and comes before
  the counters and the clock are exhausted.\<close>

definition parsed :: "packet \<Rightarrow> bool" where
  "parsed ps \<longleftrightarrow> ps \<noteq> [] \<and> (tidy (last ps) \<or> layer (last ps) \<noteq> CHR ''I'')"

inductive buckets_reach :: "('z, 'c, 'p) platform \<Rightarrow> nat \<Rightarrow> ('z, 'c, 'p) world \<Rightarrow> buckets_data \<Rightarrow> bool" for m i where
  init: "live w \<Longrightarrow> initialize (plugin_service (silent m) i) w = Inr (w', u) \<Longrightarrow> buckets_reach m i w' u"
| others: "buckets_reach m i w u \<Longrightarrow> live w' \<Longrightarrow> buckets_reach m i w' u"
| packet: "buckets_reach m i w u \<Longrightarrow> parsed ps \<Longrightarrow> initialized u \<longrightarrow> room_to_count u (now (w_timeouts w)) \<Longrightarrow>
    packet u ps (now (w_timeouts w)) = Inr u' \<Longrightarrow> buckets_reach m i w u'"
| message: "buckets_reach m i w u \<Longrightarrow> communicate (plugin_service (silent m) i) w u bs = Inr (w', u') \<Longrightarrow> buckets_reach m i w' u'"
| connect: "buckets_reach m i w u \<Longrightarrow> connected (plugin_service (silent m) i) w u = Inr (w', u') \<Longrightarrow> buckets_reach m i w' u'"

lemma packet_needs_granularity:
  "packet u ps t = Inr u' \<Longrightarrow> initialized u \<Longrightarrow> layer (last ps) = CHR ''I'' \<Longrightarrow> time_granularity u \<noteq> 0"
  by (auto simp: packet_def advance_slot_def split: if_splits)

lemma buckets_reach_inv: "buckets_reach m i w u \<Longrightarrow> live w \<and> buckets_inv u"
proof (induction rule: buckets_reach.induct)
  case (init w w' u)
  have "safe (\<lambda>w'. live w' \<and> plugin_timers i w' = plugin_timers i w \<and>
      sv_now (plugin_service (silent m) i) w' = sv_now (plugin_service (silent m) i) w)
    (sv_tell (plugin_service (silent m) i) w [code (CHR ''C'')])"
    by (rule ps.tell_ok [OF init(1)])
  with init(2) show ?case
    by (auto simp: initialize_def result_simps buckets_inv_def buckets_data_init_def)
next
  case (packet w u ps u')
  show ?case
  proof (cases "initialized u \<and> layer (last ps) = CHR ''I''")
    case True
    then have "initialized u \<longrightarrow> time_granularity u \<noteq> 0 \<and> room_to_count u (now (w_timeouts w))"
      using packet packet_needs_granularity by blast
    with packet_ok [of u ps "now (w_timeouts w)"] packet show ?thesis
      by (auto simp: parsed_def)
  next
    case False
    with packet show ?thesis
      by (auto simp: packet_def split: if_splits)
  qed
next
  case (message w u bs w' u')
  then show ?case
    using bc.communicate_keeps by blast
next
  case (connect w u w' u')
  have "safe (\<lambda>(w', u'). live w' \<and> plugin_timers i w' = plugin_timers i w \<and> buckets_inv u')
      (connected (plugin_service (silent m) i) w u)"
    by (rule bc.connected_safe) (use connect.IH in auto)
  with connect.hyps(2) show ?case
    by simp
qed simp


text \<open>A configuration with two hashes of four buckets, by the remote port.\<close>

definition sample_config :: bytes where
  "sample_config = code (CHR ''C'') # put64 3 @ put64 9 @ put32 4 @ put32 2 @ put32 1 @ put32 0 @ put32 7 @ put32 100 @
     put32 10 @ put32 1000 @ [code (CHR ''P'')]"

lemma good_seed_3: "good_seed 3"
  unfolding good_seed_def by (intro conjI bexI [of _ 0]) simp_all

lemma configured:
  "\<exists>u. buckets_reach idle_platform 0 (offline_world :: (unit, unit, unit) world) u \<and> initialized u \<and> hash_count u = 2 \<and>
     bucket_count u = 4 \<and> length (used_criteria u) = 1 \<and> time_granularity u = 1000 \<and>
     (\<exists>g. generations u = [g] \<and> g_timestamp g = 9)"
proof -
  have init: "buckets_reach idle_platform 0 (offline_world :: (unit, unit, unit) world) buckets_data_init"
    by (rule buckets_reach.init [OF offline_live(1)]) (simp add: initialize_def sv_tell_def offline_send)
  have p: "find_criterion (code (CHR ''P'')) = Inr \<lparr>key_size = PORT_SIZE, extract_key = extract_port, cname = code (CHR ''P'')\<rparr>"
    by (simp add: find_criterion_def criteria_def code_def)
  obtain rnd where rnd: "gen_hash_data 3 2 512 = Inr rnd"
    using gen_hash_data_ok [OF good_seed_3] by blast
  obtain u where u: "set_up buckets_data_init (tl sample_config) 5000 = Inr u" "initialized u" "hash_count u = 2"
      "bucket_count u = 4" "length (used_criteria u) = 1" "time_granularity u = 1000" "\<exists>g. generations u = [g] \<and> g_timestamp g = 9"
    by (simp add: set_up_def sample_config_def p rnd PORT_SIZE_def Let_def generation_activate_def)
  have "communicate (plugin_service (silent idle_platform) 0) offline_world buckets_data_init sample_config =
      Inr (offline_world :: (unit, unit, unit) world, u)"
    using u(1) by (simp add: communicate_def configure_def plugin_service_def offline_world_def buckets_data_init_def)
       (simp add: sample_config_def)
  with init have "buckets_reach idle_platform 0 (offline_world :: (unit, unit, unit) world) u"
    by (rule buckets_reach.message)
  with u(2-) show ?thesis
    by blast
qed


text \<open>
  C27: Asked for keys, the plugin sends exactly those it stored in that generation that lie in one of
  the requested buckets by every one of the hash functions. The request lists, for each hash, how
  many buckets there are and which; the indices of the first hash have to exist.
\<close>

theorem scan_keys_exact:
  assumes "buckets_reach m i w u" and "initialized u" and "cr < length (used_criteria u)"
    and "g \<in> set (generations u)" and "g_timestamp g \<noteq> 0 \<or> g_active g"
    and "length groups = hash_count u" and "\<forall>is \<in> set groups. length is < 2 ^ 32"
    and "\<forall>x \<in> set (hd groups). unat x < bucket_count u"
  shows "\<exists>ks. scan_keys u cr g (request groups) = Inr ks \<and>
    set ks = {k \<in> stored_keys (g_criteria g ! cr). \<forall>j < hash_count u. \<exists>x \<in> set (groups ! j).
      bucket_of u (key_size (used_criteria u ! cr)) j k = Inr (unat x)}"
proof -
  let ?d = "used_criteria u ! cr" and ?c = "g_criteria g ! cr"
  have inv: "config_ok u" "gens_ok u"
    using buckets_reach_inv [OF assms(1)] assms(2) by (auto simp: buckets_inv_def)
  have "list_all2 (keys_ok u) (used_criteria u) (g_criteria g)"
    using inv(2) assms(4,5) unfolding gens_ok_def by blast
  then have keys: "keys_ok u ?d ?c" "cr < length (g_criteria g)"
    using assms(3) by (simp_all add: list_all2_conv_all_nth)
  obtain g0 gs where groups: "groups = g0 # gs"
    using inv(1) assms(6) by (cases groups) (auto simp: config_ok_def)
  have hc: "[0..<hash_count u] = 0 # [1..<hash_count u]"
    using inv(1) by (simp add: config_ok_def upt_conv_Cons)
  obtain ks where ks: "fold_result (bucket_keys u ?c) [] g0 = Inr ks"
      "set ks = {k \<in> stored_keys ?c. \<exists>x \<in> set g0. bucket_of u (key_size ?d) 0 k = Inr (unat x)}"
    using bucket_keys_fold [OF keys(1), of g0 "[]"] assms(8) groups by auto
  have hashed: "\<forall>k \<in> set ks. \<forall>i \<in> set [1..<hash_count u]. \<exists>b. bucket_of u (key_size ?d) i k = Inr b"
    using keys_ok_hashed [OF inv(1) _ keys(1)] assms(3) ks(2) by fastforce
  have "scan_keys u cr g (request groups) =
      scan_levels u (key_size ?d) [1..<hash_count u] (length g0) (g0 @ request gs) ks"
    using assms(3,7) keys(2) ks(1) unat_of_length [of g0] groups by (simp add: scan_keys_def request_def)
  also have "\<dots> = Inr (filter (in_groups u (key_size ?d) [1..<hash_count u] gs) ks)"
    by (rule scan_levels_filter) (use assms(6,7) groups hashed in auto)
  finally have "scan_keys u cr g (request groups) = Inr (filter (in_groups u (key_size ?d) [1..<hash_count u] gs) ks)" .
  moreover have "in_groups u (key_size ?d) [0..<hash_count u] groups k \<longleftrightarrow>
      (\<exists>x \<in> set g0. bucket_of u (key_size ?d) 0 k = Inr (unat x)) \<and> in_groups u (key_size ?d) [1..<hash_count u] gs k" for k
    unfolding hc groups by (simp add: in_groups_def)
  ultimately show ?thesis
    using ks(2) in_groups_nth [OF assms(6)] by auto
qed

theorem scan_keys_exact_witness:
  "\<exists>u g ks. initialized u \<and> g \<in> set (generations u) \<and> scan_keys u 0 g (request [[1], [2, 3]]) = Inr ks \<and>
     set ks \<subseteq> stored_keys (g_criteria g ! 0)"
proof -
  obtain u g where u: "buckets_reach idle_platform 0 (offline_world :: (unit, unit, unit) world) u" "initialized u" "hash_count u = 2"
      "bucket_count u = 4" "length (used_criteria u) = 1" "generations u = [g]" "g_timestamp g = 9"
    using configured by blast
  then obtain ks where "scan_keys u 0 g (request [[1], [2, 3]]) = Inr ks" "set ks \<subseteq> stored_keys (g_criteria g ! 0)"
    using scan_keys_exact [OF u(1,2), of 0 g "[[1], [2, 3]]"] by auto
  then show ?thesis
    using u(2,6) by (intro exI [of _ u] exI [of _ g]) auto
qed

end
