(* ===== verification/Refused.thy ===== *)
theory Refused
  imports Packet Services Trie
begin

text \<open>
  The refused plugin (\<open>plugins/refused/refused.c\<close> and \<open>icmp.c\<close>): it watches TCP connections from
  the first packet until they are accepted, refused or timed out, and reports those that were not
  accepted.

  The objects \<open>struct trie_data\<close> live in a heap from addresses to records; the trie holds their
  addresses. The list of undecided connections is the list of their addresses in order (\<open>LinkList\<close>
  shows that the generated list operations act on it as on a sequence). The two pools are one heap
  in which addresses are never used twice; \<open>None\<close> as the new instance stands for the uninitialised
  pointer, which the code never reads.
\<close>

subsection \<open>ICMP messages\<close>

text \<open>The kind of refusal, a pointer to the remote address, the local and the remote port.\<close>

type_synonym nak = "char \<times> bytes \<times> u16 \<times> u16"

definition nak_reason :: "char \<Rightarrow> byte \<Rightarrow> char option" where
  "nak_reason app c =
     (if app = CHR ''i'' then
        if c = 0 \<or> c = 6 then Some CHR ''N''
        else if c = 1 \<or> c = 7 then Some CHR ''H''
        else if c = 3 then Some CHR ''P''
        else if c = 9 \<or> c = 10 \<or> c = 13 then Some CHR ''A''
        else if c = 4 then None
        else Some CHR ''O''
      else
        if c = 0 then Some CHR ''N''
        else if c = 1 then Some CHR ''A''
        else if c = 3 then Some CHR ''H''
        else if c = 4 then Some CHR ''P''
        else Some CHR ''O'')"

text \<open>The inner IP header: where the address is and how long the header is.\<close>

definition inner_ip :: "bytes \<Rightarrow> nat \<Rightarrow> (bytes \<times> nat) option result" where
  "inner_ip data data_len =
     rbind (rd8 data 8) (\<lambda>vb.
       if unat vb div 16 = 4 then
         rbind (rd16 data 14) (\<lambda>frag.
           if frag AND 0x1fff \<noteq> 0 then Inr None
           else rbind (rd8 data 17) (\<lambda>protocol.
             if protocol \<noteq> 6 then Inr None else Inr (Some (drop 24 data, 4 * (unat vb mod 16)))))
       else if unat vb div 16 = 6 then
         (if data_len < 40 then Inr None
          else rbind (rd8 data 14) (\<lambda>nxt.
            if nxt \<noteq> 6 then Inr None else Inr (Some (drop 32 data, 40))))
       else Inr None)"

definition nak_parse :: "packet_info \<Rightarrow> nak option result" where
  "nak_parse p =
     assert_then (layer p = CHR ''I'') (assert_then (app_protocol p = CHR ''I'' \<or> app_protocol p = CHR ''i'')
       (let data_len = size_sub (plength p) (hdr_length p);
            data = drop (hdr_length p) (pdata p)
        in if data_len < 8 then Inr None
           else rbind (rd8 data 0) (\<lambda>type.
             if type \<noteq> (if app_protocol p = CHR ''i'' then 3 else 1) then Inr None
             else if data_len < 8 + 20 then Inr None
             else rbind (inner_ip data data_len) (\<lambda>r.
               case r of
                 None \<Rightarrow> Inr None
               | Some (addr, ip_len) \<Rightarrow>
                   if data_len < 8 + ip_len + 8 then Inr None
                   else rbind (rd16 data (8 + ip_len)) (\<lambda>loc_port.
                     rbind (rd16 data (8 + ip_len + 2)) (\<lambda>dest_port.
                       rbind (rd8 data 1) (\<lambda>c.
                         Inr (map_option (\<lambda>t. (t, addr, loc_port, dest_port)) (nak_reason (app_protocol p) c)))))))))"

subsection \<open>State\<close>

datatype event_type = EVENT_SYN | EVENT_ACK | EVENT_NAK | EVENT_TIMEOUT

record trie_data =
  c_time :: u64
  events :: "event_type \<Rightarrow> bool"
  c_v6 :: bool
  completed :: bool
  transmitted :: bool
  nak_type :: char
  new_instance :: "nat option"

record refused_data =
  r_active :: bool
  connections :: "nat trie"
  objects :: "nat \<Rightarrow> trie_data"
  next_object :: nat
  undecided :: nat
  finished :: nat
  send_v4 :: nat
  send_v6 :: nat
  timeout_list :: "nat list"
  r_timeout :: u64
  max_age :: u64
  finished_limit :: u32
  send_limit :: u32
  undecided_limit :: u32
  timeout_scheduled :: bool
  r_timeout_id :: u64
  r_config_version :: u32
  timeout_missed :: bool

subsection \<open>Sending\<close>

definition conn_record :: "endian \<Rightarrow> trie_data \<Rightarrow> bytes \<Rightarrow> bytes" where
  "conn_record e d key =
     (let n = (if c_v6 d then 16 else 4)
      in put64 (c_time d) @
         [code (if events d EVENT_NAK then nak_type d else CHR ''T''), if c_v6 d then 6 else 4] @
         put16 (load16 e (drop n key)) @ put16 (load16 e (drop (n + 2) key)) @ take n key)"

definition serialize_callback ::
  "endian \<Rightarrow> bytes \<times> nat \<times> (nat \<Rightarrow> trie_data) \<Rightarrow> bytes \<Rightarrow> nat option \<Rightarrow> (bytes \<times> nat \<times> (nat \<Rightarrow> trie_data)) result" where
  "serialize_callback e = (\<lambda>(msg, room, objs) key data.
     case data of
       None \<Rightarrow> Inl BadAccess
     | Some a \<Rightarrow>
         let d = objs a; objs' = objs(a := d\<lparr>transmitted := True\<rparr>); n = (if c_v6 d then 16 else 4)
         in if \<not> completed d then Inr (msg, room, objs)
            else if transmitted d then Inr (msg, room, objs)
            else if \<not> events d EVENT_SYN \<or> events d EVENT_ACK then Inr (msg, room, objs')
            else assert_then (length key = n + 4) (assert_then (14 + n \<le> room)
                   (Inr (msg @ conn_record e d key, room - (14 + n), objs'))))"

definition unmark_transmitted_callback :: "(nat \<Rightarrow> trie_data) \<Rightarrow> bytes \<Rightarrow> nat option \<Rightarrow> (nat \<Rightarrow> trie_data) result" where
  "unmark_transmitted_callback objs key data =
     (case data of None \<Rightarrow> Inl BadAccess | Some a \<Rightarrow> Inr (objs(a := (objs a)\<lparr>transmitted := False\<rparr>)))"

definition restart_timeout :: "(unit, 'w) services \<Rightarrow> 'w \<Rightarrow> refused_data \<Rightarrow> ('w \<times> refused_data) result" where
  "restart_timeout sv w u =
     rbind (if timeout_scheduled u then sv_timeout_cancel sv w (r_timeout_id u) else Inr w) (\<lambda>w.
       rbind (sv_timeout_add sv w (ucast (max_age u)) ()) (\<lambda>(i, w).
         Inr (w, u\<lparr>timeout_scheduled := True, r_timeout_id := i\<rparr>)))"

definition send_report :: "endian \<Rightarrow> (unit, 'w) services \<Rightarrow> 'w \<Rightarrow> refused_data \<Rightarrow> bool \<Rightarrow> (bool \<times> 'w \<times> refused_data) result" where
  "send_report e sv w u force =
     rbind (trie_walk (connections u) (serialize_callback e)
              ([], send_v4 u * (14 + 4) + send_v6 u * (14 + 16), objects u)) (\<lambda>(msg, room, objs).
       assert_then (room = 0)
         (rbind (sv_send sv w (code (CHR ''D'') # put64 (sv_now sv w) @ msg)) (\<lambda>(ok, w).
            if \<not> ok \<and> \<not> force then
              rbind (trie_walk (connections u) unmark_transmitted_callback objs) (\<lambda>objs.
                Inr (False, w, u\<lparr>objects := objs\<rparr>))
            else Inr (True, w, u\<lparr>objects := objs, timeout_missed := False, send_v4 := 0, send_v6 := 0\<rparr>))))"

definition transmit :: "endian \<Rightarrow> (unit, 'w) services \<Rightarrow> 'w \<Rightarrow> refused_data \<Rightarrow> bool \<Rightarrow> (bool \<times> 'w \<times> refused_data) result" where
  "transmit e sv w u force =
     rbind (restart_timeout sv w u) (\<lambda>(w, u).
       if \<not> force \<and> \<not> sv_connected sv w then Inr (False, w, u) else send_report e sv w u force)"

subsection \<open>Consolidation\<close>

record consolidate_params =
  dest :: "nat trie"
  heap :: "nat \<Rightarrow> trie_data"
  fresh :: nat
  p_undecided :: nat
  p_finished :: nat
  p_send_v4 :: nat
  p_send_v6 :: nat

definition count_copied :: "trie_data \<Rightarrow> consolidate_params \<Rightarrow> consolidate_params" where
  "count_copied d ps =
     (if completed d then
        let ps = ps\<lparr>p_finished := p_finished ps + 1\<rparr>
        in if c_v6 d then ps\<lparr>p_send_v6 := p_send_v6 ps + 1\<rparr> else ps\<lparr>p_send_v4 := p_send_v4 ps + 1\<rparr>
      else ps\<lparr>p_undecided := p_undecided ps + 1\<rparr>)"

definition kept :: "trie_data \<Rightarrow> bool" where
  "kept d \<longleftrightarrow> \<not> transmitted d \<and> \<not> (completed d \<and> events d EVENT_ACK) \<and> \<not> (completed d \<and> \<not> events d EVENT_SYN)"

definition consolidate_callback :: "consolidate_params \<Rightarrow> bytes \<Rightarrow> nat option \<Rightarrow> consolidate_params result" where
  "consolidate_callback ps key data =
     (case data of
        None \<Rightarrow> Inl BadAccess
      | Some a \<Rightarrow>
          let d = heap ps a
          in if \<not> kept d then Inr ps
             else let new = fresh ps
               in rbind (trie_put (dest ps) key (Some new)) (\<lambda>t.
                    Inr (count_copied d
                      (ps\<lparr>dest := t, fresh := new + 1, heap := (heap ps)(new := d, a := d\<lparr>new_instance := Some new\<rparr>)\<rparr>))))"

fun new_instances :: "(nat \<Rightarrow> trie_data) \<Rightarrow> nat list \<Rightarrow> nat list result" where
  "new_instances objs [] = Inr []"
| "new_instances objs (a # as) =
     (case new_instance (objs a) of
        None \<Rightarrow> Inl BadAccess
      | Some b \<Rightarrow> rbind (new_instances objs as) (\<lambda>bs. Inr (b # bs)))"

definition consolidate :: "refused_data \<Rightarrow> refused_data result" where
  "consolidate u =
     rbind (trie_walk (connections u) consolidate_callback
              \<lparr>dest = trie_alloc, heap = objects u, fresh = next_object u, p_undecided = 0, p_finished = 0,
               p_send_v4 = 0, p_send_v6 = 0\<rparr>) (\<lambda>ps.
       rbind (new_instances (heap ps) (timeout_list u)) (\<lambda>as.
         assert_then (undecided u = p_undecided ps) (assert_then (finished u \<ge> p_finished ps)
           (assert_then (send_v4 u = p_send_v4 ps) (assert_then (send_v6 u = p_send_v6 ps)
             (Inr (u\<lparr>timeout_list := as, connections := dest ps, objects := heap ps, next_object := fresh ps,
                     finished := p_finished ps\<rparr>)))))))"

definition send_timeout :: "endian \<Rightarrow> (unit, 'w) services \<Rightarrow> 'w \<Rightarrow> refused_data \<Rightarrow> ('w \<times> refused_data) result" where
  "send_timeout e sv w u =
     (if send_v4 u = 0 \<and> send_v6 u = 0 then
        rbind (sv_timeout_add sv w (ucast (max_age u)) ()) (\<lambda>(i, w). Inr (w, u\<lparr>r_timeout_id := i\<rparr>))
      else rbind (transmit e sv w (u\<lparr>timeout_scheduled := False\<rparr>) (timeout_missed u)) (\<lambda>(ok, w, u).
        if \<not> ok then Inr (w, u\<lparr>timeout_missed := True\<rparr>)
        else rbind (consolidate u) (\<lambda>u. Inr (w, u))))"

subsection \<open>Events\<close>

definition decided :: "trie_data \<Rightarrow> bool" where
  "decided d \<longleftrightarrow> events d EVENT_TIMEOUT \<or> (events d EVENT_SYN \<and> (events d EVENT_ACK \<or> events d EVENT_NAK))"

definition note_event :: "event_type \<Rightarrow> char \<Rightarrow> trie_data \<Rightarrow> trie_data" where
  "note_event type nak d =
     (let d = d\<lparr>events := (events d)(type := True)\<rparr> in if type = EVENT_NAK then d\<lparr>nak_type := nak\<rparr> else d)"

definition handle_event_found :: "event_type \<Rightarrow> char \<Rightarrow> nat \<Rightarrow> refused_data \<Rightarrow> refused_data" where
  "handle_event_found type nak a u =
     (let d = note_event type nak (objects u a)
      in if decided d then
           let u = (if events d EVENT_SYN \<and> \<not> events d EVENT_ACK then
                      if c_v6 d then u\<lparr>send_v6 := send_v6 u + 1\<rparr> else u\<lparr>send_v4 := send_v4 u + 1\<rparr>
                    else u)
           in u\<lparr>undecided := size_sub (undecided u) 1, finished := finished u + 1,
                timeout_list := remove1 a (timeout_list u), objects := (objects u)(a := d\<lparr>completed := True\<rparr>)\<rparr>
         else u\<lparr>objects := (objects u)(a := d)\<rparr>)"

definition conn_key :: "endian \<Rightarrow> bool \<Rightarrow> bytes option \<Rightarrow> u16 \<Rightarrow> u16 \<Rightarrow> bytes result" where
  "conn_key e v6 addr loc_port rem_port =
     (let n = (if v6 then 16 else 4)
      in case addr of
           None \<Rightarrow> Inl BadAccess
         | Some bs \<Rightarrow> if length bs < n then Inl BadAccess else Inr (take n bs @ host16 e loc_port @ host16 e rem_port))"

definition new_connection :: "u64 \<Rightarrow> bool \<Rightarrow> trie_data" where
  "new_connection t v6 =
     \<lparr>c_time = t, events = (\<lambda>_. False), c_v6 = v6, completed = False, transmitted = False, nak_type = NUL, new_instance = None\<rparr>"

definition handle_event ::
  "endian \<Rightarrow> u64 \<Rightarrow> refused_data \<Rightarrow> event_type \<Rightarrow> char \<Rightarrow> bool \<Rightarrow> bytes option \<Rightarrow> u16 \<Rightarrow> u16 \<Rightarrow> refused_data result" where
  "handle_event e t u type nak v6 addr loc_port rem_port =
     rbind (conn_key e v6 addr loc_port rem_port) (\<lambda>key.
       rbind (trie_lookup (connections u) key) (\<lambda>(tr, d).
         let u = u\<lparr>connections := tr\<rparr>
         in case d of
              Some a \<Rightarrow> Inr (if completed (objects u a) then u else handle_event_found type nak a u)
            | None \<Rightarrow>
                assert_then (type \<noteq> EVENT_TIMEOUT)
                  (if undecided u \<ge> unat (undecided_limit u) then Inr u
                   else let a = next_object u
                     in rbind (trie_put (connections u) key (Some a)) (\<lambda>tr.
                          Inr (handle_event_found type nak a
                            (u\<lparr>connections := tr, undecided := undecided u + 1, next_object := a + 1,
                               timeout_list := timeout_list u @ [a], objects := (objects u)(a := new_connection t v6)\<rparr>))))))"

lemma found_timeout_list:
  "timeout_list (handle_event_found type nak a u) =
     (if decided (note_event type nak (objects u a)) then remove1 a (timeout_list u) else timeout_list u)"
  by (simp add: handle_event_found_def Let_def)

lemma note_timeout_decided: "decided (note_event EVENT_TIMEOUT nak d)"
  by (simp add: note_event_def decided_def)

function timeouts_evaluate :: "u64 \<Rightarrow> refused_data \<Rightarrow> refused_data result" where
  "timeouts_evaluate t u =
     (case timeout_list u of
        [] \<Rightarrow> Inr u
      | a # as \<Rightarrow>
          if c_time (objects u a) + r_timeout u < t then
            let u = handle_event_found EVENT_TIMEOUT NUL a u
            in assert_then (timeout_list u = [] \<or> hd (timeout_list u) \<noteq> a) (timeouts_evaluate t u)
          else Inr u)"
  by pat_completeness auto
termination
  by (relation "measure (\<lambda>(t, u). length (timeout_list u))") (simp_all add: found_timeout_list note_timeout_decided)

definition limits_check :: "endian \<Rightarrow> (unit, 'w) services \<Rightarrow> 'w \<Rightarrow> refused_data \<Rightarrow> ('w \<times> refused_data) result" where
  "limits_check e sv w u =
     rbind (if unat (send_limit u) \<le> send_v4 u + send_v6 u
            then transmit e sv w u (unat (send_limit u * 2) \<le> send_v4 u + send_v6 u)
            else Inr (False, w, u)) (\<lambda>(success, w, u).
       if unat (finished_limit u) \<le> finished u \<or> success then rbind (consolidate u) (\<lambda>u. Inr (w, u)) else Inr (w, u))"

definition tcp_events :: "endian \<Rightarrow> u64 \<Rightarrow> packet_info \<Rightarrow> refused_data \<Rightarrow> refused_data result" where
  "tcp_events e t p u =
     (let f = tcp_flags p; v6 = (ip_protocol p = 6)
      in rbind (if pdirection p = DIR_OUT \<and> f AND TCP_SYN \<noteq> 0 \<and> f AND TCP_ACK = 0
                then handle_event e t u EVENT_SYN NUL v6 (addr_dst p) (port_src p) (port_dst p) else Inr u) (\<lambda>u.
         rbind (if pdirection p = DIR_IN \<and> f AND TCP_SYN \<noteq> 0 \<and> f AND TCP_ACK \<noteq> 0
                then handle_event e t u EVENT_ACK NUL v6 (addr_src p) (port_dst p) (port_src p) else Inr u) (\<lambda>u.
           if pdirection p = DIR_IN \<and> f AND TCP_RESET \<noteq> 0
           then handle_event e t u EVENT_NAK (CHR ''P'') v6 (addr_src p) (port_dst p) (port_src p) else Inr u)))"

definition icmp_event :: "endian \<Rightarrow> u64 \<Rightarrow> packet_info \<Rightarrow> refused_data \<Rightarrow> refused_data result" where
  "icmp_event e t p u =
     (if (app_protocol p = CHR ''i'' \<or> app_protocol p = CHR ''I'') \<and> pdirection p = DIR_IN then
        rbind (nak_parse p) (\<lambda>r.
          case r of
            None \<Rightarrow> Inr u
          | Some (nak, addr, loc_port, rem_port) \<Rightarrow>
              handle_event e t u EVENT_NAK nak (ip_protocol p = 6) (Some addr) loc_port rem_port)
      else Inr u)"

definition packet :: "endian \<Rightarrow> (unit, 'w) services \<Rightarrow> 'w \<Rightarrow> refused_data \<Rightarrow> packet \<Rightarrow> ('w \<times> refused_data) result" where
  "packet e sv w u ps =
     (if \<not> r_active u then Inr (w, u)
      else if ps = [] then Inl BadAccess
      else let p = last ps; t = sv_now sv w
        in if layer p \<noteq> CHR ''I'' \<or> (ip_protocol p \<noteq> 4 \<and> ip_protocol p \<noteq> 6) then Inr (w, u)
           else rbind (if app_protocol p = CHR ''T'' then tcp_events e t p u else Inr u) (\<lambda>u.
             rbind (icmp_event e t p u) (\<lambda>u.
               rbind (timeouts_evaluate t u) (\<lambda>u. limits_check e sv w u))))"

subsection \<open>The server and the start\<close>

definition uplink_data :: "(unit, 'w) services \<Rightarrow> 'w \<Rightarrow> refused_data \<Rightarrow> bytes \<Rightarrow> ('w \<times> refused_data) result" where
  "uplink_data sv w u bs =
     (if bs = [] then Inl Aborted
      else if hd bs = code (CHR ''C'') then
        let p = tl bs
        in if length p < 32 then Inl Aborted
           else if r_config_version u = get32 p then Inr (w, u)
           else restart_timeout sv w
                  (u\<lparr>r_config_version := get32 p, finished_limit := get32 (drop 4 p), send_limit := get32 (drop 8 p),
                     undecided_limit := get32 (drop 12 p), r_timeout := get64 (drop 16 p), max_age := get64 (drop 24 p),
                     r_active := True\<rparr>)
      else Inr (w, u))"

definition connected :: "endian \<Rightarrow> (unit, 'w) services \<Rightarrow> 'w \<Rightarrow> refused_data \<Rightarrow> ('w \<times> refused_data) result" where
  "connected e sv w u =
     rbind (sv_tell sv w [code (CHR ''C'')]) (\<lambda>w.
       if r_active u then
         if timeout_missed u then
           rbind (transmit e sv w u False) (\<lambda>(ok, w, u).
             if ok then rbind (consolidate u) (\<lambda>u. Inr (w, u)) else Inr (w, u))
         else limits_check e sv w u
       else Inr (w, u))"

definition refused_data_init :: refused_data where
  "refused_data_init =
     \<lparr>r_active = False, connections = trie_alloc, objects = (\<lambda>_. new_connection 0 False), next_object = 0, undecided = 0,
      finished = 0, send_v4 = 0, send_v6 = 0, timeout_list = [], r_timeout = 30000, max_age = 0, finished_limit = 0,
      send_limit = 0, undecided_limit = 0, timeout_scheduled = False, r_timeout_id = 0, r_config_version = 0,
      timeout_missed = False\<rparr>"

definition init :: "endian \<Rightarrow> (unit, 'w) services \<Rightarrow> 'w \<Rightarrow> ('w \<times> refused_data) result" where
  "init e sv w = connected e sv w refused_data_init"

declare timeouts_evaluate.simps [simp del]

subsection \<open>The connections in the trie\<close>

definition held :: "refused_data \<Rightarrow> nat set" where
  "held u = {a. \<exists>k. trie_map (connections u) k = Some (Some a)}"

definition reportable :: "trie_data \<Rightarrow> bool" where
  "reportable d \<longleftrightarrow> completed d \<and> \<not> transmitted d \<and> events d EVENT_SYN \<and> \<not> events d EVENT_ACK"

definition key_ok :: "trie_data \<Rightarrow> bytes \<Rightarrow> bool" where
  "key_ok d k \<longleftrightarrow> length k = (if c_v6 d then 16 else 4) + 4"

definition wf_table :: "nat trie \<Rightarrow> (nat \<Rightarrow> trie_data) \<Rightarrow> nat \<Rightarrow> bool" where
  "wf_table t objs n \<longleftrightarrow> trie_inv t \<and> inj_on (trie_map t) (dom (trie_map t)) \<and>
     (\<forall>k v. trie_map t k = Some v \<longrightarrow> (\<exists>a. v = Some a \<and> a < n \<and> key_ok (objs a) k))"

definition conn_inv :: "refused_data \<Rightarrow> bool" where
  "conn_inv u \<longleftrightarrow> wf_table (connections u) (objects u) (next_object u) \<and>
     distinct (timeout_list u) \<and> set (timeout_list u) = {a \<in> held u. \<not> completed (objects u a)} \<and>
     (\<forall>a \<in> held u. transmitted (objects u a) \<longrightarrow> completed (objects u a)) \<and>
     undecided u = length (timeout_list u) \<and> finished u = card {a \<in> held u. completed (objects u a)} \<and>
     send_v4 u = card {a \<in> held u. reportable (objects u a) \<and> \<not> c_v6 (objects u a)} \<and>
     send_v6 u = card {a \<in> held u. reportable (objects u a) \<and> c_v6 (objects u a)}"

text \<open>Nothing in the table was sent already: so it is between the events.\<close>

definition unsent :: "refused_data \<Rightarrow> bool" where
  "unsent u \<longleftrightarrow> (\<forall>a \<in> held u. \<not> transmitted (objects u a))"

definition table_entries :: "nat trie \<Rightarrow> (bytes \<times> nat) list" where
  "table_entries t = map (map_prod id the) (entries (troot t))"

lemma trie_entry_iff:
  assumes "trie_inv t"
  shows "e \<in> set (entries (troot t)) \<longleftrightarrow> trie_map t (fst e) = Some (snd e)"
  using twf_keys_distinct [of "troot t"] assms by (cases e) (auto simp: trie_map_def trie_inv_def)

lemma table_entries:
  assumes "wf_table t objs n"
  shows "entries (troot t) = map (map_prod id Some) (table_entries t)" and "distinct (map snd (table_entries t))"
    and "(k, a) \<in> set (table_entries t) \<longleftrightarrow> trie_map t k = Some (Some a)"
    and "set (map snd (table_entries t)) = {a. \<exists>k. trie_map t k = Some (Some a)}"
    and "distinct (map fst (table_entries t))"
proof -
  have inv: "trie_inv t" and inj: "inj_on (trie_map t) (dom (trie_map t))"
    and some: "\<And>k v. trie_map t k = Some v \<Longrightarrow> \<exists>a. v = Some a"
    using assms by (auto simp: wf_table_def)
  have es: "\<exists>a. snd e = Some a" if "e \<in> set (entries (troot t))" for e
    using that some trie_entry_iff [OF inv] by blast
  show eq: "entries (troot t) = map (map_prod id Some) (table_entries t)"
    unfolding table_entries_def map_map by (rule map_idI [symmetric]) (use es in \<open>force simp: map_prod_def\<close>)
  show mem: "(k, a) \<in> set (table_entries t) \<longleftrightarrow> trie_map t k = Some (Some a)" for k a
  proof -
    have "(k, a) \<in> set (table_entries t) \<longleftrightarrow> (k, Some a) \<in> set (entries (troot t))"
      unfolding eq by force
    then show ?thesis
      using trie_entry_iff [OF inv, of "(k, Some a)"] by simp
  qed
  show keys: "distinct (map fst (table_entries t))"
  proof -
    have "map fst (table_entries t) = map fst (entries (troot t))"
      unfolding eq by (simp add: comp_def)
    then show ?thesis
      using inv by (simp add: trie_inv_def twf_keys_distinct)
  qed
  have "k = k'" if "(k, a) \<in> set (table_entries t)" "(k', a) \<in> set (table_entries t)" for k k' a
    using inj_onD [OF inj, of k k'] that mem by force
  then have "inj_on snd (set (table_entries t))"
    by (auto simp: inj_on_def)
  then show "distinct (map snd (table_entries t))"
    using keys by (simp add: distinct_map)
  show "set (map snd (table_entries t)) = {a. \<exists>k. trie_map t k = Some (Some a)}"
    using mem by (force simp: image_iff)
qed

lemma card_held:
  assumes "wf_table (connections u) (objects u) (next_object u)"
  shows "card {a \<in> held u. P (objects u a)} = length (filter (\<lambda>e. P (objects u (snd e))) (table_entries (connections u)))"
proof -
  let ?as = "map snd (table_entries (connections u))"
  have "{a \<in> held u. P (objects u a)} = set (filter (P \<circ> objects u) ?as)"
    using table_entries(4) [OF assms] by (auto simp: held_def)
  moreover have "distinct (filter (P \<circ> objects u) ?as)"
    using table_entries(2) [OF assms] by (rule distinct_filter)
  ultimately have "card {a \<in> held u. P (objects u a)} = length (filter (P \<circ> objects u) ?as)"
    by (metis distinct_card)
  then show ?thesis
    by (simp add: filter_map comp_def)
qed

lemma finite_held: "wf_table (connections u) (objects u) (next_object u) \<Longrightarrow> finite (held u)"
  using table_entries(4) [of "connections u"] by (metis List.finite_set held_def)

lemma walk_entries:
  assumes "wf_table t objs n"
  shows "trie_walk t cb s = fold_result (\<lambda>s (k, a). cb s k (Some a)) s (table_entries t)"
proof -
  have "fold_result (visit cb) s (map (map_prod id Some) es) = fold_result (\<lambda>s (k, a). cb s k (Some a)) s es" for s es
    by (induction es arbitrary: s) (auto simp: visit_def)
  then show ?thesis
    using assms table_entries(1) [OF assms] by (simp add: wf_table_def trie_walk_fold)
qed

subsection \<open>Transmission\<close>

definition wire_size :: "trie_data \<Rightarrow> nat" where
  "wire_size d = (if reportable d then 14 + (if c_v6 d then 16 else 4) else 0)"

definition mark :: "nat set \<Rightarrow> (nat \<Rightarrow> trie_data) \<Rightarrow> nat \<Rightarrow> trie_data" where
  "mark A objs = (\<lambda>a. if a \<in> A \<and> completed (objs a) then (objs a)\<lparr>transmitted := True\<rparr> else objs a)"

lemma serialize_walk:
  assumes "distinct (map snd es)" and "\<forall>(k, a) \<in> set es. key_ok (objs a) k"
    and "room = base + sum_list (map (wire_size \<circ> objs \<circ> snd) es)"
  shows "fold_result (\<lambda>s (k, a). serialize_callback e s k (Some a)) (msg, room, objs) es =
    Inr (msg @ concat (map (\<lambda>(k, a). if reportable (objs a) then conn_record e (objs a) k else []) es), base,
         mark (snd ` set es) objs)"
  using assms
proof (induction es arbitrary: msg room objs)
  case (Cons x es)
  obtain k a where x: "x = (k, a)" by (cases x)
  let ?d = "objs a"
  define objs' where "objs' = (if completed ?d then objs(a := ?d\<lparr>transmitted := True\<rparr>) else objs)"
  have same: "objs' b = objs b" if "b \<in> snd ` set es" for b
    using that Cons.prems(1) by (auto simp: objs'_def x)
  have step: "serialize_callback e (msg, room, objs) k (Some a) =
      Inr (msg @ (if reportable ?d then conn_record e ?d k else []), room - wire_size ?d, objs')"
  proof (cases "completed ?d \<and> \<not> transmitted ?d")
    case True
    then show ?thesis
      using Cons.prems(2,3) by (auto simp: serialize_callback_def x wire_size_def reportable_def key_ok_def objs'_def Let_def)
  next
    case False
    have "?d\<lparr>transmitted := True\<rparr> = ?d" if "transmitted ?d"
      using that by (cases ?d) simp
    with False show ?thesis
      by (auto simp: serialize_callback_def wire_size_def reportable_def objs'_def fun_upd_idem)
  qed
  have sum: "map (wire_size \<circ> objs' \<circ> snd) es = map (wire_size \<circ> objs \<circ> snd) es"
    using same by simp
  have "fold_result (\<lambda>s (k, a). serialize_callback e s k (Some a))
      (msg @ (if reportable ?d then conn_record e ?d k else []), room - wire_size ?d, objs') es =
    Inr ((msg @ (if reportable ?d then conn_record e ?d k else [])) @
      concat (map (\<lambda>(k, a). if reportable (objs' a) then conn_record e (objs' a) k else []) es), base, mark (snd ` set es) objs')"
  proof (rule Cons.IH)
    show "\<forall>(k, a) \<in> set es. key_ok (objs' a) k"
      using Cons.prems(2) same by force
    show "room - wire_size ?d = base + sum_list (map (wire_size \<circ> objs' \<circ> snd) es)"
      using Cons.prems(3) unfolding sum x by (simp add: comp_def)
  qed (use Cons.prems(1) in simp)
  moreover have "map (\<lambda>(k, a). if reportable (objs' a) then conn_record e (objs' a) k else []) es =
      map (\<lambda>(k, a). if reportable (objs a) then conn_record e (objs a) k else []) es"
    using same by force
  moreover have "mark (snd ` set es) objs' = mark (snd ` set (x # es)) objs"
    using same Cons.prems(1) by (auto simp: mark_def objs'_def x)
  ultimately show ?case
    by (simp add: x step)
qed (simp add: mark_def)

lemma unmark_walk:
  "fold_result (\<lambda>s (k, a). unmark_transmitted_callback s k (Some a)) objs es =
     Inr (\<lambda>a. if a \<in> snd ` set es then (objs a)\<lparr>transmitted := False\<rparr> else objs a)"
proof (induction es arbitrary: objs)
  case (Cons x es)
  then show ?case
    by (cases x) (auto simp: unmark_transmitted_callback_def fun_eq_iff)
qed simp

lemma unmark_mark:
  assumes "\<forall>a \<in> A. \<not> transmitted (objs a)"
  shows "(\<lambda>a. if a \<in> A then (mark A objs a)\<lparr>transmitted := False\<rparr> else mark A objs a) = objs"
proof -
  have "d\<lparr>transmitted := False\<rparr> = d" if "\<not> transmitted d" for d
    using that by (cases d) simp
  with assms show ?thesis
    by (auto simp: mark_def fun_eq_iff)
qed

lemma wire_sum:
  "sum_list (map (wire_size \<circ> objs \<circ> snd) es) =
     length (filter (\<lambda>e. reportable (objs (snd e)) \<and> \<not> c_v6 (objs (snd e))) es) * 18 +
     length (filter (\<lambda>e. reportable (objs (snd e)) \<and> c_v6 (objs (snd e))) es) * 30"
  by (induction es) (auto simp: wire_size_def)

definition report :: "endian \<Rightarrow> refused_data \<Rightarrow> bytes" where
  "report e u = concat (map (\<lambda>(k, a). if reportable (objects u a) then conn_record e (objects u a) k else [])
     (table_entries (connections u)))"

lemma transmit_walk:
  assumes "conn_inv u"
  shows "trie_walk (connections u) (serialize_callback e) ([], send_v4 u * 18 + send_v6 u * 30, objects u) =
    Inr (report e u, 0, mark (held u) (objects u))"
proof -
  have wf: "wf_table (connections u) (objects u) (next_object u)"
    using assms by (simp add: conn_inv_def)
  have k: "\<forall>(k, a) \<in> set (table_entries (connections u)). key_ok (objects u a) k"
    using wf table_entries(3) [OF wf] by (fastforce simp: wf_table_def)
  have n: "send_v4 u * 18 + send_v6 u * 30 = 0 + sum_list (map (wire_size \<circ> objects u \<circ> snd) (table_entries (connections u)))"
    using assms unfolding wire_sum conn_inv_def
    by (simp add: card_held [OF wf, where P = "\<lambda>d. reportable d \<and> \<not> c_v6 d"] card_held [OF wf, where P = "\<lambda>d. reportable d \<and> c_v6 d"])
  have "snd ` set (table_entries (connections u)) = held u"
    using table_entries(4) [OF wf] by (simp add: held_def)
  with serialize_walk [OF table_entries(2) [OF wf] k n, of e "[]"] show ?thesis
    by (simp add: walk_entries [OF wf] report_def)
qed

lemma unmark_walk_back:
  assumes "conn_inv u" and "unsent u"
  shows "trie_walk (connections u) unmark_transmitted_callback (mark (held u) (objects u)) = Inr (objects u)"
proof -
  have wf: "wf_table (connections u) (objects u) (next_object u)"
    using assms by (simp add: conn_inv_def)
  have "snd ` set (table_entries (connections u)) = held u"
    using table_entries(4) [OF wf] by (simp add: held_def)
  then show ?thesis
    using assms(2) by (simp add: walk_entries [OF wf] unmark_walk unmark_mark unsent_def)
qed

text \<open>After a message was sent, everything that is completed is marked.\<close>

definition sent_state :: "refused_data \<Rightarrow> refused_data" where
  "sent_state u = u\<lparr>objects := mark (held u) (objects u), timeout_missed := False, send_v4 := 0, send_v6 := 0\<rparr>"

lemma held_cong: "connections u' = connections u \<Longrightarrow> held u' = held u"
  by (simp add: held_def)

lemma mark_fields [simp]:
  "completed (mark A objs a) = completed (objs a)" "c_v6 (mark A objs a) = c_v6 (objs a)"
  "events (mark A objs a) = events (objs a)"
  by (simp_all add: mark_def)

lemma sent_state_inv:
  assumes "conn_inv u"
  shows "conn_inv (sent_state u)"
proof -
  have h: "held (sent_state u) = held u"
    by (rule held_cong) (simp add: sent_state_def)
  have none: "{a \<in> held u. reportable (mark (held u) (objects u) a) \<and> Q a} = {}" for Q
    by (auto simp: reportable_def mark_def)
  have "wf_table (connections u) (mark (held u) (objects u)) (next_object u)"
    using assms by (auto simp: conn_inv_def wf_table_def key_ok_def)
  moreover have "transmitted (mark (held u) (objects u) a) \<longrightarrow> completed (objects u a)" if "a \<in> held u" for a
    using assms that by (auto simp: conn_inv_def mark_def)
  ultimately show ?thesis
    using assms unfolding conn_inv_def h by (simp add: sent_state_def none)
qed

subsection \<open>Events on connections\<close>

lemma card_update:
  assumes "finite A" and "a \<in> A" and "\<not> P (f a)"
  shows "card {x \<in> A. P ((f(a := d)) x)} = card {x \<in> A. P (f x)} + (if P d then 1 else 0)"
proof -
  have "{x \<in> A. P ((f(a := d)) x)} = (if P d then insert a {x \<in> A. P (f x)} else {x \<in> A. P (f x)})"
    using assms(2,3) by auto
  then show ?thesis
    using assms by auto
qed

lemma note_event_fields [simp]:
  "c_v6 (note_event type nak d) = c_v6 d" "completed (note_event type nak d) = completed d"
  "transmitted (note_event type nak d) = transmitted d"
  by (simp_all add: note_event_def Let_def)

lemma wf_table_objects:
  assumes "wf_table t objs n" and "\<forall>a. c_v6 (objs' a) = c_v6 (objs a)"
  shows "wf_table t objs' n"
  using assms by (auto simp: wf_table_def key_ok_def)

lemma found_inv:
  assumes u: "conn_inv u" and a: "a \<in> held u" "\<not> completed (objects u a)"
  shows "conn_inv (handle_event_found type nak a u)"
proof -
  let ?d = "note_event type nak (objects u a)" and ?u = "handle_event_found type nak a u"
  have wf: "wf_table (connections u) (objects u) (next_object u)" and fin: "finite (held u)"
    using u finite_held by (auto simp: conn_inv_def)
  have nt: "\<not> transmitted (objects u a)" "a \<in> set (timeout_list u)"
    using u a by (auto simp: conn_inv_def)
  have h: "held ?u = held u"
    by (rule held_cong) (simp add: handle_event_found_def Let_def)
  show ?thesis
  proof (cases "decided ?d")
    case True
    let ?d' = "?d\<lparr>completed := True\<rparr>"
    let ?o = "(objects u)(a := ?d')"
    have wf': "wf_table (connections u) ?o (next_object u)"
      by (rule wf_table_objects [OF wf]) simp
    note upd = card_update [OF fin a(1), where f = "objects u" and d = ?d']
    have cards: "card {x \<in> held u. completed (?o x)} = card {x \<in> held u. completed (objects u x)} + 1"
      "card {x \<in> held u. reportable (?o x) \<and> \<not> c_v6 (?o x)} =
         card {x \<in> held u. reportable (objects u x) \<and> \<not> c_v6 (objects u x)} + (if reportable ?d' \<and> \<not> c_v6 ?d' then 1 else 0)"
      "card {x \<in> held u. reportable (?o x) \<and> c_v6 (?o x)} =
         card {x \<in> held u. reportable (objects u x) \<and> c_v6 (objects u x)} + (if reportable ?d' \<and> c_v6 ?d' then 1 else 0)"
      using upd [where P = completed] upd [where P = "\<lambda>d. reportable d \<and> \<not> c_v6 d"] upd [where P = "\<lambda>d. reportable d \<and> c_v6 d"] a(2)
      by (simp_all add: reportable_def)
    have rep: "reportable ?d' \<longleftrightarrow> events ?d EVENT_SYN \<and> \<not> events ?d EVENT_ACK"
      using nt by (simp add: reportable_def)
    have "Suc 0 \<le> length (timeout_list u)"
      using length_pos_if_in_set [OF nt(2)] by (simp only: Suc_le_eq)
    then have list: "distinct (remove1 a (timeout_list u))" "set (remove1 a (timeout_list u)) = {x \<in> held u. \<not> completed (?o x)}"
      "length (remove1 a (timeout_list u)) = size_sub (undecided u) 1"
      using u nt(2) by (auto simp: conn_inv_def set_remove1_eq length_remove1 size_sub_def)
    have tr: "\<forall>x \<in> held u. transmitted (?o x) \<longrightarrow> completed (?o x)"
      using u by (auto simp: conn_inv_def)
    show ?thesis
      using u True wf' list tr unfolding conn_inv_def h
      by (auto simp: handle_event_found_def Let_def cards rep simp del: fun_upd_apply)
  next
    case False
    let ?o = "(objects u)(a := ?d)"
    have wf': "wf_table (connections u) ?o (next_object u)"
      by (rule wf_table_objects [OF wf]) simp
    have sets: "{x \<in> held u. completed (?o x)} = {x \<in> held u. completed (objects u x)}"
      "{x \<in> held u. \<not> completed (?o x)} = {x \<in> held u. \<not> completed (objects u x)}"
      "{x \<in> held u. reportable (?o x) \<and> \<not> c_v6 (?o x)} = {x \<in> held u. reportable (objects u x) \<and> \<not> c_v6 (objects u x)}"
      "{x \<in> held u. reportable (?o x) \<and> c_v6 (?o x)} = {x \<in> held u. reportable (objects u x) \<and> c_v6 (objects u x)}"
      using a(2) by (auto simp: reportable_def)
    have tr: "\<forall>x \<in> held u. transmitted (?o x) \<longrightarrow> completed (?o x)"
      using u by (auto simp: conn_inv_def)
    show ?thesis
      using u False wf' tr unfolding conn_inv_def h
      by (simp add: handle_event_found_def Let_def sets del: fun_upd_apply)
  qed
qed

lemma found_unsent: "unsent u \<Longrightarrow> a \<in> held u \<Longrightarrow> unsent (handle_event_found type nak a u)"
  by (auto simp: unsent_def handle_event_found_def held_def Let_def)

text \<open>What events leave alone.\<close>

definition same_timer :: "refused_data \<Rightarrow> refused_data \<Rightarrow> bool" where
  "same_timer u u' \<longleftrightarrow> timeout_scheduled u' = timeout_scheduled u \<and> r_timeout_id u' = r_timeout_id u \<and> r_active u' = r_active u"

lemma found_timer: "same_timer u (handle_event_found type nak a u)"
  by (simp add: same_timer_def handle_event_found_def Let_def)

lemma same_timer_trans: "same_timer u v \<Longrightarrow> same_timer v w \<Longrightarrow> same_timer u w"
  by (simp add: same_timer_def)

lemma conn_inv_trie:
  assumes "conn_inv u" and "trie_inv t" and "trie_map t = trie_map (connections u)"
  shows "conn_inv (u\<lparr>connections := t\<rparr>)" and "held (u\<lparr>connections := t\<rparr>) = held u"
proof -
  show h: "held (u\<lparr>connections := t\<rparr>) = held u"
    using assms(3) by (simp add: held_def)
  show "conn_inv (u\<lparr>connections := t\<rparr>)"
    using assms unfolding conn_inv_def h by (simp add: wf_table_def)
qed

lemma add_connection:
  assumes u: "conn_inv u" and t: "trie_inv t" "trie_map t = (trie_map (connections u))(key \<mapsto> Some (next_object u))"
    and key: "key \<notin> dom (trie_map (connections u))" "key_ok (new_connection tm0 v6) key"
  defines "u' \<equiv> u\<lparr>connections := t, undecided := undecided u + 1, next_object := next_object u + 1,
    timeout_list := timeout_list u @ [next_object u], objects := (objects u)(next_object u := new_connection tm0 v6)\<rparr>"
  shows "conn_inv u'" and "held u' = insert (next_object u) (held u)"
proof -
  let ?a = "next_object u" and ?m = "trie_map (connections u)"
  have wf: "wf_table (connections u) (objects u) ?a" and fin: "finite (held u)"
    using u finite_held by (auto simp: conn_inv_def)
  have old: "a < ?a" if "?m k = Some (Some a)" for k a
    using wf that by (auto simp: wf_table_def)
  then have new: "?a \<notin> held u"
    by (auto simp: held_def)
  show h: "held u' = insert ?a (held u)"
  proof -
    have "(\<exists>k. trie_map t k = Some (Some a)) \<longleftrightarrow> a = ?a \<or> (\<exists>k. ?m k = Some (Some a))" for a
      using key(1) unfolding t(2) by (metis domI fun_upd_other fun_upd_same option.inject)
    then show ?thesis
      by (auto simp: held_def u'_def)
  qed
  have "Some ?a \<notin> ran ?m"
    using old by (auto simp: ran_def)
  then have "inj_on (trie_map t) (dom (trie_map t))"
    using wf key(1) unfolding t(2) by (auto simp: wf_table_def inj_on_def ran_def dom_def)
  moreover have "\<exists>a. v = Some a \<and> a < ?a + 1 \<and> key_ok (objects u' a) k" if "trie_map t k = Some v" for k v
  proof (cases "k = key")
    case False
    then have "?m k = Some v"
      using that t(2) by simp
    then obtain a where "v = Some a" "a < ?a" "key_ok (objects u a) k"
      using wf unfolding wf_table_def by blast
    then show ?thesis
      by (auto simp: u'_def)
  qed (use that key(2) t(2) in \<open>auto simp: u'_def\<close>)
  ultimately have wf': "wf_table (connections u') (objects u') (next_object u')"
    using t(1) by (auto simp: wf_table_def u'_def)
  have o: "objects u' a = objects u a" if "a \<in> held u" for a
    using that new by (auto simp: u'_def)
  have n: "objects u' ?a = new_connection tm0 v6"
    by (simp add: u'_def)
  have sets: "{a \<in> held u'. P (objects u' a)} = (if P (new_connection tm0 v6) then insert ?a else id) {a \<in> held u. P (objects u a)}" for P
    unfolding h using new o n by auto
  have c: "{a \<in> held u'. completed (objects u' a)} = {a \<in> held u. completed (objects u a)}"
    "{a \<in> held u'. reportable (objects u' a) \<and> \<not> c_v6 (objects u' a)} = {a \<in> held u. reportable (objects u a) \<and> \<not> c_v6 (objects u a)}"
    "{a \<in> held u'. reportable (objects u' a) \<and> c_v6 (objects u' a)} = {a \<in> held u. reportable (objects u a) \<and> c_v6 (objects u a)}"
    "{a \<in> held u'. \<not> completed (objects u' a)} = insert ?a {a \<in> held u. \<not> completed (objects u a)}"
    using sets [of completed] sets [of "\<lambda>d. reportable d \<and> \<not> c_v6 d"] sets [of "\<lambda>d. reportable d \<and> c_v6 d"] sets [of "\<lambda>d. \<not> completed d"]
    by (simp_all add: new_connection_def reportable_def)
  have f: "timeout_list u' = timeout_list u @ [?a]" "undecided u' = undecided u + 1" "finished u' = finished u"
    "send_v4 u' = send_v4 u" "send_v6 u' = send_v6 u"
    by (simp_all add: u'_def)
  have "\<forall>a \<in> held u'. transmitted (objects u' a) \<longrightarrow> completed (objects u' a)"
    using u o n unfolding h by (auto simp: conn_inv_def new_connection_def)
  then show "conn_inv u'"
    using u wf' new unfolding conn_inv_def c f by auto
qed

lemma conn_key_length: "conn_key e v6 addr lp rp = Inr key \<Longrightarrow> key_ok (new_connection tm0 v6) key"
  by (auto simp: conn_key_def key_ok_def new_connection_def Let_def split: option.splits if_splits)

lemma handle_event_inv:
  assumes u: "conn_inv u" "unsent u" and key: "conn_key e v6 addr lp rp = Inr key"
    and fits: "key_fits (dom (trie_map (connections u))) key" and type: "type \<noteq> EVENT_TIMEOUT"
  shows "\<exists>u'. handle_event e tm0 u type nak v6 addr lp rp = Inr u' \<and> conn_inv u' \<and> unsent u' \<and> same_timer u u' \<and>
    dom (trie_map (connections u')) \<in> {dom (trie_map (connections u)), insert key (dom (trie_map (connections u)))}"
proof -
  have wf: "wf_table (connections u) (objects u) (next_object u)"
    using u by (simp add: conn_inv_def)
  obtain t where t: "trie_lookup (connections u) key = Inr (t, slot_value (connections u) key)" "trie_inv t"
      "trie_map t = trie_map (connections u)"
    using trie_lookup_spec [of "connections u" key] wf by (auto simp: wf_table_def)
  note u1 = conn_inv_trie [OF u(1) t(2,3)]
  have un: "unsent (u\<lparr>connections := t\<rparr>)"
    using u(2) u1(2) by (simp add: unsent_def)
  have tm: "same_timer u (u\<lparr>connections := t\<rparr>)"
    by (simp add: same_timer_def)
  show ?thesis
  proof (cases "trie_map (connections u) key")
    case (Some v)
    then obtain a where a: "v = Some a"
      using wf by (auto simp: wf_table_def)
    then have "a \<in> held (u\<lparr>connections := t\<rparr>)" "slot_value (connections u) key = Some a"
      using Some u1(2) by (auto simp: held_def slot_value_def)
    moreover have "connections (handle_event_found type nak a (u\<lparr>connections := t\<rparr>)) = t"
      by (simp add: handle_event_found_def Let_def)
    ultimately show ?thesis
      using found_inv [OF u1(1), of a type nak] found_unsent [OF un, of a type nak] u1(1) un tm t
        same_timer_trans [OF tm found_timer, of type nak a]
      by (auto simp: handle_event_def key Let_def)
  next
    case None
    then have none: "slot_value (connections u) key = None" "key \<notin> dom (trie_map (connections u))"
      by (auto simp: slot_value_def)
    obtain t' where t': "trie_put t key (Some (next_object u)) = Inr t'" "trie_inv t'"
        "trie_map t' = (trie_map (connections u))(key \<mapsto> Some (next_object u))"
      using tr.put_ok [OF t(2), of key "Some (next_object u)"] fits t(3) by auto
    note add = add_connection [OF u(1) t'(2,3) none(2) conn_key_length [OF key], of tm0]
    define u2 where "u2 = u\<lparr>connections := t', undecided := undecided u + 1, next_object := next_object u + 1,
      timeout_list := timeout_list u @ [next_object u], objects := (objects u)(next_object u := new_connection tm0 v6)\<rparr>"
    have u2: "conn_inv u2" "held u2 = insert (next_object u) (held u)"
      using add by (simp_all add: u2_def)
    have un2: "unsent u2"
      using u(2) u2(2) by (auto simp: unsent_def u2_def new_connection_def)
    have a: "next_object u \<in> held u2" "\<not> completed (objects u2 (next_object u))"
      using u2(2) by (simp_all add: u2_def new_connection_def)
    have "same_timer u u2"
      by (simp add: same_timer_def u2_def)
    note tm2 = same_timer_trans [OF this found_timer, of type nak "next_object u"]
    have "connections (handle_event_found type nak (next_object u) u2) = t'"
      by (simp add: handle_event_found_def Let_def u2_def)
    moreover have "handle_event e tm0 u type nak v6 addr lp rp =
        Inr (if undecided u \<ge> unat (undecided_limit u) then u\<lparr>connections := t\<rparr>
             else handle_event_found type nak (next_object u) u2)"
      using t none t' type by (simp add: handle_event_def key u2_def Let_def)
    ultimately show ?thesis
      using found_inv [OF u2(1) a, of type nak] found_unsent [OF un2 a(1), of type nak] u1(1) un tm tm2 t(3) t'(3)
      by auto
  qed
qed

lemma timeouts_evaluate_inv:
  "conn_inv u \<Longrightarrow> unsent u \<Longrightarrow> \<exists>u'. timeouts_evaluate t u = Inr u' \<and> conn_inv u' \<and> unsent u' \<and> same_timer u u' \<and>
     connections u' = connections u \<and> (\<forall>a as. timeout_list u' = a # as \<longrightarrow> \<not> c_time (objects u' a) + r_timeout u' < t)"
proof (induction t u rule: timeouts_evaluate.induct)
  case (1 t u)
  show ?case
  proof (cases "timeout_list u")
    case Nil
    then show ?thesis
      using 1 by (simp add: timeouts_evaluate.simps same_timer_def)
  next
    case (Cons a as)
    let ?u = "handle_event_found EVENT_TIMEOUT NUL a u"
    show ?thesis
    proof (cases "c_time (objects u a) + r_timeout u < t")
      case True
      have a: "a \<in> held u" "\<not> completed (objects u a)" "a \<notin> set as"
        using 1(2) Cons by (auto simp: conn_inv_def)
      have list: "timeout_list ?u = as" "connections ?u = connections u"
        using Cons note_timeout_decided by (simp_all add: found_timeout_list) (simp add: handle_event_found_def Let_def)
      then have hd: "timeout_list ?u = [] \<or> hd (timeout_list ?u) \<noteq> a"
        using a(3) by (cases as) auto
      obtain u' where "timeouts_evaluate t ?u = Inr u'" "conn_inv u'" "unsent u'" "same_timer ?u u'" "connections u' = connections ?u"
          "\<forall>a as. timeout_list u' = a # as \<longrightarrow> \<not> c_time (objects u' a) + r_timeout u' < t"
        using 1(1) [OF Cons True HOL.refl hd] found_inv [OF 1(2) a(1,2)] found_unsent [OF 1(3) a(1)] by blast
      then show ?thesis
        using Cons True hd list(2) same_timer_trans [OF found_timer, of EVENT_TIMEOUT NUL a u u']
        by (subst timeouts_evaluate.simps) (simp add: Let_def)
    next
      case False
      then show ?thesis
        using 1 Cons by (subst timeouts_evaluate.simps) (simp add: same_timer_def)
    qed
  qed
qed

subsection \<open>Consolidation keeps the invariant\<close>

text \<open>The state of the walk after some of the entries.\<close>

definition copied :: "refused_data \<Rightarrow> (bytes \<times> nat) list \<Rightarrow> consolidate_params \<Rightarrow> bool" where
  "copied u es ps \<longleftrightarrow>
     (let ks = filter (\<lambda>e. kept (objects u (snd e))) es; d = (\<lambda>e. objects u (snd e)) in
      trie_inv (dest ps) \<and> dom (trie_map (dest ps)) = fst ` set ks \<and> next_object u \<le> fresh ps \<and>
      (\<forall>e \<in> set ks. \<exists>b. new_instance (heap ps (snd e)) = Some b \<and> next_object u \<le> b \<and> b < fresh ps \<and>
         trie_map (dest ps) (fst e) = Some (Some b) \<and> heap ps b = d e) \<and>
      inj_on (trie_map (dest ps)) (dom (trie_map (dest ps))) \<and>
      (\<forall>a < next_object u. a \<notin> snd ` set ks \<longrightarrow> heap ps a = objects u a) \<and>
      p_undecided ps = length (filter (\<lambda>e. \<not> completed (d e)) ks) \<and> p_finished ps = length (filter (\<lambda>e. completed (d e)) ks) \<and>
      p_send_v4 ps = length (filter (\<lambda>e. completed (d e) \<and> \<not> c_v6 (d e)) ks) \<and>
      p_send_v6 ps = length (filter (\<lambda>e. completed (d e) \<and> c_v6 (d e)) ks))"

lemma count_copied_fields [simp]:
  "dest (count_copied d ps) = dest ps" "heap (count_copied d ps) = heap ps" "fresh (count_copied d ps) = fresh ps"
  "p_undecided (count_copied d ps) = p_undecided ps + (if completed d then 0 else 1)"
  "p_finished (count_copied d ps) = p_finished ps + (if completed d then 1 else 0)"
  "p_send_v4 (count_copied d ps) = p_send_v4 ps + (if completed d \<and> \<not> c_v6 d then 1 else 0)"
  "p_send_v6 (count_copied d ps) = p_send_v6 ps + (if completed d \<and> c_v6 d then 1 else 0)"
  by (simp_all add: count_copied_def Let_def)

lemma copied_snoc:
  assumes c: "copied u es ps" and a: "a < next_object u" "a \<notin> snd ` set es" and old: "\<forall>e \<in> set es. snd e < next_object u"
    and k: "k \<notin> fst ` set es" and fits: "key_fits (fst ` set (filter (\<lambda>e. kept (objects u (snd e))) es)) k"
  shows "\<exists>ps'. consolidate_callback ps k (Some a) = Inr ps' \<and> copied u (es @ [(k, a)]) ps'"
proof -
  define ks where "ks = filter (\<lambda>e. kept (objects u (snd e))) es"
  have sub: "set ks \<subseteq> set es"
    by (auto simp: ks_def)
  note c' = c [unfolded copied_def Let_def, folded ks_def]
  have dm: "trie_inv (dest ps)" "dom (trie_map (dest ps)) = fst ` set ks" "next_object u \<le> fresh ps"
    and ent: "\<forall>e \<in> set ks. \<exists>b. new_instance (heap ps (snd e)) = Some b \<and> next_object u \<le> b \<and> b < fresh ps \<and>
         trie_map (dest ps) (fst e) = Some (Some b) \<and> heap ps b = objects u (snd e)"
    and inj: "inj_on (trie_map (dest ps)) (dom (trie_map (dest ps)))"
    and same: "\<forall>a < next_object u. a \<notin> snd ` set ks \<longrightarrow> heap ps a = objects u a"
    and cnt: "p_undecided ps = length (filter (\<lambda>e. \<not> completed (objects u (snd e))) ks)"
      "p_finished ps = length (filter (\<lambda>e. completed (objects u (snd e))) ks)"
      "p_send_v4 ps = length (filter (\<lambda>e. completed (objects u (snd e)) \<and> \<not> c_v6 (objects u (snd e))) ks)"
      "p_send_v6 ps = length (filter (\<lambda>e. completed (objects u (snd e)) \<and> c_v6 (objects u (snd e))) ks)"
    by (insert c', (elim conjE, assumption)+)
  have "a \<notin> snd ` set ks"
    using a(2) sub by auto
  with same a(1) have d: "heap ps a = objects u a"
    by blast
  show ?thesis
  proof (cases "kept (objects u a)")
    case False
    then have "copied u (es @ [(k, a)]) ps = copied u es ps"
      by (simp add: copied_def)
    with False c d show ?thesis
      by (simp add: consolidate_callback_def)
  next
    case True
    let ?new = "fresh ps" and ?d = "objects u a"
    obtain t where t: "trie_put (dest ps) k (Some ?new) = Inr t" "trie_inv t" "trie_map t = (trie_map (dest ps))(k \<mapsto> Some ?new)"
      using tr.put_ok [OF dm(1), of k "Some ?new"] fits by (auto simp: dm(2) ks_def)
    define ps' where "ps' = count_copied ?d (ps\<lparr>dest := t, fresh := ?new + 1, heap := (heap ps)(?new := ?d, a := ?d\<lparr>new_instance := Some ?new\<rparr>)\<rparr>)"
    have step: "consolidate_callback ps k (Some a) = Inr ps'"
      using True t(1) by (simp add: consolidate_callback_def d ps'_def Let_def)
    have f: "dest ps' = t" "fresh ps' = ?new + 1" "heap ps' = (heap ps)(?new := ?d, a := ?d\<lparr>new_instance := Some ?new\<rparr>)"
      by (simp_all add: ps'_def)
    have new: "next_object u \<le> ?new" "a \<noteq> ?new"
      using dm(3) a(1) by auto
    have k': "k \<notin> dom (trie_map (dest ps))"
      using k sub by (auto simp: dm(2))
    have entry: "\<exists>b. new_instance (heap ps' (snd e)) = Some b \<and> next_object u \<le> b \<and> b < fresh ps' \<and>
         trie_map (dest ps') (fst e) = Some (Some b) \<and> heap ps' b = objects u (snd e)" if e: "e \<in> set ks" for e
    proof -
      obtain b where b: "new_instance (heap ps (snd e)) = Some b" "next_object u \<le> b" "b < ?new"
          "trie_map (dest ps) (fst e) = Some (Some b)" "heap ps b = objects u (snd e)"
        using bspec [OF ent e] by (elim exE conjE) (rule that, assumption+)
      moreover have "snd e \<noteq> a" "snd e < ?new" "fst e \<noteq> k"
        using e sub a(2) old new(1) k by (auto simp: image_iff intro: order_less_le_trans)
      ultimately show ?thesis
        using a(1) by (auto simp: f t(3))
    qed
    have "Some ?new \<notin> ran (trie_map (dest ps))"
    proof
      assume "Some ?new \<in> ran (trie_map (dest ps))"
      then obtain x where x: "trie_map (dest ps) x = Some (Some ?new)"
        by (auto simp: ran_def)
      then have "x \<in> fst ` set ks"
        using dm(2) by blast
      then obtain e where "e \<in> set ks" "fst e = x"
        by blast
      with ent x show False
        by fastforce
    qed
    then have "inj_on (trie_map t) (dom (trie_map t))"
      using inj k' unfolding t(3) by (auto simp: inj_on_def ran_def dom_def)
    moreover have "heap ps' b = objects u b" if "b < next_object u" "b \<noteq> a" "b \<notin> snd ` set ks" for b
      using that same new by (auto simp: f)
    moreover have "new_instance (heap ps' a) = Some ?new \<and> next_object u \<le> ?new \<and> ?new < fresh ps' \<and>
        trie_map (dest ps') k = Some (Some ?new) \<and> heap ps' ?new = ?d"
      using new by (simp add: f t(3))
    ultimately have "copied u (es @ [(k, a)]) ps'"
      using dm(2) t(2,3) entry new(1) unfolding copied_def Let_def filter_append ks_def [symmetric]
      by (simp add: True f(1,2) ball_Un) (simp add: ps'_def cnt)
    with step show ?thesis
      by blast
  qed
qed

lemma consolidate_walk:
  assumes wf: "wf_table (connections u) (objects u) (next_object u)"
  shows "\<exists>ps. trie_walk (connections u) consolidate_callback
      \<lparr>dest = trie_alloc, heap = objects u, fresh = next_object u, p_undecided = 0, p_finished = 0, p_send_v4 = 0, p_send_v6 = 0\<rparr> = Inr ps \<and>
    copied u (table_entries (connections u)) ps"
proof -
  let ?es = "table_entries (connections u)"
  let ?ps = "\<lparr>dest = trie_alloc, heap = objects u, fresh = next_object u, p_undecided = 0, p_finished = 0, p_send_v4 = 0, p_send_v6 = 0\<rparr>"
  let ?cb = "\<lambda>s (k, a). consolidate_callback s k (Some a)"
  note te = table_entries [OF wf]
  have order: "sorted_wrt (\<lambda>e e'. \<not> strict_prefix (fst e') (fst e)) ?es"
    using entries_order [of "troot (connections u)"] wf te(1) by (simp add: wf_table_def trie_inv_def sorted_wrt_map)
  have less: "a < next_object u" if "(k, a) \<in> set ?es" for k a
    using wf that te(3) by (auto simp: wf_table_def)
  have "\<exists>ps. fold_result ?cb ?ps es = Inr ps \<and> copied u es ps" if "\<exists>rest. ?es = es @ rest" for es
    using that
  proof (induction es rule: rev_induct)
    case Nil
    show ?case
      by (simp add: copied_def)
  next
    case (snoc x es)
    obtain k a where x: "x = (k, a)" by (cases x)
    obtain rest where rest: "?es = es @ (k, a) # rest"
      using snoc.prems x by auto
    obtain ps where ps: "fold_result ?cb ?ps es = Inr ps" "copied u es ps"
      using snoc.IH rest by auto
    have "key_fits (fst ` set (filter (\<lambda>e. kept (objects u (snd e))) es)) k"
      using order unfolding rest by (auto simp: key_fits_def sorted_wrt_append)
    moreover have "a \<notin> snd ` set es" "k \<notin> fst ` set es"
      using te(2,5) unfolding rest by auto
    moreover have "a < next_object u" "\<forall>e \<in> set es. snd e < next_object u"
      using less unfolding rest by (auto, blast)
    ultimately obtain ps' where "consolidate_callback ps k (Some a) = Inr ps'" "copied u (es @ [(k, a)]) ps'"
      using copied_snoc [OF ps(2)] by blast
    with ps(1) show ?case
      by (simp add: x)
  qed
  then show ?thesis
    by (simp add: walk_entries [OF wf])
qed

lemma new_instances_map:
  assumes "\<forall>a \<in> set as. new_instance (objs a) = Some (f a)"
  shows "new_instances objs as = Inr (map f as)"
  using assms by (induction as) auto

lemma kept_completed: "kept d \<and> completed d \<longleftrightarrow> reportable d"
  by (auto simp: kept_def reportable_def)

lemma undecided_kept: "conn_inv u \<Longrightarrow> a \<in> held u \<Longrightarrow> \<not> completed (objects u a) \<Longrightarrow> kept (objects u a)"
  by (auto simp: conn_inv_def kept_def)

lemma copied_relocates:
  assumes u: "conn_inv u" and c: "copied u (table_entries (connections u)) ps"
    and f_def: "f = (\<lambda>a. the (new_instance (heap ps a)))" and S_def: "S = {a \<in> held u. kept (objects u a)}"
  shows "\<forall>a \<in> S. new_instance (heap ps a) = Some (f a)" and "\<forall>a \<in> S. heap ps (f a) = objects u a" and "inj_on f S"
    and "{b. \<exists>k. trie_map (dest ps) k = Some (Some b)} = f ` S" and "wf_table (dest ps) (heap ps) (fresh ps)"
    and "dom (trie_map (dest ps)) \<subseteq> dom (trie_map (connections u))"
proof -
  let ?ks = "filter (\<lambda>e. kept (objects u (snd e))) (table_entries (connections u))"
  have wf: "wf_table (connections u) (objects u) (next_object u)"
    using u by (simp add: conn_inv_def)
  note te = table_entries [OF wf]
  have dm: "trie_inv (dest ps)" "dom (trie_map (dest ps)) = fst ` set ?ks"
    and ent: "\<forall>e \<in> set ?ks. \<exists>b. new_instance (heap ps (snd e)) = Some b \<and> next_object u \<le> b \<and> b < fresh ps \<and>
         trie_map (dest ps) (fst e) = Some (Some b) \<and> heap ps b = objects u (snd e)"
    and inj: "inj_on (trie_map (dest ps)) (dom (trie_map (dest ps)))"
    by (insert c [unfolded copied_def Let_def], (elim conjE, assumption)+)
  have ks: "(k, a) \<in> set ?ks \<longleftrightarrow> a \<in> S \<and> trie_map (connections u) k = Some (Some a)" for k a
    using te(3) by (auto simp: S_def held_def)
  have e: "new_instance (heap ps a) = Some (f a) \<and> f a < fresh ps \<and> trie_map (dest ps) k = Some (Some (f a)) \<and> heap ps (f a) = objects u a"
    if "(k, a) \<in> set ?ks" for k a
    using bspec [OF ent that] by (auto simp: f_def)
  have S: "\<exists>k. (k, a) \<in> set ?ks" if "a \<in> S" for a
    using that ks by (auto simp: S_def held_def)
  show "\<forall>a \<in> S. new_instance (heap ps a) = Some (f a)" "\<forall>a \<in> S. heap ps (f a) = objects u a"
    using S e by blast+
  show "inj_on f S"
  proof (rule inj_onI)
    fix a b assume ab: "a \<in> S" "b \<in> S" "f a = f b"
    obtain k k' where kl: "(k, a) \<in> set ?ks" "(k', b) \<in> set ?ks"
      using S ab by blast
    then have "trie_map (dest ps) k = trie_map (dest ps) k'"
      using e ab(3) by simp
    then have "k = k'"
      using inj_onD [OF inj] e kl by blast
    with kl ks show "a = b" by force
  qed
  have from_new: "\<exists>a. (k, a) \<in> set ?ks \<and> v = Some (f a)" if "trie_map (dest ps) k = Some v" for k v
  proof -
    have "k \<in> fst ` set ?ks"
      using that dm(2) by blast
    then obtain a where "(k, a) \<in> set ?ks"
      by force
    then show ?thesis
      using e that by auto
  qed
  show "{b. \<exists>k. trie_map (dest ps) k = Some (Some b)} = f ` S"
    using from_new ks S e by blast
  have "\<exists>a. v = Some a \<and> a < fresh ps \<and> key_ok (heap ps a) k" if m: "trie_map (dest ps) k = Some v" for k v
  proof -
    obtain a where a: "(k, a) \<in> set ?ks" "v = Some (f a)"
      using from_new [OF m] by blast
    then have "key_ok (objects u a) k"
      using wf ks by (fastforce simp: wf_table_def)
    with a e show ?thesis
      by auto
  qed
  then show "wf_table (dest ps) (heap ps) (fresh ps)"
    using dm(1) inj by (simp add: wf_table_def)
  show "dom (trie_map (dest ps)) \<subseteq> dom (trie_map (connections u))"
    using from_new ks by fastforce
qed

lemma consolidate_inv:
  assumes u: "conn_inv u"
  shows "\<exists>u'. consolidate u = Inr u' \<and> conn_inv u' \<and> unsent u' \<and> same_timer u u' \<and>
    dom (trie_map (connections u')) \<subseteq> dom (trie_map (connections u))"
proof -
  have wf: "wf_table (connections u) (objects u) (next_object u)"
    using u by (simp add: conn_inv_def)
  let ?es = "table_entries (connections u)"
  obtain ps where ps: "trie_walk (connections u) consolidate_callback
      \<lparr>dest = trie_alloc, heap = objects u, fresh = next_object u, p_undecided = 0, p_finished = 0, p_send_v4 = 0, p_send_v6 = 0\<rparr> = Inr ps"
      "copied u ?es ps"
    using consolidate_walk [OF wf] by blast
  define f S where "f = (\<lambda>a. the (new_instance (heap ps a)))" and "S = {a \<in> held u. kept (objects u a)}"
  note rel = copied_relocates [OF u ps(2) f_def S_def]
  define u' where "u' = u\<lparr>timeout_list := map f (timeout_list u), connections := dest ps, objects := heap ps,
    next_object := fresh ps, finished := p_finished ps\<rparr>"
  have open_S: "set (timeout_list u) \<subseteq> S" "set (timeout_list u) = {a \<in> S. \<not> completed (objects u a)}"
    using u undecided_kept [OF u] by (auto simp: conn_inv_def S_def)
  have h: "held u' = f ` S"
    using rel(4) by (simp add: held_def u'_def)
  have cards: "card {b \<in> held u'. P (objects u' b)} = card {a \<in> S. P (objects u a)}" for P
  proof -
    have "{b \<in> held u'. P (objects u' b)} = f ` {a \<in> S. P (objects u a)}"
      using rel(2) unfolding h by (auto simp: u'_def)
    then show ?thesis
      using card_image [OF inj_on_subset [OF rel(3), of "{a \<in> S. P (objects u a)}"]] by auto
  qed
  have len: "card {a \<in> S. P (objects u a)} = length (filter (\<lambda>e. P (objects u (snd e))) (filter (\<lambda>e. kept (objects u (snd e))) ?es))" for P
    using card_held [OF wf, of "\<lambda>d. kept d \<and> P d"] by (simp add: S_def conj_ac)
  have p: "p_undecided ps = card {a \<in> S. \<not> completed (objects u a)}" "p_finished ps = card {a \<in> S. completed (objects u a)}"
    "p_send_v4 ps = card {a \<in> S. completed (objects u a) \<and> \<not> c_v6 (objects u a)}"
    "p_send_v6 ps = card {a \<in> S. completed (objects u a) \<and> c_v6 (objects u a)}"
    using ps(2) by (simp_all only: copied_def Let_def len [where P = "\<lambda>d. \<not> completed d"] len [where P = completed]
        len [where P = "\<lambda>d. completed d \<and> \<not> c_v6 d"] len [where P = "\<lambda>d. completed d \<and> c_v6 d"])
  have rep: "{a \<in> S. completed (objects u a) \<and> Q a} = {a \<in> held u. reportable (objects u a) \<and> Q a}" for Q
    using kept_completed by (auto simp: S_def)
  have "{a \<in> S. completed (objects u a)} \<subseteq> {a \<in> held u. completed (objects u a)}"
    by (auto simp: S_def)
  then have "p_finished ps \<le> finished u"
    using u finite_held [OF wf] unfolding p conn_inv_def by (auto intro: card_mono)
  moreover have "undecided u = p_undecided ps" "send_v4 u = p_send_v4 ps" "send_v6 u = p_send_v6 ps"
    using u distinct_card [of "timeout_list u"] unfolding p conn_inv_def rep open_S(2) by auto
  moreover have "new_instances (heap ps) (timeout_list u) = Inr (map f (timeout_list u))"
    using open_S(1) rel(1) by (intro new_instances_map) blast
  ultimately have run: "consolidate u = Inr u'"
    using ps(1) by (simp add: consolidate_def u'_def)
  have un: "unsent u'"
    using rel(2) unfolding unsent_def h by (auto simp: u'_def S_def kept_def)
  have "reportable d \<Longrightarrow> kept d" for d
    using kept_completed by blast
  then have repS: "{a \<in> S. reportable (objects u a) \<and> Q (objects u a)} = {a \<in> held u. reportable (objects u a) \<and> Q (objects u a)}" for Q
    by (auto simp: S_def)
  have "conn_inv u'"
    unfolding conn_inv_def
  proof (intro conjI)
    show "wf_table (connections u') (objects u') (next_object u')"
      using rel(5) by (simp add: u'_def)
    show "distinct (timeout_list u')"
      using u inj_on_subset [OF rel(3) open_S(1)] by (simp add: u'_def distinct_map conn_inv_def)
    show "set (timeout_list u') = {a \<in> held u'. \<not> completed (objects u' a)}"
      unfolding h using open_S(2) rel(2) by (auto simp: u'_def)
    show "\<forall>a \<in> held u'. transmitted (objects u' a) \<longrightarrow> completed (objects u' a)"
      using un by (simp add: unsent_def)
    show "undecided u' = length (timeout_list u')"
      using u by (simp add: u'_def conn_inv_def)
    show "finished u' = card {a \<in> held u'. completed (objects u' a)}"
      using cards [of completed] p(2) by (simp add: u'_def)
    show "send_v4 u' = card {a \<in> held u'. reportable (objects u' a) \<and> \<not> c_v6 (objects u' a)}"
      using cards [of "\<lambda>d. reportable d \<and> \<not> c_v6 d"] repS [of "\<lambda>d. \<not> c_v6 d"] u by (simp add: conn_inv_def) (simp add: u'_def)
    show "send_v6 u' = card {a \<in> held u'. reportable (objects u' a) \<and> c_v6 (objects u' a)}"
      using cards [of "\<lambda>d. reportable d \<and> c_v6 d"] repS [of c_v6] u by (simp add: conn_inv_def) (simp add: u'_def)
  qed
  moreover have "same_timer u u'" "connections u' = dest ps"
    by (simp_all add: same_timer_def u'_def)
  ultimately show ?thesis
    using run un rel(6) by auto
qed

subsection \<open>The plugin as a client of the daemon\<close>

definition refused_ok :: "(u64 \<times> unit) set \<Rightarrow> refused_data \<Rightarrow> bool" where
  "refused_ok timers u \<longleftrightarrow> conn_inv u \<and> unsent u \<and> (r_active u \<longrightarrow> timeout_scheduled u) \<and>
     timers = (if timeout_scheduled u then {(r_timeout_id u, ())} else {})"

lemma refused_ok_timer:
  "refused_ok T u \<Longrightarrow> same_timer u u' \<Longrightarrow> conn_inv u' \<Longrightarrow> unsent u' \<Longrightarrow> refused_ok T u'"
  by (simp add: refused_ok_def same_timer_def)

text \<open>Keys of the connections a packet is about: none may be the start of a longer one in the table.\<close>

definition fitting :: "refused_data \<Rightarrow> bytes result \<Rightarrow> bool" where
  "fitting u r \<longleftrightarrow> (\<exists>key. r = Inr key \<and> key_fits (dom (trie_map (connections u))) key)"

definition packet_fits :: "endian \<Rightarrow> refused_data \<Rightarrow> packet_info \<Rightarrow> bool" where
  "packet_fits e u p \<longleftrightarrow>
     (app_protocol p = CHR ''T'' \<longrightarrow>
        (pdirection p = DIR_OUT \<longrightarrow> fitting u (conn_key e (ip_protocol p = 6) (addr_dst p) (port_src p) (port_dst p))) \<and>
        (pdirection p = DIR_IN \<longrightarrow> fitting u (conn_key e (ip_protocol p = 6) (addr_src p) (port_dst p) (port_src p)))) \<and>
     (app_protocol p \<in> {CHR ''i'', CHR ''I''} \<and> pdirection p = DIR_IN \<longrightarrow>
        (\<exists>r. nak_parse p = Inr r \<and> (\<forall>nak addr lp rp. r = Some (nak, addr, lp, rp) \<longrightarrow>
           fitting u (conn_key e (ip_protocol p = 6) (Some addr) lp rp))))"

lemma tcp_events_inv:
  assumes u: "conn_inv u" "unsent u" and p: "packet_fits e u p" "app_protocol p = CHR ''T''"
  shows "\<exists>u'. tcp_events e t p u = Inr u' \<and> conn_inv u' \<and> unsent u' \<and> same_timer u u'"
proof -
  let ?v6 = "ip_protocol p = 6" and ?f = "tcp_flags p"
  have same: "\<exists>u'. Inr u = Inr u' \<and> conn_inv u' \<and> unsent u' \<and> same_timer u u'"
    using u by (simp add: same_timer_def)
  show ?thesis
  proof (cases "pdirection p")
    case DIR_OUT
    then obtain key where k: "conn_key e ?v6 (addr_dst p) (port_src p) (port_dst p) = Inr key" "key_fits (dom (trie_map (connections u))) key"
      using p by (auto simp: packet_fits_def fitting_def)
    show ?thesis
      using handle_event_inv [OF u k, of EVENT_SYN t NUL] same DIR_OUT by (auto simp: tcp_events_def Let_def)
  next
    case DIR_IN
    then obtain key where k: "conn_key e ?v6 (addr_src p) (port_dst p) (port_src p) = Inr key" "key_fits (dom (trie_map (connections u))) key"
      using p by (auto simp: packet_fits_def fitting_def)
    have nak: "\<exists>u''. (if ?f AND TCP_RESET \<noteq> 0
        then handle_event e t u' EVENT_NAK (CHR ''P'') ?v6 (addr_src p) (port_dst p) (port_src p) else Inr u') = Inr u'' \<and>
        conn_inv u'' \<and> unsent u'' \<and> same_timer u u''"
      if u': "conn_inv u'" "unsent u'" "same_timer u u'" "dom (trie_map (connections u')) \<in> {dom (trie_map (connections u)), insert key (dom (trie_map (connections u)))}" for u'
    proof -
      have "key_fits (dom (trie_map (connections u'))) key"
        using k(2) u'(4) unfolding insert_iff empty_iff by (elim disjE FalseE) (simp_all add: key_fits_def)
      from handle_event_inv [OF u'(1,2) k(1) this, of EVENT_NAK t "CHR ''P''"] show ?thesis
        using u' same_timer_trans by auto
    qed
    obtain u' where u': "(if ?f AND TCP_SYN \<noteq> 0 \<and> ?f AND TCP_ACK \<noteq> 0
        then handle_event e t u EVENT_ACK NUL ?v6 (addr_src p) (port_dst p) (port_src p) else Inr u) = Inr u'"
        "conn_inv u'" "unsent u'" "same_timer u u'" "dom (trie_map (connections u')) \<in> {dom (trie_map (connections u)), insert key (dom (trie_map (connections u)))}"
    proof (cases "?f AND TCP_SYN \<noteq> 0 \<and> ?f AND TCP_ACK \<noteq> 0")
      case True
      then show ?thesis
        using handle_event_inv [OF u k, of EVENT_ACK t NUL] that by (metis event_type.distinct(9))
    next
      case False
      then show ?thesis
        using that [of u] u by (auto simp: same_timer_def)
    qed
    from nak [OF u'(2-5)] u'(1) DIR_IN show ?thesis
      by (simp add: tcp_events_def Let_def)
  qed (use same in \<open>auto simp: tcp_events_def Let_def\<close>)
qed

lemma icmp_event_inv:
  assumes u: "conn_inv u" "unsent u" and p: "packet_fits e u p"
  shows "\<exists>u'. icmp_event e t p u = Inr u' \<and> conn_inv u' \<and> unsent u' \<and> same_timer u u'"
proof (cases "(app_protocol p = CHR ''i'' \<or> app_protocol p = CHR ''I'') \<and> pdirection p = DIR_IN")
  case True
  then obtain r where r: "nak_parse p = Inr r" "\<forall>nak addr lp rp. r = Some (nak, addr, lp, rp) \<longrightarrow>
      fitting u (conn_key e (ip_protocol p = 6) (Some addr) lp rp)"
    using p by (auto simp: packet_fits_def)
  show ?thesis
  proof (cases r)
    case (Some n)
    obtain nak addr lp rp where n: "n = (nak, addr, lp, rp)" by (cases n)
    then obtain key where k: "conn_key e (ip_protocol p = 6) (Some addr) lp rp = Inr key" "key_fits (dom (trie_map (connections u))) key"
      using r(2) Some by (auto simp: fitting_def)
    show ?thesis
      using handle_event_inv [OF u k, of EVENT_NAK t nak] True r(1) Some n by (auto simp: icmp_event_def)
  qed (use True r(1) u in \<open>simp add: icmp_event_def same_timer_def\<close>)
qed (use u in \<open>auto simp: icmp_event_def same_timer_def\<close>)

lemma refused_ok_missed [simp]: "refused_ok T (u\<lparr>timeout_missed := b\<rparr>) = refused_ok T u"
  by (simp add: refused_ok_def conn_inv_def unsent_def held_def)

text \<open>What a transmission leaves: everything marked as sent, or all as before.\<close>

fun outcome :: "('w \<Rightarrow> bool) \<Rightarrow> ('w \<Rightarrow> (u64 \<times> unit) set) \<Rightarrow> bool \<times> 'w \<times> refused_data \<Rightarrow> bool" where
  "outcome ok mine (True, w, u) \<longleftrightarrow> ok w \<and> (\<exists>u1. u = sent_state u1 \<and> refused_ok (mine w) u1)"
| "outcome ok mine (False, w, u) \<longleftrightarrow> ok w \<and> refused_ok (mine w) u"

lemma outcome_bind:
  assumes "safe (outcome ok mine) r"
    and "\<And>w u1. ok w \<Longrightarrow> refused_ok (mine w) u1 \<Longrightarrow> safe P (f (True, w, sent_state u1))"
    and "\<And>w u. ok w \<Longrightarrow> refused_ok (mine w) u \<Longrightarrow> safe P (f (False, w, u))"
  shows "safe P (rbind r f)"
proof (rule safe_bind [OF assms(1)])
  fix x assume "outcome ok mine x"
  then show "safe P (f x)"
    using assms(2,3) by (cases "(ok, mine, x)" rule: outcome.cases) auto
qed

locale refused_client = plugin_services sv inv mine for sv :: "(unit, 'w) services" and inv and mine
begin

lemma restart_safe:
  assumes w: "inv w" and u: "conn_inv u" "unsent u" and m: "mine w = (if timeout_scheduled u then {(r_timeout_id u, ())} else {})"
  shows "safe (\<lambda>(w', u'). inv w' \<and> refused_ok (mine w') u') (restart_timeout sv w u)"
proof -
  have "safe (\<lambda>w'. inv w' \<and> mine w' = {}) (if timeout_scheduled u then sv_timeout_cancel sv w (r_timeout_id u) else Inr w)"
    using w m by (auto intro!: safe_mono [OF cancel_ok])
  then show ?thesis
    unfolding restart_timeout_def
  proof (rule safe_bind)
    fix w1 assume w1: "inv w1 \<and> mine w1 = {}"
    have "refused_ok {(i, ())} (u\<lparr>timeout_scheduled := True, r_timeout_id := i\<rparr>)" for i
      using u by (simp add: refused_ok_def conn_inv_def unsent_def held_def)
    then show "safe (\<lambda>(w', u'). inv w' \<and> refused_ok (mine w') u')
      (rbind (sv_timeout_add sv w1 (ucast (max_age u)) ()) (\<lambda>(i, w). Inr (w, u\<lparr>timeout_scheduled := True, r_timeout_id := i\<rparr>)))"
      using w1 by (intro safe_bind [OF add_ok]) auto
  qed
qed

lemma send_report_safe:
  assumes w: "inv w" and u: "refused_ok (mine w) u"
  shows "safe (outcome inv mine) (send_report e sv w u force)"
proof -
  have c: "conn_inv u" "unsent u"
    using u by (simp_all add: refused_ok_def)
  have "safe (outcome inv mine) (rbind (sv_send sv w msg) (\<lambda>(ok, w).
      if \<not> ok \<and> \<not> force then Inr (False, w, u) else Inr (True, w, sent_state u)))" for msg
    by (rule safe_bind [OF send_ok [OF w]]) (use u in auto)
  then show ?thesis
    using transmit_walk [OF c(1), of e] unmark_walk_back [OF c]
    by (simp add: send_report_def sent_state_def cong: if_cong)
qed

lemma transmit_safe:
  assumes w: "inv w" and u: "conn_inv u" "unsent u" and m: "mine w = (if timeout_scheduled u then {(r_timeout_id u, ())} else {})"
  shows "safe (outcome inv mine) (transmit e sv w u force)"
  unfolding transmit_def
  by (rule safe_bind [OF restart_safe [OF assms]]) (auto intro: send_report_safe)

lemma consolidated:
  assumes "inv w" and "refused_ok (mine w) u1" and "u = u1 \<or> u = sent_state u1"
  shows "safe (\<lambda>(w', u'). inv w' \<and> refused_ok (mine w') u') (rbind (consolidate u) (\<lambda>u. Inr (w, u)))"
proof -
  have "conn_inv u" "same_timer u1 u"
    using assms sent_state_inv by (auto simp: refused_ok_def same_timer_def sent_state_def)
  then obtain u' where "consolidate u = Inr u'" "conn_inv u'" "unsent u'" "same_timer u1 u'"
    using consolidate_inv same_timer_trans by blast
  then show ?thesis
    using assms(1) refused_ok_timer [OF assms(2)] by simp
qed

lemma limits_check_safe:
  assumes w: "inv w" and u: "refused_ok (mine w) u"
  shows "safe (\<lambda>(w', u'). inv w' \<and> refused_ok (mine w') u') (limits_check e sv w u)"
proof -
  have "safe (outcome inv mine) (if unat (send_limit u) \<le> send_v4 u + send_v6 u
      then transmit e sv w u (unat (send_limit u * 2) \<le> send_v4 u + send_v6 u) else Inr (False, w, u))"
    using assms transmit_safe [OF w] by (auto simp: refused_ok_def)
  then show ?thesis
    unfolding limits_check_def
    by (rule outcome_bind) (auto intro!: consolidated)
qed

lemma packet_safe:
  assumes w: "inv w" and u: "refused_ok (mine w) u" and p: "ps \<noteq> []" "layer (last ps) = CHR ''I'' \<longrightarrow> packet_fits e u (last ps)"
  shows "safe (\<lambda>(w', u'). inv w' \<and> refused_ok (mine w') u') (packet e sv w u ps)"
proof (cases "r_active u \<and> layer (last ps) = CHR ''I'' \<and> (ip_protocol (last ps) = 4 \<or> ip_protocol (last ps) = 6)")
  case True
  let ?p = "last ps" and ?t = "sv_now sv w"
  have c: "conn_inv u" "unsent u" "packet_fits e u ?p"
    using u p(2) True by (simp_all add: refused_ok_def)
  have "\<exists>u'. rbind (if app_protocol ?p = CHR ''T'' then tcp_events e ?t ?p u else Inr u) (icmp_event e ?t ?p) = Inr u' \<and>
      conn_inv u' \<and> unsent u' \<and> same_timer u u'"
  proof (cases "app_protocol ?p = CHR ''T''")
    case True
    then show ?thesis
      using tcp_events_inv [OF c True, of ?t] by (auto simp: icmp_event_def)
  next
    case False
    then show ?thesis
      using icmp_event_inv [OF c] by simp
  qed
  then obtain u1 where u1: "rbind (if app_protocol ?p = CHR ''T'' then tcp_events e ?t ?p u else Inr u) (icmp_event e ?t ?p) = Inr u1"
      "conn_inv u1" "unsent u1" "same_timer u u1"
    by blast
  obtain u2 where u2: "timeouts_evaluate ?t u1 = Inr u2" "conn_inv u2" "unsent u2" "same_timer u1 u2"
    using timeouts_evaluate_inv [OF u1(2,3)] by blast
  have "refused_ok (mine w) u2"
    using refused_ok_timer [OF u same_timer_trans [OF u1(4) u2(4)] u2(2,3)] .
  moreover have "packet e sv w u ps = limits_check e sv w u2"
    using True p(1) u1(1) u2(1) unfolding packet_def Let_def by (auto simp: rbind_assoc [symmetric])
  ultimately show ?thesis
    using limits_check_safe [OF w] by simp
next
  case False
  then show ?thesis
    using w u p(1) by (auto simp: packet_def Let_def)
qed

lemma send_timeout_safe:
  assumes w: "inv w" "mine w = {}" and u: "conn_inv u" "unsent u" "timeout_scheduled u"
  shows "safe (\<lambda>(w', u'). inv w' \<and> refused_ok (mine w') u') (send_timeout e sv w u)"
proof -
  have "conn_inv (u\<lparr>timeout_scheduled := False\<rparr>)" "unsent (u\<lparr>timeout_scheduled := False\<rparr>)"
    using u by (simp_all add: conn_inv_def unsent_def held_def)
  then have "safe (outcome inv mine) (transmit e sv w (u\<lparr>timeout_scheduled := False\<rparr>) (timeout_missed u))"
    using w by (intro transmit_safe) auto
  then have "safe (\<lambda>(w', u'). inv w' \<and> refused_ok (mine w') u')
      (rbind (transmit e sv w (u\<lparr>timeout_scheduled := False\<rparr>) (timeout_missed u)) (\<lambda>(ok, w, u).
        if \<not> ok then Inr (w, u\<lparr>timeout_missed := True\<rparr>) else rbind (consolidate u) (\<lambda>u. Inr (w, u))))"
    by (rule outcome_bind) (auto intro!: consolidated)
  moreover have "refused_ok {(i, ())} (u\<lparr>r_timeout_id := i\<rparr>)" for i
    using u by (simp add: refused_ok_def conn_inv_def unsent_def held_def)
  then have "safe (\<lambda>(w', u'). inv w' \<and> refused_ok (mine w') u')
      (rbind (sv_timeout_add sv w (ucast (max_age u)) ()) (\<lambda>(i, w). Inr (w, u\<lparr>r_timeout_id := i\<rparr>)))"
    using w by (intro safe_bind [OF add_ok]) auto
  ultimately show ?thesis
    by (simp add: send_timeout_def)
qed

lemma refused_connected_safe:
  assumes w: "inv w" and u: "refused_ok (mine w) u"
  shows "safe (\<lambda>(w', u'). inv w' \<and> refused_ok (mine w') u') (connected e sv w u)"
  unfolding connected_def
proof (rule safe_bind [OF tell_ok [OF w]])
  fix w1 assume w1: "inv w1 \<and> mine w1 = mine w \<and> sv_now sv w1 = sv_now sv w"
  have ok: "refused_ok (mine w1) u"
    using w1 u by simp
  have "safe (outcome inv mine) (transmit e sv w1 u False)"
    using w1 ok by (intro transmit_safe) (auto simp: refused_ok_def)
  then have "safe (\<lambda>(w', u'). inv w' \<and> refused_ok (mine w') u')
      (rbind (transmit e sv w1 u False) (\<lambda>(ok, w, u). if ok then rbind (consolidate u) (\<lambda>u. Inr (w, u)) else Inr (w, u)))"
    by (rule outcome_bind) (auto intro!: consolidated)
  then show "safe (\<lambda>(w', u'). inv w' \<and> refused_ok (mine w') u') (if r_active u then
         if timeout_missed u then rbind (transmit e sv w1 u False) (\<lambda>(ok, w, u).
             if ok then rbind (consolidate u) (\<lambda>u. Inr (w, u)) else Inr (w, u))
         else limits_check e sv w1 u
       else Inr (w1, u))"
    using w1 ok limits_check_safe [of w1 u] by simp
qed

lemma uplink_data_safe:
  assumes w: "inv w" and u: "refused_ok (mine w) u"
  shows "safe (\<lambda>(w', u'). inv w' \<and> refused_ok (mine w') u') (uplink_data sv w u bs)"
proof -
  define v where "v = u\<lparr>r_config_version := get32 (tl bs), finished_limit := get32 (drop 4 (tl bs)), send_limit := get32 (drop 8 (tl bs)),
    undecided_limit := get32 (drop 12 (tl bs)), r_timeout := get64 (drop 16 (tl bs)), max_age := get64 (drop 24 (tl bs)), r_active := True\<rparr>"
  have "conn_inv v" "unsent v" "mine w = (if timeout_scheduled v then {(r_timeout_id v, ())} else {})"
    using u by (simp_all add: refused_ok_def conn_inv_def unsent_def held_def v_def)
  from restart_safe [OF w this] show ?thesis
    using w u by (simp add: uplink_data_def Let_def v_def)
qed

end

interpretation rc: refused_client "plugin_service (silent m) i" live "plugin_timers i"
  by unfold_locales

subsection \<open>Properties\<close>

text \<open>The life of the plugin in the daemon. Packets come as the parser gives them, and their
  connections fit the table.\<close>

inductive refused_reach ::
  "('z, unit, 'p) platform \<Rightarrow> nat \<Rightarrow> endian \<Rightarrow> ('z, unit, 'p) world \<Rightarrow> refused_data \<Rightarrow> bool"
  for m i e where
  start: "live w \<Longrightarrow> plugin_timers i w = {} \<Longrightarrow> init e (plugin_service (silent m) i) w = Inr (w', u) \<Longrightarrow> refused_reach m i e w' u"
| others: "refused_reach m i e w u \<Longrightarrow> live w' \<Longrightarrow> plugin_timers i w' = plugin_timers i w \<Longrightarrow> refused_reach m i e w' u"
| packet: "refused_reach m i e w u \<Longrightarrow> ps \<noteq> [] \<Longrightarrow> layer (last ps) = CHR ''I'' \<longrightarrow> packet_fits e u (last ps) \<Longrightarrow>
    packet e (plugin_service (silent m) i) w u ps = Inr (w', u') \<Longrightarrow> refused_reach m i e w' u'"
| message: "refused_reach m i e w u \<Longrightarrow> uplink_data (plugin_service (silent m) i) w u bs = Inr (w', u') \<Longrightarrow> refused_reach m i e w' u'"
| connect: "refused_reach m i e w u \<Longrightarrow> connected e (plugin_service (silent m) i) w u = Inr (w', u') \<Longrightarrow> refused_reach m i e w' u'"
| timeout: "refused_reach m i e w u \<Longrightarrow> queue (w_timeouts w) = t # ts \<Longrightarrow> tcontext t = Some i \<Longrightarrow> callback t = PluginTimer () \<Longrightarrow>
    send_timeout e (plugin_service (silent m) i) (unqueue w) u = Inr (w', u') \<Longrightarrow> refused_reach m i e w' u'"

lemma refused_init_ok: "refused_ok {} refused_data_init"
  by (auto simp: refused_ok_def conn_inv_def unsent_def held_def refused_data_init_def wf_table_def)

lemma refused_reach_ok: "refused_reach m i e w u \<Longrightarrow> live w \<and> refused_ok (plugin_timers i w) u"
proof (induction rule: refused_reach.induct)
  case (start w w' u)
  have "safe (\<lambda>(w', u'). live w' \<and> refused_ok (plugin_timers i w') u') (connected e (plugin_service (silent m) i) w refused_data_init)"
    by (rule rc.refused_connected_safe) (use start refused_init_ok in auto)
  with start(3) show ?case
    by (simp add: init_def)
next
  case (packet w u ps w' u')
  have "safe (\<lambda>(w', u'). live w' \<and> refused_ok (plugin_timers i w') u') (packet e (plugin_service (silent m) i) w u ps)"
    by (rule rc.packet_safe) (use packet in auto)
  with packet.hyps(4) show ?case
    by simp
next
  case (message w u bs w' u')
  have "safe (\<lambda>(w', u'). live w' \<and> refused_ok (plugin_timers i w') u') (uplink_data (plugin_service (silent m) i) w u bs)"
    by (rule rc.uplink_data_safe) (use message in auto)
  with message.hyps(2) show ?case
    by simp
next
  case (connect w u w' u')
  have "safe (\<lambda>(w', u'). live w' \<and> refused_ok (plugin_timers i w') u') (connected e (plugin_service (silent m) i) w u)"
    by (rule rc.refused_connected_safe) (use connect in auto)
  with connect.hyps(2) show ?case
    by simp
next
  case (timeout w u t ts w' u')
  note q = unqueue_plugin [OF conjunct1 [OF timeout.IH] timeout.hyps(2-4)]
  have mine: "plugin_timers i w = (if timeout_scheduled u then {(r_timeout_id u, ())} else {})"
    using timeout.IH by (simp add: refused_ok_def)
  then have t: "timeout_scheduled u" "plugin_timers i (unqueue w) = {}"
    using q by (auto split: if_splits)
  have "safe (\<lambda>(w', u'). live w' \<and> refused_ok (plugin_timers i w') u') (send_timeout e (plugin_service (silent m) i) (unqueue w) u)"
  proof (rule rc.send_timeout_safe)
    show "live (unqueue w)" "plugin_timers i (unqueue w) = {}" "timeout_scheduled u"
      using q t by blast+
    show "conn_inv u" "unsent u"
      using timeout.IH unfolding refused_ok_def by blast+
  qed
  with timeout.hyps(5) show ?case
    by simp
qed simp


text \<open>A configuration: version 1, limits of 10 finished, 10 to send and 3 undecided ones, 30 s, one hour.\<close>

definition sample_config :: bytes where
  "sample_config = code (CHR ''C'') # put32 1 @ put32 10 @ put32 10 @ put32 3 @ put64 30000 @ put64 3600000"

lemma activated:
  "\<exists>w u. refused_reach idle_platform 0 LittleEndian w u \<and> r_active u \<and> connections u = trie_alloc"
proof -
  have init: "refused_reach idle_platform 0 LittleEndian offline_world refused_data_init"
    by (rule refused_reach.start [OF offline_live])
       (simp add: init_def connected_def sv_tell_def offline_send refused_data_init_def)
  have "\<exists>w u. uplink_data (plugin_service (silent idle_platform) 0) offline_world refused_data_init sample_config = Inr (w, u) \<and>
      r_active u \<and> connections u = trie_alloc"
    by (simp add: uplink_data_def sample_config_def restart_timeout_def plugin_service_def add_timer_def loop_timeout_add_def
        offline_world_def refused_data_init_def Let_def)
  then show ?thesis
    using refused_reach.message [OF init] by blast
qed


lemma nat_be_2: "nat_be 2 v = [word_of_nat (v div 256), word_of_nat v]"
  by (simp add: numeral_2_eq_2)

text \<open>
  C29: An accepted connection may be reported as refused. The table mixes the keys of IPv4 and IPv6.
  When the address and ports of an IPv4 connection start the address of an IPv6 connection in the
  table, the trie loses the IPv4 connection: the answer of the server finds nothing and is taken
  for another connection, and when the first one times out it is counted as one to report, though
  it was accepted.
\<close>

theorem accepted_reported_refused:
  assumes "conn_key e False addr4 lp rp = Inr k" and "conn_key e True addr6 lp6 rp6 = Inr (k @ z)"
  shows "\<exists>u u'. rbind (handle_event e 1000 (refused_data_init\<lparr>undecided_limit := 3\<rparr>) EVENT_SYN NUL True addr6 lp6 rp6) (\<lambda>u.
      rbind (handle_event e 1000 u EVENT_SYN NUL False addr4 lp rp) (\<lambda>u.
        handle_event e 1000 u EVENT_ACK NUL False addr4 lp rp)) = Inr u \<and> undecided u = 3 \<and>
    timeouts_evaluate 40000 u = Inr u' \<and> send_v4 u' = 1"
proof -
  have len: "length k = 8" "length (k @ z) = 20"
    using conn_key_length [OF assms(1)] conn_key_length [OF assms(2)] by (simp_all add: key_ok_def new_connection_def)
  then have z: "k \<noteq> []" "z \<noteq> []"
    by auto
  show ?thesis
    using z
    by (simp add: handle_event_def assms refused_data_init_def trie_put_def trie_index_def trie_lookup_def trie_alloc_def
        trie_store_def trie_new_node_def trie_index_internal.simps Let_def handle_event_found_def note_event_def decided_def
        new_connection_def timeouts_evaluate.simps size_sub_def)
qed

theorem accepted_reported_refused_witness:
  "\<exists>u u'. rbind (handle_event BigEndian 1000 (refused_data_init\<lparr>undecided_limit := 3\<rparr>) EVENT_SYN NUL True
        (Some [32, 1, 13, 184, 0, 80, 1, 187, 0, 0, 0, 0, 0, 0, 0, 1]) 4000 80) (\<lambda>u.
      rbind (handle_event BigEndian 1000 u EVENT_SYN NUL False (Some [32, 1, 13, 184]) 80 443) (\<lambda>u.
        handle_event BigEndian 1000 u EVENT_ACK NUL False (Some [32, 1, 13, 184]) 80 443)) = Inr u \<and>
    timeouts_evaluate 40000 u = Inr u' \<and> send_v4 u' = 1"
proof -
  have p: "put16 80 = [0, 80]" "put16 443 = [1, 187]"
    by (simp_all add: put16_def nat_be_2)
  have a: "conn_key BigEndian False (Some [32, 1, 13, 184]) 80 443 = Inr [32, 1, 13, 184, 0, 80, 1, 187]"
    by (simp add: conn_key_def p)
  have b: "conn_key BigEndian True (Some [32, 1, 13, 184, 0, 80, 1, 187, 0, 0, 0, 0, 0, 0, 0, 1]) 4000 80 =
      Inr ([32, 1, 13, 184, 0, 80, 1, 187] @ [0, 0, 0, 0, 0, 0, 0, 1] @ put16 4000 @ put16 80)"
    by (simp add: conn_key_def)
  from accepted_reported_refused [OF a b] show ?thesis
    by (elim exE conjE) (intro exI conjI, assumption+)
qed

end
