(* ===== verification/Bandwidth.thy ===== *)
theory Bandwidth
  imports Packet Services
begin

text \<open>
  The bandwidth plugin (\<open>plugins/bandwidth/bandwidth.c\<close>): the highest traffic in time windows of
  several lengths, and the time spent and the bytes moved at each speed.

  A window is a ring of frames; the oldest one starts at the timestamp of the window. The loop that
  moves the ring forward may run for ever (its comparison wraps around at the end of the 64-bit
  time), so it is a partial function, and not returning is the fault \<open>Diverged\<close>. The text of the
  debug dump is not modelled, its effect on the counters and the timeout is; whether its file could
  be opened is an argument.
\<close>

subsection \<open>State\<close>

record frame =
  in_sum :: u64
  out_sum :: u64

record window =
  win_len :: u64
  win_cnt :: nat
  win_timestamp :: u64
  current_frame :: nat
  in_max :: u64
  out_max :: u64
  dbg_dump_in_max :: u64
  dbg_dump_out_max :: u64
  frames :: "frame list"

record bucket =
  b_key :: u64
  b_time :: u64
  b_bytes :: u64

record bandwidth_data =
  windows :: "window list"
  in_buckets :: "bucket list"
  out_buckets :: "bucket list"
  bw_timestamp :: u64
  dbg_dump_timeout :: u64

text \<open>The buckets of both directions, as the loop over the frames changes them.\<close>

type_synonym speeds = "bucket list \<times> bucket list"

definition SEC :: u64 where "SEC = 1000"
definition STATS_FROM_WINDOW :: u64 where "STATS_FROM_WINDOW = 2000"
definition DBG_DUMP_INTERVAL :: u32 where "DBG_DUMP_INTERVAL = 3000"

definition delayed_timestamp :: "u64 \<Rightarrow> u64 \<Rightarrow> nat \<Rightarrow> u64" where
  "delayed_timestamp t window_len windows_cnt = t - window_len * of_nat windows_cnt"

definition no_frame :: frame where
  "no_frame = \<lparr>in_sum = 0, out_sum = 0\<rparr>"

definition init_window :: "u64 \<Rightarrow> nat \<Rightarrow> u64 \<Rightarrow> window result" where
  "init_window len cnt t =
     assert_then (cnt \<ge> 2)
       (Inr \<lparr>win_len = len, win_cnt = cnt, win_timestamp = delayed_timestamp t len cnt, current_frame = 0,
             in_max = 0, out_max = 0, dbg_dump_in_max = 0, dbg_dump_out_max = 0, frames = replicate cnt no_frame\<rparr>)"

definition bytes_to_kbits :: "u64 \<Rightarrow> u64" where
  "bytes_to_kbits n = n * 8 div 1000"

definition kbits_to_bytes :: "u64 \<Rightarrow> u64" where
  "kbits_to_bytes n = n * 1000 div 8"

definition init_bucket :: "nat \<Rightarrow> bucket" where
  "init_bucket kilo_bits_per_second = \<lparr>b_key = kbits_to_bytes (of_nat kilo_bits_per_second), b_time = 0, b_bytes = 0\<rparr>"

subsection \<open>Packets\<close>

text \<open>The first bucket, from the second on, whose bounds hold the speed.\<close>

fun note_bucket :: "u64 \<Rightarrow> u64 \<Rightarrow> u64 \<Rightarrow> bucket list \<Rightarrow> bucket list" where
  "note_bucket speed seconds n (a # b # bs) =
     (if b_key a \<le> speed \<and> speed \<le> b_key b
      then a # b\<lparr>b_time := b_time b + seconds, b_bytes := b_bytes b + n\<rparr> # bs
      else a # note_bucket speed seconds n (b # bs))"
| "note_bucket speed seconds n bs = bs"

text \<open>The number of seconds is a plain \<open>char\<close>.\<close>

definition update_buckets :: "u64 \<Rightarrow> u64 \<Rightarrow> u64 \<Rightarrow> speeds \<Rightarrow> speeds result" where
  "update_buckets inn out winlen = (\<lambda>(ib, ob).
     assert_then (winlen \<ge> SEC)
       (let seconds = ucast (ucast (winlen div SEC) :: 8 word)
        in if seconds = 0 then Inl DivByZero
           else Inr (note_bucket (inn div seconds) seconds inn ib, note_bucket (out div seconds) seconds out ob)))"

text \<open>The clock went back behind the history: it is dropped.\<close>

definition drop_history :: "u64 \<Rightarrow> window \<Rightarrow> window" where
  "drop_history t cw =
     (if t < win_timestamp cw
      then cw\<lparr>win_timestamp := delayed_timestamp t (win_len cw) (win_cnt cw),
              frames := replicate (win_cnt cw) no_frame, current_frame := 0\<rparr>
      else cw)"

text \<open>The oldest frame is left and becomes the newest one.\<close>

definition next_frame :: "window \<Rightarrow> speeds \<Rightarrow> (window \<times> speeds) result" where
  "next_frame cw st =
     (if length (frames cw) \<le> current_frame cw then Inl BadAccess
      else if win_cnt cw = 0 then Inl DivByZero
      else let f = frames cw ! current_frame cw
        in rbind (if win_len cw = STATS_FROM_WINDOW then update_buckets (in_sum f) (out_sum f) (win_len cw) st else Inr st) (\<lambda>st.
             Inr (cw\<lparr>in_max := (if in_sum f > in_max cw then in_sum f else in_max cw),
                     out_max := (if out_sum f > out_max cw then out_sum f else out_max cw),
                     dbg_dump_in_max := (if in_sum f > dbg_dump_in_max cw then in_sum f else dbg_dump_in_max cw),
                     dbg_dump_out_max := (if out_sum f > dbg_dump_out_max cw then out_sum f else dbg_dump_out_max cw),
                     frames := (frames cw)[current_frame cw := no_frame],
                     win_timestamp := win_timestamp cw + win_len cw,
                     current_frame := (current_frame cw + 1) mod win_cnt cw\<rparr>, st)))"

partial_function (option) rewind :: "u64 \<Rightarrow> window \<Rightarrow> speeds \<Rightarrow> (window \<times> speeds) result option" where
  "rewind t cw st =
     (if t > win_timestamp cw + win_len cw * of_nat (win_cnt cw)
      then (case next_frame cw st of Inl e \<Rightarrow> Some (Inl e) | Inr (cw', st') \<Rightarrow> rewind t cw' st')
      else Some (Inr (cw, st)))"

definition add_length :: "u64 \<Rightarrow> bool \<Rightarrow> u64 \<Rightarrow> window \<Rightarrow> window result" where
  "add_length t inbound n cw =
     (if win_len cw = 0 \<or> win_cnt cw = 0 then Inl DivByZero
      else let i = (current_frame cw + unat ((t - win_timestamp cw) div win_len cw)) mod win_cnt cw
        in if length (frames cw) \<le> i then Inl BadAccess
           else let f = frames cw ! i
             in Inr (cw\<lparr>frames := (frames cw)[i := (if inbound then f\<lparr>in_sum := in_sum f + n\<rparr> else f\<lparr>out_sum := out_sum f + n\<rparr>)]\<rparr>))"

definition window_packet :: "u64 \<Rightarrow> bool \<Rightarrow> u64 \<Rightarrow> window \<Rightarrow> speeds \<Rightarrow> (window \<times> speeds) result" where
  "window_packet t inbound n cw st =
     (case rewind t (drop_history t cw) st of
        None \<Rightarrow> Inl Diverged
      | Some r \<Rightarrow> rbind r (\<lambda>(cw, st). rbind (add_length t inbound n cw) (\<lambda>cw. Inr (cw, st))))"

fun windows_packet :: "u64 \<Rightarrow> bool \<Rightarrow> u64 \<Rightarrow> window list \<Rightarrow> speeds \<Rightarrow> (window list \<times> speeds) result" where
  "windows_packet t inbound n [] st = Inr ([], st)"
| "windows_packet t inbound n (cw # cws) st =
     rbind (window_packet t inbound n cw st) (\<lambda>(cw, st).
       rbind (windows_packet t inbound n cws st) (\<lambda>(cws, st). Inr (cw # cws, st)))"

text \<open>The first argument is the time of the loop.\<close>

definition packet_handle :: "u64 \<Rightarrow> bandwidth_data \<Rightarrow> packet \<Rightarrow> bandwidth_data result" where
  "packet_handle t d ps =
     (case ps of
        [] \<Rightarrow> Inl BadAccess
      | info # _ \<Rightarrow>
          rbind (windows_packet t (pdirection info = DIR_IN) (of_nat (plength info)) (windows d) (in_buckets d, out_buckets d))
            (\<lambda>(ws, ib, ob). Inr (d\<lparr>windows := ws, in_buckets := ib, out_buckets := ob\<rparr>)))"

subsection \<open>Reports\<close>

text \<open>The maximum includes the frames that are still in the ring.\<close>

definition frame_max :: "window \<Rightarrow> nat \<Rightarrow> window result" where
  "frame_max cw j =
     (let i = (current_frame cw + j) mod win_cnt cw
      in if length (frames cw) \<le> i then Inl BadAccess
         else let f = frames cw ! i
           in Inr (cw\<lparr>in_max := (if in_sum f > in_max cw then in_sum f else in_max cw),
                      out_max := (if out_sum f > out_max cw then out_sum f else out_max cw)\<rparr>))"

definition window_max :: "window \<Rightarrow> window result" where
  "window_max cw = fold_result frame_max cw [0..<win_cnt cw]"

fun windows_max :: "window list \<Rightarrow> window list result" where
  "windows_max [] = Inr []"
| "windows_max (cw # cws) = rbind (window_max cw) (\<lambda>cw. rbind (windows_max cws) (\<lambda>cws. Inr (cw # cws)))"

definition used_buckets :: "speeds \<Rightarrow> (bucket \<times> bucket) list" where
  "used_buckets = (\<lambda>(ib, ob). filter (\<lambda>(i, oo). b_time i \<noteq> 0 \<or> b_time oo \<noteq> 0) (zip ib ob))"

definition bucket_items :: "bucket \<times> bucket \<Rightarrow> u64 list" where
  "bucket_items = (\<lambda>(i, oo). [bytes_to_kbits (b_key i), b_time i, b_bytes i, b_time oo, b_bytes oo])"

definition window_items :: "window \<Rightarrow> u64 list" where
  "window_items cw = [win_len cw * 1000, in_max cw, out_max cw]"

definition report_items :: "u64 \<Rightarrow> u64 list list \<Rightarrow> speeds \<Rightarrow> u64 list" where
  "report_items t ws st =
     [t, of_nat (length ws)] @ concat ws @ [of_nat (length (used_buckets st))] @ concat (map bucket_items (used_buckets st))"

definition reset_window :: "window \<Rightarrow> window" where
  "reset_window cw = cw\<lparr>in_max := 0, out_max := 0\<rparr>"

definition reset_bucket :: "bucket \<Rightarrow> bucket" where
  "reset_bucket b = b\<lparr>b_time := 0, b_bytes := 0\<rparr>"

definition communicate :: "('c, 'w) services \<Rightarrow> 'w \<Rightarrow> bandwidth_data \<Rightarrow> bytes \<Rightarrow> ('w \<times> bandwidth_data) result" where
  "communicate sv w d bs =
     sanity (length bs = 8)
       (rbind (windows_max (windows d)) (\<lambda>ws.
          rbind (sv_tell sv w (concat (map put64 (report_items (bw_timestamp d) (map window_items ws) (in_buckets d, out_buckets d))))) (\<lambda>w.
            Inr (w, d\<lparr>bw_timestamp := get64 bs, windows := map reset_window ws,
                      in_buckets := map reset_bucket (in_buckets d), out_buckets := map reset_bucket (out_buckets d)\<rparr>))))"

definition dbg_dump :: "bool \<Rightarrow> (unit, 'w) services \<Rightarrow> 'w \<Rightarrow> bandwidth_data \<Rightarrow> ('w \<times> bandwidth_data) result" where
  "dbg_dump opened sv w d =
     (let d = (if opened then d\<lparr>windows := map (\<lambda>cw. cw\<lparr>dbg_dump_in_max := 0, dbg_dump_out_max := 0\<rparr>) (windows d)\<rparr> else d)
      in rbind (sv_timeout_add sv w DBG_DUMP_INTERVAL ()) (\<lambda>(i, w). Inr (w, d\<lparr>dbg_dump_timeout := i\<rparr>)))"

subsection \<open>Start\<close>

text \<open>The values of a loop from \<open>a\<close> up to \<open>b\<close> by \<open>s\<close>.\<close>

definition steps :: "nat \<Rightarrow> nat \<Rightarrow> nat \<Rightarrow> nat list" where
  "steps a b s = map (\<lambda>j. a + s * j) [0..<Suc ((b - a) div s)]"

definition init_buckets :: "bucket list" where
  "init_buckets =
     map init_bucket (steps 0 999 250 @ steps 1000 20000 1000 @ steps 30000 100000 10000 @ steps 200000 1000000 100000)"

fun init_windows :: "u64 \<Rightarrow> (u64 \<times> nat) list \<Rightarrow> window list result" where
  "init_windows t [] = Inr []"
| "init_windows t ((len, cnt) # cs) =
     rbind (init_window len cnt t) (\<lambda>cw. rbind (init_windows t cs) (\<lambda>cws. Inr (cw # cws)))"

definition window_sizes :: "(u64 \<times> nat) list" where
  "window_sizes = [(500, 12), (1000, 6), (2000, 3), (5000, 2), (10000, 2)]"

definition init :: "(unit, 'w) services \<Rightarrow> 'w \<Rightarrow> ('w \<times> bandwidth_data) result" where
  "init sv w =
     rbind (sv_timeout_add sv w DBG_DUMP_INTERVAL ()) (\<lambda>(i, w').
       rbind (init_windows (sv_now sv w) window_sizes) (\<lambda>ws.
         Inr (w', \<lparr>windows = ws, in_buckets = init_buckets, out_buckets = init_buckets, bw_timestamp = 0,
                   dbg_dump_timeout = i\<rparr>)))"


subsection \<open>The timeout of the debug dump\<close>

lemma windows_max_safe: "safe (\<lambda>_. True) (windows_max cws)"
proof -
  have "safe (\<lambda>_. True) (fold_result frame_max cw js)" for cw js
    by (induction js arbitrary: cw) (auto simp: frame_max_def Let_def)
  then show ?thesis
    by (induction cws) (auto simp: window_max_def intro!: safe_bind [where P = "\<lambda>_. True"])
qed

lemma init_windows_ok: "\<exists>ws. init_windows t window_sizes = Inr ws"
  by (simp add: window_sizes_def init_window_def)

locale bandwidth_client = plugin_services sv inv mine
  for sv :: "(unit, 'w) services" and inv :: "'w \<Rightarrow> bool" and mine :: "'w \<Rightarrow> (u64 \<times> unit) set"
begin

definition one_dump :: "'w \<times> bandwidth_data \<Rightarrow> bool" where
  "one_dump = (\<lambda>(w, d). inv w \<and> mine w = {(dbg_dump_timeout d, ())})"

lemma init_one_dump:
  assumes "inv w" and "mine w = {}"
  shows "safe one_dump (init sv w)"
  unfolding init_def
  by (rule safe_bind [OF add_ok [OF assms(1)]])
     (use init_windows_ok [of "sv_now sv w"] assms(2) in \<open>auto simp: one_dump_def\<close>)

lemma dbg_dump_one_dump:
  assumes "inv w" and "mine w = {}"
  shows "safe one_dump (dbg_dump opened sv w d)"
  unfolding dbg_dump_def Let_def by (rule safe_bind [OF add_ok [OF assms(1)]]) (use assms(2) in \<open>auto simp: one_dump_def\<close>)

lemma communicate_one_dump:
  assumes "one_dump (w, d)"
  shows "safe one_dump (communicate sv w d bs)"
  unfolding communicate_def
  by (rule safe_sanity, rule safe_bind [OF windows_max_safe], rule safe_bind [OF tell_ok [of w]])
     (use assms in \<open>auto simp: one_dump_def\<close>)

end

interpretation bc: bandwidth_client "plugin_service (silent m) i" live "plugin_timers i"
  by unfold_locales

declare rewind.simps [code]

subsection \<open>The reference: traffic in intervals of time\<close>

text \<open>Packets with the time of the loop at which they come.\<close>

type_synonym trace = "(u64 \<times> packet) list"

definition inbound :: "u64 \<times> packet \<Rightarrow> bool" where
  "inbound x \<longleftrightarrow> pdirection (hd (snd x)) = DIR_IN"

definition slot :: "nat \<Rightarrow> nat \<Rightarrow> u64 \<times> packet \<Rightarrow> nat" where
  "slot origin len x = (unat (fst x) - origin) div len"

text \<open>The bytes in one direction in the \<open>i\<close>-th interval of the length since the origin.\<close>

definition traffic :: "bool \<Rightarrow> nat \<Rightarrow> nat \<Rightarrow> trace \<Rightarrow> nat \<Rightarrow> nat" where
  "traffic dir origin len ps i =
     sum_list (map (\<lambda>x. plength (hd (snd x))) (filter (\<lambda>x. inbound x = dir \<and> slot origin len x = i) ps))"

definition peak :: "bool \<Rightarrow> nat \<Rightarrow> nat \<Rightarrow> trace \<Rightarrow> nat \<Rightarrow> nat" where
  "peak dir origin len ps k = Max (insert 0 (traffic dir origin len ps ` {..<k}))"

lemma traffic_snoc:
  "traffic dir origin len (ps @ [x]) i =
     traffic dir origin len ps i + (if inbound x = dir \<and> slot origin len x = i then plength (hd (snd x)) else 0)"
  by (simp add: traffic_def)

lemma peak_Suc: "peak dir origin len ps (Suc k) = max (peak dir origin len ps k) (traffic dir origin len ps k)"
proof -
  have "Max (insert (traffic dir origin len ps k) (insert 0 (traffic dir origin len ps ` {..<k}))) =
      max (traffic dir origin len ps k) (peak dir origin len ps k)"
    unfolding peak_def by (rule Max_insert) auto
  then show ?thesis
    by (simp only: peak_def lessThan_Suc image_insert insert_commute [of 0] max.commute)
qed

lemma peak_0 [simp]: "peak dir origin len ps 0 = 0"
  by (simp add: peak_def)

definition volume :: "trace \<Rightarrow> nat" where
  "volume ps = sum_list (map (\<lambda>x. plength (hd (snd x))) ps)"

lemma traffic_volume: "traffic dir origin len ps i \<le> volume ps"
  unfolding traffic_def volume_def by (induction ps) auto

lemma peak_volume: "peak dir origin len ps k \<le> volume ps"
  by (simp add: peak_def traffic_volume)

lemma unat_volume:
  assumes "volume ps < 2 ^ 64"
  shows "unat (of_nat (traffic dir origin len ps i) :: u64) = traffic dir origin len ps i"
    and "unat (of_nat (peak dir origin len ps k) :: u64) = peak dir origin len ps k"
  using assms traffic_volume [of dir origin len ps i] peak_volume [of dir origin len ps k]
  by (simp_all add: unat_of_nat take_bit_nat_eq_self)

lemma max_traffic:
  assumes "volume ps < 2 ^ 64"
  shows "(if (of_nat (peak dir origin len ps k) :: u64) < of_nat (traffic dir origin len ps k) then of_nat (traffic dir origin len ps k)
      else of_nat (peak dir origin len ps k)) = (of_nat (peak dir origin len ps (Suc k)) :: u64)"
  using unat_volume [OF assms] by (simp add: word_less_nat_alt peak_Suc max_def)

lemma unat_time:
  assumes "m < 2 ^ 64"
  shows "unat (of_nat m :: u64) = m"
  using assms by (simp add: unat_of_nat take_bit_nat_eq_self)

lemma unat_bound64: "unat (t :: u64) < 2 ^ 64"
  using unsigned_less [where w = t and 'a = nat] by simp

subsection \<open>A window follows the reference\<close>

text \<open>After \<open>k\<close> frames have left the ring.\<close>

definition win_inv :: "nat \<Rightarrow> nat \<Rightarrow> nat \<Rightarrow> trace \<Rightarrow> nat \<Rightarrow> window \<Rightarrow> bool" where
  "win_inv origin len cnt ps k cw \<longleftrightarrow>
     win_len cw = of_nat len \<and> win_cnt cw = cnt \<and> length (frames cw) = cnt \<and>
     win_timestamp cw = of_nat (origin + k * len) \<and> current_frame cw = k mod cnt \<and>
     in_max cw = of_nat (peak True origin len ps k) \<and> out_max cw = of_nat (peak False origin len ps k) \<and>
     (\<forall>j < cnt. frames cw ! ((k + j) mod cnt) =
        \<lparr>in_sum = of_nat (traffic True origin len ps (k + j)), out_sum = of_nat (traffic False origin len ps (k + j))\<rparr>) \<and>
     (\<forall>x \<in> set ps. slot origin len x < k + cnt)"

lemma traffic_later:
  assumes "\<forall>x \<in> set ps. slot origin len x < m" and "m \<le> i"
  shows "traffic dir origin len ps i = 0"
  using assms by (auto simp: traffic_def filter_empty_conv)

definition ticked :: "nat \<Rightarrow> nat \<Rightarrow> trace \<Rightarrow> nat \<Rightarrow> speeds \<Rightarrow> speeds" where
  "ticked origin len ps i = (\<lambda>(ib, ob).
     let a = of_nat (traffic True origin len ps i); b = of_nat (traffic False origin len ps i)
     in (note_bucket (a div 2) 2 a ib, note_bucket (b div 2) 2 b ob))"

definition ticks :: "nat \<Rightarrow> nat \<Rightarrow> trace \<Rightarrow> nat \<Rightarrow> nat \<Rightarrow> speeds \<Rightarrow> speeds" where
  "ticks origin len ps k k' st = (if len = 2000 then fold (ticked origin len ps) [k..<k'] st else st)"

lemma ring_distinct:
  assumes "(i :: nat) < cnt" and "j < cnt"
  shows "(k + i) mod cnt = (k + j) mod cnt \<longleftrightarrow> i = j"
proof
  assume "(k + i) mod cnt = (k + j) mod cnt"
  then have "i mod cnt = j mod cnt"
    by (auto simp: nat_mod_eq_iff)
  with assms show "i = j"
    by simp
qed simp

lemma next_frame_inv:
  assumes inv: "win_inv origin len cnt ps k cw" and vol: "volume ps < 2 ^ 64" and cnt: "2 \<le> cnt" and len: "len < 2 ^ 64"
  shows "\<exists>cw'. next_frame cw st = Inr (cw', ticks origin len ps k (Suc k) st) \<and> win_inv origin len cnt ps (Suc k) cw'"
proof -
  let ?f = "frames cw ! (k mod cnt)"
  have f: "?f = \<lparr>in_sum = of_nat (traffic True origin len ps k), out_sum = of_nat (traffic False origin len ps k)\<rparr>"
    using inv cnt by (auto simp: win_inv_def dest: spec [of _ 0])
  have st: "(if win_len cw = STATS_FROM_WINDOW then update_buckets (in_sum ?f) (out_sum ?f) (win_len cw) st else Inr st) =
      Inr (ticks origin len ps k (Suc k) st)"
  proof -
    have "win_len cw = STATS_FROM_WINDOW \<longleftrightarrow> len = 2000"
      using inv unat_time [OF len] by (auto simp: win_inv_def STATS_FROM_WINDOW_def dest: arg_cong [where f = unat])
    then show ?thesis
      using f by (cases st; cases "len = 2000") (simp_all add: update_buckets_def ticks_def ticked_def SEC_def STATS_FROM_WINDOW_def Let_def)
  qed
  define cw' where "cw' = cw\<lparr>in_max := (if in_sum ?f > in_max cw then in_sum ?f else in_max cw),
       out_max := (if out_sum ?f > out_max cw then out_sum ?f else out_max cw),
       dbg_dump_in_max := (if in_sum ?f > dbg_dump_in_max cw then in_sum ?f else dbg_dump_in_max cw),
       dbg_dump_out_max := (if out_sum ?f > dbg_dump_out_max cw then out_sum ?f else dbg_dump_out_max cw),
       frames := (frames cw)[k mod cnt := no_frame],
       win_timestamp := win_timestamp cw + win_len cw,
       current_frame := (k mod cnt + 1) mod cnt\<rparr>"
  have "next_frame cw st = Inr (cw', ticks origin len ps k (Suc k) st)"
  proof -
    have c: "current_frame cw = k mod cnt" "length (frames cw) = cnt" "win_cnt cw = cnt" "\<not> cnt \<le> k mod cnt" "cnt \<noteq> 0"
      using inv cnt by (simp_all add: win_inv_def not_le)
    show ?thesis
      by (simp only: next_frame_def Let_def c if_False st rbind_Inr cw'_def)
  qed
  moreover have "win_inv origin len cnt ps (Suc k) cw'"
    unfolding win_inv_def
  proof (intro conjI allI impI)
    show "win_len cw' = of_nat len" "win_cnt cw' = cnt" "length (frames cw') = cnt"
      "win_timestamp cw' = of_nat (origin + Suc k * len)" "current_frame cw' = Suc k mod cnt"
      using inv by (simp_all add: cw'_def win_inv_def mod_Suc_eq algebra_simps)
    show "in_max cw' = of_nat (peak True origin len ps (Suc k))" "out_max cw' = of_nat (peak False origin len ps (Suc k))"
    proof -
      have m: "in_max cw = of_nat (peak True origin len ps k)" "out_max cw = of_nat (peak False origin len ps k)"
        using inv by (simp_all add: win_inv_def)
      have "in_max cw' = (if in_max cw < in_sum ?f then in_sum ?f else in_max cw)"
        "out_max cw' = (if out_max cw < out_sum ?f then out_sum ?f else out_max cw)"
        by (simp_all add: cw'_def)
      then show "in_max cw' = of_nat (peak True origin len ps (Suc k))" "out_max cw' = of_nat (peak False origin len ps (Suc k))"
        by (simp_all only: m f frame.simps max_traffic [OF vol])
    qed
    show "\<forall>x\<in>set ps. slot origin len x < Suc k + cnt"
      using inv by (auto simp: win_inv_def)
    fix j assume j: "j < cnt"
    show "frames cw' ! ((Suc k + j) mod cnt) =
        \<lparr>in_sum = of_nat (traffic True origin len ps (Suc k + j)), out_sum = of_nat (traffic False origin len ps (Suc k + j))\<rparr>"
    proof (cases "Suc j = cnt")
      case True
      then have "(Suc k + j) mod cnt = k mod cnt"
        by (metis add_Suc_right add_Suc_shift mod_add_self2)
      moreover have "traffic dir origin len ps (Suc k + j) = 0" for dir
        by (rule traffic_later [of _ _ _ "k + cnt"]) (use inv True in \<open>auto simp: win_inv_def\<close>)
      ultimately show ?thesis
        using inv cnt by (simp add: cw'_def no_frame_def win_inv_def)
    next
      case False
      then have "(k + Suc j) mod cnt \<noteq> k mod cnt"
        using ring_distinct [of "Suc j" cnt 0 k] j by simp
      then show ?thesis
        using inv j False by (simp add: cw'_def win_inv_def) (metis Suc_lessI add_Suc_right)
    qed
  qed
  ultimately show ?thesis
    by blast
qed


lemma ticks_append: "k \<le> l \<Longrightarrow> l \<le> m \<Longrightarrow> ticks origin len ps l m (ticks origin len ps k l st) = ticks origin len ps k m st"
  by (auto simp: ticks_def dest!: le_Suc_ex) (metis upt_add_eq_append add.assoc le_add1 fold_append comp_apply)

lemma ring_end:
  assumes "win_inv origin len cnt ps k cw" and "origin + (k + cnt) * len < 2 ^ 64"
  shows "unat (win_timestamp cw + win_len cw * of_nat (win_cnt cw)) = origin + (k + cnt) * len"
proof -
  have "win_timestamp cw + win_len cw * of_nat (win_cnt cw) = of_nat (origin + (k + cnt) * len)"
    using assms(1) by (simp add: win_inv_def algebra_simps)
  then show ?thesis
    using unat_time [OF assms(2)] by (simp only:)
qed

text \<open>The ring moves forward until its last frame reaches the time; it does so, and the loop ends.\<close>

lemma rewind_inv:
  assumes inv: "win_inv origin len cnt ps k cw" and vol: "volume ps < 2 ^ 64" and cnt: "2 \<le> cnt" and len: "len < 2 ^ 64"
    and fits: "unat t \<le> origin + (k' + cnt) * len" "origin + (k' + cnt) * len < 2 ^ 64" and le: "k \<le> k'"
    and least: "\<And>i. k \<le> i \<Longrightarrow> i < k' \<Longrightarrow> origin + (i + cnt) * len < unat t"
  shows "\<exists>cw'. rewind t cw st = Some (Inr (cw', ticks origin len ps k k' st)) \<and> win_inv origin len cnt ps k' cw'"
  using inv le least
proof (induction "k' - k" arbitrary: k cw st)
  case 0
  then have k: "k = k'" by simp
  have "\<not> t > win_timestamp cw + win_len cw * of_nat (win_cnt cw)"
    using ring_end [OF 0(2)] fits k by (simp add: word_less_nat_alt)
  then show ?case
    using 0 k by (simp add: rewind.simps ticks_def)
next
  case (Suc n)
  have lt: "k < k'" and n: "n = k' - Suc k"
    using Suc(2) by simp_all
  have t: "origin + (k + cnt) * len < unat t"
    by (rule Suc.prems(3)) (use lt in simp_all)
  then have "t > win_timestamp cw + win_len cw * of_nat (win_cnt cw)"
    using ring_end [OF Suc.prems(1)] unat_bound64 [of t] by (simp add: word_less_nat_alt)
  moreover obtain cw' where cw': "next_frame cw st = Inr (cw', ticks origin len ps k (Suc k) st)" "win_inv origin len cnt ps (Suc k) cw'"
    using next_frame_inv [OF Suc.prems(1) vol cnt len] by blast
  moreover obtain cw'' where "rewind t cw' (ticks origin len ps k (Suc k) st) =
      Some (Inr (cw'', ticks origin len ps (Suc k) k' (ticks origin len ps k (Suc k) st)))" "win_inv origin len cnt ps k' cw''"
    using Suc.hyps(1) [OF n cw'(2)] lt Suc.prems(3) by (meson Suc_leD Suc_leI)
  ultimately show ?case
    using lt by (subst rewind.simps) (simp add: ticks_append)
qed

text \<open>The packet is not at the end of the ring, where its frame would be the oldest one.\<close>

lemma add_length_inv:
  assumes inv: "win_inv origin len cnt ps k cw" and cnt: "2 \<le> cnt" and len: "0 < len" "len < 2 ^ 64"
    and x: "slot origin len (t, p) < k + cnt" "origin + k * len \<le> unat t"
  shows "\<exists>cw'. add_length t (inbound (t, p)) (of_nat (plength (hd p))) cw = Inr cw' \<and> win_inv origin len cnt (ps @ [(t, p)]) k cw'"
proof -
  let ?i = "slot origin len (t, p)"
  have time: "unat (win_timestamp cw) = origin + k * len" "unat (win_len cw) = len"
    using inv x(2) unat_bound64 [of t] len unat_time [of "origin + k * len"] unat_time [of len] by (auto simp: win_inv_def)
  obtain r where r: "unat t = origin + k * len + r"
    using x(2) le_Suc_ex by blast
  have "unat (t - win_timestamp cw) = r"
    using time(1) x(2) r by (simp add: unat_sub word_le_nat_alt)
  then have "unat ((t - win_timestamp cw) div win_len cw) = r div len"
    by (simp add: unat_div time)
  moreover have i: "?i = k + r div len"
    using len(1) r by (simp add: slot_def)
  ultimately have pos: "(current_frame cw + unat ((t - win_timestamp cw) div win_len cw)) mod win_cnt cw = ?i mod cnt"
    using inv by (simp add: win_inv_def mod_add_left_eq)
  have nz: "\<not> (win_len cw = 0 \<or> win_cnt cw = 0)" "\<not> length (frames cw) \<le> ?i mod cnt"
    using inv cnt time(2) len by (auto simp: win_inv_def not_le)
  define f where "f = frames cw ! (?i mod cnt)"
  define cw' where "cw' = cw\<lparr>frames := (frames cw)[?i mod cnt :=
      (if inbound (t, p) then f\<lparr>in_sum := in_sum f + of_nat (plength (hd p))\<rparr> else f\<lparr>out_sum := out_sum f + of_nat (plength (hd p))\<rparr>)]\<rparr>"
  have "add_length t (inbound (t, p)) (of_nat (plength (hd p))) cw = Inr cw'"
    by (simp only: add_length_def Let_def pos nz if_False cw'_def f_def)
  moreover have "win_inv origin len cnt (ps @ [(t, p)]) k cw'"
    unfolding win_inv_def
  proof (intro conjI allI impI)
    show "win_len cw' = of_nat len" "win_cnt cw' = cnt" "length (frames cw') = cnt"
      "win_timestamp cw' = of_nat (origin + k * len)" "current_frame cw' = k mod cnt"
      using inv by (simp_all add: cw'_def win_inv_def)
    have "peak dir origin len (ps @ [(t, p)]) k = peak dir origin len ps k" for dir
      using i by (auto simp: peak_def traffic_snoc intro!: arg_cong [where f = Max] arg_cong [where f = "insert 0"] image_cong)
    then show "in_max cw' = of_nat (peak True origin len (ps @ [(t, p)]) k)"
      "out_max cw' = of_nat (peak False origin len (ps @ [(t, p)]) k)"
      using inv by (simp_all add: cw'_def win_inv_def)
    show "\<forall>x\<in>set (ps @ [(t, p)]). slot origin len x < k + cnt"
      using inv x by (auto simp: win_inv_def)
    fix j assume j: "j < cnt"
    have old: "frames cw ! ((k + j) mod cnt) =
        \<lparr>in_sum = of_nat (traffic True origin len ps (k + j)), out_sum = of_nat (traffic False origin len ps (k + j))\<rparr>"
      using inv j by (simp add: win_inv_def)
    show "frames cw' ! ((k + j) mod cnt) =
        \<lparr>in_sum = of_nat (traffic True origin len (ps @ [(t, p)]) (k + j)),
         out_sum = of_nat (traffic False origin len (ps @ [(t, p)]) (k + j))\<rparr>"
    proof (cases "k + j = ?i")
      case True
      then show ?thesis
        using old nz(2) by (auto simp: cw'_def f_def traffic_snoc)
    next
      case False
      then have "(k + j) mod cnt \<noteq> ?i mod cnt"
        using ring_distinct [of j cnt "r div len" k] i j x(1) by simp
      then show ?thesis
        using old False by (simp add: cw'_def traffic_snoc)
    qed
  qed
  ultimately show ?thesis
    by blast
qed


text \<open>One packet: the frames before its own leave the ring.\<close>

definition seen :: "nat \<Rightarrow> nat \<Rightarrow> nat \<Rightarrow> u64 \<times> packet \<Rightarrow> nat" where
  "seen origin len cnt x = Suc (slot origin len x) - cnt"

lemma window_packet_inv:
  assumes inv: "win_inv origin len cnt ps k cw" and vol: "volume ps < 2 ^ 64" and cnt: "2 \<le> cnt" and len: "0 < len" "len < 2 ^ 64"
    and t: "\<not> len dvd unat t - origin" "unat t + len < 2 ^ 64" "origin + cnt * len \<le> unat t"
    and k: "k \<le> seen origin len cnt (t, p)"
  shows "\<exists>cw'. window_packet t (inbound (t, p)) (of_nat (plength (hd p))) cw st =
      Inr (cw', ticks origin len ps k (seen origin len cnt (t, p)) st) \<and>
    win_inv origin len cnt (ps @ [(t, p)]) (seen origin len cnt (t, p)) cw'"
proof -
  let ?i = "slot origin len (t, p)" and ?k = "seen origin len cnt (t, p)"
  have i: "origin + ?i * len < unat t" "unat t < origin + Suc ?i * len"
  proof -
    let ?d = "unat t - origin"
    have "?d = ?i * len + ?d mod len" "0 < ?d mod len" "?d mod len < len"
      using t(1) len by (auto simp: slot_def dvd_eq_mod_eq_0)
    then show "origin + ?i * len < unat t" "unat t < origin + Suc ?i * len"
      using t(3) by simp_all
  qed
  have "cnt \<le> ?i"
    using t(3) len(1) by (simp add: slot_def less_eq_div_iff_mult_less_eq)
  then have ki: "?k + cnt = Suc ?i" "?k \<le> ?i"
    using cnt by (simp_all add: seen_def)
  have "origin + k * len \<le> unat t"
    using k ki(2) i(1) mult_le_mono1 [of k ?i len] by linarith
  then have "drop_history t cw = cw"
    using inv unat_time [of "origin + k * len"] unat_bound64 [of t]
    by (simp add: drop_history_def win_inv_def word_less_nat_alt)
  moreover obtain cw1 where cw1: "rewind t cw st = Some (Inr (cw1, ticks origin len ps k ?k st))" "win_inv origin len cnt ps ?k cw1"
  proof -
    have "origin + (j + cnt) * len < unat t" if "j < ?k" for j
      using that ki i(1) mult_le_mono1 [of "j + cnt" ?i len] by linarith
    moreover have "origin + (?k + cnt) * len < 2 ^ 64" "unat t \<le> origin + (?k + cnt) * len"
      using i t(2) unfolding ki(1) by simp_all
    ultimately show ?thesis
      using rewind_inv [OF inv vol cnt len(2) _ _ k, of t st] that by blast
  qed
  moreover obtain cw2 where "add_length t (inbound (t, p)) (of_nat (plength (hd p))) cw1 = Inr cw2"
    "win_inv origin len cnt (ps @ [(t, p)]) ?k cw2"
    using add_length_inv [OF cw1(2) cnt len, of t p] ki i(1) mult_le_mono1 [OF ki(2), of len] by auto
  ultimately show ?thesis
    by (simp add: window_packet_def)
qed


subsection \<open>All windows\<close>

definition sizes :: "(nat \<times> nat) list" where
  "sizes = [(500, 12), (1000, 6), (2000, 3), (5000, 2), (10000, 2)]"

definition origin_of :: "nat \<Rightarrow> nat \<times> nat \<Rightarrow> nat" where
  "origin_of start c = start - snd c * fst c"

definition progress :: "nat \<Rightarrow> nat \<times> nat \<Rightarrow> trace \<Rightarrow> nat" where
  "progress start c ps = (if ps = [] then 0 else seen (origin_of start c) (fst c) (snd c) (last ps))"

definition follows :: "nat \<Rightarrow> trace \<Rightarrow> nat \<times> nat \<Rightarrow> window \<Rightarrow> bool" where
  "follows start ps c cw \<longleftrightarrow> win_inv (origin_of start c) (fst c) (snd c) ps (progress start c ps) cw"

text \<open>The sizes of a window that the conditions on a trace below are enough for.\<close>

definition fair_size :: "nat \<times> nat \<Rightarrow> bool" where
  "fair_size c \<longleftrightarrow> 2 \<le> snd c \<and> 500 dvd fst c \<and> 0 < fst c \<and> fst c \<le> 10000 \<and> snd c * fst c \<le> 20000"

definition fair_packet :: "nat \<Rightarrow> u64 \<times> packet \<Rightarrow> bool" where
  "fair_packet start x \<longleftrightarrow>
     start < unat (fst x) \<and> \<not> 500 dvd (unat (fst x) - start) \<and> unat (fst x) + 10000 < 2 ^ 64 \<and> snd x \<noteq> []"

definition fair_trace :: "nat \<Rightarrow> trace \<Rightarrow> bool" where
  "fair_trace start ps \<longleftrightarrow> list_all (fair_packet start) ps \<and> sorted (map (\<lambda>x. unat (fst x)) ps) \<and> volume ps < 2 ^ 64"

definition tick_all :: "nat \<Rightarrow> trace \<Rightarrow> u64 \<times> packet \<Rightarrow> nat \<times> nat \<Rightarrow> speeds \<Rightarrow> speeds" where
  "tick_all start ps x c = ticks (origin_of start c) (fst c) ps (progress start c ps) (progress start c (ps @ [x]))"

lemma follows_packet:
  assumes f: "follows start ps c cw" and c: "fair_size c" and start: "20000 \<le> start" and tr: "fair_trace start (ps @ [(t, p)])"
  shows "\<exists>cw'. window_packet t (inbound (t, p)) (of_nat (plength (hd p))) cw st = Inr (cw', tick_all start ps (t, p) c st) \<and>
    follows start (ps @ [(t, p)]) c cw'"
proof -
  let ?o = "origin_of start c"
  have x: "fair_packet start (t, p)"
    using tr by (simp add: fair_trace_def)
  have o: "?o + snd c * fst c = start"
    using c start by (simp add: fair_size_def origin_of_def)
  have "\<not> fst c dvd unat t - ?o"
  proof
    assume "fst c dvd unat t - ?o"
    moreover have "unat t - ?o = unat t - start + snd c * fst c"
      using o x by (simp add: fair_packet_def)
    ultimately have "fst c dvd unat t - start"
      by (simp add: dvd_add_times_triv_right_iff)
    with c x show False
      by (auto simp: fair_size_def fair_packet_def dest: dvd_trans)
  qed
  moreover have "progress start c ps \<le> seen ?o (fst c) (snd c) (t, p)"
  proof (cases "ps = []")
    case False
    then have "unat (fst (last ps)) \<le> unat t"
      using tr by (simp add: fair_trace_def sorted_append)
    then show ?thesis
      using False by (simp add: progress_def seen_def slot_def diff_le_mono div_le_mono)
  qed (simp add: progress_def)
  moreover have "volume ps < 2 ^ 64"
    using tr by (simp add: fair_trace_def volume_def)
  moreover have "progress start c (ps @ [(t, p)]) = seen ?o (fst c) (snd c) (t, p)"
    by (simp add: progress_def)
  ultimately show ?thesis
    using window_packet_inv [of ?o "fst c" "snd c" ps "progress start c ps" cw t p st] f c x o
    by (simp add: follows_def fair_size_def fair_packet_def tick_all_def)
qed

lemma follow_packet:
  assumes "list_all2 (follows start ps) cs cws" and "list_all fair_size cs" and "20000 \<le> start" and "fair_trace start (ps @ [(t, p)])"
  shows "\<exists>cws'. windows_packet t (inbound (t, p)) (of_nat (plength (hd p))) cws st = Inr (cws', fold (tick_all start ps (t, p)) cs st) \<and>
    list_all2 (follows start (ps @ [(t, p)])) cs cws'"
  using assms(1,2)
proof (induction arbitrary: st rule: list_all2_induct)
  case (Cons c cs cw cws)
  obtain cw' where cw': "window_packet t (inbound (t, p)) (of_nat (plength (hd p))) cw st = Inr (cw', tick_all start ps (t, p) c st)"
    "follows start (ps @ [(t, p)]) c cw'"
    using follows_packet [OF Cons(1) _ assms(3,4), of st] Cons.prems by auto
  moreover obtain cws' where "windows_packet t (inbound (t, p)) (of_nat (plength (hd p))) cws (tick_all start ps (t, p) c st) =
      Inr (cws', fold (tick_all start ps (t, p)) cs (tick_all start ps (t, p) c st))" "list_all2 (follows start (ps @ [(t, p)])) cs cws'"
    using Cons.IH [of "tick_all start ps (t, p) c st"] Cons.prems by auto
  ultimately show ?case
    by simp
qed simp

text \<open>The buckets see the frames of the window of two seconds that have left the ring.\<close>

definition reference_speeds :: "nat \<Rightarrow> trace \<Rightarrow> speeds" where
  "reference_speeds start ps =
     fold (ticked (start - 6000) 2000 ps) [0..<if ps = [] then 0 else Suc ((unat (fst (last ps)) - start) div 2000)]
       (init_buckets, init_buckets)"

definition data_inv :: "nat \<Rightarrow> trace \<Rightarrow> bandwidth_data \<Rightarrow> bool" where
  "data_inv start ps d \<longleftrightarrow> list_all2 (follows start ps) sizes (windows d) \<and>
     (in_buckets d, out_buckets d) = reference_speeds start ps \<and> bw_timestamp d = 0"

lemma progress_2000:
  assumes "6000 \<le> start" and "ps = [] \<or> start \<le> unat (fst (last ps))"
  shows "progress start (2000, 3) ps = (if ps = [] then 0 else Suc ((unat (fst (last ps)) - start) div 2000))"
proof -
  have "unat (fst (last ps)) - (start - 6000) = unat (fst (last ps)) - start + 3 * 2000" if "ps \<noteq> []"
    using that assms by auto
  moreover have "(m + 3 * 2000) div 2000 = m div 2000 + 3" for m :: nat
    by simp
  ultimately show ?thesis
    by (simp only: progress_def origin_of_def seen_def slot_def fst_conv snd_conv) simp
qed

lemma fold_tick_all: "fold (tick_all start ps x) sizes st = tick_all start ps x (2000, 3) st"
  by (simp add: sizes_def tick_all_def ticks_def)

lemma reference_speeds_snoc:
  assumes "20000 \<le> start" and tr: "fair_trace start (ps @ [x])"
  shows "reference_speeds start (ps @ [x]) = tick_all start ps x (2000, 3) (reference_speeds start ps)"
proof -
  let ?n = "progress start (2000, 3)" and ?o = "start - 6000"
  have last: "ps = [] \<or> start \<le> unat (fst (last ps))" "start \<le> unat (fst x)"
    using tr by (cases ps rule: rev_cases; simp add: fair_trace_def fair_packet_def)+
  have mono: "?n ps \<le> ?n (ps @ [x])"
    using last tr by (auto simp: progress_def seen_def slot_def fair_trace_def sorted_append intro!: diff_le_mono div_le_mono)
  have ref: "reference_speeds start qs = fold (ticked ?o 2000 qs) [0..<?n qs] (init_buckets, init_buckets)"
    if "qs = [] \<or> start \<le> unat (fst (last qs))" for qs
    using that assms(1) progress_2000 [of start qs] by (simp add: reference_speeds_def)
  have same: "ticked ?o 2000 (ps @ [x]) i = ticked ?o 2000 ps i" if "i < ?n (ps @ [x])" for i
  proof -
    have "slot ?o 2000 x \<noteq> i"
      using that by (simp add: progress_def seen_def origin_of_def)
    then show ?thesis
      by (simp add: ticked_def traffic_snoc)
  qed
  have "reference_speeds start (ps @ [x]) = fold (ticked ?o 2000 ps) [0..<?n (ps @ [x])] (init_buckets, init_buckets)"
    using last same by (subst ref) (auto intro!: fold_cong)
  also have "[0..<?n (ps @ [x])] = [0..<?n ps] @ [?n ps..<?n (ps @ [x])]"
    using mono by (metis le_add_diff_inverse upt_add_eq_append zero_le)
  finally show ?thesis
    using last by (simp add: tick_all_def ticks_def ref origin_of_def)
qed

lemma packet_handle_inv:
  assumes "data_inv start ps d" and "20000 \<le> start" and tr: "fair_trace start (ps @ [(t, p)])"
  shows "\<exists>d'. packet_handle t d p = Inr d' \<and> data_inv start (ps @ [(t, p)]) d'"
proof -
  have "list_all fair_size sizes"
    by (simp add: sizes_def fair_size_def)
  from follow_packet [OF _ this assms(2,3), of "windows d" "(in_buckets d, out_buckets d)"] assms(1)
  obtain cws where cws: "windows_packet t (inbound (t, p)) (of_nat (plength (hd p))) (windows d) (in_buckets d, out_buckets d) =
      Inr (cws, fold (tick_all start ps (t, p)) sizes (in_buckets d, out_buckets d))"
    "list_all2 (follows start (ps @ [(t, p)])) sizes cws"
    by (auto simp: data_inv_def)
  have "fold (tick_all start ps (t, p)) sizes (in_buckets d, out_buckets d) = reference_speeds start (ps @ [(t, p)])"
    using assms(1) reference_speeds_snoc [OF assms(2) tr] by (simp add: data_inv_def fold_tick_all)
  moreover obtain info q where "p = info # q"
    using tr by (auto simp: fair_trace_def fair_packet_def neq_Nil_conv)
  ultimately show ?thesis
    using cws assms(1) by (cases "reference_speeds start (ps @ [(t, p)])") (simp add: packet_handle_def inbound_def data_inv_def)
qed

definition bandwidth_run :: "bandwidth_data \<Rightarrow> trace \<Rightarrow> bandwidth_data result" where
  "bandwidth_run = fold_result (\<lambda>d (t, p). packet_handle t d p)"

lemma bandwidth_run_inv:
  assumes "data_inv start [] d" and "20000 \<le> start" and "fair_trace start ps"
  shows "\<exists>d'. bandwidth_run d ps = Inr d' \<and> data_inv start ps d'"
  using assms(3)
proof (induction ps rule: rev_induct)
  case Nil
  then show ?case
    using assms by (simp add: bandwidth_run_def)
next
  case (snoc x ps)
  then have "fair_trace start ps"
    by (simp add: fair_trace_def sorted_append volume_def)
  with snoc.IH obtain d' where d': "bandwidth_run d ps = Inr d'" "data_inv start ps d'"
    by blast
  obtain t p where x: "x = (t, p)" by (cases x)
  from packet_handle_inv [OF d'(2) assms(2) snoc.prems [unfolded x]] d' show ?case
    by (auto simp: bandwidth_run_def x)
qed


lemma traffic_Nil [simp]: "traffic dir origin len [] i = 0"
  by (simp add: traffic_def)

lemma peak_Nil [simp]: "peak dir origin len [] k = 0"
  by (auto simp: peak_def image_def intro!: Max_eqI)

text \<open>A new window is one in which nothing has come.\<close>

lemma init_window_inv:
  assumes "2 \<le> cnt" and "cnt * len \<le> unat t"
  shows "\<exists>cw. init_window (of_nat len) cnt t = Inr cw \<and> win_inv (unat t - cnt * len) len cnt [] 0 cw"
proof -
  have "delayed_timestamp t (of_nat len) cnt = of_nat (unat t - cnt * len)"
    using assms(2) by (simp add: delayed_timestamp_def of_nat_diff)
  then show ?thesis
    using assms(1) by (simp add: init_window_def win_inv_def no_frame_def)
qed

lemma bandwidth_init_inv:
  assumes "init sv w = Inr (w', d)" and start: "20000 \<le> unat (sv_now sv w)"
  shows "data_inv (unat (sv_now sv w)) [] d"
proof -
  let ?t = "sv_now sv w"
  have "\<exists>cws. init_windows ?t (map (map_prod of_nat id) cs) = Inr cws \<and> list_all2 (follows (unat ?t) []) cs cws"
    if "list_all fair_size cs" for cs
    using that
  proof (induction cs)
    case (Cons c cs)
    obtain cw where "init_window (of_nat (fst c)) (snd c) ?t = Inr cw" "follows (unat ?t) [] c cw"
      using init_window_inv [of "snd c" "fst c" ?t] Cons.prems start by (auto simp: fair_size_def follows_def origin_of_def progress_def)
    with Cons show ?case
      by (cases c) auto
  qed simp
  from this [of sizes] obtain cws where "init_windows ?t window_sizes = Inr cws" "list_all2 (follows (unat ?t) []) sizes cws"
    by (auto simp: sizes_def fair_size_def window_sizes_def)
  with assms(1) show ?thesis
    by (auto simp: init_def result_simps data_inv_def reference_speeds_def)
qed

lemma window_max_inv:
  assumes inv: "win_inv origin len cnt ps k cw" and vol: "volume ps < 2 ^ 64" and cnt: "2 \<le> cnt"
  shows "window_max cw = Inr (cw\<lparr>in_max := of_nat (peak True origin len ps (k + cnt)), out_max := of_nat (peak False origin len ps (k + cnt))\<rparr>)"
proof -
  let ?cw = "\<lambda>m. cw\<lparr>in_max := of_nat (peak True origin len ps (k + m)), out_max := of_nat (peak False origin len ps (k + m))\<rparr>"
  have step: "frame_max (?cw m) m = Inr (?cw (Suc m))" if "m < cnt" for m
  proof -
    have f: "frames cw ! ((k + m) mod cnt) =
        \<lparr>in_sum = of_nat (traffic True origin len ps (k + m)), out_sum = of_nat (traffic False origin len ps (k + m))\<rparr>"
      using inv that by (simp add: win_inv_def)
    have c: "(current_frame (?cw m) + m) mod win_cnt (?cw m) = (k + m) mod cnt" "\<not> length (frames (?cw m)) \<le> (k + m) mod cnt"
      "frames (?cw m) = frames cw"
      using inv cnt by (simp_all add: win_inv_def mod_add_left_eq not_le)
    have m: "in_max (?cw m) = of_nat (peak True origin len ps (k + m))" "out_max (?cw m) = of_nat (peak False origin len ps (k + m))"
      by simp_all
    have "frame_max (?cw m) m =
        Inr ((?cw m)\<lparr>in_max := of_nat (peak True origin len ps (Suc (k + m))), out_max := of_nat (peak False origin len ps (Suc (k + m)))\<rparr>)"
      unfolding frame_max_def Let_def c f using c(2)
      by (simp only: c(3) m if_False frame.simps max_traffic [OF vol])
    then show ?thesis
      by simp
  qed
  have "fold_result frame_max cw [0..<m] = Inr (?cw m)" if "m \<le> cnt" for m
    using that
  proof (induction m)
    case 0
    have "in_max cw = of_nat (peak True origin len ps k)" "out_max cw = of_nat (peak False origin len ps k)"
      using inv by (simp_all add: win_inv_def)
    then show ?case
      by (metis (no_types, lifting) add.right_neutral fold_result.simps(1) upt_0 window.surjective window.update_convs(5,6))
  qed (simp add: step)
  from this [of cnt] show ?thesis
    using inv by (simp add: window_max_def win_inv_def)
qed

text \<open>The highest traffic in any interval of the length since the start.\<close>

definition highest :: "bool \<Rightarrow> nat \<Rightarrow> nat \<Rightarrow> trace \<Rightarrow> nat" where
  "highest dir start len ps = Max (insert 0 ((\<lambda>x. traffic dir start len ps (slot start len x)) ` set ps))"

lemma traffic_shift:
  assumes "\<forall>x \<in> set ps. start \<le> unat (fst x)" and "cnt * len \<le> start" and "0 < len"
  shows "traffic dir (start - cnt * len) len ps (i + cnt) = traffic dir start len ps i"
    and "\<forall>x \<in> set ps. slot (start - cnt * len) len x = slot start len x + cnt"
proof -
  show s: "\<forall>x \<in> set ps. slot (start - cnt * len) len x = slot start len x + cnt"
  proof
    fix x assume "x \<in> set ps"
    then have "unat (fst x) - (start - cnt * len) = unat (fst x) - start + cnt * len"
      using assms by auto
    then show "slot (start - cnt * len) len x = slot start len x + cnt"
      using assms(3) by (simp add: slot_def)
  qed
  show "traffic dir (start - cnt * len) len ps (i + cnt) = traffic dir start len ps i"
    unfolding traffic_def by (rule arg_cong [where f = "\<lambda>xs. sum_list (map _ xs)"], rule filter_cong) (simp_all add: s)
qed

lemma peak_highest:
  assumes "\<forall>x \<in> set ps. start \<le> unat (fst x)" and "cnt * len \<le> start" and "0 < len"
    and k: "\<forall>x \<in> set ps. slot (start - cnt * len) len x < k"
  shows "peak dir (start - cnt * len) len ps k = highest dir start len ps"
proof (rule antisym)
  note s = traffic_shift [OF assms(1-3)]
  show "peak dir (start - cnt * len) len ps k \<le> highest dir start len ps"
    unfolding peak_def
  proof (rule Max.boundedI)
    fix n assume "n \<in> insert 0 (traffic dir (start - cnt * len) len ps ` {..<k})"
    then consider "n = 0" | i where "n = traffic dir (start - cnt * len) len ps i"
      by auto
    then show "n \<le> highest dir start len ps"
    proof cases
      case 2
      show ?thesis
      proof (cases "\<exists>x \<in> set ps. slot (start - cnt * len) len x = i")
        case True
        then obtain x where "x \<in> set ps" "n = traffic dir start len ps (slot start len x)"
          using 2 s by fastforce
        then show ?thesis
          by (auto simp: highest_def intro!: Max_ge)
      next
        case False
        then have "n = 0"
          using 2 by (auto simp: traffic_def filter_empty_conv)
        then show ?thesis by simp
      qed
    qed simp
  qed auto
  show "highest dir start len ps \<le> peak dir (start - cnt * len) len ps k"
    unfolding highest_def
  proof (rule Max.boundedI)
    fix n assume "n \<in> insert 0 ((\<lambda>x. traffic dir start len ps (slot start len x)) ` set ps)"
    then consider "n = 0" | x where "x \<in> set ps" "n = traffic dir start len ps (slot start len x)"
      by auto
    then show "n \<le> peak dir (start - cnt * len) len ps k"
    proof cases
      case 2
      then have "n \<in> insert 0 (traffic dir (start - cnt * len) len ps ` {..<k})"
        using s k by (metis imageI insertCI lessThan_iff)
      then show ?thesis
        by (simp add: peak_def)
    qed simp
  qed auto
qed


definition reference_items :: "nat \<Rightarrow> trace \<Rightarrow> u64 list list" where
  "reference_items start ps =
     map (\<lambda>(len, cnt). [of_nat len * 1000, of_nat (highest True start len ps), of_nat (highest False start len ps)]) sizes"

lemma windows_max_inv:
  assumes "list_all2 (follows start ps) cs cws" and "list_all fair_size cs" and "20000 \<le> start" and "fair_trace start ps"
  shows "\<exists>cws'. windows_max cws = Inr cws' \<and>
    map window_items cws' = map (\<lambda>(len, cnt). [of_nat len * 1000, of_nat (highest True start len ps), of_nat (highest False start len ps)]) cs"
  using assms(1,2)
proof (induction rule: list_all2_induct)
  case (Cons c cs cw cws)
  have c: "fair_size c" and inv: "win_inv (start - snd c * fst c) (fst c) (snd c) ps (progress start c ps) cw"
    using Cons by (auto simp: follows_def origin_of_def)
  let ?k = "progress start c ps + snd c"
  have "peak dir (start - snd c * fst c) (fst c) ps ?k = highest dir start (fst c) ps" for dir
    by (rule peak_highest)
       (use c inv assms in \<open>auto simp: fair_size_def win_inv_def fair_trace_def fair_packet_def list_all_iff\<close>)
  then have "\<exists>cw'. window_max cw = Inr cw' \<and>
      window_items cw' = [of_nat (fst c) * 1000, of_nat (highest True start (fst c) ps), of_nat (highest False start (fst c) ps)]"
    using window_max_inv [OF inv] c inv assms(4) by (simp add: fair_size_def fair_trace_def window_items_def win_inv_def)
  with Cons show ?case
    by (cases c) auto
qed simp

text \<open>
  C30: The first report of the bandwidth plugin holds the highest traffic, in each direction, in any
  interval of each of the five lengths, counted from the start of the plugin, and the buckets of the
  speeds in the intervals of two seconds that are over. So it does whatever packets came, if time did not
  go back, no packet came exactly between two intervals, the plugin did not start in the first
  twenty seconds of the clock, and no number passes its 64 bits.
\<close>

theorem bandwidth_reports_peaks:
  assumes "init sv w = Inr (w1, d)" and "20000 \<le> unat (sv_now sv w)" and "fair_trace (unat (sv_now sv w)) ps" and "length bs = 8"
  shows "\<exists>d' d''. bandwidth_run d ps = Inr d' \<and>
    communicate sv w2 d' bs =
      rbind (sv_tell sv w2 (concat (map put64
          (report_items 0 (reference_items (unat (sv_now sv w)) ps) (reference_speeds (unat (sv_now sv w)) ps)))))
        (\<lambda>w3. Inr (w3, d'')) \<and>
    bw_timestamp d'' = get64 bs \<and> (\<forall>cw \<in> set (windows d''). in_max cw = 0 \<and> out_max cw = 0)"
proof -
  let ?s = "unat (sv_now sv w)"
  obtain d' where d': "bandwidth_run d ps = Inr d'" "data_inv ?s ps d'"
    using bandwidth_run_inv [OF bandwidth_init_inv [OF assms(1,2)] assms(2,3)] by blast
  have "list_all fair_size sizes"
    by (simp add: sizes_def fair_size_def)
  then obtain cws where "windows_max (windows d') = Inr cws" "map window_items cws = reference_items ?s ps"
    using windows_max_inv [OF _ _ assms(2,3)] d'(2) unfolding data_inv_def reference_items_def by blast
  with d' assms(4) show ?thesis
    by (simp add: communicate_def data_inv_def)
       (intro exI conjI, rule HOL.refl, auto simp: reset_window_def)
qed


subsection \<open>Packets between two intervals\<close>

text \<open>At the end of the ring the computed frame is the oldest one: the packet counts as one that came
  the length of the whole ring earlier.\<close>

lemma add_length_boundary:
  assumes inv: "win_inv origin len cnt ps k cw" and cnt: "2 \<le> cnt" and len: "0 < len" "len < 2 ^ 64"
    and t: "unat t = origin + (k + cnt) * len"
  shows "\<exists>cw' t'. add_length t (inbound (t, p)) (of_nat (plength (hd p))) cw = Inr cw' \<and> unat t' = origin + k * len \<and>
    win_inv origin len cnt (ps @ [(t', p)]) k cw'"
proof -
  define t' where "t' = t - of_nat (cnt * len)"
  have le: "unat (of_nat (cnt * len) :: u64) = cnt * len"
    by (rule unat_time) (use t unat_bound64 [of t] in \<open>simp add: algebra_simps\<close>)
  then have t': "unat t' = origin + k * len"
    using t unat_sub [of "of_nat (cnt * len)" t] by (simp add: t'_def word_le_nat_alt algebra_simps)
  have ts: "win_timestamp cw = t'"
    using inv by (simp add: win_inv_def flip: t')
  have l: "unat (win_len cw) = len" "win_cnt cw = cnt"
    using inv unat_time [OF len(2)] by (simp_all add: win_inv_def)
  have "(current_frame cw + unat ((t - win_timestamp cw) div win_len cw)) mod win_cnt cw =
      (current_frame cw + unat ((t' - win_timestamp cw) div win_len cw)) mod win_cnt cw"
  proof -
    have "t - win_timestamp cw = of_nat (cnt * len)" "t' - win_timestamp cw = 0"
      by (simp_all add: ts t'_def)
    then have "unat ((t - win_timestamp cw) div win_len cw) = cnt" "unat ((t' - win_timestamp cw) div win_len cw) = 0"
      using len(1) by (simp_all only: unat_div le l) simp_all
    then show ?thesis
      using l by simp
  qed
  then have same: "add_length t (inbound (t, p)) (of_nat (plength (hd p))) cw = add_length t' (inbound (t', p)) (of_nat (plength (hd p))) cw"
    by (simp only: add_length_def inbound_def snd_conv)
  have "slot origin len (t', p) = k"
    using t' len(1) by (simp add: slot_def)
  then show ?thesis
    using add_length_inv [OF inv cnt len, of t' p] same t' cnt by auto
qed

text \<open>A trace of one packet, on the daemon at rest half a minute after the start of its clock.\<close>

definition late_world :: "(unit, 'c, unit) world" where
  "late_world = offline_world\<lparr>w_timeouts := (w_timeouts offline_world)\<lparr>now := 30000\<rparr>\<rparr>"

definition short_trace :: trace where
  "short_trace = [(30001, [captured ''eth0'' True 0 0 [1, 2, 3]])]"

definition rest_services :: "(unit, (unit, unit, unit) world) services" where
  "rest_services = plugin_service (silent idle_platform) 0"

theorem bandwidth_reports_peaks_witness:
  "\<exists>w1 d d' d''. init rest_services late_world = Inr (w1, d) \<and>
    bandwidth_run d short_trace = Inr d' \<and>
    communicate rest_services late_world d' (put64 9) =
      rbind (sv_tell rest_services late_world
        (concat (map put64 (report_items 0 (reference_items 30000 short_trace) (reference_speeds 30000 short_trace)))))
        (\<lambda>w3. Inr (w3, d'')) \<and> bw_timestamp d'' = 9"
proof -
  have "\<exists>i w1. sv_timeout_add rest_services late_world DBG_DUMP_INTERVAL () = Inr (i, w1)"
    by (simp add: rest_services_def plugin_service_def add_timer_def late_world_def offline_world_def loop_timeout_add_def Let_def DBG_DUMP_INTERVAL_def)
  moreover have t: "sv_now rest_services late_world = 30000"
    by (simp add: rest_services_def plugin_service_def late_world_def)
  ultimately obtain w1 d where i: "init rest_services late_world = Inr (w1, d)"
    by (auto simp: init_def window_sizes_def init_window_def)
  have "fair_trace 30000 short_trace"
    by (simp add: fair_trace_def short_trace_def fair_packet_def volume_def)
  with bandwidth_reports_peaks [OF i, of short_trace "put64 9" late_world] t i show ?thesis
    by auto
qed

text \<open>
  A packet that comes exactly between two intervals is counted too early. Two packets, one in the
  first interval after the start and one a whole ring of frames later, are reported as if they had come
  in the same interval.
\<close>

theorem boundary_packets_merge:
  fixes p q :: packet
  assumes "2 \<le> cnt" and "0 < len" and "cnt * len \<le> start" and "start + cnt * len < 2 ^ 64"
    and "init_window (of_nat len) cnt (of_nat start) = Inr cw"
    and "0 < r" and "r < len" and "pdirection (hd p) = DIR_IN" and "pdirection (hd q) = DIR_IN"
    and "plength (hd p) + plength (hd q) < 2 ^ 64"
  shows "\<exists>cw1 st1 cw2 st2 cw3.
    window_packet (of_nat (start + r)) True (of_nat (plength (hd p))) cw st = Inr (cw1, st1) \<and>
    window_packet (of_nat (start + cnt * len)) True (of_nat (plength (hd q))) cw1 st1 = Inr (cw2, st2) \<and>
    window_max cw2 = Inr cw3 \<and> in_max cw3 = of_nat (plength (hd p) + plength (hd q))"
proof -
  define t1 t2 :: u64 where "t1 = of_nat (start + r)" and "t2 = of_nat (start + cnt * len)"
  let ?o = "start - cnt * len"
  have "len * 2 \<le> cnt * len"
    using assms(1) by (metis mult.commute mult_le_mono1)
  then have r: "start + r + len < 2 ^ 64" "len < 2 ^ 64" and len: "cnt * len < 2 ^ 64"
    using assms(3,4,7) by linarith+
  have t: "unat t1 = start + r" "unat t2 = start + cnt * len" "unat (of_nat start :: u64) = start"
    using unat_time [of "start + r"] unat_time [of "start + cnt * len"] unat_time [of start] r assms(4) by (simp_all add: t1_def t2_def)
  have inv0: "win_inv ?o len cnt [] 0 cw"
    using init_window_inv [of cnt len "of_nat start"] assms t(3) by auto
  have d: "unat t1 - ?o = r + cnt * len"
    using t assms(3) by simp
  then have "\<not> len dvd unat t1 - ?o"
    using assms(6,7) by (auto simp: dvd_add_times_triv_right_iff dest: nat_dvd_not_less)
  moreover have "seen ?o len cnt (t1, p) = 1"
    using d assms(2,7) by (simp add: seen_def slot_def)
  moreover define st1 where "st1 = ticks ?o len [] 0 1 st"
  ultimately obtain cw1 where cw1: "window_packet t1 True (of_nat (plength (hd p))) cw st = Inr (cw1, st1)"
      "win_inv ?o len cnt [(t1, p)] 1 cw1"
    using window_packet_inv [OF inv0 _ assms(1,2) r(2), of t1 p st] t r(1) assms(3,8) by (auto simp: volume_def inbound_def)
  have vol: "volume [(t1, p)] < 2 ^ 64"
    using assms(10) by (simp add: volume_def)
  have oend: "?o + (cnt + cnt) * len = start + cnt * len"
    using assms(3) by (simp add: algebra_simps)
  have "?o + 1 * len \<le> unat t2"
    using t(2) assms(1) by (cases cnt) simp_all
  then have hist: "drop_history t2 cw1 = cw1"
    using cw1(2) unat_time [of "?o + 1 * len"] unat_bound64 [of t2]
    by (simp add: drop_history_def win_inv_def word_less_nat_alt)
  obtain cw2 st2 where cw2: "rewind t2 cw1 st1 = Some (Inr (cw2, st2))" "win_inv ?o len cnt [(t1, p)] cnt cw2"
  proof -
    have "?o + (i + cnt) * len < unat t2" if "i < cnt" for i
    proof -
      have "(i + cnt) * len < (cnt + cnt) * len"
        using that assms(2) by simp
      then show ?thesis
        by (simp only: t(2) oend [symmetric] add_less_cancel_left)
    qed
    moreover have "unat t2 \<le> ?o + (cnt + cnt) * len" "?o + (cnt + cnt) * len < 2 ^ 64" "1 \<le> cnt"
      using oend t(2) assms(1,4) by simp_all
    ultimately show ?thesis
      using rewind_inv [OF cw1(2) vol assms(1) r(2), of t2 cnt st1] that by blast
  qed
  have t2: "unat t2 = ?o + (cnt + cnt) * len"
    using oend t(2) by simp
  obtain cw3 t3 where cw3: "add_length t2 True (of_nat (plength (hd q))) cw2 = Inr cw3" "unat t3 = ?o + cnt * len"
      "win_inv ?o len cnt [(t1, p), (t3, q)] cnt cw3"
    using add_length_boundary [OF cw2(2) assms(1,2) r(2) t2, of q] assms(9) by (auto simp: inbound_def)
  have "peak True ?o len [(t1, p), (t3, q)] (cnt + cnt) = plength (hd p) + plength (hd q)"
  proof (rule antisym)
    show "peak True ?o len [(t1, p), (t3, q)] (cnt + cnt) \<le> plength (hd p) + plength (hd q)"
      using peak_volume [of True ?o len "[(t1, p), (t3, q)]"] by (simp add: volume_def)
    have "slot ?o len (t1, p) = cnt" "slot ?o len (t3, q) = cnt"
      using d cw3(2) assms(2,7) by (simp_all add: slot_def)
    then have "traffic True ?o len [(t1, p), (t3, q)] cnt = plength (hd p) + plength (hd q)"
      using assms(8,9) by (simp add: traffic_def inbound_def)
    moreover have "traffic True ?o len [(t1, p), (t3, q)] cnt \<le> peak True ?o len [(t1, p), (t3, q)] (cnt + cnt)"
      using assms(1) by (auto simp: peak_def intro!: Max_ge)
    ultimately show "plength (hd p) + plength (hd q) \<le> peak True ?o len [(t1, p), (t3, q)] (cnt + cnt)"
      by simp
  qed
  moreover have "window_packet t2 True (of_nat (plength (hd q))) cw1 st1 = Inr (cw3, st2)"
    by (simp add: window_packet_def hist cw2(1) cw3(1))
  moreover have "volume [(t1, p), (t3, q)] < 2 ^ 64"
    using assms(10) by (simp add: volume_def)
  ultimately show ?thesis
    using cw1(1) window_max_inv [OF cw3(3) _ assms(1)] unfolding t1_def [symmetric] t2_def [symmetric] by fastforce
qed

theorem boundary_packets_merge_witness:
  "\<exists>cw cw1 st1 cw2 st2 cw3. init_window 500 12 30000 = Inr cw \<and>
    window_packet 30001 True 3 cw ([], []) = Inr (cw1, st1) \<and> window_packet 36000 True 4 cw1 st1 = Inr (cw2, st2) \<and>
    window_max cw2 = Inr cw3 \<and> in_max cw3 = 7"
proof -
  let ?p = "[captured ''eth0'' True 0 0 [1, 2, 3]]" and ?q = "[captured ''eth0'' True 0 0 [1, 2, 3, 4]]"
  obtain cw where cw: "init_window (of_nat 500) 12 (of_nat 30000) = Inr cw"
    by (simp add: init_window_def)
  have dir: "pdirection (hd ?p) = DIR_IN" "pdirection (hd ?q) = DIR_IN"
    by (simp_all add: captured_def)
  from boundary_packets_merge [OF _ _ _ _ cw, of 1 ?p ?q "([], [])"] dir
  obtain cw1 st1 cw2 st2 cw3 where "window_packet (of_nat (30000 + 1)) True (of_nat (plength (hd ?p))) cw ([], []) = Inr (cw1, st1)"
    "window_packet (of_nat (30000 + 12 * 500)) True (of_nat (plength (hd ?q))) cw1 st1 = Inr (cw2, st2)"
    "window_max cw2 = Inr cw3" "in_max cw3 = of_nat (plength (hd ?p) + plength (hd ?q))"
    by (auto simp del: of_nat_add of_nat_mult)
  moreover have "plength (hd ?p) = 3" "plength (hd ?q) = 4"
    by simp_all
  ultimately have "init_window 500 12 30000 = Inr cw \<and> window_packet 30001 True 3 cw ([], []) = Inr (cw1, st1) \<and>
      window_packet 36000 True 4 cw1 st1 = Inr (cw2, st2) \<and> window_max cw2 = Inr cw3 \<and> in_max cw3 = 7"
    using cw by simp
  then show ?thesis
    by blast
qed

end
