(* ===== verification/CText.thy ===== *)
theory CText
  imports Prelude
begin

text \<open>
  What the C library makes of text: the numbers \<open>printf\<close> prints, the addresses \<open>inet_ntop\<close> writes and the
  numbers \<open>strtol\<close> reads, for the plugins that print and configure. The options of a plugin, read from the
  configuration by the daemon, are here too.
\<close>

subsection \<open>Numbers and lists of fields\<close>

definition digit :: "nat \<Rightarrow> byte" where
  "digit n = (if n < 10 then of_nat (48 + n) else of_nat (87 + n))"

text \<open>What \<open>%u\<close> and \<open>%x\<close> print, for the bases 10 and 16.\<close>

function digits :: "nat \<Rightarrow> nat \<Rightarrow> bytes" where
  "digits b n = (if n < b \<or> b < 2 then [digit n] else digits b (n div b) @ [digit (n mod b)])"
  by pat_completeness auto
termination
  by (relation "measure snd") auto

declare digits.simps [simp del]

fun join :: "byte \<Rightarrow> bytes list \<Rightarrow> bytes" where
  "join s [] = []"
| "join s [x] = x"
| "join s (x # y # xs) = x @ s # join s (y # xs)"

subsection \<open>Addresses\<close>

definition inet_ntop4 :: "bytes \<Rightarrow> bytes" where
  "inet_ntop4 bs = join 46 (map (\<lambda>b. digits 10 (unat b)) bs)"

fun words16 :: "bytes \<Rightarrow> nat list" where
  "words16 (a # b # r) = (256 * unat a + unat b) # words16 r"
| "words16 _ = []"

text \<open>The longest run of at least two zero words, the first one of several.\<close>

definition zero_run :: "nat list \<Rightarrow> (nat \<times> nat) option" where
  "zero_run ws =
     find (\<lambda>(b, l). take l (drop b ws) = replicate l 0) (concat (map (\<lambda>l. map (\<lambda>b. (b, l)) [0..<9 - l]) [8, 7, 6, 5, 4, 3, 2]))"

definition right_fields :: "bytes \<Rightarrow> nat \<times> nat \<Rightarrow> bytes list" where
  "right_fields bs = (\<lambda>(b, l).
     if b = 0 \<and> (l = 6 \<or> l = 5 \<and> words16 bs ! 5 = 0xffff)
     then map (digits 16) (drop l (take 6 (words16 bs))) @ [inet_ntop4 (drop 12 bs)]
     else map (digits 16) (drop (b + l) (words16 bs)))"

definition padded :: "bytes list \<Rightarrow> bytes list" where
  "padded fs = (if fs = [] then [[]] else fs)"

definition fields6 :: "bytes \<Rightarrow> bytes list" where
  "fields6 bs =
     (case zero_run (words16 bs) of
        None \<Rightarrow> map (digits 16) (words16 bs)
      | Some (b, l) \<Rightarrow> padded (map (digits 16) (take b (words16 bs))) @ [[]] @ padded (right_fields bs (b, l)))"

definition inet_ntop6 :: "bytes \<Rightarrow> bytes" where
  "inet_ntop6 bs = join 58 (fields6 bs)"

subsection \<open>Numbers that are read\<close>

text \<open>\<open>strtol\<close> in base ten: the number, limited to the range of \<open>long\<close>, and the text after it.\<close>

definition space_char :: "byte \<Rightarrow> bool" where
  "space_char c \<longleftrightarrow> c = 32 \<or> (9 \<le> c \<and> c \<le> 13)"

definition digit_char :: "byte \<Rightarrow> bool" where
  "digit_char c \<longleftrightarrow> 48 \<le> c \<and> c \<le> 57"

definition strtol :: "bytes \<Rightarrow> int \<times> bytes" where
  "strtol str =
     (let s1 = dropWhile space_char str;
          neg = (s1 \<noteq> [] \<and> hd s1 = 45);
          s2 = (if s1 \<noteq> [] \<and> (hd s1 = 45 \<or> hd s1 = 43) then tl s1 else s1);
          ds = takeWhile digit_char s2;
          v = fold (\<lambda>d v. v * 10 + (uint d - 48)) ds 0
      in if ds = [] then (0, str)
         else (if neg then max (- (2 ^ 63)) (- v) else min (2 ^ 63 - 1) v, dropWhile digit_char s2))"

text \<open>The options of the plugin: the values of each one that is present.\<close>

type_synonym plugin_options = "bytes \<Rightarrow> bytes list option"

end
