(* ===== verification/FwupText.thy ===== *)
theory FwupText
  imports CText
begin

text \<open>
  The types of sets of the fwup plugin and the texts of addresses (\<open>plugins/fwup/type.c\<close>). Two
  addresses of one type never have the same text.
\<close>

subsection \<open>Types of sets\<close>

record set_type =
  t_desc :: bytes
  t_family :: bytes
  t_addr2str :: "bytes \<Rightarrow> bytes result"

definition inet2str :: "bytes \<Rightarrow> bytes result" where
  "inet2str addr = sanity (length addr = 4) (Inr (inet_ntop4 addr))"

definition inet62str :: "bytes \<Rightarrow> bytes result" where
  "inet62str addr = sanity (length addr = 16) (Inr (inet_ntop6 addr))"

definition inetup2str :: "nat \<Rightarrow> (bytes \<Rightarrow> bytes result) \<Rightarrow> bytes \<Rightarrow> bytes result" where
  "inetup2str alen sub addr =
     sanity (length addr = alen + 2)
       (rbind (sub (take alen addr)) (\<lambda>addrs.
          Inr (addrs @ ascii '',XXX:'' @ digits 10 (unat (get16 (drop alen addr))))))"

definition inetp2str :: "bytes \<Rightarrow> bytes result" where
  "inetp2str = inetup2str 4 inet2str"

definition inet6p2str :: "bytes \<Rightarrow> bytes result" where
  "inet6p2str = inetup2str 16 inet62str"

definition set_types :: "byte \<Rightarrow> set_type option" where
  "set_types t =
     (if t = code (CHR ''i'') then Some \<lparr>t_desc = ascii ''hash:ip'', t_family = ascii ''inet'', t_addr2str = inet2str\<rparr>
      else if t = code (CHR ''I'') then Some \<lparr>t_desc = ascii ''hash:ip'', t_family = ascii ''inet6'', t_addr2str = inet62str\<rparr>
      else if t = code (CHR ''n'') then Some \<lparr>t_desc = ascii ''hash:net'', t_family = ascii ''inet'', t_addr2str = inet2str\<rparr>
      else if t = code (CHR ''N'') then Some \<lparr>t_desc = ascii ''hash:net'', t_family = ascii ''inet6'', t_addr2str = inet62str\<rparr>
      else if t = code (CHR ''b'') then Some \<lparr>t_desc = ascii ''hash:ip,port'', t_family = ascii ''inet'', t_addr2str = inetp2str\<rparr>
      else if t = code (CHR ''B'') then Some \<lparr>t_desc = ascii ''hash:ip,port'', t_family = ascii ''inet6'', t_addr2str = inet6p2str\<rparr>
      else None)"

subsection \<open>Numbers are read back\<close>

definition digit_value :: "byte \<Rightarrow> nat" where
  "digit_value c = (if c < 58 then unat c - 48 else unat c - 87)"

definition undigits :: "nat \<Rightarrow> bytes \<Rightarrow> nat" where
  "undigits b cs = foldl (\<lambda>v c. v * b + digit_value c) 0 cs"

lemma digit_cases: "(n :: nat) < 16 \<Longrightarrow> n \<in> {0, 1, 2, 3, 4, 5, 6, 7, 8, 9, 10, 11, 12, 13, 14, 15}"
  by (auto simp: eval_nat_numeral less_Suc_eq)

lemma digit_value [simp]: "n < 16 \<Longrightarrow> digit_value (digit n) = n"
  by (drule digit_cases) (auto simp: digit_value_def digit_def)

lemma digit_range: "n < 16 \<Longrightarrow> digit n \<notin> {0, 10, 32, 44, 46, 58, 88}"
  by (drule digit_cases) (auto simp: digit_def)

lemma undigits_digits: "2 \<le> b \<Longrightarrow> b \<le> 16 \<Longrightarrow> undigits b (digits b n) = n"
proof (induction b n rule: digits.induct)
  case (1 b n)
  show ?case
  proof (cases "n < b")
    case True
    then show ?thesis
      using 1 by (simp add: digits.simps undigits_def)
  next
    case False
    have "n mod b < 16"
      using 1 mod_less_divisor [of b n] by linarith
    with 1 False show ?thesis
      by (subst digits.simps) (simp add: undigits_def)
  qed
qed

lemma digits_inject: "2 \<le> b \<Longrightarrow> b \<le> 16 \<Longrightarrow> digits b n = digits b m \<longleftrightarrow> n = m"
  using undigits_digits [of b n] undigits_digits [of b m] by metis

lemma digits_range: "2 \<le> b \<Longrightarrow> b \<le> 16 \<Longrightarrow> c \<in> set (digits b n) \<Longrightarrow> c \<notin> {0, 10, 32, 44, 46, 58, 88}"
proof (induction b n rule: digits.induct)
  case (1 b n)
  show ?case
  proof (cases "n < b")
    case True
    then show ?thesis
      using 1 digit_range [of n] by (simp add: digits.simps)
  next
    case False
    have "n mod b < 16"
      using 1 mod_less_divisor [of b n] by linarith
    moreover have "c \<in> set (digits b (n div b)) \<or> c = digit (n mod b)"
      using 1 False by (subst (asm) digits.simps [of b n]) auto
    moreover have "\<not> (n < b \<or> b < 2)"
      using 1 False by simp
    ultimately show ?thesis
      using 1 digit_range [of "n mod b"] by metis
  qed
qed

lemma digits_nonempty [simp]: "digits b n \<noteq> []" "[] \<noteq> digits b n"
  by (subst digits.simps, simp)+

subsection \<open>Fields are read back\<close>

lemma join_split:
  assumes "s \<notin> set x" and "s \<notin> set y" and "x @ s # r = y @ s # r'"
  shows "x = y \<and> r = r'"
  using assms
proof (induction x arbitrary: y)
  case Nil
  then show ?case by (cases y) auto
next
  case (Cons a x)
  then show ?case by (cases y) auto
qed

lemma join_eq_self: "s \<notin> set x \<Longrightarrow> x = join s ys \<Longrightarrow> ys \<noteq> [] \<Longrightarrow> ys = [x]"
  by (cases "(s, ys)" rule: join.cases) auto

lemma join_inject:
  "\<forall>x \<in> set xs. s \<notin> set x \<Longrightarrow> \<forall>y \<in> set ys. s \<notin> set y \<Longrightarrow> xs \<noteq> [] \<Longrightarrow> ys \<noteq> [] \<Longrightarrow> join s xs = join s ys \<Longrightarrow> xs = ys"
proof (induction s xs arbitrary: ys rule: join.induct)
  case (2 s x)
  then show ?case
    using join_eq_self [of s x ys] by simp
next
  case (3 s x y xs)
  show ?case
  proof (cases "(s, ys)" rule: join.cases)
    case (3 s' a b bs)
    then show ?thesis
      using "3.prems" "3.IH" [of "b # bs"] join_split [of s x a "join s (y # xs)" "join s (b # bs)"] by simp
  qed (use "3.prems" in auto)
qed simp

lemma join_set: "c \<in> set (join s xs) \<Longrightarrow> c = s \<or> (\<exists>x \<in> set xs. c \<in> set x)"
  by (induction s xs rule: join.induct) auto


subsection \<open>Texts of addresses\<close>

lemma list_of_4: "length xs = 4 \<Longrightarrow> \<exists>a b c d. xs = [a, b, c, d]"
  by (auto simp: length_Suc_conv eval_nat_numeral)

lemma inet_ntop4_inject:
  assumes "inet_ntop4 xs = inet_ntop4 ys" and "xs \<noteq> []" and "ys \<noteq> []"
  shows "xs = ys"
proof -
  have "map (\<lambda>b. digits 10 (unat b)) xs = map (\<lambda>b. digits 10 (unat b)) ys"
    by (rule join_inject [where s = 46]) (use assms digits_range [of 10] in \<open>auto simp: inet_ntop4_def\<close>)
  then show ?thesis
    by (rule map_injective) (auto intro!: injI simp: digits_inject unsigned_word_eqI)
qed

lemma inet_ntop4_range: "c \<in> set (inet_ntop4 bs) \<Longrightarrow> c = 46 \<or> c \<notin> {0, 10, 32, 44, 46, 58, 88}"
  unfolding inet_ntop4_def by (drule join_set) (use digits_range [of 10] in auto)

lemma words16_inject: "length xs = length ys \<Longrightarrow> even (length xs) \<Longrightarrow> words16 xs = words16 ys \<Longrightarrow> xs = ys"
proof (induction xs arbitrary: ys rule: words16.induct)
  case (1 a b r)
  then obtain a' b' r' where ys: "ys = a' # b' # r'"
    by (cases ys rule: words16.cases) auto
  have "256 * unat a + unat b = 256 * unat a' + unat b'"
    using 1 by (simp add: ys)
  moreover have "unat b < 256" "unat b' < 256"
    using unsigned_less [where w = b and 'a = nat] unsigned_less [where w = b' and 'a = nat] by simp_all
  ultimately have "unat a = unat a'"
    by linarith
  with \<open>256 * unat a + unat b = 256 * unat a' + unat b'\<close> have "unat a = unat a'" "unat b = unat b'"
    by simp_all
  then have "a = a'" "b = b'"
    by (auto intro: unsigned_word_eqI)
  then show ?case
    using 1 by (simp add: ys)
qed auto

lemma length_words16: "length (words16 bs) = length bs div 2"
  by (induction bs rule: words16.induct) auto

lemma words16_drop: "even n \<Longrightarrow> words16 (drop n bs) = drop (n div 2) (words16 bs)"
proof (induction bs arbitrary: n rule: words16.induct)
  case (1 a b r)
  then show ?case
    by (cases n; cases "n - 1") (auto simp: drop_Cons')
qed (auto simp: drop_Cons')

text \<open>The zero run is where it says.\<close>

lemma find_SomeD: "find P xs = Some x \<Longrightarrow> x \<in> set xs \<and> P x"
  by (induction xs) (auto split: if_splits)

lemma zero_run_zeros:
  assumes "zero_run ws = Some (b, l)" and "length ws = 8"
  shows "ws = take b ws @ replicate l 0 @ drop (b + l) ws" and "2 \<le> l" and "b + l \<le> 8"
proof -
  from assms(1) have l: "l \<in> set [8, 7, 6, 5, 4, 3, 2]" "b < 9 - l" and z: "take l (drop b ws) = replicate l 0"
    using find_SomeD [OF assms(1) [unfolded zero_run_def]] by auto
  then show "2 \<le> l" "b + l \<le> 8"
    by auto
  show "ws = take b ws @ replicate l 0 @ drop (b + l) ws"
    using z by (metis add.commute append_take_drop_id drop_drop)
qed

lemma padded_inject:
  assumes "[] \<notin> set xs" and "[] \<notin> set ys" and "padded xs = padded ys"
  shows "xs = ys"
  using assms by (auto simp: padded_def split: if_splits)

lemma padded_split:
  assumes ne: "[] \<notin> set l" "[] \<notin> set l'" "[] \<notin> set r" "[] \<notin> set r'"
    and eq: "padded l @ [[]] @ padded r = padded l' @ [[]] @ padded r'"
  shows "l = l' \<and> r = r'"
proof (cases "l = [] \<or> l' = []")
  case True
  then have "l = []" "l' = []"
    using ne(1,2) eq by (cases l; cases l'; auto simp: padded_def)+
  then show ?thesis
    using eq padded_inject [OF ne(3,4)] by (simp add: padded_def)
next
  case False
  then have "l = l' \<and> padded r = padded r'"
    using join_split [of "[]" l l' "padded r" "padded r'"] ne(1,2) eq by (simp add: padded_def)
  then show ?thesis
    using padded_inject [OF ne(3,4)] by blast
qed

text \<open>A dotted quad has dots, a word in hexadecimal has none.\<close>

lemma quad_dot: "length bs = 4 \<Longrightarrow> 46 \<in> set (inet_ntop4 bs) \<and> inet_ntop4 bs \<noteq> []"
  by (drule list_of_4) (auto simp: inet_ntop4_def)

lemma word_no_dot: "46 \<notin> set (digits 16 n)"
  using digits_range [of 16 46 n] by auto

lemma right_fields_nonempty: "length bs = 16 \<Longrightarrow> [] \<notin> set (right_fields bs r)"
  using quad_dot [of "drop 12 bs"] by (auto simp: right_fields_def split: prod.splits)

lemma map_digits_inject: "map (digits 16) xs = map (digits 16) ys \<longleftrightarrow> xs = ys"
  by (rule inj_map_eq_map) (simp add: inj_def digits_inject)

lemma right_fields_inject:
  assumes len: "length xs = 16" "length ys = 16"
    and run: "zero_run (words16 xs) = Some (b, l)" "zero_run (words16 ys) = Some (b, l')"
    and eq: "right_fields xs (b, l) = right_fields ys (b, l')"
  shows "l = l' \<and> drop (b + l) (words16 xs) = drop (b + l) (words16 ys)"
proof -
  let ?v = "\<lambda>bs l. b = 0 \<and> (l = 6 \<or> l = 5 \<and> words16 bs ! 5 = 0xffff)"
  have ws: "length (words16 xs) = 8" "length (words16 ys) = 8"
    using len by (simp_all add: length_words16)
  note z = zero_run_zeros [OF run(1) ws(1)] zero_run_zeros [OF run(2) ws(2)]
  have dots: "46 \<in> set (inet_ntop4 (drop 12 xs))" "46 \<in> set (inet_ntop4 (drop 12 ys))"
    using quad_dot [of "drop 12 xs"] quad_dot [of "drop 12 ys"] len by simp_all
  have "?v xs l = ?v ys l'"
  proof (rule ccontr)
    assume "?v xs l \<noteq> ?v ys l'"
    moreover have "inet_ntop4 (drop 12 bs) \<in> set (right_fields bs (b, k))" if "?v bs k" for bs k
      using that by (simp add: right_fields_def)
    moreover have "set (right_fields bs (b, k)) \<subseteq> range (digits 16)" if "\<not> ?v bs k" for bs k
      using that by (auto simp: right_fields_def)
    ultimately have "inet_ntop4 (drop 12 xs) \<in> range (digits 16) \<or> inet_ntop4 (drop 12 ys) \<in> range (digits 16)"
      using arg_cong [OF eq, of set] by blast
    with dots word_no_dot show False
      by auto
  qed
  then consider (quad) "?v xs l" "?v ys l'" | (words) "\<not> ?v xs l" "\<not> ?v ys l'"
    by blast
  then show ?thesis
  proof cases
    case quad
    have "map (digits 16) (drop l (take 6 (words16 xs))) = map (digits 16) (drop l' (take 6 (words16 ys)))"
      and q: "inet_ntop4 (drop 12 xs) = inet_ntop4 (drop 12 ys)"
      using eq quad by (simp_all add: right_fields_def)
    then have d: "drop l (take 6 (words16 xs)) = drop l' (take 6 (words16 ys))"
      by (simp add: map_digits_inject)
    then have l: "l = l'"
      using arg_cong [OF d, of length] quad ws by auto
    have "drop 12 xs = drop 12 ys"
      by (rule inet_ntop4_inject [OF q]) (use len in auto)
    then have "drop 6 (words16 xs) = drop 6 (words16 ys)"
      using words16_drop [of 12 xs] words16_drop [of 12 ys] by simp
    moreover have "drop l ws = drop l (take 6 ws) @ drop 6 ws" if "l \<le> 6" "length ws = 8" for ws :: "nat list"
    proof -
      have "drop l (take 6 ws @ drop 6 ws) = drop l (take 6 ws) @ drop 6 ws"
        unfolding drop_append using that by simp
      then show ?thesis
        by simp
    qed
    ultimately show ?thesis
      using d l quad ws by auto
  next
    case words
    then have d: "drop (b + l) (words16 xs) = drop (b + l') (words16 ys)"
      using eq by (simp add: right_fields_def map_digits_inject split: if_splits)
    have "8 - (b + l) = 8 - (b + l')"
      using arg_cong [OF d, of length] ws by simp
    then have "l = l'"
      using z(3,6) by linarith
    with d show ?thesis
      by simp
  qed
qed

lemma fields6_inject:
  assumes len: "length xs = 16" "length ys = 16" and eq: "fields6 xs = fields6 ys"
  shows "xs = ys"
proof -
  have ws: "length (words16 xs) = 8" "length (words16 ys) = 8"
    using len by (simp_all add: length_words16)
  have gap: "[] \<in> set (fields6 bs) \<longleftrightarrow> zero_run (words16 bs) \<noteq> None" for bs
    by (auto simp: fields6_def split: option.splits)
  have "words16 xs = words16 ys"
  proof (cases "zero_run (words16 xs)")
    case None
    then have "zero_run (words16 ys) = None"
      using eq gap [of xs] gap [of ys] by metis
    with None eq show ?thesis
      by (simp add: fields6_def map_digits_inject)
  next
    case (Some r)
    then obtain b l where x: "zero_run (words16 xs) = Some (b, l)"
      by (cases r) auto
    moreover obtain b' l' where y: "zero_run (words16 ys) = Some (b', l')"
      using eq gap [of xs] gap [of ys] x by auto
    moreover have "map (digits 16) (take b (words16 xs)) = map (digits 16) (take b' (words16 ys)) \<and> right_fields xs (b, l) = right_fields ys (b', l')"
      by (rule padded_split) (use eq x y right_fields_nonempty len in \<open>auto simp: fields6_def\<close>)
    moreover have "b = b'"
      using calculation zero_run_zeros(3) [OF x ws(1)] zero_run_zeros(3) [OF y ws(2)] ws
      by (auto dest!: arg_cong [where f = length])
    ultimately have t: "take b (words16 xs) = take b (words16 ys)" "l = l'" "drop (b + l) (words16 xs) = drop (b + l) (words16 ys)"
      using right_fields_inject [OF len, of b l l'] by (auto simp: map_digits_inject)
    with zero_run_zeros(1) [OF x ws(1)] zero_run_zeros(1) [OF y ws(2)] \<open>b = b'\<close> show ?thesis
      by metis
  qed
  then show ?thesis
    by (rule words16_inject [rotated 2]) (use len in simp_all)
qed


text \<open>Texts never have characters that end a command or a word of it.\<close>

definition clean :: "bytes \<Rightarrow> bool" where
  "clean bs \<longleftrightarrow> 0 \<notin> set bs \<and> 10 \<notin> set bs \<and> 32 \<notin> set bs"

definition plain :: "bytes \<Rightarrow> bool" where
  "plain bs \<longleftrightarrow> clean bs \<and> 44 \<notin> set bs \<and> 88 \<notin> set bs"

lemma plain_digits: "2 \<le> b \<Longrightarrow> b \<le> 16 \<Longrightarrow> plain (digits b n)"
  using digits_range [of b _ n] by (auto simp: plain_def clean_def)

lemma plain_ntop4: "plain (inet_ntop4 bs)"
  using inet_ntop4_range [of _ bs] by (force simp: plain_def clean_def)

lemma plain_join: "(\<forall>x \<in> set xs. plain x) \<Longrightarrow> s \<notin> {0, 10, 32, 44, 88} \<Longrightarrow> plain (join s xs)"
  by (auto simp: plain_def clean_def dest!: join_set)

lemma fields6_plain: "\<forall>x \<in> set (fields6 bs). plain x \<and> 58 \<notin> set x"
proof -
  have d: "plain (digits 16 n) \<and> 58 \<notin> set (digits 16 n)" for n
    using plain_digits [of 16 n] digits_range [of 16 58 n] by auto
  have q: "plain (inet_ntop4 b) \<and> 58 \<notin> set (inet_ntop4 b)" for b
    using plain_ntop4 [of b] inet_ntop4_range [of 58 b] by auto
  have e: "plain []"
    by (simp add: plain_def clean_def)
  have "\<forall>x \<in> set (right_fields bs r). plain x \<and> 58 \<notin> set x" for r
    using d q by (auto simp: right_fields_def split: prod.splits)
  then show ?thesis
    using d e by (auto simp: fields6_def padded_def split: option.splits)
qed

lemma fields6_nonempty: "length bs = 16 \<Longrightarrow> fields6 bs \<noteq> []"
  by (auto simp: fields6_def length_words16 split: option.splits dest!: arg_cong [where f = length])

lemma inet_ntop6_inject:
  assumes "length xs = 16" and "length ys = 16" and "inet_ntop6 xs = inet_ntop6 ys"
  shows "xs = ys"
proof (rule fields6_inject [OF assms(1,2)])
  show "fields6 xs = fields6 ys"
    by (rule join_inject [where s = 58]) (use fields6_plain fields6_nonempty assms in \<open>auto simp: inet_ntop6_def\<close>)
qed

lemma plain_ntop6: "plain (inet_ntop6 bs)"
  unfolding inet_ntop6_def by (rule plain_join) (use fields6_plain in auto)

text \<open>What the types have in common: the text of an address, with the mark of the protocol if there is a port.\<close>

lemma inet2str_text: "inet2str a = Inr x \<Longrightarrow> plain x" "inet62str a = Inr x \<Longrightarrow> plain x"
  by (auto simp: inet2str_def inet62str_def result_simps plain_ntop4 plain_ntop6)

lemma inet2str_inject: "inet2str a = Inr x \<Longrightarrow> inet2str b = Inr x \<Longrightarrow> a = b"
  by (auto simp: inet2str_def result_simps intro: inet_ntop4_inject)

lemma inet62str_inject: "inet62str a = Inr x \<Longrightarrow> inet62str b = Inr x \<Longrightarrow> a = b"
  by (auto simp: inet62str_def result_simps intro: inet_ntop6_inject)

text \<open>An address is a plain text, or a plain text with a port, for each of which the address is known.\<close>

definition with_port :: "bytes \<Rightarrow> bytes \<Rightarrow> bytes \<Rightarrow> bytes" where
  "with_port x proto y = x @ [44] @ proto @ [58] @ y"

lemma inetup2str_text:
  assumes "inetup2str n sub a = Inr x" and "\<And>a x. sub a = Inr x \<Longrightarrow> plain x"
  obtains y z where "x = with_port y (ascii ''XXX'') z" "plain y" "plain z" "sub (take n a) = Inr y" "z = digits 10 (unat (get16 (drop n a)))"
proof -
  from assms(1) obtain y where y: "sub (take n a) = Inr y" "x = y @ ascii '',XXX:'' @ digits 10 (unat (get16 (drop n a)))"
    by (auto simp: inetup2str_def result_simps)
  have "ascii '',XXX:'' = [44] @ ascii ''XXX'' @ [58]"
    by (simp add: ascii_def code_def)
  then show thesis
    using y assms(2) [OF y(1)] plain_digits [of 10] by (intro that) (auto simp: with_port_def)
qed

lemma inetup2str_inject:
  assumes "inetup2str n sub a = Inr x" and "inetup2str n sub b = Inr x"
    and "\<And>a x. sub a = Inr x \<Longrightarrow> plain x" and "\<And>a b x. sub a = Inr x \<Longrightarrow> sub b = Inr x \<Longrightarrow> a = b"
  shows "a = b"
proof -
  obtain y z where a: "x = with_port y (ascii ''XXX'') z" "plain y" "plain z" "sub (take n a) = Inr y" "z = digits 10 (unat (get16 (drop n a)))"
    by (rule inetup2str_text [OF assms(1,3)]) blast+
  obtain y' z' where b: "x = with_port y' (ascii ''XXX'') z'" "plain y'" "plain z'" "sub (take n b) = Inr y'" "z' = digits 10 (unat (get16 (drop n b)))"
    by (rule inetup2str_text [OF assms(2,3)]) blast+
  have "y = y' \<and> z = z'"
    using join_split [of 44 y y' "ascii ''XXX'' @ [58] @ z" "ascii ''XXX'' @ [58] @ z'"] a b by (simp add: with_port_def plain_def)
  then have t: "take n a = take n b" and "unat (get16 (drop n a)) = unat (get16 (drop n b))"
    using a b assms(4) [of "take n a" y "take n b"] by (simp_all add: digits_inject)
  then have g: "get16 (drop n a) = get16 (drop n b)"
    by (intro unsigned_word_eqI)
  have len: "length (drop n a) = 2" "length (drop n b) = 2"
    using assms(1,2) by (simp_all add: inetup2str_def sanity_eq_Inr)
  have "drop n a = put16 (get16 (drop n a))"
    by (rule put_get_id(1) [OF len(1), symmetric])
  also have "\<dots> = put16 (get16 (drop n b))"
    by (rule arg_cong [OF g])
  also have "\<dots> = drop n b"
    by (rule put_get_id(1) [OF len(2)])
  finally have "take n a = take n b" "drop n a = drop n b"
    using t by blast+
  then show ?thesis
    by (metis append_take_drop_id)
qed

text \<open>The texts of the addresses of a type of sets.\<close>

lemma addr2str_text:
  assumes "set_types t = Some ty" and "t_addr2str ty a = Inr x"
  shows "plain x \<or> (\<exists>y z. x = with_port y (ascii ''XXX'') z \<and> plain y \<and> plain z)"
proof -
  have "t_addr2str ty \<in> {inet2str, inet62str, inetp2str, inet6p2str}"
    using assms(1) by (auto simp: set_types_def split: if_splits)
  moreover have "\<exists>y z. x = with_port y (ascii ''XXX'') z \<and> plain y \<and> plain z" if "inetup2str n sub a = Inr x" "\<And>a x. sub a = Inr x \<Longrightarrow> plain x" for n sub
    by (rule inetup2str_text [OF that]) blast+
  ultimately show ?thesis
    using assms(2) inet2str_text unfolding inetp2str_def inet6p2str_def by auto metis+
qed

lemma addr2str_inject:
  assumes "set_types t = Some ty" and "t_addr2str ty a = Inr x" and "t_addr2str ty b = Inr x"
  shows "a = b"
proof -
  have "t_addr2str ty \<in> {inet2str, inet62str, inetp2str, inet6p2str}"
    using assms(1) by (auto simp: set_types_def split: if_splits)
  moreover have "a = b" if "inetp2str a = Inr x" "inetp2str b = Inr x"
    using inetup2str_inject [OF that [unfolded inetp2str_def]] inet2str_text inet2str_inject by blast
  moreover have "a = b" if "inet6p2str a = Inr x" "inet6p2str b = Inr x"
    using inetup2str_inject [OF that [unfolded inet6p2str_def]] inet2str_text inet62str_inject by blast
  ultimately show ?thesis
    using assms(2,3) inet2str_inject inet62str_inject by auto
qed

end
