(* ===== verification/FwupQueue.thy ===== *)
theory FwupQueue
  imports Services
begin

text \<open>
  The queue of commands for \<open>ipset\<close> in the fwup plugin (\<open>plugins/fwup/queue.c\<close>), with the
  registration of file descriptors (\<open>loop_plugin_register_fd\<close>, \<open>loop_plugin_unregister_fd\<close> of
  \<open>core/loop.c\<close>). The operating system is the record \<open>os\<close>: the results of its calls are lists
  that the calls take from, what the commands read is the wire. An empty list stands for a system
  in which the call works. The child process is not modelled: it runs another program.
\<close>

subsection \<open>The operating system\<close>

datatype send_result =
    SentBytes nat
  | Interrupted      \<comment> \<open>\<open>EINTR\<close>\<close>
  | PeerGone         \<comment> \<open>\<open>ECONNRESET\<close>, \<open>EPIPE\<close>\<close>
  | SendError

datatype recv_result =
    RecvData nat
  | RecvLater        \<comment> \<open>\<open>EAGAIN\<close>, \<open>EWOULDBLOCK\<close>, \<open>EINTR\<close>\<close>
  | RecvClosed       \<comment> \<open>end of file or \<open>ECONNRESET\<close>\<close>
  | RecvError

datatype exit_state = Exited nat | Signaled nat | OtherEnd

record os =
  os_pairs :: "int option list"    \<comment> \<open>\<open>socketpair\<close>: the local end\<close>
  os_forks :: "int list"           \<comment> \<open>\<open>fork\<close> in the parent: the child, or -1\<close>
  os_closes :: "bool list"
  os_sends :: "send_result list"
  os_lists :: "bytes list option list"    \<comment> \<open>the output of \<open>ipset -n list\<close>, as it is read\<close>
  os_wire :: bytes                 \<comment> \<open>what was written to the commands\<close>
  os_fds :: "int list"             \<comment> \<open>descriptors of the plugin that the loop watches\<close>

definition register_fd :: "int \<Rightarrow> os \<Rightarrow> os" where
  "register_fd fd s = s\<lparr>os_fds := os_fds s @ [fd]\<rparr>"

definition unregister_fd :: "int \<Rightarrow> os \<Rightarrow> os" where
  "unregister_fd fd s = s\<lparr>os_fds := remove1 fd (os_fds s)\<rparr>"

datatype send_end = AllSent | LostPeer | Failed

text \<open>The loop that sends a command.\<close>

fun send_loop :: "send_result list \<Rightarrow> bytes \<Rightarrow> bytes \<Rightarrow> send_end \<times> send_result list \<times> bytes" where
  "send_loop rs [] wire = (AllSent, rs, wire)"
| "send_loop [] cmd wire = (AllSent, [], wire @ cmd)"
| "send_loop (SentBytes n # rs) cmd wire = send_loop rs (drop n cmd) (wire @ take n cmd)"
| "send_loop (Interrupted # rs) cmd wire = send_loop rs cmd wire"
| "send_loop (PeerGone # rs) cmd wire = (LostPeer, rs, wire)"
| "send_loop (SendError # rs) cmd wire = (Failed, rs, wire)"

subsection \<open>The queue\<close>

datatype fwup_timer = FlushTimer | RetryTimer

record queue =
  q_active :: bool
  q_timeout_started :: bool
  q_broken :: bool
  q_broken_timeout_id :: bool
  q_pipe :: int
  q_pid :: int
  q_timeout_id :: u64

text \<open>The state the queue works on; the state of the plugin extends it.\<close>

record 'w qstate =
  q_world :: 'w
  q_os :: os
  q_queue :: queue

definition queue_alloc :: queue where
  "queue_alloc = \<lparr>q_active = False, q_timeout_started = False, q_broken = False, q_broken_timeout_id = False,
     q_pipe = 0, q_pid = 0, q_timeout_id = 0\<rparr>"

definition QUEUE_FLUSH_TIME :: u32 where "QUEUE_FLUSH_TIME = 5000"
definition QUEUE_RETRY_TIME :: u32 where "QUEUE_RETRY_TIME = 60000"

definition close_fd :: "('w, 'a) qstate_scheme \<Rightarrow> ('w, 'a) qstate_scheme result" where
  "close_fd s =
     (let s' = s\<lparr>q_os := (q_os s)\<lparr>os_closes := tl (os_closes (q_os s))\<rparr>\<rparr>
      in sanity (next_of True (os_closes (q_os s))) (Inr s'))"

definition start :: "('w, 'a) qstate_scheme \<Rightarrow> ('w, 'a) qstate_scheme result" where
  "start s =
     sanity (\<not> q_active (q_queue s))
       (case next_of (Some 1) (os_pairs (q_os s)) of
          None \<Rightarrow> Inl Sanity
        | Some conn \<Rightarrow>
            let pid = next_of 1 (os_forks (q_os s));
                s1 = s\<lparr>q_os := register_fd conn ((q_os s)\<lparr>os_pairs := tl (os_pairs (q_os s)), os_forks := tl (os_forks (q_os s))\<rparr>)\<rparr>
            in rbind (close_fd s1) (\<lambda>s2.
                 sanity (pid \<noteq> - 1)
                   (Inr (s2\<lparr>q_queue := (q_queue s2)\<lparr>q_active := True, q_pipe := conn, q_pid := pid\<rparr>\<rparr>))))"

text \<open>The timeout that fires again when the set shall be filled; the reload is the callback of the queue.\<close>

definition retry_timeout ::
  "(('w, 'a) qstate_scheme \<Rightarrow> ('w, 'a) qstate_scheme result) \<Rightarrow> ('w, 'a) qstate_scheme \<Rightarrow> ('w, 'a) qstate_scheme result" where
  "retry_timeout reload_callback s =
     sanity (\<not> q_timeout_started (q_queue s))
       (reload_callback (s\<lparr>q_queue := (q_queue s)\<lparr>q_broken := False, q_broken_timeout_id := False\<rparr>\<rparr>))"

text \<open>Deactivation; without an error the pipe is closed too.\<close>

definition deactivate :: "(fwup_timer, 'w) services \<Rightarrow> bool \<Rightarrow> ('w, 'a) qstate_scheme \<Rightarrow> ('w, 'a) qstate_scheme result" where
  "deactivate sv error s =
     rbind (if error then Inr s
            else close_fd (s\<lparr>q_os := unregister_fd (q_pipe (q_queue s)) (q_os s)\<rparr>)) (\<lambda>s1.
       let started = q_timeout_started (q_queue s1);
           s2 = s1\<lparr>q_queue := (q_queue s1)\<lparr>q_pipe := 0, q_active := False, q_pid := 0, q_timeout_started := False\<rparr>\<rparr>
       in rbind (if started then sv_timeout_cancel sv (q_world s2) (q_timeout_id (q_queue s2)) else Inr (q_world s2)) (\<lambda>w.
            Inr (s2\<lparr>q_world := w\<rparr>)))"

definition lost :: "(fwup_timer, 'w) services \<Rightarrow> bool \<Rightarrow> ('w, 'a) qstate_scheme \<Rightarrow> ('w, 'a) qstate_scheme result" where
  "lost sv error s =
     (if q_broken (q_queue s) then Inr s
      else rbind (if q_active (q_queue s) then deactivate sv error s else Inr s) (\<lambda>s1.
        if error then
          rbind (sv_timeout_add sv (q_world s1) QUEUE_RETRY_TIME RetryTimer) (\<lambda>(i, w).
            Inr (s1\<lparr>q_world := w, q_queue := (q_queue s1)\<lparr>q_broken := True, q_broken_timeout_id := i \<noteq> 0\<rparr>\<rparr>))
        else Inr s1))"

definition queue_flush :: "(fwup_timer, 'w) services \<Rightarrow> ('w, 'a) qstate_scheme \<Rightarrow> ('w, 'a) qstate_scheme result" where
  "queue_flush sv s = lost sv False s"

definition flush_timeout :: "(fwup_timer, 'w) services \<Rightarrow> ('w, 'a) qstate_scheme \<Rightarrow> ('w, 'a) qstate_scheme result" where
  "flush_timeout sv s = queue_flush sv (s\<lparr>q_queue := (q_queue s)\<lparr>q_timeout_started := False\<rparr>\<rparr>)"

text \<open>Start of the timeout after which the command gets the end of its input.\<close>

definition start_flushing :: "(fwup_timer, 'w) services \<Rightarrow> ('w, 'a) qstate_scheme \<Rightarrow> ('w, 'a) qstate_scheme result" where
  "start_flushing sv s =
     (if q_timeout_started (q_queue s) then Inr s
      else rbind (sv_timeout_add sv (q_world s) QUEUE_FLUSH_TIME FlushTimer) (\<lambda>(i, w).
        Inr (s\<lparr>q_world := w, q_queue := (q_queue s)\<lparr>q_timeout_started := True, q_timeout_id := i\<rparr>\<rparr>)))"

definition send_command :: "(fwup_timer, 'w) services \<Rightarrow> ('w, 'a) qstate_scheme \<Rightarrow> bytes \<Rightarrow> ('w, 'a) qstate_scheme result" where
  "send_command sv s command =
     (case send_loop (os_sends (q_os s)) command (os_wire (q_os s)) of
        (e, rs, wire) \<Rightarrow>
          let s' = s\<lparr>q_os := (q_os s)\<lparr>os_sends := rs, os_wire := wire\<rparr>\<rparr>
          in case e of
               AllSent \<Rightarrow> start_flushing sv s'
             | LostPeer \<Rightarrow> lost sv True s'
             | Failed \<Rightarrow> Inl Sanity)"

definition enqueue :: "(fwup_timer, 'w) services \<Rightarrow> ('w, 'a) qstate_scheme \<Rightarrow> bytes \<Rightarrow> ('w, 'a) qstate_scheme result" where
  "enqueue sv s command =
     (if q_broken (q_queue s) then Inr s
      else rbind (if q_active (q_queue s) then Inr s else start s) (\<lambda>s.
        sanity (q_active (q_queue s)) (sanity (q_pipe (q_queue s) > 0) (sanity (command \<noteq> [])
          (sanity (last command = 10) (send_command sv s command))))))"

definition queue_fd_data :: "(fwup_timer, 'w) services \<Rightarrow> int \<Rightarrow> recv_result \<Rightarrow> ('w, 'a) qstate_scheme \<Rightarrow> ('w, 'a) qstate_scheme result" where
  "queue_fd_data sv fd r s =
     (case r of
        RecvData n \<Rightarrow> Inr s
      | RecvLater \<Rightarrow> Inr s
      | RecvError \<Rightarrow> Inl Sanity
      | RecvClosed \<Rightarrow>
          if q_active (q_queue s) then lost sv False s
          else close_fd (s\<lparr>q_os := unregister_fd fd (q_os s)\<rparr>))"

definition queue_child_died :: "(fwup_timer, 'w) services \<Rightarrow> exit_state \<Rightarrow> int \<Rightarrow> ('w, 'a) qstate_scheme \<Rightarrow> ('w, 'a) qstate_scheme result" where
  "queue_child_died sv state child s =
     (if \<not> q_active (q_queue s) then Inr s
      else if q_pid (q_queue s) \<noteq> child then Inr s
      else lost sv (case state of Exited ecode \<Rightarrow> ecode \<noteq> 0 | _ \<Rightarrow> True) s)"


subsection \<open>The invariant of the queue\<close>

text \<open>The timeouts that are pending, as the flags of the queue tell.\<close>

definition queue_timers :: "(u64 \<times> fwup_timer) set \<Rightarrow> queue \<Rightarrow> bool" where
  "queue_timers mine q \<longleftrightarrow>
     (if q_broken q then \<exists>i. mine = {(i, RetryTimer)}
      else mine = (if q_timeout_started q then {(q_timeout_id q, FlushTimer)} else {}))"

definition queue_flags :: "os \<Rightarrow> queue \<Rightarrow> bool" where
  "queue_flags s q \<longleftrightarrow> (q_broken q \<longrightarrow> \<not> q_active q) \<and> (q_timeout_started q \<longrightarrow> q_active q) \<and>
     (q_active q \<longrightarrow> q_pipe q > 0 \<and> q_pipe q \<in> set (os_fds s))"

lemma queue_flags_alloc [simp]: "queue_flags s queue_alloc" "queue_timers {} queue_alloc"
  by (simp_all add: queue_flags_def queue_timers_def queue_alloc_def)

lemma close_fd_result: "close_fd s = Inr s' \<Longrightarrow>
    q_queue s' = q_queue s \<and> q_world s' = q_world s \<and> os_fds (q_os s') = os_fds (q_os s) \<and> os_wire (q_os s') = os_wire (q_os s)"
  by (auto simp: close_fd_def Let_def result_simps)

lemma start_result:
  assumes "start s = Inr s'"
  shows "q_active (q_queue s') \<and> q_pipe (q_queue s') \<in> set (os_fds (q_os s')) \<and> q_world s' = q_world s \<and>
    q_timeout_started (q_queue s') = q_timeout_started (q_queue s) \<and> q_broken (q_queue s') = q_broken (q_queue s) \<and>
    q_timeout_id (q_queue s') = q_timeout_id (q_queue s) \<and> os_wire (q_os s') = os_wire (q_os s) \<and> \<not> q_active (q_queue s)"
  using assms by (auto simp: start_def result_simps Let_def register_fd_def dest!: close_fd_result split: option.splits)

locale queue_client = plugin_services sv inv mine
  for sv :: "(fwup_timer, 'w) services" and inv :: "'w \<Rightarrow> bool" and mine :: "'w \<Rightarrow> (u64 \<times> fwup_timer) set"
begin

definition queue_ok :: "('w, 'a) qstate_scheme \<Rightarrow> bool" where
  "queue_ok s \<longleftrightarrow> inv (q_world s) \<and> queue_timers (mine (q_world s)) (q_queue s) \<and> queue_flags (q_os s) (q_queue s)"

lemma deactivate_ok:
  assumes "queue_ok s" and "q_active (q_queue s)"
  shows "safe (\<lambda>s'. inv (q_world s') \<and> mine (q_world s') = {} \<and> \<not> q_active (q_queue s') \<and> \<not> q_timeout_started (q_queue s') \<and>
      \<not> q_broken (q_queue s')) (deactivate sv error s)"
  unfolding deactivate_def Let_def
proof (rule safe_bind [where P = "\<lambda>s1. q_queue s1 = q_queue s \<and> q_world s1 = q_world s"])
  show "safe (\<lambda>s1. q_queue s1 = q_queue s \<and> q_world s1 = q_world s)
      (if error then Inr s else close_fd (s\<lparr>q_os := unregister_fd (q_pipe (q_queue s)) (q_os s)\<rparr>))"
    by (auto simp: close_fd_def Let_def intro!: safe_sanity)
next
  fix s1 :: "('w, 'a) qstate_scheme"
  assume s1: "q_queue s1 = q_queue s \<and> q_world s1 = q_world s"
  have q: "\<not> q_broken (q_queue s)" "inv (q_world s)"
    "mine (q_world s) = (if q_timeout_started (q_queue s) then {(q_timeout_id (q_queue s), FlushTimer)} else {})"
    using assms by (auto simp: queue_ok_def queue_flags_def queue_timers_def)
  show "safe (\<lambda>s'. inv (q_world s') \<and> mine (q_world s') = {} \<and> \<not> q_active (q_queue s') \<and> \<not> q_timeout_started (q_queue s') \<and>
      \<not> q_broken (q_queue s'))
     (rbind (if q_timeout_started (q_queue s1)
        then sv_timeout_cancel sv (q_world (s1\<lparr>q_queue := (q_queue s1)\<lparr>q_pipe := 0, q_active := False, q_pid := 0, q_timeout_started := False\<rparr>\<rparr>))
          (q_timeout_id (q_queue (s1\<lparr>q_queue := (q_queue s1)\<lparr>q_pipe := 0, q_active := False, q_pid := 0, q_timeout_started := False\<rparr>\<rparr>)))
        else Inr (q_world (s1\<lparr>q_queue := (q_queue s1)\<lparr>q_pipe := 0, q_active := False, q_pid := 0, q_timeout_started := False\<rparr>\<rparr>)))
      (\<lambda>w. Inr (s1\<lparr>q_queue := (q_queue s1)\<lparr>q_pipe := 0, q_active := False, q_pid := 0, q_timeout_started := False\<rparr>, q_world := w\<rparr>)))"
    by (rule safe_bind [where P = "\<lambda>w. inv w \<and> mine w = {}"])
       (use q s1 in \<open>auto intro!: safe_mono [OF cancel_ok]\<close>)
qed

lemma lost_ok:
  assumes "queue_ok s"
  shows "safe (\<lambda>s'. queue_ok s' \<and> \<not> q_active (q_queue s') \<and> (error \<longrightarrow> q_broken (q_queue s'))) (lost sv error s)"
proof (cases "q_broken (q_queue s)")
  case True
  then show ?thesis
    using assms by (auto simp: lost_def queue_ok_def queue_flags_def)
next
  case False
  have idle: "safe (\<lambda>s'. inv (q_world s') \<and> mine (q_world s') = {} \<and> \<not> q_active (q_queue s') \<and> \<not> q_timeout_started (q_queue s') \<and>
      \<not> q_broken (q_queue s')) (if q_active (q_queue s) then deactivate sv error s else Inr s)"
    using deactivate_ok [OF assms] assms False by (auto simp: queue_ok_def queue_flags_def queue_timers_def)
  have add: "safe (\<lambda>s'. queue_ok s' \<and> \<not> q_active (q_queue s') \<and> (error \<longrightarrow> q_broken (q_queue s')))
      (rbind (sv_timeout_add sv (q_world s1) QUEUE_RETRY_TIME RetryTimer) (\<lambda>(i, w).
         Inr (s1\<lparr>q_world := w, q_queue := (q_queue s1)\<lparr>q_broken := True, q_broken_timeout_id := i \<noteq> 0\<rparr>\<rparr>)))"
    if "inv (q_world s1)" "mine (q_world s1) = {}" "\<not> q_active (q_queue s1)" "\<not> q_timeout_started (q_queue s1)"
    for s1 :: "('w, 'b) qstate_scheme"
    by (rule safe_bind [OF add_ok [OF that(1)]]) (use that in \<open>auto simp: queue_ok_def queue_flags_def queue_timers_def\<close>)
  show ?thesis
    unfolding lost_def using False
  proof (simp only: if_False, intro safe_bind [OF idle])
    fix s1 :: "('w, 'b) qstate_scheme"
    assume s1: "inv (q_world s1) \<and> mine (q_world s1) = {} \<and> \<not> q_active (q_queue s1) \<and> \<not> q_timeout_started (q_queue s1) \<and>
      \<not> q_broken (q_queue s1)"
    then have "queue_ok s1"
      by (simp add: queue_ok_def queue_flags_def queue_timers_def)
    with s1 add [of s1] show "safe (\<lambda>s'. queue_ok s' \<and> \<not> q_active (q_queue s') \<and> (error \<longrightarrow> q_broken (q_queue s')))
        (if error then rbind (sv_timeout_add sv (q_world s1) QUEUE_RETRY_TIME RetryTimer) (\<lambda>(i, w).
            Inr (s1\<lparr>q_world := w, q_queue := (q_queue s1)\<lparr>q_broken := True, q_broken_timeout_id := i \<noteq> 0\<rparr>\<rparr>))
         else Inr s1)"
      by (cases error) simp_all
  qed
qed

lemma start_flushing_ok:
  assumes "queue_ok s" and "q_active (q_queue s)"
  shows "safe queue_ok (start_flushing sv s)"
proof (cases "q_timeout_started (q_queue s)")
  case False
  have w: "inv (q_world s)" "mine (q_world s) = {}" "\<not> q_broken (q_queue s)"
    using assms False by (auto simp: queue_ok_def queue_timers_def queue_flags_def)
  have "safe queue_ok (rbind (sv_timeout_add sv (q_world s) QUEUE_FLUSH_TIME FlushTimer) (\<lambda>(i, w).
        Inr (s\<lparr>q_world := w, q_queue := (q_queue s)\<lparr>q_timeout_started := True, q_timeout_id := i\<rparr>\<rparr>)))"
    by (rule safe_bind [OF add_ok [OF w(1)]]) (use w assms in \<open>auto simp: queue_ok_def queue_timers_def queue_flags_def\<close>)
  with False show ?thesis
    by (simp add: start_flushing_def)
qed (use assms in \<open>simp add: start_flushing_def\<close>)

lemma send_command_ok:
  assumes "queue_ok s" and "q_active (q_queue s)"
  shows "safe queue_ok (send_command sv s command)"
proof -
  obtain e rs wire where r: "send_loop (os_sends (q_os s)) command (os_wire (q_os s)) = (e, rs, wire)"
    by (cases "send_loop (os_sends (q_os s)) command (os_wire (q_os s))") auto
  let ?s = "s\<lparr>q_os := (q_os s)\<lparr>os_sends := rs, os_wire := wire\<rparr>\<rparr>"
  have s: "queue_ok ?s" "q_active (q_queue ?s)"
    using assms by (simp_all add: queue_ok_def queue_flags_def)
  have lost: "safe queue_ok (lost sv True ?s)"
    by (rule safe_mono [OF lost_ok [OF s(1)]]) simp
  show ?thesis
    using start_flushing_ok [OF s] lost
    by (cases e) (simp_all add: send_command_def r)
qed

lemma start_ok:
  assumes "queue_ok s" and "\<not> q_active (q_queue s)" and "\<not> q_broken (q_queue s)"
  shows "safe (\<lambda>s'. q_active (q_queue s') \<and> (0 < q_pipe (q_queue s') \<longrightarrow> queue_ok s')) (start s)"
proof (cases "start s")
  case (Inl e)
  then show ?thesis
    by (auto simp: start_def sanity_def close_fd_def Let_def split: option.splits if_splits)
next
  case (Inr s')
  with assms start_result [OF Inr] show ?thesis
    by (auto simp: queue_ok_def queue_timers_def queue_flags_def)
qed

lemma enqueue_ok:
  assumes "queue_ok s"
  shows "safe queue_ok (enqueue sv s command)"
proof (cases "q_broken (q_queue s)")
  case False
  have "safe (\<lambda>s'. q_active (q_queue s') \<and> (0 < q_pipe (q_queue s') \<longrightarrow> queue_ok s')) (if q_active (q_queue s) then Inr s else start s)"
    using assms start_ok [OF assms] False by simp
  then have "safe queue_ok (rbind (if q_active (q_queue s) then Inr s else start s) (\<lambda>s.
        sanity (q_active (q_queue s)) (sanity (q_pipe (q_queue s) > 0) (sanity (command \<noteq> [])
          (sanity (last command = 10) (send_command sv s command))))))"
    by (rule safe_bind) (auto intro!: safe_sanity send_command_ok)
  with False show ?thesis
    by (simp only: enqueue_def if_False)
qed (use assms in \<open>simp add: enqueue_def\<close>)

lemma queue_fd_data_ok:
  assumes "queue_ok s"
  shows "safe queue_ok (queue_fd_data sv fd r s)"
proof -
  have "safe queue_ok (close_fd (s\<lparr>q_os := unregister_fd fd (q_os s)\<rparr>))" if "\<not> q_active (q_queue s)"
    unfolding close_fd_def Let_def
    by (rule safe_sanity) (use assms that in \<open>auto simp: queue_ok_def queue_flags_def unregister_fd_def\<close>)
  moreover have "safe queue_ok (lost sv False s)"
    by (rule safe_mono [OF lost_ok [OF assms]]) simp
  ultimately show ?thesis
    using assms by (cases r) (simp_all add: queue_fd_data_def)
qed

lemma queue_child_died_ok:
  assumes "queue_ok s"
  shows "safe queue_ok (queue_child_died sv state child s)"
proof -
  have "safe queue_ok (lost sv error s)" for error
    by (rule safe_mono [OF lost_ok [OF assms]]) simp
  with assms show ?thesis
    by (simp add: queue_child_died_def)
qed

text \<open>The timeouts: the one that fires is no longer pending.\<close>

lemma flush_timeout_ok:
  assumes "inv (q_world s)" and "queue_flags (q_os s) (q_queue s)" and "q_timeout_started (q_queue s)" and "mine (q_world s) = {}"
  shows "safe queue_ok (flush_timeout sv s)"
proof -
  have "queue_ok (s\<lparr>q_queue := (q_queue s)\<lparr>q_timeout_started := False\<rparr>\<rparr>)"
    using assms by (auto simp: queue_ok_def queue_flags_def queue_timers_def)
  then show ?thesis
    unfolding flush_timeout_def queue_flush_def by (rule safe_mono [OF lost_ok]) simp
qed

lemma retry_timeout_ok:
  assumes "inv (q_world s)" and "queue_flags (q_os s) (q_queue s)" and "q_broken (q_queue s)" and "mine (q_world s) = {}"
    and reload: "\<And>s. queue_ok s \<Longrightarrow> safe queue_ok (reload s)"
  shows "safe queue_ok (retry_timeout reload s)"
  unfolding retry_timeout_def
  by (rule safe_sanity, rule reload) (use assms(1-4) in \<open>auto simp: queue_ok_def queue_flags_def queue_timers_def\<close>)

lemma enqueue_all_ok:
  assumes "queue_ok s"
  shows "safe queue_ok (fold_result (enqueue sv) s cmds)"
  using assms by (induction cmds arbitrary: s) (auto intro: safe_bind [OF enqueue_ok])

end

interpretation qc: queue_client "plugin_service (silent m) i" live "plugin_timers i"
  by unfold_locales

subsection \<open>What is written\<close>

lemma send_loop_all: "send_loop rs cmd wire = (AllSent, rs', wire') \<Longrightarrow> wire' = wire @ cmd"
  by (induction rs cmd wire rule: send_loop.induct) auto

lemma lost_broken: "lost sv True s = Inr s' \<Longrightarrow> q_broken (q_queue s')"
  by (auto simp: lost_def result_simps split: if_splits)

text \<open>A command is written as a whole, unless the queue breaks; nothing else changes.\<close>

lemma deactivate_more: "deactivate sv error s = Inr s' \<Longrightarrow> qstate.more s' = qstate.more s"
  by (auto simp: deactivate_def close_fd_def Let_def result_simps split: if_splits)

lemma lost_more: "lost sv error s = Inr s' \<Longrightarrow> qstate.more s' = qstate.more s"
  by (auto simp: lost_def result_simps split: if_splits dest!: deactivate_more)

lemma start_more: "start s = Inr s' \<Longrightarrow> qstate.more s' = qstate.more s"
  by (auto simp: start_def close_fd_def Let_def result_simps split: option.splits)

lemma start_flushing_result:
  "start_flushing sv s = Inr s' \<Longrightarrow> qstate.more s' = qstate.more s \<and> q_os s' = q_os s \<and> q_broken (q_queue s') = q_broken (q_queue s)"
  by (auto simp: start_flushing_def result_simps split: if_splits)

lemma send_command_result:
  assumes "send_command sv s command = Inr s'"
  shows "qstate.more s' = qstate.more s \<and>
    (q_broken (q_queue s') \<or> \<not> q_broken (q_queue s) \<and> os_wire (q_os s') = os_wire (q_os s) @ command)"
proof -
  obtain e rs wire where r: "send_loop (os_sends (q_os s)) command (os_wire (q_os s)) = (e, rs, wire)"
    by (cases "send_loop (os_sends (q_os s)) command (os_wire (q_os s))") auto
  with assms show ?thesis
    by (cases e) (auto simp: send_command_def dest!: start_flushing_result send_loop_all dest: lost_broken lost_more)
qed

lemma enqueue_result:
  assumes "enqueue sv s command = Inr s'"
  shows "qstate.more s' = qstate.more s \<and>
    (q_broken (q_queue s') \<or> \<not> q_broken (q_queue s) \<and> os_wire (q_os s') = os_wire (q_os s) @ command)"
  using assms
  by (auto simp: enqueue_def result_simps split: if_splits dest!: send_command_result dest: start_more start_result)


subsection \<open>Properties\<close>

text \<open>The life of the queue in the daemon, whatever commands the plugin has for it. Between the events
  the rest of the daemon runs, and the results of the coming system calls are arbitrary.\<close>

inductive queue_reach :: "('z, fwup_timer, 'p) platform \<Rightarrow> nat \<Rightarrow> ('z, fwup_timer, 'p) world qstate \<Rightarrow> bool" for m i where
  alloc: "live w \<Longrightarrow> plugin_timers i w = {} \<Longrightarrow> queue_reach m i \<lparr>q_world = w, q_os = s, q_queue = queue_alloc\<rparr>"
| others: "queue_reach m i s \<Longrightarrow> live w \<Longrightarrow> plugin_timers i w = plugin_timers i (q_world s) \<Longrightarrow>
    os_fds sys = os_fds (q_os s) \<Longrightarrow> queue_reach m i (s\<lparr>q_world := w, q_os := sys\<rparr>)"
| command: "queue_reach m i s \<Longrightarrow> enqueue (plugin_service (silent m) i) s cmd = Inr s' \<Longrightarrow> queue_reach m i s'"
| fd_data: "queue_reach m i s \<Longrightarrow> queue_fd_data (plugin_service (silent m) i) fd r s = Inr s' \<Longrightarrow> queue_reach m i s'"
| child: "queue_reach m i s \<Longrightarrow> queue_child_died (plugin_service (silent m) i) st pid s = Inr s' \<Longrightarrow> queue_reach m i s'"
| flush: "queue_reach m i s \<Longrightarrow> queue (w_timeouts (q_world s)) = t # ts \<Longrightarrow> tcontext t = Some i \<Longrightarrow> callback t = PluginTimer FlushTimer \<Longrightarrow>
    flush_timeout (plugin_service (silent m) i) (s\<lparr>q_world := unqueue (q_world s)\<rparr>) = Inr s' \<Longrightarrow> queue_reach m i s'"
| retry: "queue_reach m i s \<Longrightarrow> queue (w_timeouts (q_world s)) = t # ts \<Longrightarrow> tcontext t = Some i \<Longrightarrow> callback t = PluginTimer RetryTimer \<Longrightarrow>
    retry_timeout (\<lambda>s. fold_result (enqueue (plugin_service (silent m) i)) s cmds) (s\<lparr>q_world := unqueue (q_world s)\<rparr>) = Inr s' \<Longrightarrow>
    queue_reach m i s'"

text \<open>The timeout that fires is the one its flag stands for, and no other is pending then.\<close>

lemma fired_timer:
  assumes s: "qc.queue_ok i s" and q: "queue (w_timeouts (q_world s)) = t # ts" "tcontext t = Some i" "callback t = PluginTimer c"
  shows "live (unqueue (q_world s))" and "plugin_timers i (unqueue (q_world s)) = {}"
    and "c = FlushTimer \<Longrightarrow> q_timeout_started (q_queue s)" and "c = RetryTimer \<Longrightarrow> q_broken (q_queue s)"
    and "queue_flags (q_os s) (q_queue s)"
proof -
  have ok: "live (q_world s)" "queue_timers (plugin_timers i (q_world s)) (q_queue s)" "queue_flags (q_os s) (q_queue s)"
    using s by (simp_all add: qc.queue_ok_def)
  note u = unqueue_plugin [OF ok(1) q]
  show "live (unqueue (q_world s))" "queue_flags (q_os s) (q_queue s)"
    using u ok by simp_all
  show "plugin_timers i (unqueue (q_world s)) = {}" "c = FlushTimer \<Longrightarrow> q_timeout_started (q_queue s)" "c = RetryTimer \<Longrightarrow> q_broken (q_queue s)"
    using u ok(2) by (auto simp: queue_timers_def split: if_splits)
qed

lemma flush_fired_ok:
  assumes "qc.queue_ok i s" and "queue (w_timeouts (q_world s)) = t # ts" and "tcontext t = Some i" and "callback t = PluginTimer FlushTimer"
  shows "safe (qc.queue_ok i) (flush_timeout (plugin_service (silent m) i) (s\<lparr>q_world := unqueue (q_world s)\<rparr>))"
  by (rule qc.flush_timeout_ok) (use fired_timer [OF assms] in simp_all)

lemma retry_fired_ok:
  assumes "qc.queue_ok i s" and "queue (w_timeouts (q_world s)) = t # ts" and "tcontext t = Some i" and "callback t = PluginTimer RetryTimer"
    and "\<And>s. qc.queue_ok i s \<Longrightarrow> safe (qc.queue_ok i) (reload s)"
  shows "safe (qc.queue_ok i) (retry_timeout reload (s\<lparr>q_world := unqueue (q_world s)\<rparr>))"
  by (rule qc.retry_timeout_ok) (use fired_timer [OF assms(1-4)] assms(5) in simp_all)


lemma queue_reach_ok: "queue_reach m i s \<Longrightarrow> qc.queue_ok i s"
proof (induction rule: queue_reach.induct)
  case (command s cmd s')
  have "safe (qc.queue_ok i) (enqueue (plugin_service (silent m) i) s cmd)"
    by (rule qc.enqueue_ok) (rule command.IH)
  with command.hyps(2) show ?case
    by simp
next
  case (fd_data s fd r s')
  have "safe (qc.queue_ok i) (queue_fd_data (plugin_service (silent m) i) fd r s)"
    by (rule qc.queue_fd_data_ok) (rule fd_data.IH)
  with fd_data.hyps(2) show ?case
    by simp
next
  case (child s st pid s')
  have "safe (qc.queue_ok i) (queue_child_died (plugin_service (silent m) i) st pid s)"
    by (rule qc.queue_child_died_ok) (rule child.IH)
  with child.hyps(2) show ?case
    by simp
next
  case (flush s t ts s')
  with flush_fired_ok [OF flush.IH flush.hyps(2-4), of m] show ?case
    by simp
next
  case (retry s t ts cmds s')
  have "safe (qc.queue_ok i) (retry_timeout (\<lambda>s. fold_result (enqueue (plugin_service (silent m) i)) s cmds) (s\<lparr>q_world := unqueue (q_world s)\<rparr>))"
    by (rule retry_fired_ok [OF retry.IH retry.hyps(2-4)]) (rule qc.enqueue_all_ok)
  with retry.hyps(5) show ?case
    by simp
qed (simp_all add: qc.queue_ok_def, simp add: queue_flags_def)


text \<open>A command whose pipe is gone: the queue is broken.\<close>

definition gone_os :: os where
  "gone_os = \<lparr>os_pairs = [], os_forks = [], os_closes = [], os_sends = [PeerGone], os_lists = [], os_wire = [], os_fds = []\<rparr>"


end
