(* ===== verification/Fwup.thy ===== *)
theory Fwup
  imports FwupQueue FwupText DiffStore UplinkCodec
begin

text \<open>
  The fwup plugin (\<open>plugins/fwup/main.c\<close>): sets of addresses from the server, kept in stores
  (\<open>DiffStore\<close>) and in the kernel, by commands for \<open>ipset\<close> (\<open>FwupQueue\<close>).

  The state extends the state of the queue. The two pools are not modelled: the records are values,
  and an old array of sets that the code may still write to is not read again. The hooks that a store
  calls are recorded by it and run after the call; they change nothing the store looks at. The list of
  sets in the kernel is cached in memory of the callback in progress, which the loop then drops:
  \<open>Dangling\<close> is the pointer to it that stays behind.
\<close>

subsection \<open>State\<close>

datatype set_state = SS_VALID | SS_PENDING | SS_DEAD | SS_DEAD_PENDING | SS_COPIED | SS_NEWBORN

record ip_set =
  s_name :: bytes
  s_tmp_name :: "bytes option"
  s_state :: set_state
  s_type :: byte
  s_max_size :: u32
  s_hash_size :: u32
  s_store :: diff_addr_store
  s_context :: bool

datatype set_list = NoList | Cached "bytes list" | Dangling

record 'w fwup = "'w qstate" +
  f_configured :: bool
  f_config_version :: bytes
  f_sets :: "ip_set list"
  f_existing :: set_list

text \<open>After each callback the loop drops its temporary memory.\<close>

definition after_callback :: "'w fwup \<Rightarrow> 'w fwup" where
  "after_callback s = s\<lparr>f_existing := (case f_existing s of Cached _ \<Rightarrow> Dangling | c \<Rightarrow> c)\<rparr>"

subsection \<open>The sets of the kernel\<close>

text \<open>Reading the output of \<open>ipset -n list\<close>. Each round allocates a block of the current size and doubles the
  size then, so the read may be longer than the block.\<close>

fun read_list :: "nat \<Rightarrow> bytes \<Rightarrow> bytes list \<Rightarrow> bytes result" where
  "read_list block output [] = (if length output < block then Inr output else Inl BadAccess)"
| "read_list block output (c # cs) =
     (if c = [] then (if length output < block then Inr output else Inl BadAccess)
      else let output' = output @ take (2 * block - length output - 1) c
        in if block < length output' then Inl BadAccess
           else sanity (length output' < 2 * block) (read_list (2 * block) output' cs))"

fun split_lines :: "bytes \<Rightarrow> bytes list" where
  "split_lines [] = [[]]"
| "split_lines (c # cs) = (if c = 10 then [] # split_lines cs else (c # hd (split_lines cs)) # tl (split_lines cs))"

text \<open>A block of a pool is as long as it was asked for, up to the next multiple of eight.\<close>

definition block_size :: "nat \<Rightarrow> nat" where
  "block_size n = (n + 7) div 8 * 8"

text \<open>The array of pointers to the lines is allocated with its number of items as the size.\<close>

definition list_sets :: "'w fwup \<Rightarrow> (bytes list \<times> 'w fwup) result" where
  "list_sets s =
     (case next_of (Some []) (os_lists (q_os s)) of
        None \<Rightarrow> Inl Sanity
      | Some chunks \<Rightarrow>
          rbind (read_list 1000 [] chunks) (\<lambda>output.
            let ls = split_lines output
            in if block_size (length ls) < 8 * length ls then Inl BadAccess
               else Inr (ls, s\<lparr>q_os := (q_os s)\<lparr>os_lists := tl (os_lists (q_os s))\<rparr>, f_existing := Cached ls\<rparr>)))"

definition set_exists :: "'w fwup \<Rightarrow> bytes \<Rightarrow> (bool \<times> 'w fwup) result" where
  "set_exists s name =
     rbind (case f_existing s of
              NoList \<Rightarrow> list_sets s
            | Cached ls \<Rightarrow> Inr (ls, s)
            | Dangling \<Rightarrow> Inl BadAccess) (\<lambda>(ls, s).
       Inr (name \<in> cstring ` set ls, s))"

subsection \<open>Commands\<close>

definition create_command :: "bytes \<Rightarrow> set_type \<Rightarrow> ip_set \<Rightarrow> bytes" where
  "create_command name ty st =
     ascii ''create '' @ name @ [32] @ t_desc ty @ ascii '' family '' @ t_family ty @ ascii '' hashsize '' @
     digits 10 (unat (s_hash_size st)) @ ascii '' maxelem '' @ digits 10 (unat (s_max_size st)) @ [10]"

definition destroy_command :: "bytes \<Rightarrow> bytes" where
  "destroy_command name = ascii ''destroy '' @ name @ [10]"

definition swap_command :: "bytes \<Rightarrow> bytes \<Rightarrow> bytes" where
  "swap_command a b = ascii ''swap '' @ a @ [32] @ b @ [10]"

definition item_command :: "bytes \<Rightarrow> bytes \<Rightarrow> bytes \<Rightarrow> bytes" where
  "item_command cmd name item = cmd @ [32] @ name @ [32] @ item @ [10]"

definition type_of :: "ip_set \<Rightarrow> set_type result" where
  "type_of st = (case set_types (s_type st) of None \<Rightarrow> Inl BadAccess | Some ty \<Rightarrow> Inr ty)"

definition set_create :: "(fwup_timer, 'w) services \<Rightarrow> 'w fwup \<Rightarrow> ip_set \<Rightarrow> 'w fwup result" where
  "set_create sv s st =
     rbind (set_exists s (s_name st)) (\<lambda>(ex, s).
       if ex then Inr s
       else rbind (type_of st) (\<lambda>ty. enqueue sv s (create_command (s_name st) ty st)))"

text \<open>The first occurrence of a text, as \<open>strstr\<close> finds it.\<close>

fun find_text :: "bytes \<Rightarrow> bytes \<Rightarrow> nat option" where
  "find_text pat [] = (if pat = [] then Some 0 else None)"
| "find_text pat (c # cs) = (if take (length pat) (c # cs) = pat then Some 0 else map_option Suc (find_text pat cs))"

definition overwrite :: "nat \<Rightarrow> bytes \<Rightarrow> bytes \<Rightarrow> bytes" where
  "overwrite i new bs = take i bs @ new @ drop (i + length new) bs"

definition addr_cmd :: "(fwup_timer, 'w) services \<Rightarrow> 'w fwup \<Rightarrow> ip_set \<Rightarrow> bytes \<Rightarrow> bytes \<Rightarrow> 'w fwup result" where
  "addr_cmd sv s st cmd addr =
     (if \<not> s_context st then Inl BadAccess
      else rbind (type_of st) (\<lambda>ty.
        rbind (t_addr2str ty addr) (\<lambda>item.
          let composed = item_command cmd (case s_tmp_name st of Some n \<Rightarrow> n | None \<Rightarrow> s_name st) item
          in case find_text (ascii ''XXX'') composed of
               None \<Rightarrow> enqueue sv s composed
             | Some proto \<Rightarrow>
                 rbind (enqueue sv s (overwrite proto (ascii ''tcp'') composed)) (\<lambda>s.
                   enqueue sv s (overwrite proto (ascii ''udp'') composed)))))"

definition add_item :: "(fwup_timer, 'w) services \<Rightarrow> 'w fwup \<Rightarrow> ip_set \<Rightarrow> bytes \<Rightarrow> 'w fwup result" where
  "add_item sv s st addr = addr_cmd sv s st (ascii ''add'') addr"

definition remove_item :: "(fwup_timer, 'w) services \<Rightarrow> 'w fwup \<Rightarrow> ip_set \<Rightarrow> bytes \<Rightarrow> 'w fwup result" where
  "remove_item sv s st addr = addr_cmd sv s st (ascii ''del'') addr"

definition replace_start :: "(fwup_timer, 'w) services \<Rightarrow> 'w fwup \<Rightarrow> ip_set \<Rightarrow> ('w fwup \<times> ip_set) result" where
  "replace_start sv s st =
     sanity (s_tmp_name st = None)
       (if \<not> s_context st then Inl BadAccess
        else let tmp = s_name st @ ascii ''-rep''; st = st\<lparr>s_tmp_name := Some tmp\<rparr>
          in rbind (set_create sv s st) (\<lambda>s.
               rbind (set_exists s tmp) (\<lambda>(ex, s).
                 rbind (if ex then enqueue sv s (destroy_command tmp) else Inr s) (\<lambda>s.
                   rbind (type_of st) (\<lambda>ty.
                     rbind (enqueue sv s (create_command tmp ty st)) (\<lambda>s. Inr (s, st)))))))"

definition replace_end :: "(fwup_timer, 'w) services \<Rightarrow> 'w fwup \<Rightarrow> ip_set \<Rightarrow> ('w fwup \<times> ip_set) result" where
  "replace_end sv s st =
     (case s_tmp_name st of
        None \<Rightarrow> Inl Sanity
      | Some tmp \<Rightarrow>
          if \<not> s_context st then Inl BadAccess
          else rbind (enqueue sv s (swap_command (s_name st) tmp)) (\<lambda>s.
            rbind (enqueue sv s (destroy_command tmp)) (\<lambda>s. Inr (s, st\<lparr>s_tmp_name := None\<rparr>))))"

text \<open>The hooks of a store, in the order it called them.\<close>

definition run_hook :: "(fwup_timer, 'w) services \<Rightarrow> 'w fwup \<times> ip_set \<Rightarrow> hook_call \<Rightarrow> ('w fwup \<times> ip_set) result" where
  "run_hook sv = (\<lambda>(s, st) h.
     case h of
       AddHook a \<Rightarrow> rbind (add_item sv s st a) (\<lambda>s. Inr (s, st))
     | RemoveHook a \<Rightarrow> rbind (remove_item sv s st a) (\<lambda>s. Inr (s, st))
     | ReplaceStart \<Rightarrow> replace_start sv s st
     | ReplaceEnd \<Rightarrow> replace_end sv s st)"

definition store_set_hooks :: "diff_addr_store \<Rightarrow> diff_addr_store" where
  "store_set_hooks d = d\<lparr>add_hook := True, remove_hook := True, replace_start_hook := True, replace_end_hook := True\<rparr>"

text \<open>Filling the set in the kernel from its store.\<close>

definition replace_add :: "(fwup_timer, 'w) services \<Rightarrow> ip_set \<Rightarrow> 'w fwup \<Rightarrow> bytes \<Rightarrow> unit option \<Rightarrow> 'w fwup result" where
  "replace_add sv st s key data = (case data of None \<Rightarrow> Inr s | Some _ \<Rightarrow> add_item sv s st key)"

definition set_reload :: "(fwup_timer, 'w) services \<Rightarrow> 'w fwup \<Rightarrow> ip_set \<Rightarrow> ('w fwup \<times> ip_set) result" where
  "set_reload sv s st =
     rbind (replace_start sv s (st\<lparr>s_context := True\<rparr>)) (\<lambda>(s, st).
       rbind (trie_walk (ds_trie (s_store st)) (replace_add sv st) s) (\<lambda>s.
         rbind (replace_end sv s st) (\<lambda>(s, st). Inr (s, st\<lparr>s_context := False\<rparr>))))"


subsection \<open>Configuration\<close>

definition connected :: "(fwup_timer, 'w) services \<Rightarrow> 'w fwup \<Rightarrow> 'w fwup result" where
  "connected sv s = rbind (sv_tell sv (q_world s) [code (CHR ''C'')]) (\<lambda>w. Inr (s\<lparr>q_world := w\<rparr>))"

text \<open>One set of the configuration; \<open>None\<close> is a set of an unknown type.\<close>

definition set_parse :: "bytes \<Rightarrow> (ip_set option \<times> bytes) result" where
  "set_parse data =
     rbind (uplink_parse ''scuu'' data) (\<lambda>(vs, rest).
       case vs of
         [UString name, UChar t, UInt max_size, UInt hash_size] \<Rightarrow>
           (case set_types t of
              None \<Rightarrow> Inr (None, rest)
            | Some _ \<Rightarrow>
                Inr (Some \<lparr>s_name = cstring name, s_tmp_name = None, s_state = SS_NEWBORN, s_type = t, s_max_size = max_size,
                  s_hash_size = hash_size, s_store = store_set_hooks (diff_addr_store_init (cstring name)), s_context = False\<rparr>, rest))
       | _ \<Rightarrow> Inl BadAccess)"

fun sets_parse :: "nat \<Rightarrow> bytes \<Rightarrow> ip_set list result" where
  "sets_parse 0 data = Inr []"
| "sets_parse (Suc n) data =
     rbind (set_parse data) (\<lambda>(r, rest).
       rbind (sets_parse n rest) (\<lambda>sts. Inr (case r of None \<Rightarrow> sts | Some st \<Rightarrow> st # sts)))"

definition version_ask :: "(fwup_timer, 'w) services \<Rightarrow> 'w fwup \<Rightarrow> bytes \<Rightarrow> 'w fwup result" where
  "version_ask sv s setname =
     rbind (uplink_render_alloc 0 ''cs'' [UChar (code (CHR ''A'')), UString setname]) (\<lambda>(message, len).
       rbind (sv_tell sv (q_world s) message) (\<lambda>w. Inr (s\<lparr>q_world := w\<rparr>)))"

fun mark_dead :: "ip_set list \<Rightarrow> ip_set list result" where
  "mark_dead [] = Inr []"
| "mark_dead (st # sts) =
     rbind (case s_state st of
              SS_VALID \<Rightarrow> Inr (st\<lparr>s_state := SS_DEAD\<rparr>)
            | SS_PENDING \<Rightarrow> Inr (st\<lparr>s_state := SS_DEAD_PENDING\<rparr>)
            | _ \<Rightarrow> Inl Sanity) (\<lambda>st. rbind (mark_dead sts) (\<lambda>sts. Inr (st # sts)))"

text \<open>A new set and the old ones: the one of the same name and type is copied.\<close>

definition copy_old :: "(fwup_timer, 'w) services \<Rightarrow> 'w fwup \<Rightarrow> ip_set \<Rightarrow> ip_set \<Rightarrow> ('w fwup \<times> ip_set \<times> ip_set) result" where
  "copy_old sv s st old =
     (if s_name st = s_name old \<and> s_type st = s_type old then
        (case s_state old of
           SS_DEAD \<Rightarrow>
             rbind (diff_addr_store_cp (s_store st) (s_store old)) (\<lambda>store.
               let st = st\<lparr>s_store := store, s_state := SS_VALID\<rparr>; old' = old\<lparr>s_state := SS_COPIED\<rparr>
               in if s_hash_size st \<noteq> s_hash_size old \<or> s_max_size st \<noteq> s_max_size old
                  then rbind (set_reload sv s st) (\<lambda>(s, st). Inr (s, st, old'))
                  else Inr (s, st, old'))
         | SS_DEAD_PENDING \<Rightarrow> Inr (s, st\<lparr>s_state := SS_PENDING\<rparr>, old\<lparr>s_state := SS_COPIED\<rparr>)
         | _ \<Rightarrow> Inl Sanity)
      else Inr (s, st, old))"

fun copy_olds :: "(fwup_timer, 'w) services \<Rightarrow> 'w fwup \<Rightarrow> ip_set \<Rightarrow> ip_set list \<Rightarrow> ('w fwup \<times> ip_set \<times> ip_set list) result" where
  "copy_olds sv s st [] = Inr (s, st, [])"
| "copy_olds sv s st (old # olds) =
     rbind (copy_old sv s st old) (\<lambda>(s, st, old).
       rbind (copy_olds sv s st olds) (\<lambda>(s, st, olds). Inr (s, st, old # olds)))"

fun copy_sets :: "(fwup_timer, 'w) services \<Rightarrow> 'w fwup \<Rightarrow> ip_set list \<Rightarrow> ip_set list \<Rightarrow> ('w fwup \<times> ip_set list \<times> ip_set list) result" where
  "copy_sets sv s [] olds = Inr (s, [], olds)"
| "copy_sets sv s (st # sts) olds =
     rbind (copy_olds sv s st olds) (\<lambda>(s, st, olds).
       rbind (copy_sets sv s sts olds) (\<lambda>(s, sts, olds). Inr (s, st # sts, olds)))"

definition destroy_old :: "(fwup_timer, 'w) services \<Rightarrow> 'w fwup \<Rightarrow> ip_set \<Rightarrow> 'w fwup result" where
  "destroy_old sv s old =
     (if s_state old = SS_DEAD \<or> s_state old = SS_DEAD_PENDING then enqueue sv s (destroy_command (s_name old))
      else if s_state old = SS_COPIED then Inr s
      else Inl Sanity)"

definition create_new :: "(fwup_timer, 'w) services \<Rightarrow> 'w fwup \<Rightarrow> ip_set \<Rightarrow> ('w fwup \<times> ip_set) result" where
  "create_new sv s st =
     (case s_state st of
        SS_NEWBORN \<Rightarrow>
          rbind (set_create sv s st) (\<lambda>s. rbind (version_ask sv s (s_name st)) (\<lambda>s. Inr (s, st\<lparr>s_state := SS_PENDING\<rparr>)))
      | SS_PENDING \<Rightarrow> rbind (version_ask sv s (s_name st)) (\<lambda>s. Inr (s, st))
      | SS_VALID \<Rightarrow> rbind (version_ask sv s (s_name st)) (\<lambda>s. Inr (s, st))
      | _ \<Rightarrow> Inl Sanity)"

fun create_news :: "(fwup_timer, 'w) services \<Rightarrow> 'w fwup \<Rightarrow> ip_set list \<Rightarrow> ('w fwup \<times> ip_set list) result" where
  "create_news sv s [] = Inr (s, [])"
| "create_news sv s (st # sts) =
     rbind (create_new sv s st) (\<lambda>(s, st). rbind (create_news sv s sts) (\<lambda>(s, sts). Inr (s, st # sts)))"

text \<open>The version of the configuration stays in network order: it is only compared.\<close>

definition config_parse :: "(fwup_timer, 'w) services \<Rightarrow> 'w fwup \<Rightarrow> bytes \<Rightarrow> 'w fwup result" where
  "config_parse sv s data =
     sanity (length data \<ge> 8)
       (let ver = take 4 data; n = unat (get32 (drop 4 data))
        in if f_config_version s = ver then fold_result (\<lambda>s st. version_ask sv s (s_name st)) s (f_sets s)
           else rbind (sets_parse n (drop 8 data)) (\<lambda>news.
             rbind (mark_dead (f_sets s)) (\<lambda>olds.
               rbind (copy_sets sv s news olds) (\<lambda>(s, news, olds).
                 rbind (fold_result (destroy_old sv) s olds) (\<lambda>s.
                   rbind (create_news sv s news) (\<lambda>(s, news).
                     Inr (s\<lparr>f_config_version := ver, f_sets := news, f_configured := True\<rparr>)))))))"

subsection \<open>Updates\<close>

definition config_version_check :: "'w fwup \<Rightarrow> bytes \<Rightarrow> bytes option result" where
  "config_version_check s data =
     sanity (length data \<ge> 4) (Inr (if f_config_version s \<noteq> take 4 data then None else Some (drop 4 data)))"

fun set_find :: "ip_set list \<Rightarrow> bytes \<Rightarrow> nat option" where
  "set_find [] name = None"
| "set_find (st # sts) name = (if name = s_name st then Some 0 else map_option Suc (set_find sts name))"

definition set_change :: "'w fwup \<Rightarrow> nat \<Rightarrow> (ip_set \<Rightarrow> ip_set) \<Rightarrow> 'w fwup" where
  "set_change s i g = s\<lparr>f_sets := (f_sets s)[i := g (f_sets s ! i)]\<rparr>"

definition set_to :: "'w fwup \<Rightarrow> bytes \<Rightarrow> set_state \<Rightarrow> 'w fwup result" where
  "set_to s name state =
     (case set_find (f_sets s) name of
        None \<Rightarrow> Inl BadAccess
      | Some i \<Rightarrow> Inr (set_change s i (\<lambda>st. st\<lparr>s_state := state\<rparr>)))"

text \<open>Asking the server for an update, with the space left in the message checked.\<close>

definition update_request :: "bytes \<Rightarrow> bool \<Rightarrow> u32 \<Rightarrow> u32 \<Rightarrow> u32 \<Rightarrow> bytes result" where
  "update_request name full ep old_version new_version =
     (let len = 1 + 1 + 4 + length name + (if full then 2 else 3) * 4
      in rbind (uplink_render ''cbsu'' [UChar (code (CHR ''U'')), UBool full, UString name, UInt ep] len) (\<lambda>(out, rest).
           rbind (if full then Inr ([], rest) else uplink_render_uint32 old_version rest) (\<lambda>(out2, rest).
             rbind (uplink_render_uint32 new_version rest) (\<lambda>(out3, rest).
               sanity (rest = 0) (Inr (out @ out2 @ out3))))))"

text \<open>All actions but the reload; the old version is only used where it was written.\<close>

definition simple_action ::
  "(fwup_timer, 'w) services \<Rightarrow> 'w fwup \<Rightarrow> bytes \<Rightarrow> diff_store_action \<Rightarrow> u32 \<Rightarrow> u32 option \<Rightarrow> u32 \<Rightarrow> 'w fwup result" where
  "simple_action sv s name action ep old_version new_version =
     (case action of
        DIFF_STORE_UNKNOWN \<Rightarrow> Inr s
      | DIFF_STORE_NO_ACTION \<Rightarrow> set_to s name SS_VALID
      | DIFF_STORE_CONFIG_RELOAD \<Rightarrow> Inl Sanity
      | _ \<Rightarrow>
          let full = (action = DIFF_STORE_FULL)
          in rbind (set_to s name (if full then SS_PENDING else SS_VALID)) (\<lambda>s.
               rbind (update_request name full ep (case old_version of Some v \<Rightarrow> v | None \<Rightarrow> 0) new_version) (\<lambda>message.
                 rbind (sv_tell sv (q_world s) message) (\<lambda>w. Inr (s\<lparr>q_world := w\<rparr>)))))"

text \<open>The sets are copied without the deleted addresses.\<close>

definition copy_set :: "ip_set \<Rightarrow> ip_set result" where
  "copy_set st =
     sanity (s_tmp_name st = None)
       (rbind (diff_addr_store_cp (store_set_hooks (diff_addr_store_init (s_name st))) (s_store st)) (\<lambda>store.
          Inr (st\<lparr>s_store := store\<rparr>)))"

fun copy_all :: "ip_set list \<Rightarrow> ip_set list result" where
  "copy_all [] = Inr []"
| "copy_all (st # sts) = rbind (copy_set st) (\<lambda>st. rbind (copy_all sts) (\<lambda>sts. Inr (st # sts)))"

definition handle_action ::
  "(fwup_timer, 'w) services \<Rightarrow> 'w fwup \<Rightarrow> bytes \<Rightarrow> diff_store_action \<Rightarrow> u32 \<Rightarrow> u32 option \<Rightarrow> u32 \<Rightarrow> 'w fwup result" where
  "handle_action sv s name action ep old_version new_version =
     (if action = DIFF_STORE_CONFIG_RELOAD then
        rbind (copy_all (f_sets s)) (\<lambda>sts.
          case set_find sts name of
            None \<Rightarrow> Inl BadAccess
          | Some i \<Rightarrow>
              (case diff_addr_store_action (s_store (sts ! i)) ep new_version of
                 (action', v) \<Rightarrow>
                   simple_action sv (s\<lparr>f_sets := sts\<rparr>) name action' ep (if v = None then old_version else v) new_version))
      else simple_action sv s name action ep old_version new_version)"

text \<open>After a reload the set whose context is cleared is the one of the old array.\<close>

definition version_received :: "(fwup_timer, 'w) services \<Rightarrow> 'w fwup \<Rightarrow> bytes \<Rightarrow> 'w fwup result" where
  "version_received sv s data =
     rbind (config_version_check s data) (\<lambda>r.
       case r of
         None \<Rightarrow> Inr s
       | Some data \<Rightarrow>
           rbind (uplink_parse ''suu'' data) (\<lambda>(vs, rest).
             case vs of
               [UString n, UInt ep, UInt ver] \<Rightarrow>
                 (case set_find (f_sets s) (cstring n) of
                    None \<Rightarrow> Inr s
                  | Some i \<Rightarrow>
                      let s = set_change s i (\<lambda>st. st\<lparr>s_context := True\<rparr>)
                      in case diff_addr_store_action (s_store (f_sets s ! i)) ep ver of
                           (action, orig) \<Rightarrow>
                             rbind (handle_action sv s (cstring n) action ep orig ver) (\<lambda>s.
                               Inr (if action = DIFF_STORE_CONFIG_RELOAD then s
                                    else set_change s i (\<lambda>st. st\<lparr>s_context := False\<rparr>))))
             | _ \<Rightarrow> Inl BadAccess))"

text \<open>The name, whether the update is full, the epoch, the versions and the addresses.\<close>

definition diff_parse :: "bytes \<Rightarrow> (bytes \<times> bool \<times> u32 \<times> u32 \<times> u32 \<times> bytes) result" where
  "diff_parse data =
     rbind (uplink_parse ''sbu'' data) (\<lambda>(vs, rest).
       case vs of
         [UString n, UBool full, UInt ep] \<Rightarrow>
           rbind (if full then Inr (0, rest) else uplink_parse_uint32 rest) (\<lambda>(from, rest).
             rbind (uplink_parse_uint32 rest) (\<lambda>(to, rest). Inr (cstring n, full, ep, from, to, rest)))
       | _ \<Rightarrow> Inl BadAccess)"

text \<open>The update of a store, and the hooks it calls.\<close>

definition store_apply ::
  "(fwup_timer, 'w) services \<Rightarrow> 'w fwup \<Rightarrow> ip_set \<Rightarrow> bool \<Rightarrow> u32 \<Rightarrow> u32 \<Rightarrow> u32 \<Rightarrow> bytes \<Rightarrow>
     ('w fwup \<times> ip_set \<times> diff_store_action \<times> u32 option) result" where
  "store_apply sv s st full ep from to addrs =
     rbind (diff_addr_store_apply (s_store st) full ep from to addrs) (\<lambda>(store, action, orig).
       rbind (fold_result (run_hook sv) (s, st) (hook_log store)) (\<lambda>(s, st).
         Inr (s, st\<lparr>s_store := store\<lparr>hook_log := []\<rparr>\<rparr>, action, orig)))"

definition diff_received :: "(fwup_timer, 'w) services \<Rightarrow> 'w fwup \<Rightarrow> bytes \<Rightarrow> 'w fwup result" where
  "diff_received sv s data =
     rbind (config_version_check s data) (\<lambda>r.
       case r of
         None \<Rightarrow> Inr s
       | Some data \<Rightarrow>
           rbind (diff_parse data) (\<lambda>(name, full, ep, from, to, addrs).
             case set_find (f_sets s) name of
               None \<Rightarrow> Inr s
             | Some i \<Rightarrow>
                 rbind (store_apply sv s ((f_sets s ! i)\<lparr>s_context := True\<rparr>) full ep from to addrs) (\<lambda>(s, st, action, orig).
                   rbind (handle_action sv (set_change s i (\<lambda>_. st)) name action ep orig to) (\<lambda>s.
                     Inr (set_change s i (\<lambda>st. st\<lparr>s_context := False\<rparr>))))))"

fun reload_all :: "(fwup_timer, 'w) services \<Rightarrow> 'w fwup \<Rightarrow> ip_set list \<Rightarrow> ('w fwup \<times> ip_set list) result" where
  "reload_all sv s [] = Inr (s, [])"
| "reload_all sv s (st # sts) =
     rbind (set_reload sv s st) (\<lambda>(s, st). rbind (reload_all sv s sts) (\<lambda>(s, sts). Inr (s, st # sts)))"

definition sets_reload :: "(fwup_timer, 'w) services \<Rightarrow> 'w fwup \<Rightarrow> 'w fwup result" where
  "sets_reload sv s = rbind (reload_all sv s (f_sets s)) (\<lambda>(s, sts). Inr (s\<lparr>f_sets := sts\<rparr>))"

definition communicate :: "(fwup_timer, 'w) services \<Rightarrow> 'w fwup \<Rightarrow> bytes \<Rightarrow> 'w fwup result" where
  "communicate sv s data =
     (let s = s\<lparr>f_existing := NoList\<rparr>
      in sanity (data \<noteq> [])
           (if hd data = code (CHR ''C'') then config_parse sv s (tl data)
            else if hd data = code (CHR ''V'') then version_received sv s (tl data)
            else if hd data = code (CHR ''D'') then diff_received sv s (tl data)
            else if hd data = code (CHR ''R'') then sets_reload sv s
            else Inr s))"

definition child_died :: "(fwup_timer, 'w) services \<Rightarrow> exit_state \<Rightarrow> int \<Rightarrow> 'w fwup \<Rightarrow> 'w fwup result" where
  "child_died sv state pid s = queue_child_died sv state pid s"

text \<open>The version is zero before the first configuration.\<close>

definition initialize :: "(fwup_timer, 'w) services \<Rightarrow> 'w \<Rightarrow> os \<Rightarrow> 'w fwup result" where
  "initialize sv w sys =
     connected sv \<lparr>q_world = w, q_os = sys, q_queue = queue_alloc, f_configured = False, f_config_version = [0, 0, 0, 0],
       f_sets = [], f_existing = NoList\<rparr>"


subsection \<open>The list of sets\<close>

lemma read_list_all:
  "[] \<notin> set chunks \<Longrightarrow> 2 \<le> block \<Longrightarrow> read_list block got chunks = Inl BadAccess \<or> read_list block got chunks = Inr (got @ concat chunks)"
proof (induction block got chunks rule: read_list.induct)
  case (2 block got c cs)
  let ?r = "2 * block - length got - 1"
  show ?case
  proof (cases "block < length (got @ take ?r c)")
    case False
    then have "length c \<le> ?r"
      using 2(3) by (auto simp: min_def split: if_splits)
    with 2 False show ?thesis
      by (auto simp: Let_def)
  qed (use 2 in \<open>auto simp: Let_def\<close>)
qed auto

lemma split_lines_length: "length (split_lines bs) = Suc (length (filter ((=) 10) bs))"
  by (induction bs) auto

lemma list_sets_overrun:
  assumes "next_of (Some []) (os_lists (q_os s)) = Some chunks" and "[] \<notin> set chunks" and "10 \<in> set (concat chunks)"
  shows "list_sets s = Inl BadAccess"
proof (cases "read_list 1000 [] chunks")
  case (Inl e)
  then show ?thesis
    using read_list_all [OF assms(2), of 1000 "[]"] assms(1) by (simp add: list_sets_def)
next
  case (Inr got)
  then have "got = concat chunks"
    using read_list_all [OF assms(2), of 1000 "[]"] by simp
  then have "filter ((=) 10) got \<noteq> []"
    using assms(3) by (auto simp: filter_empty_conv)
  then have "2 \<le> length (split_lines got)"
    by (cases "filter ((=) 10) got") (simp_all add: split_lines_length)
  then have "block_size (length (split_lines got)) < 8 * length (split_lines got)"
    unfolding block_size_def by linarith
  with Inr assms(1) show ?thesis
    by (simp add: list_sets_def Let_def)
qed

text \<open>No set in the kernel, and none in its list.\<close>

lemma empty_list:
  assumes "f_existing s = NoList" and "next_of (Some []) (os_lists (q_os s)) = Some []" and "name \<noteq> []"
  shows "\<exists>s'. set_exists s name = Inr (False, s') \<and> f_existing s' = Cached [[]] \<and> f_sets s' = f_sets s \<and>
    f_config_version s' = f_config_version s \<and> q_queue s' = q_queue s \<and> os_wire (q_os s') = os_wire (q_os s)"
  using assms by (simp add: set_exists_def list_sets_def block_size_def cstring_def Let_def)

lemma cached_empty: "f_existing s = Cached [[]] \<Longrightarrow> name \<noteq> [] \<Longrightarrow> set_exists s name = Inr (False, s)"
  by (simp add: set_exists_def cstring_def)

subsection \<open>The texts of commands\<close>

lemma find_text_none: "88 \<notin> set bs \<Longrightarrow> find_text (ascii ''XXX'') bs = None"
  by (induction bs) (auto simp: ascii_def code_def)

lemma find_text_some: "88 \<notin> set u \<Longrightarrow> find_text (ascii ''XXX'') (u @ ascii ''XXX'' @ v) = Some (length u)"
  by (induction u) (auto simp: ascii_def code_def)

lemma overwrite_at: "length old = length new \<Longrightarrow> overwrite (length u) new (u @ old @ v) = u @ new @ v"
  by (simp add: overwrite_def)

text \<open>The items of the set in the kernel that stand for an address.\<close>

definition item_texts :: "bytes \<Rightarrow> bytes list" where
  "item_texts x =
     (case find_text (ascii ''XXX'') x of
        None \<Rightarrow> [x]
      | Some i \<Rightarrow> [overwrite i (ascii ''tcp'') x, overwrite i (ascii ''udp'') x])"

definition items_of :: "byte \<Rightarrow> bytes \<Rightarrow> bytes list" where
  "items_of t a =
     (case set_types t of
        None \<Rightarrow> []
      | Some ty \<Rightarrow> (case t_addr2str ty a of Inl _ \<Rightarrow> [] | Inr x \<Rightarrow> item_texts x))"

definition kernel_items :: "byte \<Rightarrow> bytes set \<Rightarrow> bytes set" where
  "kernel_items t A = (\<Union>a \<in> A. set (items_of t a))"

lemma with_port_X: "with_port y (ascii ''XXX'') z = (y @ [44]) @ ascii ''XXX'' @ [58] @ z"
  by (simp add: with_port_def)

lemma ascii_length: "length (ascii s) = length s"
  by (simp add: ascii_def)

lemma item_texts_plain: "plain x \<Longrightarrow> item_texts x = [x]"
  by (simp add: item_texts_def plain_def find_text_none)

lemma item_texts_port:
  assumes "plain y"
  shows "item_texts (with_port y (ascii ''XXX'') z) = [with_port y (ascii ''tcp'') z, with_port y (ascii ''udp'') z]"
proof -
  have "find_text (ascii ''XXX'') ((y @ [44]) @ ascii ''XXX'' @ [58] @ z) = Some (length (y @ [44]))"
    by (rule find_text_some) (use assms in \<open>simp add: plain_def\<close>)
  then show ?thesis
    unfolding item_texts_def with_port_X
    by (simp only: option.simps overwrite_at ascii_length list.size) (simp add: with_port_def)
qed

lemma item_command_texts:
  assumes "set_types t = Some ty" and "t_addr2str ty a = Inr x" and p: "88 \<notin> set cmd" "88 \<notin> set n"
  shows "(case find_text (ascii ''XXX'') (item_command cmd n x) of
       None \<Rightarrow> [item_command cmd n x]
     | Some i \<Rightarrow> [overwrite i (ascii ''tcp'') (item_command cmd n x), overwrite i (ascii ''udp'') (item_command cmd n x)]) =
    map (item_command cmd n) (item_texts x)"
  using addr2str_text [OF assms(1,2)]
proof
  assume "plain x"
  then show ?thesis
    using find_text_none [of "item_command cmd n x"] p item_texts_plain [of x] by (simp add: item_command_def plain_def)
next
  assume "\<exists>y z. x = with_port y (ascii ''XXX'') z \<and> plain y \<and> plain z"
  then obtain y z where x: "x = with_port y (ascii ''XXX'') z" "plain y"
    by blast
  let ?u = "cmd @ [32] @ n @ [32] @ y @ [44]"
  have u: "item_command cmd n (with_port y m z) = ?u @ m @ [58] @ z @ [10]" for m
    by (simp add: item_command_def with_port_def)
  have "find_text (ascii ''XXX'') (?u @ ascii ''XXX'' @ [58] @ z @ [10]) = Some (length ?u)"
    by (rule find_text_some) (use x p in \<open>simp add: plain_def\<close>)
  then show ?thesis
    unfolding x(1) item_texts_port [OF x(2)] list.map u
    by (simp only: option.simps overwrite_at ascii_length list.size)
qed

lemma items_clean: "e \<in> set (items_of t a) \<Longrightarrow> clean e"
proof -
  have "clean (ascii ''tcp'')" "clean (ascii ''udp'')"
    by (simp_all add: clean_def ascii_def code_def)
  then have port: "clean (with_port y (ascii m) z)" if "plain y" "plain z" "m \<in> {''tcp'', ''udp''}" for y z m
    using that by (auto simp: with_port_def plain_def clean_def)
  assume e: "e \<in> set (items_of t a)"
  then obtain ty x where x: "set_types t = Some ty" "t_addr2str ty a = Inr x" "e \<in> set (item_texts x)"
    by (cases "set_types t"; cases "t_addr2str (the (set_types t)) a") (auto simp: items_of_def)
  from addr2str_text [OF x(1,2)] show "clean e"
  proof
    assume "plain x"
    then show ?thesis
      using x(3) item_texts_plain [of x] by (simp add: plain_def)
  next
    assume "\<exists>y z. x = with_port y (ascii ''XXX'') z \<and> plain y \<and> plain z"
    then show ?thesis
      using x(3) item_texts_port port by auto
  qed
qed

text \<open>Two addresses have no item in common.\<close>

lemma item_texts_of:
  assumes "set_types t = Some ty" and "t_addr2str ty a = Inr x" and "e \<in> set (item_texts x)"
  shows "(plain x \<and> e = x) \<or>
    (\<exists>y z m. x = with_port y (ascii ''XXX'') z \<and> plain y \<and> m \<in> {ascii ''tcp'', ascii ''udp''} \<and> e = with_port y m z)"
  using addr2str_text [OF assms(1,2)]
proof
  assume "\<exists>y z. x = with_port y (ascii ''XXX'') z \<and> plain y \<and> plain z"
  then obtain y z where x: "x = with_port y (ascii ''XXX'') z" "plain y"
    by blast
  moreover obtain m where "m \<in> {ascii ''tcp'', ascii ''udp''}" "e = with_port y m z"
    using assms(3) x item_texts_port [OF x(2), of z] by auto
  ultimately show ?thesis
    by blast
qed (use assms(3) item_texts_plain in auto)

lemma with_port_inject:
  assumes "with_port y m z = with_port y' m' z'" and "plain y" and "plain y'" and "length m = length m'"
  shows "y = y' \<and> m = m' \<and> z = z'"
  using assms join_split [of 44 y y' "m @ [58] @ z" "m' @ [58] @ z'"] by (simp add: with_port_def plain_def)

lemma items_of_apart:
  assumes "e \<in> set (items_of t a)" and "e \<in> set (items_of t b)"
  shows "a = b"
proof -
  obtain ty x x' where x: "set_types t = Some ty" "t_addr2str ty a = Inr x" "t_addr2str ty b = Inr x'"
      "e \<in> set (item_texts x)" "e \<in> set (item_texts x')"
    using assms by (cases "set_types t"; cases "t_addr2str (the (set_types t)) a"; cases "t_addr2str (the (set_types t)) b")
      (auto simp: items_of_def)
  have port: "\<not> plain (with_port y m z)" for y m z
    by (simp add: plain_def with_port_def)
  have len: "length m = length m'" if "m \<in> {ascii ''tcp'', ascii ''udp''}" "m' \<in> {ascii ''tcp'', ascii ''udp''}" for m m'
    using that by (auto simp: ascii_length)
  have "x = x'"
    using item_texts_of [OF x(1,2,4)] item_texts_of [OF x(1,3,5)]
  proof (elim disjE exE conjE)
    fix y z m y' z' m'
    assume h: "x = with_port y (ascii ''XXX'') z" "plain y" "m \<in> {ascii ''tcp'', ascii ''udp''}" "e = with_port y m z"
      "x' = with_port y' (ascii ''XXX'') z'" "plain y'" "m' \<in> {ascii ''tcp'', ascii ''udp''}" "e = with_port y' m' z'"
    have "with_port y m z = with_port y' m' z'"
      using h(4,8) by simp
    with with_port_inject [OF this h(2,6) len [OF h(3,7)]] show ?thesis
      using h by simp
  qed (use port in auto)
  with addr2str_inject [OF x(1)] x(2,3) show ?thesis
    by blast
qed

lemma kernel_items_insert: "kernel_items t (insert a A) = kernel_items t A \<union> set (items_of t a)"
  by (auto simp: kernel_items_def)

lemma kernel_items_remove: "kernel_items t (A - {a}) = kernel_items t A - set (items_of t a)"
proof
  show "kernel_items t (A - {a}) \<subseteq> kernel_items t A - set (items_of t a)"
    using items_of_apart [of _ t a] by (auto simp: kernel_items_def)
  show "kernel_items t A - set (items_of t a) \<subseteq> kernel_items t (A - {a})"
    by (auto simp: kernel_items_def)
qed

subsection \<open>What the kernel does\<close>

text \<open>The documented behaviour of \<open>ipset restore\<close>: what a command does to the contents of the named sets.\<close>

definition ipset_laws :: "('k \<Rightarrow> bytes \<Rightarrow> 'k) \<Rightarrow> ('k \<Rightarrow> bytes \<Rightarrow> bytes set option) \<Rightarrow> bool" where
  "ipset_laws exec content \<longleftrightarrow>
     (\<forall>k n e S. clean n \<and> clean e \<and> content k n = Some S \<longrightarrow>
        content (exec k (item_command (ascii ''add'') n e)) = (content k)(n \<mapsto> insert e S)) \<and>
     (\<forall>k n e S. clean n \<and> clean e \<and> content k n = Some S \<longrightarrow>
        content (exec k (item_command (ascii ''del'') n e)) = (content k)(n \<mapsto> S - {e})) \<and>
     (\<forall>k n ty st. clean n \<and> content k n = None \<longrightarrow> content (exec k (create_command n ty st)) = (content k)(n \<mapsto> {})) \<and>
     (\<forall>k a b A B. clean a \<and> clean b \<and> a \<noteq> b \<and> content k a = Some A \<and> content k b = Some B \<longrightarrow>
        content (exec k (swap_command a b)) = (content k)(a \<mapsto> B, b \<mapsto> A)) \<and>
     (\<forall>k n S. clean n \<and> content k n = Some S \<longrightarrow> content (exec k (destroy_command n)) = (content k)(n := None))"

definition exec_all :: "('k \<Rightarrow> bytes \<Rightarrow> 'k) \<Rightarrow> 'k \<Rightarrow> bytes list \<Rightarrow> 'k" where
  "exec_all exec k cmds = foldl exec k cmds"

lemma exec_all_simps [simp]:
  "exec_all exec k [] = k" "exec_all exec k (xs @ ys) = exec_all exec (exec_all exec k xs) ys" "exec_all exec k (c # cs) = exec_all exec (exec k c) cs"
  by (simp_all add: exec_all_def)

lemma exec_items:
  assumes laws: "ipset_laws exec content" and n: "clean n" "content k n = Some S" and es: "\<forall>e \<in> set es. clean e"
  shows "content (exec_all exec k (map (item_command (ascii ''add'') n) es)) = (content k)(n \<mapsto> S \<union> set es)"
    and "content (exec_all exec k (map (item_command (ascii ''del'') n) es)) = (content k)(n \<mapsto> S - set es)"
proof -
  have add: "content (exec k (item_command (ascii ''add'') n e)) = (content k)(n \<mapsto> insert e S)"
    and del: "content (exec k (item_command (ascii ''del'') n e)) = (content k)(n \<mapsto> S - {e})"
    if "clean e" "content k n = Some S" for k e S
    using laws n(1) that by (simp_all add: ipset_laws_def)
  show "content (exec_all exec k (map (item_command (ascii ''add'') n) es)) = (content k)(n \<mapsto> S \<union> set es)"
    using n(2) es
  proof (induction es rule: rev_induct)
    case Nil
    then show ?case by (simp add: fun_upd_idem)
  next
    case (snoc e es)
    then show ?case using add [of e] by (simp add: fun_eq_iff)
  qed
  show "content (exec_all exec k (map (item_command (ascii ''del'') n) es)) = (content k)(n \<mapsto> S - set es)"
    using n(2) es
  proof (induction es rule: rev_induct)
    case Nil
    then show ?case by (simp add: fun_upd_idem)
  next
    case (snoc e es)
    then show ?case using del [of e] by (simp add: fun_eq_iff Diff_insert [symmetric])
  qed
qed


subsection \<open>Hooks write commands\<close>

text \<open>The queue broke, or exactly these commands were written.\<close>

definition wrote :: "'w fwup \<Rightarrow> 'w fwup \<Rightarrow> bytes list \<Rightarrow> bool" where
  "wrote s s' cmds \<longleftrightarrow> f_sets s' = f_sets s \<and> f_config_version s' = f_config_version s \<and>
     (q_broken (q_queue s') \<or> \<not> q_broken (q_queue s) \<and> os_wire (q_os s') = os_wire (q_os s) @ concat cmds)"

lemma wrote_Nil [simp]: "wrote s s []"
  by (simp add: wrote_def)

lemma wrote_trans: "wrote s s1 xs \<Longrightarrow> wrote s1 s2 ys \<Longrightarrow> wrote s s2 (xs @ ys)"
  by (auto simp: wrote_def)

lemma fwup_more: "qstate.more s' = qstate.more (s :: 'w fwup) \<Longrightarrow> f_sets s' = f_sets s \<and> f_config_version s' = f_config_version s \<and> f_existing s' = f_existing s"
  by (cases s; cases s') auto

lemma enqueue_wrote:
  assumes "enqueue sv s command = Inr s'"
  shows "wrote s s' [command]" and "f_existing s' = f_existing s"
  using enqueue_result [OF assms] fwup_more [of s' s] by (auto simp: wrote_def)

lemma addr_cmd_wrote:
  assumes "addr_cmd sv s st cmd a = Inr s'" and "88 \<notin> set cmd" and "88 \<notin> set (s_name st)"
    and "s_tmp_name st = None \<or> s_tmp_name st = Some (s_name st @ ascii ''-rep'')"
  shows "wrote s s' (map (item_command cmd (case s_tmp_name st of Some n \<Rightarrow> n | None \<Rightarrow> s_name st)) (items_of (s_type st) a))"
proof -
  let ?n = "case s_tmp_name st of Some n \<Rightarrow> n | None \<Rightarrow> s_name st"
  have n: "88 \<notin> set ?n"
    using assms(3,4) by (auto simp: ascii_def code_def)
  obtain ty x where x: "set_types (s_type st) = Some ty" "t_addr2str ty a = Inr x"
    using assms(1) by (auto simp: addr_cmd_def type_of_def result_simps split: if_splits option.splits)
  then have "wrote s s' (case find_text (ascii ''XXX'') (item_command cmd ?n x) of
       None \<Rightarrow> [item_command cmd ?n x]
     | Some i \<Rightarrow> [overwrite i (ascii ''tcp'') (item_command cmd ?n x), overwrite i (ascii ''udp'') (item_command cmd ?n x)])"
    using assms(1) wrote_trans [of s _ "[_]" s' "[_]"]
    by (auto simp: addr_cmd_def type_of_def Let_def result_simps split: if_splits option.splits dest!: enqueue_wrote(1))
  then show ?thesis
    unfolding item_command_texts [OF x assms(2) n] using x by (simp add: items_of_def)
qed

lemma add_del_X: "88 \<notin> set (ascii ''add'')" "88 \<notin> set (ascii ''del'')"
  by (simp_all add: ascii_def code_def)

text \<open>A set with a name that is one word, outside of an update or in it.\<close>

definition good_name :: "bytes \<Rightarrow> bool" where
  "good_name n \<longleftrightarrow> plain n \<and> n \<noteq> []"

definition updated_name :: "ip_set \<Rightarrow> bytes" where
  "updated_name st = (case s_tmp_name st of Some n \<Rightarrow> n | None \<Rightarrow> s_name st)"

definition good_set :: "ip_set \<Rightarrow> bool" where
  "good_set st \<longleftrightarrow> good_name (s_name st) \<and> (s_tmp_name st = None \<or> s_tmp_name st = Some (s_name st @ ascii ''-rep''))"

lemma good_set_names: "good_set st \<Longrightarrow> clean (updated_name st) \<and> clean (s_name st) \<and> updated_name st \<noteq> []"
  by (auto simp: good_set_def good_name_def updated_name_def plain_def clean_def ascii_def code_def)

lemma diff_hooks_follow:
  assumes laws: "ipset_laws exec content" and st: "good_set st"
  shows "fold_result (run_hook sv) (s, st) (diff_hooks True True A ops) = Inr (s', st') \<Longrightarrow>
    content k (updated_name st) = Some (kernel_items (s_type st) A) \<Longrightarrow>
    st' = st \<and> (\<exists>cmds. wrote s s' cmds \<and>
      content (exec_all exec k cmds) = (content k)(updated_name st \<mapsto> kernel_items (s_type st) (fold set_op ops A)))"
proof (induction ops arbitrary: s A k)
  case Nil
  then show ?case
    by (auto simp: fun_upd_idem intro: exI [of _ "[]"])
next
  case (Cons op ops)
  let ?n = "updated_name st" and ?t = "s_type st" and ?a = "snd op"
  have n: "clean ?n" "88 \<notin> set (s_name st)" "s_tmp_name st = None \<or> s_tmp_name st = Some (s_name st @ ascii ''-rep'')"
    using good_set_names [OF st] st by (auto simp: good_set_def good_name_def plain_def)
  have items: "\<forall>e \<in> set (items_of ?t a). clean e" for a
    using items_clean by blast
  have step: "\<exists>s1 cmds. fold_result (run_hook sv) (s, st) (op_hooks True True A op) = Inr (s1, st) \<and> wrote s s1 cmds \<and>
      content (exec_all exec k cmds) = (content k)(?n \<mapsto> kernel_items ?t (set_op op A))"
  proof -
    consider (add) "fst op" "?a \<notin> A" | (del) "\<not> fst op" "?a \<in> A" | (none) "op_hooks True True A op = []" "set_op op A = A"
      by (cases "fst op"; cases "?a \<in> A") (simp_all add: op_hooks_def set_op_def insert_absorb)
    then show ?thesis
    proof cases
      case add
      then obtain s1 where s1: "addr_cmd sv s st (ascii ''add'') ?a = Inr s1"
          "fold_result (run_hook sv) (s, st) (op_hooks True True A op) = Inr (s1, st)"
        using Cons.prems(1) by (auto simp: op_hooks_def run_hook_def add_item_def result_simps)
      have "wrote s s1 (map (item_command (ascii ''add'') ?n) (items_of ?t ?a))"
        using addr_cmd_wrote [OF s1(1) add_del_X(1) n(2,3)] by (simp add: updated_name_def)
      then show ?thesis
        using s1(2) exec_items(1) [OF laws n(1) Cons.prems(2) items [of ?a]] add by (auto simp: set_op_def kernel_items_insert)
    next
      case del
      then obtain s1 where s1: "addr_cmd sv s st (ascii ''del'') ?a = Inr s1"
          "fold_result (run_hook sv) (s, st) (op_hooks True True A op) = Inr (s1, st)"
        using Cons.prems(1) by (auto simp: op_hooks_def run_hook_def remove_item_def result_simps)
      have "wrote s s1 (map (item_command (ascii ''del'') ?n) (items_of ?t ?a))"
        using addr_cmd_wrote [OF s1(1) add_del_X(2) n(2,3)] by (simp add: updated_name_def)
      then show ?thesis
        using s1(2) exec_items(2) [OF laws n(1) Cons.prems(2) items [of ?a]] del by (auto simp: set_op_def kernel_items_remove)
    next
      case none
      then show ?thesis
        using Cons.prems(2) by (auto simp: fun_upd_idem intro!: exI [of _ "[]"])
    qed
  qed
  then obtain s1 xs where s1: "fold_result (run_hook sv) (s, st) (op_hooks True True A op) = Inr (s1, st)" "wrote s s1 xs"
      "content (exec_all exec k xs) = (content k)(?n \<mapsto> kernel_items ?t (set_op op A))"
    by blast
  have rest: "fold_result (run_hook sv) (s1, st) (diff_hooks True True (set_op op A) ops) = Inr (s', st')"
    using Cons.prems(1) s1(1) by simp
  have "st' = st \<and> (\<exists>cmds. wrote s1 s' cmds \<and> content (exec_all exec (exec_all exec k xs) cmds) =
      (content (exec_all exec k xs))(?n \<mapsto> kernel_items ?t (fold set_op ops (set_op op A))))"
    by (rule Cons.IH [OF rest]) (simp add: s1(3))
  then obtain ys where ys: "st' = st" "wrote s1 s' ys" "content (exec_all exec (exec_all exec k xs) ys) =
      (content k)(?n \<mapsto> kernel_items ?t (fold set_op ops (set_op op A)))"
    unfolding s1(3) fun_upd_upd by blast
  moreover have "wrote s s' (xs @ ys)"
    by (rule wrote_trans [OF s1(2) ys(2)])
  ultimately show ?case
    by (intro conjI exI [of _ "xs @ ys"]) simp_all
qed

text \<open>A replacement of a set that is not there yet.\<close>

lemma replace_start_follow:
  assumes laws: "ipset_laws exec content" and st: "good_set st" and run: "replace_start sv s st = Inr (s', st')"
    and none: "f_existing s = NoList" "next_of (Some []) (os_lists (q_os s)) = Some []"
    and k: "content k (s_name st) = None" "content k (s_name st @ ascii ''-rep'') = None"
  shows "st' = st\<lparr>s_tmp_name := Some (s_name st @ ascii ''-rep'')\<rparr> \<and> (\<exists>cmds. wrote s s' cmds \<and>
    content (exec_all exec k cmds) = (content k)(s_name st \<mapsto> {}, s_name st @ ascii ''-rep'' \<mapsto> {}))"
proof -
  let ?n = "s_name st" and ?tmp = "s_name st @ ascii ''-rep''"
  let ?st = "st\<lparr>s_tmp_name := Some ?tmp\<rparr>"
  have ne: "?n \<noteq> []" "?tmp \<noteq> []" "?tmp \<noteq> ?n" and cl: "clean ?n" "clean ?tmp"
    using good_set_names [OF st] st by (auto simp: good_set_def good_name_def clean_def ascii_def code_def)
  obtain s1 where s1: "set_exists s ?n = Inr (False, s1)" "f_existing s1 = Cached [[]]" "wrote s s1 []"
    using empty_list [OF none ne(1)] by (auto simp: wrote_def)
  have "rbind (set_create sv s ?st) (\<lambda>s. rbind (set_exists s ?tmp) (\<lambda>(ex, s). rbind (if ex then enqueue sv s (destroy_command ?tmp) else Inr s)
         (\<lambda>s. rbind (type_of ?st) (\<lambda>ty. rbind (enqueue sv s (create_command ?tmp ty ?st)) (\<lambda>s. Inr (s, ?st)))))) = Inr (s', st')"
    using run by (simp add: replace_start_def Let_def sanity_eq_Inr split: if_splits)
  then obtain s2 where c: "set_create sv s ?st = Inr s2" and
      rest: "rbind (set_exists s2 ?tmp) (\<lambda>(ex, s). rbind (if ex then enqueue sv s (destroy_command ?tmp) else Inr s)
         (\<lambda>s. rbind (type_of ?st) (\<lambda>ty. rbind (enqueue sv s (create_command ?tmp ty ?st)) (\<lambda>s. Inr (s, ?st))))) = Inr (s', st')"
    by (simp only: rbind_eq_Inr) blast
  from c obtain ty where s2: "enqueue sv s1 (create_command ?n ty ?st) = Inr s2"
    by (auto simp: set_create_def s1(1) result_simps)
  have ex: "f_existing s2 = Cached [[]]"
    using enqueue_wrote(2) [OF s2] s1(2) by simp
  with rest obtain ty' where s3: "enqueue sv s2 (create_command ?tmp ty' ?st) = Inr s'" "st' = ?st"
    by (auto simp: cached_empty [OF ex ne(2)] result_simps)
  have "wrote s s' ([] @ [create_command ?n ty ?st] @ [create_command ?tmp ty' ?st])"
    by (rule wrote_trans [OF s1(3) wrote_trans [OF enqueue_wrote(1) [OF s2] enqueue_wrote(1) [OF s3(1)]]])
  moreover have create: "content (exec k (create_command n t x)) = (content k)(n \<mapsto> {})" if "clean n" "content k n = None" for k n t x
    using laws that by (simp add: ipset_laws_def)
  have "content (exec_all exec k ([] @ [create_command ?n ty ?st] @ [create_command ?tmp ty' ?st])) = (content k)(?n \<mapsto> {}, ?tmp \<mapsto> {})"
    using create [OF cl(1) k(1)] create [OF cl(2), of "exec k (create_command ?n ty ?st)"] k(2) ne(3) by simp
  ultimately show ?thesis
    using s3(2) by blast
qed

lemma replace_end_follow:
  assumes laws: "ipset_laws exec content" and st: "good_set st" "s_tmp_name st = Some tmp" and run: "replace_end sv s st = Inr (s', st')"
    and k: "content k (s_name st) = Some S" "content k tmp = Some T"
  shows "st' = st\<lparr>s_tmp_name := None\<rparr> \<and> (\<exists>cmds. wrote s s' cmds \<and> content (exec_all exec k cmds) = (content k)(s_name st \<mapsto> T, tmp := None))"
proof -
  let ?n = "s_name st"
  have cl: "clean ?n" "clean tmp" "?n \<noteq> tmp"
    using good_set_names [OF st(1)] st by (auto simp: good_set_def updated_name_def ascii_def)
  from run obtain s1 where s1: "enqueue sv s (swap_command ?n tmp) = Inr s1" "enqueue sv s1 (destroy_command tmp) = Inr s'"
      "st' = st\<lparr>s_tmp_name := None\<rparr>"
    by (auto simp: replace_end_def st(2) result_simps split: if_splits)
  have "wrote s s' ([swap_command ?n tmp] @ [destroy_command tmp])"
    by (rule wrote_trans [OF enqueue_wrote(1) [OF s1(1)] enqueue_wrote(1) [OF s1(2)]])
  moreover have swap: "content (exec k (swap_command ?n tmp)) = (content k)(?n \<mapsto> T, tmp \<mapsto> S)"
    using laws cl k by (simp add: ipset_laws_def)
  moreover have "content (exec (exec k (swap_command ?n tmp)) (destroy_command tmp)) =
      (content (exec k (swap_command ?n tmp)))(tmp := None)"
    using laws cl(2) unfolding ipset_laws_def by (metis swap fun_upd_same)
  ultimately show ?thesis
    using s1(3) by (intro conjI exI [of _ "[swap_command ?n tmp] @ [destroy_command tmp]"]) simp_all
qed


subsection \<open>Updates reach the kernel\<close>

text \<open>A set between two updates.\<close>

definition quiet_set :: "ip_set \<Rightarrow> bool" where
  "quiet_set st \<longleftrightarrow> good_name (s_name st) \<and> s_tmp_name st = None \<and> ds_inv (s_store st) \<and> hook_log (s_store st) = [] \<and>
     add_hook (s_store st) \<and> remove_hook (s_store st) \<and> replace_start_hook (s_store st) \<and> replace_end_hook (s_store st)"

text \<open>The kernel before an update: it has what the store has, or, for a full update, not even the set.\<close>

definition kernel_ready :: "('k \<Rightarrow> bytes \<Rightarrow> bytes set option) \<Rightarrow> 'k \<Rightarrow> bool \<Rightarrow> ip_set \<Rightarrow> bool" where
  "kernel_ready content k full st \<longleftrightarrow>
     (if full then content k (s_name st) = None \<and> content k (s_name st @ ascii ''-rep'') = None
      else content k (s_name st) = Some (kernel_items (s_type st) (members (s_store st))))"

lemma members_log [simp]: "members (d\<lparr>hook_log := l\<rparr>) = members d"
  by (simp add: members_def)

lemma store_apply_follow:
  assumes laws: "ipset_laws exec content" and st: "quiet_set st" and k: "kernel_ready content k full st"
    and parse: "parse_diff addrs = Some ops" and add: "addable (known (s_store st)) (map snd ops)"
    and sync: "full \<or> (ep = epoch (s_store st) \<and> from = version (s_store st))"
    and none: "full \<Longrightarrow> f_existing s = NoList \<and> next_of (Some []) (os_lists (q_os s)) = Some []"
    and run: "store_apply sv s st full ep from to addrs = Inr (s', st', action, orig)"
  shows "action = DIFF_STORE_NO_ACTION \<and> s_name st' = s_name st \<and> s_type st' = s_type st \<and>
    members (s_store st') = fold set_op ops (if full then {} else members (s_store st)) \<and>
    (\<exists>cmds. wrote s s' cmds \<and>
      content (exec_all exec k cmds) = (content k)(s_name st \<mapsto> kernel_items (s_type st) (members (s_store st'))))"
proof -
  let ?n = "s_name st" and ?t = "s_type st" and ?tmp = "s_name st @ ascii ''-rep''"
  let ?B = "if full then {} else members (s_store st)"
  obtain d where d: "diff_addr_store_apply (s_store st) full ep from to addrs = Inr (d, DIFF_STORE_NO_ACTION, None)"
      "members d = fold set_op ops ?B"
      "hook_log d = (if full then [ReplaceStart] else []) @ diff_hooks True True ?B ops @ (if full then [ReplaceEnd] else [])"
    using diff_apply_spec [OF _ parse add sync, of to] st by (auto simp: quiet_set_def)
  from run obtain st1 where hooks: "fold_result (run_hook sv) (s, st) (hook_log d) = Inr (s', st1)"
      and res: "st' = st1\<lparr>s_store := d\<lparr>hook_log := []\<rparr>\<rparr>" "action = DIFF_STORE_NO_ACTION"
    by (auto simp: store_apply_def d(1) result_simps)
  have good: "good_set st" "updated_name st = ?n" "s_tmp_name st = None"
    using st by (simp_all add: good_set_def quiet_set_def updated_name_def)
  have m: "members (s_store st') = fold set_op ops ?B"
    using res(1) d(2) by simp
  have "s_name st1 = ?n \<and> s_type st1 = ?t \<and> (\<exists>cmds. wrote s s' cmds \<and>
      content (exec_all exec k cmds) = (content k)(?n \<mapsto> kernel_items ?t (fold set_op ops ?B)))"
  proof (cases full)
    case False
    then show ?thesis
      using diff_hooks_follow [OF laws good(1), of sv s ?B ops s' st1 k] hooks d(3) k good(2) by (auto simp: kernel_ready_def)
  next
    case True
    let ?st = "st\<lparr>s_tmp_name := Some ?tmp\<rparr>"
    have k': "content k ?n = None" "content k ?tmp = None"
      using k True by (simp_all add: kernel_ready_def)
    obtain s1 sta s2 stb where steps: "replace_start sv s st = Inr (s1, sta)"
        "fold_result (run_hook sv) (s1, sta) (diff_hooks True True {} ops) = Inr (s2, stb)" "replace_end sv s2 stb = Inr (s', st1)"
      using hooks d(3) True by (auto simp: run_hook_def result_simps)
    obtain xs where xs: "sta = ?st" "wrote s s1 xs" "content (exec_all exec k xs) = (content k)(?n \<mapsto> {}, ?tmp \<mapsto> {})"
      using replace_start_follow [OF laws good(1) steps(1)] none True k' by blast
    have g: "good_set ?st" "updated_name ?st = ?tmp"
      using good(1) by (simp_all add: good_set_def updated_name_def)
    let ?k = "exec_all exec k xs" and ?T = "kernel_items ?t (fold set_op ops {})"
    have e: "content ?k ?tmp = Some (kernel_items ?t {})"
      by (simp add: xs(3) kernel_items_def)
    obtain ys where ys: "stb = ?st" "wrote s1 s2 ys" "content (exec_all exec ?k ys) = (content ?k)(?tmp \<mapsto> ?T)"
      using diff_hooks_follow [OF laws g(1), of sv s1 "{}" ops s2 stb ?k] steps(2) e unfolding xs(1) g(2) by auto
    have ne: "?n \<noteq> ?tmp"
      by (simp add: ascii_def)
    have y: "content (exec_all exec ?k ys) = (content k)(?n \<mapsto> {}, ?tmp \<mapsto> ?T)"
      unfolding ys(3) xs(3) by simp
    have "st1 = ?st\<lparr>s_tmp_name := None\<rparr> \<and> (\<exists>cmds. wrote s2 s' cmds \<and>
        content (exec_all exec (exec_all exec ?k ys) cmds) = (content (exec_all exec ?k ys))(s_name ?st \<mapsto> ?T, ?tmp := None))"
      by (rule replace_end_follow [OF laws g(1) _ steps(3) [unfolded ys(1)], where S = "{}"]) (use y ne in simp_all)
    then obtain zs where zs: "st1 = ?st\<lparr>s_tmp_name := None\<rparr>" "wrote s2 s' zs"
        "content (exec_all exec (exec_all exec ?k ys) zs) = (content (exec_all exec ?k ys))(?n \<mapsto> ?T, ?tmp := None)"
      by auto
    have "content (exec_all exec k (xs @ ys @ zs)) = (content k)(?n \<mapsto> ?T)"
      using zs(3) y ne k'(2) by (simp add: fun_eq_iff)
    moreover have "wrote s s' (xs @ ys @ zs)"
      by (rule wrote_trans [OF xs(2) wrote_trans [OF ys(2) zs(2)]])
    ultimately show ?thesis
      using zs(1) True by auto
  qed
  then show ?thesis
    using res m by simp
qed

subsection \<open>Properties\<close>

lemma set_find_Some: "set_find sts n = Some i \<Longrightarrow> i < length sts \<and> s_name (sts ! i) = n"
proof (induction sts arbitrary: i)
  case (Cons st sts)
  then show ?case
    by (cases i) (auto split: if_splits)
qed simp

lemma set_find_update: "set_find sts n = Some i \<Longrightarrow> s_name st = n \<Longrightarrow> set_find (sts[i := st]) n = Some i"
proof (induction sts arbitrary: i)
  case (Cons a sts)
  then show ?case
    by (cases i) (auto split: if_splits)
qed simp


text \<open>
  C33: Asking the kernel for its sets writes outside of the allocated memory, whenever there is any set. The block for
  the pointers to the lines is allocated with their number as its size, not with eight bytes for each; the output itself
  is read into a block of half the size the read was asked for. So a reload of the sets that the server
  asks for is not safe.
\<close>

theorem listing_sets_overruns:
  assumes "next_of (Some []) (os_lists (q_os s)) = Some chunks" and "[] \<notin> set chunks" and "10 \<in> set (concat chunks)"
    and "f_sets s = st # sts" and "s_tmp_name st = None"
  shows "set_exists (s\<lparr>f_existing := NoList\<rparr>) name = Inl BadAccess \<and> communicate sv s [code (CHR ''R'')] = Inl BadAccess"
proof -
  have l: "set_exists (s\<lparr>f_existing := NoList\<rparr>) n = Inl BadAccess" for n
    using list_sets_overrun [of "s\<lparr>f_existing := NoList\<rparr>" chunks] assms by (simp add: set_exists_def)
  have "replace_start sv (s\<lparr>f_existing := NoList\<rparr>) (st\<lparr>s_context := True\<rparr>) = Inl BadAccess"
    using assms(5) by (simp add: replace_start_def set_create_def l Let_def)
  then show ?thesis
    using l assms(4) by (simp add: communicate_def sets_reload_def set_reload_def code_def)
qed

subsection \<open>An example\<close>

text \<open>An \<open>ipset\<close> that keeps its sets in a map and reads a command word by word.\<close>

fun split_words :: "bytes \<Rightarrow> bytes list" where
  "split_words [] = [[]]"
| "split_words (c # cs) = (if c = 32 then [] # split_words cs else (c # hd (split_words cs)) # tl (split_words cs))"

definition map_exec :: "(bytes \<Rightarrow> bytes set option) \<Rightarrow> bytes \<Rightarrow> bytes \<Rightarrow> bytes set option" where
  "map_exec k cmd =
     (case split_words (butlast cmd) of
        c # n # r \<Rightarrow>
          (case k n of
             None \<Rightarrow> if c = ascii ''create'' then k(n \<mapsto> {}) else k
           | Some S \<Rightarrow>
               if c = ascii ''add'' then k(n \<mapsto> insert (hd r) S)
               else if c = ascii ''del'' then k(n \<mapsto> S - {hd r})
               else if c = ascii ''swap'' then k(n := k (hd r), hd r := k n)
               else if c = ascii ''destroy'' then k(n := None)
               else k)
      | _ \<Rightarrow> k)"

lemma split_words_append: "32 \<notin> set w \<Longrightarrow> split_words (w @ 32 # r) = w # split_words r"
  by (induction w) auto

lemma split_words_one: "32 \<notin> set w \<Longrightarrow> split_words w = [w]"
  by (induction w) auto

lemma command_words:
  "32 \<notin> set cmd \<Longrightarrow> clean n \<Longrightarrow> clean e \<Longrightarrow> split_words (butlast (item_command cmd n e)) = [cmd, n, e]"
  "clean n \<Longrightarrow> \<exists>r. split_words (butlast (create_command n ty st)) = ascii ''create'' # n # r"
  "clean n \<Longrightarrow> clean e \<Longrightarrow> split_words (butlast (swap_command n e)) = [ascii ''swap'', n, e]"
  "clean n \<Longrightarrow> split_words (butlast (destroy_command n)) = [ascii ''destroy'', n]"
proof -
  have blank: "32 \<notin> set (ascii ''create'')" "32 \<notin> set (ascii ''swap'')" "32 \<notin> set (ascii ''destroy'')"
    by (simp_all add: ascii_def code_def)
  have last: "ascii ''create '' = ascii ''create'' @ [32]" "ascii ''swap '' = ascii ''swap'' @ [32]" "ascii ''destroy '' = ascii ''destroy'' @ [32]"
    by (simp_all add: ascii_def code_def)
  have b: "butlast (item_command cmd n e) = cmd @ 32 # n @ 32 # e"
    "butlast (swap_command n e) = ascii ''swap'' @ 32 # n @ 32 # e" "butlast (destroy_command n) = ascii ''destroy'' @ 32 # n"
    by (simp_all add: item_command_def swap_command_def destroy_command_def last butlast_append)
  have c: "\<exists>r. butlast (create_command n ty st) = ascii ''create'' @ 32 # n @ 32 # r"
    by (simp add: create_command_def last butlast_append)
  show "32 \<notin> set cmd \<Longrightarrow> clean n \<Longrightarrow> clean e \<Longrightarrow> split_words (butlast (item_command cmd n e)) = [cmd, n, e]"
    "clean n \<Longrightarrow> clean e \<Longrightarrow> split_words (butlast (swap_command n e)) = [ascii ''swap'', n, e]"
    "clean n \<Longrightarrow> split_words (butlast (destroy_command n)) = [ascii ''destroy'', n]"
    using blank by (simp_all add: b split_words_append split_words_one clean_def)
  show "clean n \<Longrightarrow> \<exists>r. split_words (butlast (create_command n ty st)) = ascii ''create'' # n # r"
    using c blank by (auto simp: split_words_append clean_def)
qed

lemma map_exec_laws: "ipset_laws map_exec id"
proof -
  have different: "ascii ''add'' \<noteq> ascii ''del''" "ascii ''swap'' \<noteq> ascii ''add''" "ascii ''swap'' \<noteq> ascii ''del''"
      "ascii ''destroy'' \<noteq> ascii ''add''" "ascii ''destroy'' \<noteq> ascii ''del''" "ascii ''destroy'' \<noteq> ascii ''swap''"
      "32 \<notin> set (ascii ''add'')" "32 \<notin> set (ascii ''del'')"
    by (simp_all add: ascii_def code_def)
  have "map_exec k (create_command n ty st) = k(n \<mapsto> {})" if "clean n" "k n = None" for k n ty st
    using command_words(2) [OF that(1), of ty st] that(2) by (auto simp: map_exec_def)
  then show ?thesis
    unfolding ipset_laws_def using different by (auto simp: map_exec_def command_words)
qed


text \<open>A plugin with one set of IPv4 addresses, whose queue has a command running.\<close>

definition example_set :: ip_set where
  "example_set = \<lparr>s_name = [120], s_tmp_name = None, s_state = SS_PENDING, s_type = code (CHR ''i''), s_max_size = 100, s_hash_size = 64,
     s_store = store_set_hooks (diff_addr_store_init [120]), s_context = False\<rparr>"

definition example_os :: os where
  "example_os = \<lparr>os_pairs = [], os_forks = [], os_closes = [], os_sends = [], os_lists = [Some [[120, 10]]], os_wire = [], os_fds = [5]\<rparr>"

definition example_fwup :: "(unit, fwup_timer, unit) world fwup" where
  "example_fwup = \<lparr>q_world = offline_world, q_os = example_os,
     q_queue = queue_alloc\<lparr>q_active := True, q_timeout_started := True, q_pipe := 5\<rparr>, f_configured = True,
     f_config_version = [0, 0, 0, 1], f_sets = [example_set], f_existing = NoList\<rparr>"

text \<open>The incremental update from version 0 to 1 in epoch 0 that adds 192.0.2.1.\<close>

definition example_update :: bytes where
  "example_update = [0, 0, 0, 1] @ encode (UString [120]) @ encode (UBool False) @ encode (UInt 0) @ encode (UInt 0) @ encode (UInt 1) @ [5, 192, 0, 2, 1]"

lemma enqueue_running:
  assumes "q_active (q_queue s)" "q_timeout_started (q_queue s)" "\<not> q_broken (q_queue s)" "0 < q_pipe (q_queue s)" "os_sends (q_os s) = []"
  shows "enqueue sv s (cmd @ [10]) = Inr (s\<lparr>q_os := (q_os s)\<lparr>os_sends := [], os_wire := os_wire (q_os s) @ cmd @ [10]\<rparr>\<rparr>)"
  using assms by (cases cmd) (simp_all add: enqueue_def send_command_def start_flushing_def)


theorem listing_sets_overruns_witness:
  "communicate (plugin_service (silent idle_platform) 0) example_fwup [code (CHR ''R'')] = Inl BadAccess \<and> 10 \<in> set [120, 10 :: byte]"
  using listing_sets_overruns [of example_fwup "[[120, 10]]" example_set "[]" "[]" "plugin_service (silent idle_platform) 0"]
  by (simp add: example_fwup_def example_os_def next_of_def example_set_def)

end
