(* ===== verification/FakeLog.thy ===== *)
theory FakeLog
  imports Packet Trie UplinkCodec
begin

text \<open>
  The log of the fake plugin (\<open>plugins/fake/log.c\<close> and \<open>log.h\<close>): the events on the fake servers in
  their order, and for each server and remote address the number of attempts to log in, which
  decides when the log is sent.

  The linked list of events is a list (\<open>LinkList\<close>). A pointer in the trie is the only one to its
  object, so the trie holds the objects themselves. The additional information of an event is an
  array in which the code may leave elements unwritten: these are \<open>None\<close>, and reading one is an error.
\<close>

subsection \<open>Data\<close>

datatype event_type = EVENT_CONNECT | EVENT_DISCONNECT | EVENT_LOST | EVENT_CONNECT_EXTRA | EVENT_TIMEOUT | EVENT_LOGIN

datatype event_info_type = EI_NAME | EI_PASSWORD | EI_REASON | EI_LAST

datatype log_send_status = LS_NONE | LS_SEND | LS_FORCE_SEND

fun event_number :: "event_type \<Rightarrow> byte" where
  "event_number EVENT_CONNECT = 0"
| "event_number EVENT_DISCONNECT = 1"
| "event_number EVENT_LOST = 2"
| "event_number EVENT_CONNECT_EXTRA = 3"
| "event_number EVENT_TIMEOUT = 4"
| "event_number EVENT_LOGIN = 5"

fun info_number :: "event_info_type \<Rightarrow> byte" where
  "info_number EI_NAME = 0"
| "info_number EI_PASSWORD = 1"
| "info_number EI_REASON = 2"
| "info_number EI_LAST = 3"

text \<open>An array of these ends before its \<open>EI_LAST\<close>. The structure of an event, \<open>log_event\<close> like the function that adds one, is
  \<open>log_entry\<close> here.\<close>

type_synonym event_info = "event_info_type \<times> bytes"

record log_entry =
  le_code :: byte
  le_rem_addr :: bytes
  le_loc_addr :: bytes
  le_rem_port :: u16
  le_timestamp :: u64
  le_addr_len :: u8
  le_type :: event_type
  le_info_count :: u8
  le_extra_info :: "event_info option list"

record login_data =
  attempt_count :: u32
  holdback_until :: u64

record fake_log =
  log_events :: "log_entry list"
  limit_trie :: "login_data trie option"
  expected_serialized_size :: nat
  ip_limit :: u32
  size_limit :: u32
  throttle_holdback :: u32
  log_credentials :: bool
  attempts_reached :: bool

subsection \<open>Cleaning\<close>

text \<open>What is left of the attempts: the addresses that shall not cause sending for some time.\<close>

definition holdback_store :: "u64 \<Rightarrow> (bytes \<times> u64) list \<Rightarrow> bytes \<Rightarrow> login_data option \<Rightarrow> (bytes \<times> u64) list result" where
  "holdback_store tm0 tmp key data =
     (case data of
        None \<Rightarrow> Inr tmp
      | Some d \<Rightarrow> Inr (if holdback_until d > tm0 then tmp @ [(key, holdback_until d)] else tmp))"

definition holdback_copy :: "login_data trie \<Rightarrow> bytes \<times> u64 \<Rightarrow> login_data trie result" where
  "holdback_copy t item = trie_put t (fst item) (Some \<lparr>attempt_count = 0, holdback_until = snd item\<rparr>)"

definition log_clean_internal :: "fake_log \<Rightarrow> bool \<Rightarrow> u64 \<Rightarrow> fake_log result" where
  "log_clean_internal l tmp_pool tm0 =
     rbind (case limit_trie l of
              None \<Rightarrow> Inr []
            | Some t \<Rightarrow> sanity tmp_pool (trie_walk t (holdback_store tm0) [])) (\<lambda>tmp.
       rbind (fold_result holdback_copy trie_alloc tmp) (\<lambda>t.
         Inr (l\<lparr>log_events := [], expected_serialized_size := 0, limit_trie := Some t, attempts_reached := False\<rparr>)))"

definition log_alloc :: "fake_log result" where
  "log_alloc =
     log_clean_internal
       \<lparr>log_events = [], limit_trie = None, expected_serialized_size = 0, ip_limit = 5, size_limit = 4096 * 1024,
        throttle_holdback = 120000, log_credentials = False, attempts_reached = False\<rparr> False 0"

definition log_clean :: "u64 \<Rightarrow> fake_log \<Rightarrow> fake_log result" where
  "log_clean tm0 l = log_clean_internal l True tm0"

definition log_set_send_credentials :: "fake_log \<Rightarrow> bool \<Rightarrow> fake_log" where
  "log_set_send_credentials l on = l\<lparr>log_credentials := on\<rparr>"

definition log_set_limits :: "fake_log \<Rightarrow> u32 \<Rightarrow> u32 \<Rightarrow> u32 \<Rightarrow> fake_log" where
  "log_set_limits l max_size max_attempts holdback =
     l\<lparr>size_limit := max_size, ip_limit := max_attempts, throttle_holdback := holdback\<rparr>"

subsection \<open>Adding an event\<close>

text \<open>The product of the limit is computed in 32 bits.\<close>

definition log_status :: "fake_log \<Rightarrow> log_send_status" where
  "log_status l =
     (if unat (2 * size_limit l) \<le> expected_serialized_size l then LS_FORCE_SEND
      else if attempts_reached l \<or> unat (size_limit l) \<le> expected_serialized_size l then LS_SEND
      else LS_NONE)"

text \<open>The IPv6 addresses that stand for IPv4 ones.\<close>

definition mapped_prefix :: bytes where
  "mapped_prefix = replicate 10 0 @ [0xFF, 0xFF]"

definition logged :: "fake_log \<Rightarrow> event_info \<Rightarrow> bool" where
  "logged l i \<longleftrightarrow> log_credentials l \<or> (fst i \<noteq> EI_NAME \<and> fst i \<noteq> EI_PASSWORD)"

text \<open>The attempt to log in: whether it reached the limit.\<close>

definition count_attempt :: "u64 \<Rightarrow> fake_log \<Rightarrow> bytes \<Rightarrow> (bool \<times> fake_log) result" where
  "count_attempt tm0 l login_id =
     (case limit_trie l of
        None \<Rightarrow> Inl BadAccess
      | Some t \<Rightarrow>
          rbind (trie_index t login_id) (\<lambda>(t, slot).
            case slot of
              None \<Rightarrow> Inl BadAccess
            | Some p \<Rightarrow>
                let d = (case trie_slot t p of
                           None \<Rightarrow> \<lparr>attempt_count = 1, holdback_until = 0\<rparr>
                         | Some d \<Rightarrow> d\<lparr>attempt_count := attempt_count d + 1\<rparr>);
                    reached = (attempt_count d \<ge> ip_limit l \<and> holdback_until d \<le> tm0);
                    d = (if reached then d\<lparr>holdback_until := tm0 + ucast (throttle_holdback l)\<rparr> else d)
                in Inr (reached, l\<lparr>limit_trie := Some (trie_store t p (Some d))\<rparr>)))"

definition log_event ::
  "u64 \<Rightarrow> fake_log \<Rightarrow> byte \<Rightarrow> bytes \<Rightarrow> bytes \<Rightarrow> nat \<Rightarrow> u16 \<Rightarrow> event_type \<Rightarrow> event_info list \<Rightarrow>
     (log_send_status \<times> fake_log) result" where
  "log_event tm0 l server_code rem_address loc_address alen rem_port type info =
     (if length rem_address < length mapped_prefix then Inl BadAccess
      else
        let mapped = (take (length mapped_prefix) rem_address = mapped_prefix);
            alen = (if mapped then size_sub alen (length mapped_prefix) else alen);
            rem_address = (if mapped then drop (length mapped_prefix) rem_address else rem_address);
            loc_address = (if mapped then drop (length mapped_prefix) loc_address else loc_address);
            info_count = length (filter (logged l) info);
            extra = map (\<lambda>i. if logged l i then Some i else None) (take info_count info);
            expected_size = 10 + 2 * alen + sum_list (map (\<lambda>i. case i of None \<Rightarrow> 0 | Some (_, c) \<Rightarrow> 5 + length c) extra);
            event = \<lparr>le_code = server_code, le_rem_addr = take alen rem_address, le_loc_addr = take alen loc_address,
              le_rem_port = rem_port, le_timestamp = tm0, le_addr_len = word_of_nat alen, le_type = type,
              le_info_count = word_of_nat info_count, le_extra_info = extra\<rparr>;
            l = l\<lparr>log_events := log_events l @ [event], expected_serialized_size := expected_serialized_size l + expected_size\<rparr>
        in if length rem_address < alen \<or> length loc_address < alen then Inl BadAccess
           else rbind (if type = EVENT_LOGIN then count_attempt tm0 l (server_code # take alen rem_address)
                       else Inr (False, l)) (\<lambda>(reached, l).
             let l = l\<lparr>attempts_reached := attempts_reached l \<or> reached\<rparr>
             in Inr (log_status l, l)))"

subsection \<open>The message\<close>

definition event_header :: "u64 \<Rightarrow> log_entry \<Rightarrow> bytes" where
  "event_header tm0 e =
     put32 (ucast (tm0 - le_timestamp e)) @
     [event_number (le_type e), if le_addr_len e = 4 then 0 else 1, le_info_count e, le_code e] @ put16 (le_rem_port e)"

definition dump_info :: "bytes \<times> nat \<Rightarrow> event_info option \<Rightarrow> (bytes \<times> nat) result" where
  "dump_info = (\<lambda>(out, rest) info.
     sanity (rest > 0)
       (case info of
          None \<Rightarrow> Inl BadAccess
        | Some (type, content) \<Rightarrow>
            sanity (type \<noteq> EI_LAST)
              (rbind (uplink_render_string content (rest - 1)) (\<lambda>(s, rest).
                Inr (out @ info_number type # s, rest)))))"

definition dump_event :: "u64 \<Rightarrow> bytes \<times> nat \<Rightarrow> log_entry \<Rightarrow> (bytes \<times> nat) result" where
  "dump_event tm0 = (\<lambda>(out, rest) e.
     sanity (le_timestamp e + 0x100000000 > tm0)
       (sanity (le_addr_len e = 4 \<or> le_addr_len e = 16)
         (sanity (le_info_count e < 16)
           (let n = unat (le_addr_len e)
            in sanity (2 * n + 10 \<le> rest)
                 (if length (le_rem_addr e) < n \<or> length (le_loc_addr e) < n \<or> length (le_extra_info e) < unat (le_info_count e)
                  then Inl BadAccess
                  else fold_result dump_info
                    (out @ event_header tm0 e @ take n (le_rem_addr e) @ take n (le_loc_addr e), rest - (2 * n + 10))
                    (take (unat (le_info_count e)) (le_extra_info e)))))))"

definition log_dump :: "u64 \<Rightarrow> fake_log \<Rightarrow> bytes option result" where
  "log_dump tm0 l =
     (if expected_serialized_size l = 0 then Inr None
      else rbind (fold_result (dump_event tm0) ([], expected_serialized_size l) (log_events l)) (\<lambda>(out, rest).
        sanity (length out = expected_serialized_size l)
          (sanity (rest = 0)
            (Inr (Some (code (CHR ''L'') # out))))))"


text \<open>The checks of the message are sanity checks only.\<close>

lemma log_dump_safe: "safe (\<lambda>_. True) (log_dump tm0 l)"
proof -
  have "safe (\<lambda>_. True) (uplink_render_string c n)" for c n
    by (simp add: uplink_render_string_def uplink_render_def render_command_def sanity_def)
  then have "safe (\<lambda>_. True) (dump_info p i)" for p i
    by (auto simp: dump_info_def split_beta split: option.splits intro!: safe_sanity safe_bind)
  then have "safe (\<lambda>_. True) (dump_event tm0 p e)" for p e
    by (auto simp: dump_event_def split_beta Let_def intro!: safe_sanity safe_fold)
  then have "safe (\<lambda>_. True) (fold_result (dump_event tm0) p es)" for p es
    by (auto intro: safe_fold)
  then show ?thesis
    by (auto simp: log_dump_def split_beta intro!: safe_sanity safe_bind)
qed

subsection \<open>What a log stands for\<close>

text \<open>An event as it happened, with the information that may be sent.\<close>

record fake_event =
  ev_time :: u64
  ev_code :: byte
  ev_rem :: bytes
  ev_loc :: bytes
  ev_port :: u16
  ev_type :: event_type
  ev_info :: "event_info list"

definition short_length :: "bytes \<Rightarrow> nat" where
  "short_length a = (if take 12 a = mapped_prefix then 4 else 16)"

definition info_bytes :: "event_info \<Rightarrow> bytes" where
  "info_bytes i = info_number (fst i) # put32 (word_of_nat (length (snd i))) @ snd i"

definition encode_event :: "u64 \<Rightarrow> fake_event \<Rightarrow> bytes" where
  "encode_event tm0 ev =
     (let n = short_length (ev_rem ev)
      in put32 (ucast (tm0 - ev_time ev)) @
         [event_number (ev_type ev), if n = 4 then 0 else 1, word_of_nat (length (ev_info ev)), ev_code ev] @
         put16 (ev_port ev) @ drop (16 - n) (ev_rem ev) @ drop (16 - n) (ev_loc ev) @ concat (map info_bytes (ev_info ev)))"

definition login_id :: "byte \<Rightarrow> bytes \<Rightarrow> bytes" where
  "login_id c a = c # drop (16 - short_length a) a"

text \<open>Information as the plugin passes it: the name and the password come last.\<close>

definition good_info :: "event_info list \<Rightarrow> bool" where
  "good_info info \<longleftrightarrow>
     (\<exists>xs ys. info = xs @ ys \<and> (\<forall>i \<in> set xs. fst i = EI_REASON) \<and> (\<forall>i \<in> set ys. fst i = EI_NAME \<or> fst i = EI_PASSWORD)) \<and>
     length info < 16 \<and> (\<forall>i \<in> set info. length (snd i) < 2 ^ 32)"

definition good_event :: "fake_event \<Rightarrow> bool" where
  "good_event ev \<longleftrightarrow> length (ev_rem ev) = 16 \<and> length (ev_loc ev) = 16 \<and> length (ev_info ev) < 16 \<and>
     (\<forall>i \<in> set (ev_info ev). fst i \<noteq> EI_LAST \<and> length (snd i) < 2 ^ 32)"

definition stored_event :: "fake_event \<Rightarrow> log_entry" where
  "stored_event ev =
     (let n = short_length (ev_rem ev)
      in \<lparr>le_code = ev_code ev, le_rem_addr = drop (16 - n) (ev_rem ev), le_loc_addr = drop (16 - n) (ev_loc ev),
          le_rem_port = ev_port ev, le_timestamp = ev_time ev, le_addr_len = word_of_nat n, le_type = ev_type ev,
          le_info_count = word_of_nat (length (ev_info ev)), le_extra_info = map Some (ev_info ev)\<rparr>)"

definition log_shows :: "fake_log \<Rightarrow> fake_event list \<Rightarrow> bool" where
  "log_shows l es \<longleftrightarrow> log_events l = map stored_event es \<and> (\<forall>ev \<in> set es. good_event ev) \<and>
     expected_serialized_size l = sum_list (map (\<lambda>ev. length (encode_event 0 ev)) es) \<and>
     (\<exists>t. limit_trie l = Some t \<and> trie_inv t)"

definition login_ids :: "fake_log \<Rightarrow> bytes set" where
  "login_ids l = (case limit_trie l of None \<Rightarrow> {} | Some t \<Rightarrow> dom (trie_map t))"

lemma short_length_cases: "short_length a = 4 \<or> short_length a = 16"
  by (simp add: short_length_def)

lemma encode_event_length: "length (encode_event tm0 ev) = length (encode_event 0 ev)"
  by (simp add: encode_event_def Let_def)

lemma dump_info_ok:
  assumes "fst i \<noteq> EI_LAST" "length (snd i) < 2 ^ 32" "length (info_bytes i) \<le> rest"
  shows "dump_info (out, rest) (Some i) = Inr (out @ info_bytes i, rest - length (info_bytes i))"
proof -
  obtain ty c where i: "i = (ty, c)" by (cases i)
  have "uplink_render_string c (rest - 1) = Inr (put32 (word_of_nat (length c)) @ c, rest - length (info_bytes i))"
    using assms by (simp add: i uplink_render_string_def uplink_render_def render_command_def info_bytes_def)
  then show ?thesis
    using assms by (simp add: i dump_info_def info_bytes_def)
qed

lemma dump_infos_ok:
  assumes "\<forall>i \<in> set is. fst i \<noteq> EI_LAST \<and> length (snd i) < 2 ^ 32" "length (concat (map info_bytes is)) \<le> rest"
  shows "fold_result dump_info (out, rest) (map Some is) =
    Inr (out @ concat (map info_bytes is), rest - length (concat (map info_bytes is)))"
  using assms
proof (induction "is" arbitrary: out rest)
  case (Cons i "is")
  then show ?case
    by (simp add: dump_info_ok)
qed simp


lemma dump_event_ok:
  assumes ev: "good_event ev" and t: "ev_time ev + 0x100000000 > tm0" and rest: "length (encode_event tm0 ev) \<le> rest"
  shows "dump_event tm0 (out, rest) (stored_event ev) = Inr (out @ encode_event tm0 ev, rest - length (encode_event tm0 ev))"
proof -
  define n where "n = short_length (ev_rem ev)"
  have n: "n = 4 \<or> n = 16" and len: "length (drop (16 - n) (ev_rem ev)) = n" "length (drop (16 - n) (ev_loc ev)) = n"
    using ev short_length_cases [of "ev_rem ev"] by (auto simp: n_def good_event_def)
  have k: "unat (word_of_nat (length (ev_info ev)) :: u8) = length (ev_info ev)"
    using ev by (simp add: good_event_def unat_of_nat)
  have k': "(word_of_nat (length (ev_info ev)) :: u8) < 16"
    using ev by (simp add: word_less_nat_alt k good_event_def)
  have w: "unat (word_of_nat n :: u8) = n" "(word_of_nat n :: u8) = 4 \<or> (word_of_nat n :: u8) = 16" "((word_of_nat n :: u8) = 4) = (n = 4)"
    using n by auto
  have enc: "encode_event tm0 ev = event_header tm0 (stored_event ev) @ drop (16 - n) (ev_rem ev) @ drop (16 - n) (ev_loc ev) @
      concat (map info_bytes (ev_info ev))"
    using w(3) by (simp add: encode_event_def event_header_def stored_event_def Let_def n_def [symmetric])
  have h: "length (event_header tm0 (stored_event ev)) = 10"
    by (simp add: event_header_def)
  have f: "le_timestamp (stored_event ev) = ev_time ev" "le_addr_len (stored_event ev) = word_of_nat n"
      "le_info_count (stored_event ev) = word_of_nat (length (ev_info ev))"
      "le_rem_addr (stored_event ev) = drop (16 - n) (ev_rem ev)" "le_loc_addr (stored_event ev) = drop (16 - n) (ev_loc ev)"
      "le_extra_info (stored_event ev) = map Some (ev_info ev)"
    by (simp_all add: stored_event_def Let_def n_def)
  have r: "2 * n + 10 + length (concat (map info_bytes (ev_info ev))) \<le> rest"
    using rest h len by (simp add: enc)
  have "fold_result dump_info (out @ event_header tm0 (stored_event ev) @ drop (16 - n) (ev_rem ev) @ drop (16 - n) (ev_loc ev), rest - (2 * n + 10))
      (map Some (ev_info ev)) = Inr (out @ encode_event tm0 ev, rest - (2 * n + 10) - length (concat (map info_bytes (ev_info ev))))"
    using ev r by (subst dump_infos_ok) (auto simp: good_event_def enc)
  moreover have "length (encode_event tm0 ev) = 2 * n + 10 + length (concat (map info_bytes (ev_info ev)))"
    using len h by (simp add: enc)
  ultimately show ?thesis
    using t k' w r len by (simp add: dump_event_def f Let_def k)
qed

lemma dump_events_ok:
  assumes "\<forall>ev \<in> set es. good_event ev \<and> ev_time ev + 0x100000000 > tm0"
    and "length (concat (map (encode_event tm0) es)) \<le> rest"
  shows "fold_result (dump_event tm0) (out, rest) (map stored_event es) =
    Inr (out @ concat (map (encode_event tm0) es), rest - length (concat (map (encode_event tm0) es)))"
  using assms
proof (induction es arbitrary: out rest)
  case (Cons ev es)
  then show ?case
    by (simp add: dump_event_ok)
qed simp

lemma encode_events_length:
  "length (concat (map (encode_event tm0) es)) = sum_list (map (\<lambda>ev. length (encode_event 0 ev)) es)"
  by (induction es) (simp_all add: encode_event_length [of tm0])

lemma encode_event_nonempty: "encode_event tm0 ev \<noteq> []"
  by (simp add: encode_event_def Let_def)

lemma log_dump_ok:
  assumes l: "log_shows l es" and t: "\<forall>ev \<in> set es. ev_time ev + 0x100000000 > tm0"
  shows "log_dump tm0 l = Inr (if es = [] then None else Some (code (CHR ''L'') # concat (map (encode_event tm0) es)))"
proof -
  have len: "expected_serialized_size l = length (concat (map (encode_event tm0) es))"
    using l by (simp only: encode_events_length log_shows_def)
  then have "expected_serialized_size l = 0 \<longleftrightarrow> es = []"
    by (auto simp: encode_event_nonempty neq_Nil_conv)
  moreover have "fold_result (dump_event tm0) ([], expected_serialized_size l) (log_events l) = Inr (concat (map (encode_event tm0) es), 0)"
    using l t dump_events_ok [of es tm0 "expected_serialized_size l" "[]"] by (simp add: len log_shows_def)
  ultimately show ?thesis
    using len by (simp add: log_dump_def)
qed

lemma good_info_parts: "good_info info \<Longrightarrow> length info < 16 \<and> (\<forall>i \<in> set info. fst i \<noteq> EI_LAST \<and> length (snd i) < 2 ^ 32)"
  by (force simp: good_info_def)

lemma good_info_taken:
  assumes "good_info info"
  shows "take (length (filter (logged l) info)) info = filter (logged l) info"
proof -
  obtain xs ys where i: "info = xs @ ys" "\<forall>i \<in> set xs. fst i = EI_REASON" "\<forall>i \<in> set ys. fst i = EI_NAME \<or> fst i = EI_PASSWORD"
    using assms by (auto simp: good_info_def)
  have x: "filter (logged l) xs = xs"
    using i(2) by (auto simp: logged_def filter_id_conv)
  have "filter (logged l) ys = (if log_credentials l then ys else [])"
    using i(3) by (auto simp: logged_def filter_empty_conv filter_id_conv)
  then show ?thesis
    by (simp add: i(1) x)
qed

lemma count_attempt_stores:
  assumes "limit_trie l = Some t" "trie_index t k = Inr (t', Some p)"
  shows "\<exists>r d. count_attempt tm0 l k = Inr (r, l\<lparr>limit_trie := Some (trie_store t' p (Some d))\<rparr>)"
  unfolding count_attempt_def assms option.case rbind_Inr prod.case Let_def by blast

lemma count_attempt_ok:
  assumes "limit_trie l = Some t" "trie_inv t" "key_fits (dom (trie_map t)) k"
  shows "\<exists>r t'. count_attempt tm0 l k = Inr (r, l\<lparr>limit_trie := Some t'\<rparr>) \<and> trie_inv t' \<and> dom (trie_map t') = insert k (dom (trie_map t))"
proof -
  obtain t1 p where t1: "trie_index t k = Inr (t1, Some p)" "trie_inv t1" "at_slot (troot t1) p k"
      "trie_map t1 = (trie_map t)(k \<mapsto> slot_value t k)"
    using trie_index_spec [of t k] assms by (auto simp: trie_admits_fits)
  show ?thesis
    using count_attempt_stores [OF assms(1) t1(1), of tm0] trie_store_spec [OF t1(2,3)] t1(4) by (metis dom_fun_upd fun_upd_upd option.distinct(1))
qed

text \<open>The additional data of an event, as it is stored.\<close>

lemma log_event_ok:
  fixes tm0 :: u64 and port :: u16
  assumes l: "log_shows l es" and a: "length rem0 = 16" "length loc = 16" and i: "good_info info"
    and k: "type = EVENT_LOGIN \<Longrightarrow> key_fits (login_ids l) (login_id c rem0)"
  defines "ev \<equiv> \<lparr>ev_time = tm0, ev_code = c, ev_rem = rem0, ev_loc = loc, ev_port = port, ev_type = type, ev_info = filter (logged l) info\<rparr>"
  shows "\<exists>l'. log_event tm0 l c rem0 loc 16 port type info = Inr (log_status l', l') \<and> log_shows l' (es @ [ev]) \<and>
    log_credentials l' = log_credentials l \<and>
    login_ids l' = (if type = EVENT_LOGIN then insert (login_id c rem0) (login_ids l) else login_ids l)"
proof -
  obtain t where t: "limit_trie l = Some t" "trie_inv t"
    using l by (auto simp: log_shows_def)
  define n where "n = short_length rem0"
  have n: "n = 4 \<or> n = 16"
    using short_length_cases by (simp add: n_def)
  define l1 where "l1 = l\<lparr>log_events := log_events l @ [stored_event ev],
    expected_serialized_size := expected_serialized_size l + length (encode_event 0 ev)\<rparr>"
  have good: "good_event ev"
    using a good_info_parts [OF i] by (auto simp: good_event_def ev_def intro: le_less_trans [OF length_filter_le])
  have mp: "length mapped_prefix = 12"
    by (simp add: mapped_prefix_def)
  have size: "10 + 2 * n + sum_list (map (\<lambda>i. case i of None \<Rightarrow> 0 | Some (_, c) \<Rightarrow> 5 + length c) (map Some (filter (logged l) info))) =
      length (encode_event 0 ev)"
  proof -
    have "length (concat (map info_bytes xs)) = sum_list (map ((\<lambda>i. case i of None \<Rightarrow> 0 | Some (_, c) \<Rightarrow> 5 + length c) \<circ> Some) xs)" for xs
      by (induction xs) (auto simp: info_bytes_def)
    then show ?thesis
      using a n by (auto simp: encode_event_def ev_def Let_def n_def [symmetric])
  qed
  have extra: "map (\<lambda>i. if logged l i then Some i else None) (filter (logged l) info) = map Some (filter (logged l) info)"
    by simp
  have eq: "log_event tm0 l c rem0 loc 16 port type info =
      rbind (if type = EVENT_LOGIN then count_attempt tm0 l1 (login_id c rem0) else Inr (False, l1)) (\<lambda>(reached, l).
        let l = l\<lparr>attempts_reached := attempts_reached l \<or> reached\<rparr> in Inr (log_status l, l))"
  proof (cases "take 12 rem0 = mapped_prefix")
    case True
    then have n4: "short_length rem0 = 4" "n = 4"
      by (simp_all add: short_length_def n_def)
    have "l1 = l\<lparr>log_events := log_events l @ [\<lparr>le_code = c, le_rem_addr = take 4 (drop 12 rem0), le_loc_addr = take 4 (drop 12 loc),
        le_rem_port = port, le_timestamp = tm0, le_addr_len = word_of_nat 4, le_type = type,
        le_info_count = word_of_nat (length (filter (logged l) info)), le_extra_info = map Some (filter (logged l) info)\<rparr>],
        expected_serialized_size := expected_serialized_size l + length (encode_event 0 ev)\<rparr>"
      using a by (simp add: l1_def stored_event_def Let_def ev_def n4)
    then show ?thesis
      using True a size unfolding n4(2)
      by (simp add: log_event_def mp size_sub_def good_info_taken [OF i] extra login_id_def n4 Let_def)
  next
    case False
    then have n4: "short_length rem0 = 16" "n = 16"
      by (simp_all add: short_length_def n_def)
    have "l1 = l\<lparr>log_events := log_events l @ [\<lparr>le_code = c, le_rem_addr = rem0, le_loc_addr = loc,
        le_rem_port = port, le_timestamp = tm0, le_addr_len = word_of_nat 16, le_type = type,
        le_info_count = word_of_nat (length (filter (logged l) info)), le_extra_info = map Some (filter (logged l) info)\<rparr>],
        expected_serialized_size := expected_serialized_size l + length (encode_event 0 ev)\<rparr>"
      using a by (simp add: l1_def stored_event_def Let_def ev_def n4)
    then show ?thesis
      using False a size unfolding n4(2)
      by (simp add: log_event_def mp good_info_taken [OF i] extra login_id_def n4 Let_def)
  qed
  have shows1: "log_shows (l1\<lparr>limit_trie := Some t', attempts_reached := r\<rparr>) (es @ [ev])" if "trie_inv t'" for t' r
    using l good that by (auto simp: log_shows_def l1_def)
  have l1: "limit_trie l1 = Some t" "log_credentials l1 = log_credentials l" "login_ids l1 = login_ids l"
    using t by (simp_all add: l1_def login_ids_def)
  show ?thesis
  proof (cases "type = EVENT_LOGIN")
    case True
    obtain r t' where t': "count_attempt tm0 l1 (login_id c rem0) = Inr (r, l1\<lparr>limit_trie := Some t'\<rparr>)" "trie_inv t'"
        "dom (trie_map t') = insert (login_id c rem0) (dom (trie_map t))"
      using count_attempt_ok [OF l1(1) t(2), of "login_id c rem0" tm0] k [OF True] t by (auto simp: login_ids_def)
    let ?l = "l1\<lparr>limit_trie := Some t', attempts_reached := attempts_reached l1 \<or> r\<rparr>"
    have "log_event tm0 l c rem0 loc 16 port type info = Inr (log_status ?l, ?l)"
      unfolding eq by (simp add: True t'(1) Let_def)
    then show ?thesis
      using shows1 [OF t'(2)] True t t'(3) l1 by (intro exI [of _ ?l]) (simp add: login_ids_def)
  next
    case False
    let ?l = "l1\<lparr>limit_trie := Some t, attempts_reached := attempts_reached l1\<rparr>"
    have "?l = l1"
      using l1(1) by simp
    then have "log_event tm0 l c rem0 loc 16 port type info = Inr (log_status ?l, ?l)"
      unfolding eq by (simp add: False Let_def)
    then show ?thesis
      using shows1 [OF t(2), of "attempts_reached l1"] False t l1 by (intro exI [of _ ?l]) (simp add: login_ids_def)
  qed
qed


lemma log_clean_ok:
  assumes "log_shows l es"
  shows "\<exists>l'. log_clean tm0 l = Inr l' \<and> log_shows l' [] \<and> log_credentials l' = log_credentials l \<and> login_ids l' \<subseteq> login_ids l"
proof -
  obtain t where t: "limit_trie l = Some t" "trie_inv t"
    using assms by (auto simp: log_shows_def)
  define es where "es = entries (troot t)"
  define kept where "kept = filter (\<lambda>e. case snd e of None \<Rightarrow> False | Some d \<Rightarrow> holdback_until d > tm0) es"
  define items where "items = map (\<lambda>e. (fst e, holdback_until (the (snd e)))) kept"
  have walk: "fold_result (visit (holdback_store tm0)) acc es' =
      Inr (acc @ map (\<lambda>e. (fst e, holdback_until (the (snd e)))) (filter (\<lambda>e. case snd e of None \<Rightarrow> False | Some d \<Rightarrow> holdback_until d > tm0) es'))"
    for acc es'
    by (induction es' arbitrary: acc) (auto simp: visit_def holdback_store_def split: option.splits)
  have w: "trie_walk t (holdback_store tm0) [] = Inr items"
    unfolding trie_walk_fold [OF t(2)] using walk [of "[]" es] by (simp add: es_def items_def kept_def)
  have "sorted_wrt (\<lambda>e e'. \<not> strict_prefix (fst e') (fst e)) es"
    using entries_order [of "troot t"] t(2) by (simp add: es_def trie_inv_def)
  then have order: "sorted_wrt (\<lambda>e e'. \<not> strict_prefix (fst e') (fst e)) items"
    by (simp add: items_def kept_def sorted_wrt_map sorted_wrt_filter)
  have put: "\<exists>t'. fold_result holdback_copy t0 is = Inr t' \<and> trie_inv t' \<and> dom (trie_map t') = dom (trie_map t0) \<union> fst ` set is"
    if "trie_inv t0" "sorted_wrt (\<lambda>e e'. \<not> strict_prefix (fst e') (fst e)) is" "\<forall>i \<in> set is. \<forall>k \<in> dom (trie_map t0). \<not> strict_prefix (fst i) k"
    for t0 "is"
    using that
  proof (induction "is" arbitrary: t0)
    case (Cons i "is")
    have "key_fits (dom (trie_map t0)) (fst i)"
      using Cons.prems(3) by (auto simp: key_fits_def)
    from tr.put_ok [OF Cons.prems(1) this, of "Some \<lparr>attempt_count = 0, holdback_until = snd i\<rparr>"]
    obtain t1 where t1: "holdback_copy t0 i = Inr t1" "trie_inv t1" "dom (trie_map t1) = insert (fst i) (dom (trie_map t0))"
      by (auto simp: holdback_copy_def)
    have "\<forall>j \<in> set is. \<forall>k \<in> dom (trie_map t1). \<not> strict_prefix (fst j) k"
      using Cons.prems(2,3) by (auto simp: t1(3))
    from Cons.IH [OF t1(2) _ this] Cons.prems(2)
    show ?case
      by (auto simp: t1)
  qed simp
  obtain t' where t': "fold_result holdback_copy trie_alloc items = Inr t'" "trie_inv t'" "dom (trie_map t') = fst ` set items"
    using put [OF trie_alloc_inv order] by auto
  have "fst ` set items \<subseteq> dom (trie_map t)"
    unfolding trie_map_dom items_def kept_def es_def [symmetric] by (auto intro: rev_image_eqI)
  then show ?thesis
    using t t' w by (simp add: log_clean_def log_clean_internal_def log_shows_def login_ids_def)
qed

lemma log_alloc_ok: "\<exists>l. log_alloc = Inr l \<and> log_shows l [] \<and> \<not> log_credentials l \<and> login_ids l = {}"
  by (simp add: log_alloc_def log_clean_internal_def log_shows_def login_ids_def)

subsection \<open>Runs of the log\<close>

lemma logged_info: "good_info info \<Longrightarrow> filter (logged l) info = (if log_credentials l then info else [i \<leftarrow> info. fst i = EI_REASON])"
  by (auto simp: good_info_def logged_def filter_id_conv filter_empty_conv) force

text \<open>The states of a log with the events since it was last cleaned.\<close>

inductive log_run :: "fake_log \<Rightarrow> fake_event list \<Rightarrow> bool" where
  alloc: "log_alloc = Inr l \<Longrightarrow> log_run l []"
| event: "log_run l es \<Longrightarrow> length rem0 = 16 \<Longrightarrow> length loc = 16 \<Longrightarrow> good_info info \<Longrightarrow>
    (type = EVENT_LOGIN \<Longrightarrow> key_fits (login_ids l) (login_id c rem0)) \<Longrightarrow>
    log_event tm0 l c rem0 loc 16 port type info = Inr (st, l') \<Longrightarrow>
    log_run l' (es @ [\<lparr>ev_time = tm0, ev_code = c, ev_rem = rem0, ev_loc = loc, ev_port = port, ev_type = type,
      ev_info = (if log_credentials l then info else [i \<leftarrow> info. fst i = EI_REASON])\<rparr>])"
| clean: "log_run l es \<Longrightarrow> log_clean tm0 l = Inr l' \<Longrightarrow> log_run l' []"
| credentials: "log_run l es \<Longrightarrow> log_run (log_set_send_credentials l on) es"
| limits: "log_run l es \<Longrightarrow> log_run (log_set_limits l max_size max_attempts holdback) es"

lemma log_run_shows: "log_run l es \<Longrightarrow> log_shows l es"
proof (induction rule: log_run.induct)
  case (alloc l)
  obtain l' where l': "log_alloc = Inr l'" "log_shows l' []"
    using log_alloc_ok by blast
  have "l' = l"
    using alloc l'(1) by (metis sum.inject(2))
  then show ?case
    using l'(2) by simp
next
  case (event l es rem0 loc info type c tm0 port st l')
  show ?case
    using log_event_ok [OF event.IH event.hyps(2,3,4), of type c tm0 port] event.hyps(5,6) by (auto simp: logged_info [OF event.hyps(4)])
next
  case (clean l es tm0 l')
  then show ?case
    using log_clean_ok [OF clean.IH, of tm0] by auto
qed (auto simp: log_shows_def log_set_send_credentials_def log_set_limits_def)

text \<open>
  C36: The message with the log holds exactly the events since it was last cleaned, in their order, each with its age, its
  addresses (of four bytes when the remote one is a mapped IPv4 address) and the additional information, without the
  names and passwords that came while they were not to be sent. None of the checks in its encoding fails and the
  computed length is exact, as long as no event is 49 days old.
\<close>

theorem log_dump_encodes:
  assumes "log_run l es" and "\<forall>ev \<in> set es. ev_time ev + 0x100000000 > tm0"
  shows "log_dump tm0 l = Inr (if es = [] then None else Some (code (CHR ''L'') # concat (map (encode_event tm0) es)))"
  by (rule log_dump_ok [OF log_run_shows [OF assms(1)] assms(2)])


subsection \<open>Addresses that start others\<close>

lemma event_login:
  assumes "length a = 16" "length loc = 16"
  shows "\<exists>l'. log_event tm0 l c a loc 16 port EVENT_LOGIN [] = rbind (count_attempt tm0 l' (login_id c a)) (\<lambda>(reached, l).
      let l = l\<lparr>attempts_reached := attempts_reached l \<or> reached\<rparr> in Inr (log_status l, l)) \<and> limit_trie l' = limit_trie l"
  using assms
  by (cases "take 12 a = mapped_prefix")
     (auto simp: log_event_def mapped_prefix_def size_sub_def login_id_def short_length_def Let_def)

definition lone :: "login_data \<Rightarrow> bytes \<Rightarrow> nat \<Rightarrow> login_data trie" where
  "lone d k n = \<lparr>troot = TNode None [] False [TNode (Some d) k True []], active_count = 1, max_key_len = n\<rparr>"

definition broken :: "login_data \<Rightarrow> login_data \<Rightarrow> bytes \<Rightarrow> bytes \<Rightarrow> nat \<Rightarrow> login_data trie" where
  "broken d d' k z n = \<lparr>troot = TNode None [] False [TNode None k False [TNode (Some d) z True [], TNode (Some d') [] True []]],
     active_count = 2, max_key_len = n\<rparr>"

lemma count_first:
  assumes l: "limit_trie l = Some trie_alloc" and k: "k \<noteq> []"
  shows "\<exists>r d. count_attempt tm0 l k = Inr (r, l\<lparr>limit_trie := Some (lone d k (length k))\<rparr>)"
proof -
  have "trie_index trie_alloc k = Inr (\<lparr>troot = TNode None [] False [TNode None k True []], active_count = 1, max_key_len = length k\<rparr>, Some [0])"
    using k by (simp add: trie_index_def trie_index_internal.simps trie_alloc_def trie_new_node_def)
  from count_attempt_stores [OF l this, of tm0] show ?thesis
    by (simp add: trie_store_def lone_def)
qed

lemma count_start:
  assumes l: "limit_trie l = Some (lone d (k @ z) n)" and k: "k \<noteq> []" "z \<noteq> []"
  shows "\<exists>r d' n'. count_attempt tm0 l k = Inr (r, l\<lparr>limit_trie := Some (broken d d' k z n')\<rparr>)"
proof -
  have "trie_index (lone d (k @ z) n) k = Inr (\<lparr>troot = TNode None [] False [TNode None k False [TNode (Some d) z True [], TNode None [] True []]],
      active_count = 2, max_key_len = max n (length k)\<rparr>, Some [0, 1])"
    using k by (simp add: lone_def trie_index_def trie_index_internal.simps trie_new_node_def max_def Let_def)
  from count_attempt_stores [OF l this, of tm0] show ?thesis
    by (auto simp: trie_store_def broken_def)
qed

lemma count_broken:
  assumes "limit_trie l = Some (broken d d' k z n)" "k \<noteq> []" "z \<noteq> []" "y \<noteq> hd z"
  shows "count_attempt tm0 l (k @ y # r) = Inl Assertion"
  using assms by (simp add: count_attempt_def broken_def trie_index_def trie_index_internal.simps Let_def)



subsection \<open>Examples\<close>

definition example_event :: fake_event where
  "example_event = \<lparr>ev_time = 1000, ev_code = 84, ev_rem = mapped_prefix @ [10, 0, 0, 1], ev_loc = mapped_prefix @ [10, 0, 0, 2], ev_port = 4000,
     ev_type = EVENT_LOGIN, ev_info = []\<rparr>"

lemma nat_be_bytes:
  "nat_be 2 v = [word_of_nat (v div 256), word_of_nat v]"
  "nat_be 4 v = [word_of_nat (v div 16777216), word_of_nat (v div 65536), word_of_nat (v div 256), word_of_nat v]"
proof -
  have "nat_be 2 v = nat_be (Suc (Suc 0)) v" "nat_be 4 v = nat_be (Suc (Suc (Suc (Suc 0)))) v"
    by (rule arg_cong [where f = "\<lambda>n. nat_be n v"], simp)+
  then show "nat_be 2 v = [word_of_nat (v div 256), word_of_nat v]"
    "nat_be 4 v = [word_of_nat (v div 16777216), word_of_nat (v div 65536), word_of_nat (v div 256), word_of_nat v]"
    by simp_all
qed

theorem log_dump_encodes_witness:
  "\<exists>l. log_run l [example_event] \<and>
     log_dump 5000 l = Inr (Some [76, 0, 0, 0x0F, 0xA0, 5, 0, 0, 84, 0x0F, 0xA0, 10, 0, 0, 1, 10, 0, 0, 2])"
proof -
  let ?info = "[(EI_NAME, [114]), (EI_PASSWORD, [120, 121])]"
  obtain l where l: "log_alloc = Inr l" "log_shows l []" "\<not> log_credentials l" "login_ids l = {}"
    using log_alloc_ok by blast
  have len: "length (mapped_prefix @ [10, 0, 0, 1]) = 16" "length (mapped_prefix @ [10, 0, 0, 2]) = 16"
    by (simp_all add: mapped_prefix_def)
  have info: "good_info ?info"
    unfolding good_info_def by (intro conjI exI [of _ "[]"] exI [of _ ?info]) auto
  have fits: "key_fits (login_ids l) k" for k
    using l(4) by (simp add: key_fits_def)
  obtain l' where l': "log_event 1000 l 84 (mapped_prefix @ [10, 0, 0, 1]) (mapped_prefix @ [10, 0, 0, 2]) 16 4000 EVENT_LOGIN ?info = Inr (log_status l', l')"
    using log_event_ok [OF l(2) len info fits] by blast
  have run: "log_run l' [example_event]"
    using log_run.event [OF log_run.alloc [OF l(1)] len info fits l'] l(3) by (simp add: example_event_def)
  have "log_dump 5000 l' = Inr (Some (code (CHR ''L'') # encode_event 5000 example_event))"
    using log_dump_encodes [OF run, of 5000] by (simp add: example_event_def)
  also have "code (CHR ''L'') # encode_event 5000 example_event = [76, 0, 0, 0x0F, 0xA0, 5, 0, 0, 84, 0x0F, 0xA0, 10, 0, 0, 1, 10, 0, 0, 2]"
    by (simp add: encode_event_def example_event_def short_length_def mapped_prefix_def put32_def put16_def code_def nat_be_bytes)
  finally show ?thesis
    using run by blast
qed


end
