(* ===== verification/Fake.thy ===== *)
theory Fake
  imports FakeLog Services CText
begin

text \<open>
  The fake plugin (\<open>plugins/fake/main.c\<close>, \<open>server.c\<close> and \<open>telnet.c\<close>): servers that pretend to be real ones,
  refuse every login and log it.

  The tags of file descriptors are a list, and the connection a tag points to has the same index in
  a second list. The results of the system calls are taken from lists (\<open>fake_os\<close>), what was written to the
  sockets and which descriptors the loop watches are part of the same record. A send that would
  block is tried again at once by the code, so the list may delay it. Results of calls that are only logged are left out.
\<close>

subsection \<open>The operating system\<close>

datatype conn_send = Sent nat | SendAgain | SendFailed bytes

datatype conn_recv = Received bytes | RecvAgain | RecvFailed bytes

record sock_addr =
  sa_inet6 :: bool
  sa_port :: u16
  sa_addr :: bytes

text \<open>An accepted connection: its descriptor, the remote address and its length, and the result of \<open>getsockname\<close>.\<close>

type_synonym accepted = "int \<times> sock_addr \<times> nat \<times> (sock_addr \<times> nat) option"

record fake_os =
  ko_sends :: "conn_send list"
  ko_recvs :: "conn_recv list"
  ko_accepts :: "accepted option list"
  ko_sockets :: "int list"
  ko_binds :: "bool list"
  ko_listens :: "bool list"
  ko_written :: "(int \<times> bytes) list"
  ko_fds :: "(int \<times> nat) list"    \<comment> \<open>watched descriptors with their tags\<close>

definition watch_fd :: "int \<Rightarrow> nat \<Rightarrow> fake_os \<Rightarrow> fake_os" where
  "watch_fd fd i k = k\<lparr>ko_fds := ko_fds k @ [(fd, i)]\<rparr>"

fun remove_watch :: "int \<Rightarrow> (int \<times> nat) list \<Rightarrow> (int \<times> nat) list" where
  "remove_watch fd [] = []"
| "remove_watch fd (e # es) = (if fst e = fd then es else e # remove_watch fd es)"

definition unwatch_fd :: "int \<Rightarrow> fake_os \<Rightarrow> fake_os" where
  "unwatch_fd fd k = k\<lparr>ko_fds := remove_watch fd (ko_fds k)\<rparr>"

subsection \<open>Data\<close>

record server_desc =
  d_name :: bytes
  d_code :: byte
  d_default_port :: u16
  d_max_conn :: nat
  d_conn_timeout :: u32

definition server_descs :: "server_desc list" where
  "server_descs = [\<lparr>d_name = ascii ''telnet'', d_code = code (CHR ''T''), d_default_port = 23, d_max_conn = 20, d_conn_timeout = 30 * 1000\<rparr>]"

datatype expect = EXPECT_NONE | EXPECT_CMD | EXPECT_OPCODE | EXPECT_PARAMS | EXPECT_PARAMS_END | EXPECT_LF

datatype position = WANT_LOGIN | WANT_PASSWORD | WAIT_DENIAL

abbreviation (input) CMD_SE :: byte where "CMD_SE \<equiv> 240"
abbreviation (input) CMD_NOP :: byte where "CMD_NOP \<equiv> 241"
abbreviation (input) CMD_DM :: byte where "CMD_DM \<equiv> 242"
abbreviation (input) CMD_BREAK :: byte where "CMD_BREAK \<equiv> 243"
abbreviation (input) CMD_IP :: byte where "CMD_IP \<equiv> 244"
abbreviation (input) CMD_AO :: byte where "CMD_AO \<equiv> 245"
abbreviation (input) CMD_AYT :: byte where "CMD_AYT \<equiv> 246"
abbreviation (input) CMD_EC :: byte where "CMD_EC \<equiv> 247"
abbreviation (input) CMD_EL :: byte where "CMD_EL \<equiv> 248"
abbreviation (input) CMD_GA :: byte where "CMD_GA \<equiv> 249"
abbreviation (input) CMD_SB :: byte where "CMD_SB \<equiv> 250"
abbreviation (input) CMD_WILL :: byte where "CMD_WILL \<equiv> 251"
abbreviation (input) CMD_WONT :: byte where "CMD_WONT \<equiv> 252"
abbreviation (input) CMD_DO :: byte where "CMD_DO \<equiv> 253"
abbreviation (input) CMD_DONT :: byte where "CMD_DONT \<equiv> 254"
abbreviation (input) CMD_IAC :: byte where "CMD_IAC \<equiv> 255"

definition denial_timeout :: u32 where "denial_timeout = 1000"
definition max_attempts :: nat where "max_attempts = 3"
definition LINE_MAX :: nat where "LINE_MAX = 256"

text \<open>The pointer \<open>line\<close> into one of the two buffers, whose start is \<open>line_base\<close>.\<close>

datatype line_buffer = Username | Password

record conn_data =
  c_fd :: int
  c_expect :: expect
  c_neg_verb :: byte
  c_position :: position
  c_protocol_error :: bool
  c_close_reason :: "bytes option"
  c_denial_timeout :: u64
  c_attempts :: nat
  c_tag :: "nat option"
  c_username :: bytes
  c_password :: bytes
  c_line :: "(line_buffer \<times> nat) option"

record fd_tag =
  t_desc :: server_desc
  t_fd :: int
  t_candidate :: int
  t_port :: u16
  t_port_candidate :: u16
  t_accept_here :: bool
  t_ignore_inactivity :: bool
  t_server_index :: nat
  t_rem_addr :: sock_addr
  t_loc_addr :: sock_addr
  t_addr_len :: nat
  t_inactivity_timeout :: u64
  t_inactivity_timeout_active :: bool
  t_closed :: bool

datatype fake_timer = ConfigRetry | SendTimer | Inactive nat | Denial nat

record 'w fake =
  k_world :: 'w
  k_os :: fake_os
  k_tags :: "fd_tag list"
  k_conns :: "conn_data list"
  k_tag_indices :: "nat list"
  k_server_count :: nat
  k_config_version :: u32
  k_max_age :: u32
  k_log_credentials_candidate :: bool
  k_timeout_scheduled :: bool
  k_config_retry_scheduled :: bool
  k_timeout_missed :: bool
  k_timeout_id :: u64
  k_config_retry_timeout_id :: u64
  k_allow_retries :: nat
  k_log :: fake_log

text \<open>Access to a tag and to a connection.\<close>

definition tag_at :: "'w fake \<Rightarrow> nat \<Rightarrow> fd_tag result" where
  "tag_at s i = (if i < length (k_tags s) then Inr (k_tags s ! i) else Inl BadAccess)"

definition tag_set :: "'w fake \<Rightarrow> nat \<Rightarrow> (fd_tag \<Rightarrow> fd_tag) \<Rightarrow> 'w fake" where
  "tag_set s i f = s\<lparr>k_tags := (k_tags s)[i := f (k_tags s ! i)]\<rparr>"

definition conn_at :: "'w fake \<Rightarrow> nat \<Rightarrow> conn_data result" where
  "conn_at s i = (if i < length (k_conns s) then Inr (k_conns s ! i) else Inl BadAccess)"

definition conn_set :: "'w fake \<Rightarrow> nat \<Rightarrow> (conn_data \<Rightarrow> conn_data) \<Rightarrow> 'w fake" where
  "conn_set s i f = s\<lparr>k_conns := (k_conns s)[i := f (k_conns s ! i)]\<rparr>"

subsection \<open>Sending the log\<close>

definition log_send :: "(fake_timer, 'w) services \<Rightarrow> 'w fake \<Rightarrow> bool \<Rightarrow> (bool \<times> 'w fake) result" where
  "log_send sv s force =
     (if \<not> force \<and> \<not> sv_connected sv (k_world s) then Inr (False, s)
      else rbind (log_dump (sv_now sv (k_world s)) (k_log s)) (\<lambda>msg.
        rbind (case msg of None \<Rightarrow> Inr (False, k_world s) | Some m \<Rightarrow> sv_send sv (k_world s) m) (\<lambda>(success, w).
          let s = s\<lparr>k_world := w\<rparr>
          in if force \<or> success then
               rbind (log_clean (sv_now sv w) (k_log s)) (\<lambda>l.
                 let s = s\<lparr>k_log := l, k_timeout_missed := False\<rparr>
                 in if k_timeout_scheduled s then
                      rbind (sv_timeout_cancel sv (k_world s) (k_timeout_id s)) (\<lambda>w.
                        Inr (True, s\<lparr>k_world := w, k_timeout_scheduled := False\<rparr>))
                    else Inr (True, s))
             else Inr (False, s))))"

definition MAX_INFOS :: nat where "MAX_INFOS = 4"

definition push_info :: "event_info list \<Rightarrow> bytes option \<Rightarrow> event_info_type \<Rightarrow> event_info list result" where
  "push_info infos content type =
     (case content of
        None \<Rightarrow> Inr infos
      | Some c \<Rightarrow>
          if MAX_INFOS \<le> length infos then Inl BadAccess
          else let infos = infos @ [(type, c)] in sanity (length infos < MAX_INFOS) (Inr infos))"

definition schedule_timeout :: "(fake_timer, 'w) services \<Rightarrow> 'w fake \<Rightarrow> 'w fake result" where
  "schedule_timeout sv s =
     rbind (sv_timeout_add sv (k_world s) (k_max_age s) SendTimer) (\<lambda>(i, w).
       Inr (s\<lparr>k_world := w, k_timeout_scheduled := True, k_timeout_id := i\<rparr>))"

definition send_timeout :: "(fake_timer, 'w) services \<Rightarrow> 'w fake \<Rightarrow> 'w fake result" where
  "send_timeout sv s =
     (let s = s\<lparr>k_timeout_scheduled := False\<rparr>
      in rbind (log_send sv s (k_timeout_missed s)) (\<lambda>(sent, s).
           if sent then Inr s else schedule_timeout sv (s\<lparr>k_timeout_missed := True\<rparr>)))"

definition log_wrapper ::
  "(fake_timer, 'w) services \<Rightarrow> 'w fake \<Rightarrow> fd_tag \<Rightarrow> event_type \<Rightarrow> bytes option \<Rightarrow> bytes option \<Rightarrow> bytes option \<Rightarrow> 'w fake result" where
  "log_wrapper sv s tag type reason username password =
     sanity (sa_inet6 (t_rem_addr tag)) (sanity (sa_inet6 (t_loc_addr tag))
       (rbind (push_info [] reason EI_REASON) (\<lambda>infos.
         rbind (push_info infos username EI_NAME) (\<lambda>infos.
           rbind (push_info infos password EI_PASSWORD) (\<lambda>infos.
             rbind (log_event (sv_now sv (k_world s)) (k_log s) (d_code (t_desc tag)) (sa_addr (t_rem_addr tag)) (sa_addr (t_loc_addr tag))
                 16 (sa_port (t_rem_addr tag)) type infos) (\<lambda>(status, l).
               let s = s\<lparr>k_log := l\<rparr>
               in rbind (if status \<noteq> LS_NONE then log_send sv s (status = LS_FORCE_SEND) else Inr (False, s)) (\<lambda>(sent, s).
                    if \<not> k_timeout_scheduled s \<and> k_max_age s \<noteq> 0 \<and> \<not> sent then schedule_timeout sv s else Inr s)))))))"

subsection \<open>Closing and activity\<close>

definition conn_closed :: "(fake_timer, 'w) services \<Rightarrow> 'w fake \<Rightarrow> nat \<Rightarrow> bool \<Rightarrow> bytes option \<Rightarrow> 'w fake result" where
  "conn_closed sv s i error reason =
     rbind (tag_at s i) (\<lambda>tag.
       rbind (if t_closed tag then Inr s
              else log_wrapper sv s tag (if error then EVENT_LOST else EVENT_DISCONNECT) reason None None) (\<lambda>s.
         let s = tag_set s i (\<lambda>t. t\<lparr>t_closed := True\<rparr>)
         in rbind (if t_inactivity_timeout_active (k_tags s ! i) then
                     rbind (sv_timeout_cancel sv (k_world s) (t_inactivity_timeout (k_tags s ! i))) (\<lambda>w.
                       Inr (tag_set (s\<lparr>k_world := w\<rparr>) i (\<lambda>t. t\<lparr>t_inactivity_timeout_active := False\<rparr>)))
                   else Inr s) (\<lambda>s.
              Inr (tag_set (s\<lparr>k_os := unwatch_fd (t_fd (k_tags s ! i)) (k_os s)\<rparr>) i (\<lambda>t. t\<lparr>t_fd := -1\<rparr>)))))"

definition conn_log_attempt :: "(fake_timer, 'w) services \<Rightarrow> 'w fake \<Rightarrow> nat \<Rightarrow> bytes \<Rightarrow> bytes \<Rightarrow> 'w fake result" where
  "conn_log_attempt sv s i username password =
     rbind (tag_at s i) (\<lambda>tag. log_wrapper sv s tag EVENT_LOGIN None (Some username) (Some password))"

definition conn_inactive :: "(fake_timer, 'w) services \<Rightarrow> 'w fake \<Rightarrow> nat \<Rightarrow> u64 \<Rightarrow> 'w fake result" where
  "conn_inactive sv s i id0 =
     rbind (tag_at s i) (\<lambda>tag.
       sanity (t_inactivity_timeout tag = id0)
         (let s = tag_set s i (\<lambda>t. t\<lparr>t_inactivity_timeout_active := False\<rparr>)
          in rbind (log_wrapper sv s (k_tags s ! i) EVENT_TIMEOUT None None None) (\<lambda>s.
               conn_closed sv (tag_set s i (\<lambda>t. t\<lparr>t_closed := True\<rparr>)) i False (Some (ascii ''timeout'')))))"

definition activity :: "(fake_timer, 'w) services \<Rightarrow> 'w fake \<Rightarrow> nat \<Rightarrow> 'w fake result" where
  "activity sv s i =
     rbind (tag_at s i) (\<lambda>tag.
       if t_ignore_inactivity tag \<or> t_closed tag then Inr s
       else rbind (if t_inactivity_timeout_active tag then sv_timeout_cancel sv (k_world s) (t_inactivity_timeout tag) else Inr (k_world s)) (\<lambda>w.
         rbind (sv_timeout_add sv w (d_conn_timeout (t_desc tag)) (Inactive i)) (\<lambda>(id0, w).
           Inr (tag_set (s\<lparr>k_world := w\<rparr>) i (\<lambda>t. t\<lparr>t_inactivity_timeout := id0, t_inactivity_timeout_active := True\<rparr>)))))"


subsection \<open>Telnet\<close>

definition telnet_conn_alloc :: conn_data where
  "telnet_conn_alloc =
     \<lparr>c_fd = 0, c_expect = EXPECT_NONE, c_neg_verb = 0, c_position = WANT_LOGIN, c_protocol_error = False, c_close_reason = None,
      c_denial_timeout = 0, c_attempts = 0, c_tag = None, c_username = replicate (LINE_MAX + 1) 0,
      c_password = replicate (LINE_MAX + 1) 0, c_line = None\<rparr>"

text \<open>The loop of \<open>send_all\<close>: an error with its text, the results left, and what was sent.\<close>

fun send_rounds :: "conn_send list \<Rightarrow> bytes \<Rightarrow> bytes option \<times> conn_send list \<times> bytes" where
  "send_rounds rs [] = (None, rs, [])"
| "send_rounds [] data = (None, [], data)"
| "send_rounds (Sent n # rs) data =
     (case send_rounds rs (drop n data) of (e, rs, out) \<Rightarrow> (e, rs, take n data @ out))"
| "send_rounds (SendAgain # rs) data = send_rounds rs data"
| "send_rounds (SendFailed e # rs) data = (Some e, rs, [])"

definition send_all :: "'w fake \<Rightarrow> nat \<Rightarrow> bytes \<Rightarrow> (bool \<times> 'w fake) result" where
  "send_all s i data =
     rbind (conn_at s i) (\<lambda>conn.
       case send_rounds (ko_sends (k_os s)) data of
         (err, rs, out) \<Rightarrow>
           let s = s\<lparr>k_os := (k_os s)\<lparr>ko_sends := rs, ko_written := ko_written (k_os s) @ [(c_fd conn, out)]\<rparr>\<rparr>
           in Inr (case err of
                None \<Rightarrow> (True, s)
              | Some e \<Rightarrow> (False, conn_set s i (\<lambda>c. c\<lparr>c_close_reason := Some (case c_close_reason c of None \<Rightarrow> e | Some r \<Rightarrow> r)\<rparr>))))"

definition ask_for :: "'w fake \<Rightarrow> nat \<Rightarrow> bytes \<Rightarrow> (bool \<times> 'w fake) result" where
  "ask_for s i prompt = send_all s i (prompt @ ascii '': '' @ [CMD_IAC, CMD_GA])"

definition do_close :: "(fake_timer, 'w) services \<Rightarrow> 'w fake \<Rightarrow> nat \<Rightarrow> bool \<Rightarrow> 'w fake result" where
  "do_close sv s i error =
     rbind (conn_at s i) (\<lambda>conn.
       rbind (if c_position conn = WAIT_DENIAL then sv_timeout_cancel sv (k_world s) (c_denial_timeout conn) else Inr (k_world s)) (\<lambda>w.
         case c_tag conn of
           None \<Rightarrow> Inl BadAccess
         | Some t \<Rightarrow> conn_closed sv (s\<lparr>k_world := w\<rparr>) t error (c_close_reason conn)))"

text \<open>The tag is remembered only after the prompt was sent.\<close>

definition telnet_conn_set_fd :: "(fake_timer, 'w) services \<Rightarrow> 'w fake \<Rightarrow> nat \<Rightarrow> nat \<Rightarrow> int \<Rightarrow> 'w fake result" where
  "telnet_conn_set_fd sv s tag i fd =
     rbind (conn_at s i) (\<lambda>_.
       rbind (ask_for (conn_set s i (\<lambda>c. c\<lparr>c_expect := EXPECT_NONE, c_protocol_error := False, c_position := WANT_LOGIN,
                c_line := Some (Username, 0), c_fd := fd\<rparr>)) i (ascii ''login'')) (\<lambda>(ok, s).
         rbind (if ok then Inr s else do_close sv s i True) (\<lambda>s.
           Inr (conn_set s i (\<lambda>c. c\<lparr>c_tag := Some tag, c_attempts := 0, c_close_reason := None\<rparr>)))))"

definition protocol_error :: "'w fake \<Rightarrow> nat \<Rightarrow> bytes \<Rightarrow> (bool \<times> 'w fake) result" where
  "protocol_error s i message =
     rbind (conn_at s i) (\<lambda>_.
       rbind (send_all (conn_set s i (\<lambda>c. c\<lparr>c_protocol_error := True,
                c_close_reason := Some (case c_close_reason c of None \<Rightarrow> message | Some r \<Rightarrow> r)\<rparr>)) i (message @ [13, 10, CMD_IAC, CMD_GA])) (\<lambda>(_, s).
         Inr (False, s)))"

definition send_denial :: "(fake_timer, 'w) services \<Rightarrow> 'w fake \<Rightarrow> nat \<Rightarrow> 'w fake result" where
  "send_denial sv s i =
     rbind (conn_at s i) (\<lambda>_.
       rbind (send_all (conn_set s i (\<lambda>c. c\<lparr>c_position := WANT_LOGIN\<rparr>)) i (ascii ''Login incorrect'' @ [10])) (\<lambda>(ok, s).
         if \<not> ok then do_close sv s i True
         else
           let s = conn_set s i (\<lambda>c. c\<lparr>c_attempts := c_attempts c + 1\<rparr>)
           in if c_attempts (k_conns s ! i) = max_attempts then
                do_close sv (conn_set s i (\<lambda>c. c\<lparr>c_close_reason := Some (ascii ''Attempts'')\<rparr>)) i False
              else rbind (ask_for (conn_set s i (\<lambda>c. c\<lparr>c_line := Some (Username, 0)\<rparr>)) i (ascii ''login'')) (\<lambda>(ok, s).
                if \<not> ok then do_close sv s i True else Inr s)))"

text \<open>A write through \<open>line\<close>.\<close>

definition line_write :: "conn_data \<Rightarrow> line_buffer \<Rightarrow> nat \<Rightarrow> byte \<Rightarrow> conn_data result" where
  "line_write c b n ch =
     (case b of
        Username \<Rightarrow> rbind (buf_write (c_username c) n [ch]) (\<lambda>u. Inr (c\<lparr>c_username := u\<rparr>))
      | Password \<Rightarrow> rbind (buf_write (c_password c) n [ch]) (\<lambda>p. Inr (c\<lparr>c_password := p\<rparr>)))"

definition process_line :: "(fake_timer, 'w) services \<Rightarrow> 'w fake \<Rightarrow> nat \<Rightarrow> nat \<Rightarrow> (bool \<times> 'w fake) result" where
  "process_line sv s tag i =
     rbind (conn_at s i) (\<lambda>conn.
       case c_position conn of
         WANT_LOGIN \<Rightarrow>
           (case c_line conn of
              None \<Rightarrow> Inl Sanity
            | Some (b, n) \<Rightarrow>
                rbind (line_write conn b n 0) (\<lambda>conn.
                  rbind (ask_for (conn_set s i (\<lambda>_. conn\<lparr>c_line := Some (Password, 0)\<rparr>)) i (ascii ''password'')) (\<lambda>(ok, s).
                    Inr (if ok then (True, conn_set s i (\<lambda>c. c\<lparr>c_position := WANT_PASSWORD\<rparr>)) else (False, s)))))
       | WANT_PASSWORD \<Rightarrow>
           rbind (sv_timeout_add sv (k_world s) denial_timeout (Denial i)) (\<lambda>(id0, w).
             case c_line conn of
               None \<Rightarrow> Inl Sanity
             | Some (b, n) \<Rightarrow>
                 rbind (line_write (conn\<lparr>c_position := WAIT_DENIAL, c_denial_timeout := id0\<rparr>) b n 0) (\<lambda>conn.
                   rbind (conn_log_attempt sv (conn_set (s\<lparr>k_world := w\<rparr>) i (\<lambda>_. conn)) tag (cstring (c_username conn)) (cstring (c_password conn))) (\<lambda>s.
                     Inr (True, conn_set s i (\<lambda>c. c\<lparr>c_line := None\<rparr>)))))
       | WAIT_DENIAL \<Rightarrow> Inr (True, s))"

text \<open>The text of the error for an unknown command has the decimal number.\<close>

definition unknown_command :: "byte \<Rightarrow> bytes" where
  "unknown_command cmd =
     ascii ''Unknown telnet command '' @
     (let n = unat cmd in (if n < 100 then [] else [of_nat (48 + n div 100)]) @ (if n < 10 then [] else [of_nat (48 + n div 10 mod 10)]) @
        [of_nat (48 + n mod 10)]) @ [10]"

definition cmd_handle :: "'w fake \<Rightarrow> nat \<Rightarrow> byte \<Rightarrow> (bool \<times> 'w fake) result" where
  "cmd_handle s i cmd =
     (if cmd = CMD_SE then protocol_error s i (ascii ''Unexpected SE'')
      else if cmd = CMD_NOP \<or> cmd = CMD_DM \<or> cmd = CMD_BREAK \<or> cmd = CMD_AO \<or> cmd = CMD_AYT \<or> cmd = CMD_GA then
        Inr (True, conn_set s i (\<lambda>c. c\<lparr>c_expect := EXPECT_NONE\<rparr>))
      else if cmd = CMD_SB then Inr (True, conn_set s i (\<lambda>c. c\<lparr>c_expect := EXPECT_PARAMS\<rparr>))
      else if cmd = CMD_WILL \<or> cmd = CMD_WONT \<or> cmd = CMD_DO \<or> cmd = CMD_DONT then
        Inr (True, conn_set s i (\<lambda>c. c\<lparr>c_expect := EXPECT_OPCODE, c_neg_verb := cmd\<rparr>))
      else if cmd = CMD_IP then protocol_error s i (ascii ''Interrupted'')
      else if cmd = CMD_EC then
        Inr (True, conn_set s i (\<lambda>c. c\<lparr>c_line := map_option (\<lambda>(b, n). (b, n - 1)) (c_line c), c_expect := EXPECT_NONE\<rparr>))
      else if cmd = CMD_EL then
        Inr (True, conn_set s i (\<lambda>c. c\<lparr>c_line := map_option (\<lambda>(b, n). (b, 0)) (c_line c)\<rparr>))
      else protocol_error s i (unknown_command cmd))"

definition char_handle :: "(fake_timer, 'w) services \<Rightarrow> 'w fake \<Rightarrow> nat \<Rightarrow> nat \<Rightarrow> byte \<Rightarrow> (bool \<times> 'w fake) result" where
  "char_handle sv s tag i ch =
     rbind (conn_at s i) (\<lambda>conn.
       case c_expect conn of
         EXPECT_CMD \<Rightarrow> cmd_handle s i ch
       | EXPECT_OPCODE \<Rightarrow>
           rbind (if c_neg_verb conn = CMD_WILL \<or> c_neg_verb conn = CMD_DO
                  then send_all s i [CMD_IAC, (c_neg_verb conn XOR (CMD_WILL XOR CMD_DO)) + 1, ch] else Inr (True, s)) (\<lambda>(ok, s).
             Inr (if ok then (True, conn_set s i (\<lambda>c. c\<lparr>c_expect := EXPECT_NONE\<rparr>)) else (False, s)))
       | EXPECT_PARAMS \<Rightarrow>
           Inr (True, if ch = CMD_IAC then conn_set s i (\<lambda>c. c\<lparr>c_expect := EXPECT_PARAMS_END\<rparr>) else s)
       | EXPECT_PARAMS_END \<Rightarrow>
           Inr (True, conn_set s i (\<lambda>c. c\<lparr>c_expect := (if ch = CMD_SE then EXPECT_NONE else EXPECT_PARAMS)\<rparr>))
       | EXPECT_LF \<Rightarrow>
           rbind (if ch = 10 then process_line sv s tag i else Inr (True, s)) (\<lambda>(ok, s).
             Inr (if ok then (True, conn_set s i (\<lambda>c. c\<lparr>c_expect := EXPECT_NONE\<rparr>)) else (False, s)))
       | EXPECT_NONE \<Rightarrow>
           if ch = CMD_IAC then Inr (True, conn_set s i (\<lambda>c. c\<lparr>c_expect := EXPECT_CMD\<rparr>))
           else if ch = 13 then Inr (True, conn_set s i (\<lambda>c. c\<lparr>c_expect := EXPECT_LF\<rparr>))
           else (case c_line conn of
                   Some (b, n) \<Rightarrow>
                     if n + 1 < LINE_MAX then
                       rbind (line_write conn b n ch) (\<lambda>conn. Inr (True, conn_set s i (\<lambda>_. conn\<lparr>c_line := Some (b, n + 1)\<rparr>)))
                     else Inr (True, s)
                 | None \<Rightarrow> Inr (True, s)))"

fun chars_handle :: "(fake_timer, 'w) services \<Rightarrow> 'w fake \<Rightarrow> nat \<Rightarrow> nat \<Rightarrow> bytes \<Rightarrow> 'w fake result" where
  "chars_handle sv s tag i [] = Inr s"
| "chars_handle sv s tag i (ch # chs) =
     rbind (char_handle sv s tag i ch) (\<lambda>(ok, s).
       if ok then chars_handle sv s tag i chs
       else rbind (conn_at s i) (\<lambda>conn. do_close sv s i (c_protocol_error conn)))"

definition telnet_data :: "(fake_timer, 'w) services \<Rightarrow> 'w fake \<Rightarrow> nat \<Rightarrow> nat \<Rightarrow> 'w fake result" where
  "telnet_data sv s tag i =
     (let r = next_of RecvAgain (ko_recvs (k_os s)); s = s\<lparr>k_os := (k_os s)\<lparr>ko_recvs := tl (ko_recvs (k_os s))\<rparr>\<rparr>
      in rbind (conn_at s i) (\<lambda>_.
        case r of
          RecvAgain \<Rightarrow> Inr s
        | RecvFailed e \<Rightarrow> do_close sv (conn_set s i (\<lambda>c. c\<lparr>c_close_reason := Some e\<rparr>)) i True
        | Received data \<Rightarrow>
            if data = [] then
              do_close sv (conn_set s i (\<lambda>c. c\<lparr>c_close_reason := Some (case c_close_reason c of None \<Rightarrow> ascii ''Closed'' | Some r \<Rightarrow> r)\<rparr>)) i False
            else chars_handle sv s tag i (take 1024 data)))"

subsection \<open>Descriptors with data\<close>

fun find_empty :: "fd_tag list \<Rightarrow> nat \<Rightarrow> nat \<Rightarrow> nat option" where
  "find_empty tags i 0 = None"
| "find_empty tags i (Suc n) = (if i < length tags \<and> t_fd (tags ! i) = -1 then Some i else find_empty tags (Suc i) n)"

text \<open>The size of the address structure the kernel may fill.\<close>

definition sockaddr_size :: nat where "sockaddr_size = 28"

definition accept_conn :: "(fake_timer, 'w) services \<Rightarrow> 'w fake \<Rightarrow> fd_tag \<Rightarrow> nat \<Rightarrow> accepted option \<Rightarrow> 'w fake result" where
  "accept_conn sv s t i acc =
     rbind (tag_at s i) (\<lambda>empty.
       sanity (t_desc empty = t_desc t)
         (case acc of
            None \<Rightarrow> Inr (tag_set s i (\<lambda>t. t\<lparr>t_addr_len := sockaddr_size\<rparr>))
          | Some (new, rem_addr, len, name) \<Rightarrow>
              (case name of
                 None \<Rightarrow> Inl Sanity
               | Some (loc_addr, loc_len) \<Rightarrow>
                   sanity (loc_len = len)
                     (let s = tag_set (s\<lparr>k_os := watch_fd new i (k_os s)\<rparr>) i (\<lambda>t. t\<lparr>t_rem_addr := rem_addr, t_addr_len := len,
                            t_loc_addr := loc_addr, t_fd := new, t_closed := False\<rparr>)
                      in rbind (telnet_conn_set_fd sv s i i new) (\<lambda>s.
                           rbind (tag_at s i) (\<lambda>tag.
                             rbind (log_wrapper sv s tag EVENT_CONNECT None None None) (\<lambda>s. activity sv s i)))))))"

definition accept_extra :: "(fake_timer, 'w) services \<Rightarrow> 'w fake \<Rightarrow> fd_tag \<Rightarrow> accepted option \<Rightarrow> 'w fake result" where
  "accept_extra sv s t acc =
     (case acc of
        None \<Rightarrow> Inr s
      | Some (new, rem_addr, len, name) \<Rightarrow>
          (case name of
             None \<Rightarrow> Inl Sanity
           | Some (loc_addr, loc_len) \<Rightarrow>
               sanity (loc_len = len)
                 (log_wrapper sv s (t\<lparr>t_accept_here := False, t_rem_addr := rem_addr, t_addr_len := len, t_loc_addr := loc_addr\<rparr>)
                    EVENT_CONNECT_EXTRA None None None)))"

definition fd_ready :: "(fake_timer, 'w) services \<Rightarrow> 'w fake \<Rightarrow> nat \<Rightarrow> 'w fake result" where
  "fd_ready sv s ti =
     rbind (tag_at s ti) (\<lambda>t.
       if t_accept_here t then
         if length (k_tag_indices s) \<le> t_server_index t + 1 then Inl BadAccess
         else let first = k_tag_indices s ! t_server_index t; last = k_tag_indices s ! (t_server_index t + 1);
             acc = next_of None (ko_accepts (k_os s)); s = s\<lparr>k_os := (k_os s)\<lparr>ko_accepts := tl (ko_accepts (k_os s))\<rparr>\<rparr>
         in case find_empty (k_tags s) (first + 1) (last - (first + 1)) of
              Some i \<Rightarrow> accept_conn sv s t i acc
            | None \<Rightarrow> accept_extra sv s t acc
       else rbind (activity sv s ti) (\<lambda>s. telnet_data sv s ti ti))"


subsection \<open>Configuration\<close>

definition config_port :: "plugin_options \<Rightarrow> server_desc \<Rightarrow> u16 option" where
  "config_port opts desc =
     (case opts (d_name desc @ ascii ''_port'') of
        None \<Rightarrow> Some (d_default_port desc)
      | Some vs \<Rightarrow>
          if length vs \<noteq> 1 then None
          else if hd vs = [] then None
          else case strtol (hd vs) of
                 (p, rest) \<Rightarrow> if rest \<noteq> [] then None else if p < 0 \<or> p \<ge> 65536 then None else Some (word_of_int p))"

text \<open>The socket of one server: whether the configuration goes on, and whether to try again.\<close>

definition config_server :: "'w fake \<Rightarrow> nat \<Rightarrow> u16 \<Rightarrow> bool \<times> bool \<times> 'w fake" where
  "config_server s i port =
     (let t = k_tags s ! i
      in if port = t_port t \<and> t_fd t \<noteq> -1 then
           (True, False, tag_set s i (\<lambda>t. t\<lparr>t_candidate := t_fd t, t_port_candidate := port\<rparr>))
         else if port \<noteq> 0 then
           let sock = next_of (-1) (ko_sockets (k_os s)); s = s\<lparr>k_os := (k_os s)\<lparr>ko_sockets := tl (ko_sockets (k_os s))\<rparr>\<rparr>
           in if sock = -1 then (False, False, s)
              else
                let bound = next_of True (ko_binds (k_os s)); s = s\<lparr>k_os := watch_fd sock i ((k_os s)\<lparr>ko_binds := tl (ko_binds (k_os s))\<rparr>)\<rparr>
                in if \<not> bound then (True, True, tag_set (s\<lparr>k_os := unwatch_fd sock (k_os s)\<rparr>) i (\<lambda>t. t\<lparr>t_candidate := -1\<rparr>))
                   else
                     let listening = next_of True (ko_listens (k_os s)); s = s\<lparr>k_os := (k_os s)\<lparr>ko_listens := tl (ko_listens (k_os s))\<rparr>\<rparr>
                     in if \<not> listening then (False, False, s\<lparr>k_os := unwatch_fd sock (k_os s)\<rparr>)
                        else (True, False, tag_set s i (\<lambda>t. t\<lparr>t_candidate := sock, t_port_candidate := port\<rparr>))
         else (True, False, tag_set s i (\<lambda>t. t\<lparr>t_port_candidate := port\<rparr>)))"

fun config_servers :: "plugin_options \<Rightarrow> 'w fake \<Rightarrow> nat list \<Rightarrow> (bool \<times> bool \<times> 'w fake) result" where
  "config_servers opts s [] = Inr (True, False, s)"
| "config_servers opts s (i # is) =
     rbind (tag_at s i) (\<lambda>t.
       case config_port opts (t_desc t) of
         None \<Rightarrow> Inr (False, False, s)
       | Some port \<Rightarrow>
           (case config_server s i port of
              (ok, again, s) \<Rightarrow>
                if \<not> ok then Inr (False, False, s)
                else rbind (config_servers opts s is) (\<lambda>(ok, again', s). Inr (ok, again \<or> again', s))))"

text \<open>An empty value passes the check for one, which looks at the pointer.\<close>

definition credentials_option :: "plugin_options \<Rightarrow> bool option" where
  "credentials_option opts =
     (case opts (ascii ''log_credentials'') of
        None \<Rightarrow> Some False
      | Some vs \<Rightarrow>
          if length vs \<noteq> 1 then None
          else case strtol (hd vs) of (p, rest) \<Rightarrow> if rest \<noteq> [] then None else Some (p \<noteq> 0))"

definition CONFIG_RETRY_COUNT :: nat where "CONFIG_RETRY_COUNT = 10"
definition CONFIG_RETRY_TIME :: u32 where "CONFIG_RETRY_TIME = 60000"

definition config_internal :: "(fake_timer, 'w) services \<Rightarrow> plugin_options \<Rightarrow> 'w fake \<Rightarrow> (bool \<times> 'w fake) result" where
  "config_internal sv opts s =
     rbind (if k_config_retry_scheduled s then
              rbind (sv_timeout_cancel sv (k_world s) (k_config_retry_timeout_id s)) (\<lambda>w. Inr (s\<lparr>k_world := w, k_config_retry_scheduled := False\<rparr>))
            else Inr s) (\<lambda>s.
       rbind (config_servers opts s (take (k_server_count s) (k_tag_indices s))) (\<lambda>(ok, again, s).
         if \<not> ok then Inr (False, s)
         else case credentials_option opts of
                None \<Rightarrow> Inr (False, s)
              | Some creds \<Rightarrow>
                  let s = s\<lparr>k_log_credentials_candidate := creds\<rparr>
                  in if again \<and> k_allow_retries s \<noteq> 0 then
                       rbind (sv_timeout_add sv (k_world s) CONFIG_RETRY_TIME ConfigRetry) (\<lambda>(id0, w).
                         Inr (True, s\<lparr>k_world := w, k_config_retry_timeout_id := id0, k_config_retry_scheduled := True,
                           k_allow_retries := k_allow_retries s - 1\<rparr>))
                     else Inr (True, s)))"

definition config :: "(fake_timer, 'w) services \<Rightarrow> plugin_options \<Rightarrow> 'w fake \<Rightarrow> (bool \<times> 'w fake) result" where
  "config sv opts s = config_internal sv opts (s\<lparr>k_allow_retries := CONFIG_RETRY_COUNT\<rparr>)"

definition finish_server :: "bool \<Rightarrow> 'w fake \<Rightarrow> nat \<Rightarrow> 'w fake result" where
  "finish_server activate s i =
     rbind (tag_at s i) (\<lambda>t.
       let s = (if activate then
                  let s = (if t_fd t \<noteq> t_candidate t then
                             let s = (if t_fd t \<noteq> -1 then s\<lparr>k_os := unwatch_fd (t_fd t) (k_os s)\<rparr> else s)
                             in tag_set s i (\<lambda>t. t\<lparr>t_port := t_port_candidate t, t_fd := t_candidate t\<rparr>)
                           else s)
                  in s\<lparr>k_log := log_set_send_credentials (k_log s) (k_log_credentials_candidate s)\<rparr>
                else if t_candidate t \<noteq> -1 then s\<lparr>k_os := unwatch_fd (t_candidate t) (k_os s)\<rparr> else s)
       in Inr (tag_set s i (\<lambda>t. t\<lparr>t_port_candidate := 0, t_candidate := -1\<rparr>)))"

definition config_finish :: "'w fake \<Rightarrow> bool \<Rightarrow> 'w fake result" where
  "config_finish s activate = fold_result (finish_server activate) s (take (k_server_count s) (k_tag_indices s))"

definition config_retry_now :: "(fake_timer, 'w) services \<Rightarrow> plugin_options \<Rightarrow> 'w fake \<Rightarrow> 'w fake result" where
  "config_retry_now sv opts s =
     rbind (config_internal sv opts (s\<lparr>k_config_retry_scheduled := False\<rparr>)) (\<lambda>(success, s). config_finish s success)"

definition server_config :: "(fake_timer, 'w) services \<Rightarrow> 'w fake \<Rightarrow> bytes \<Rightarrow> 'w fake result" where
  "server_config sv s data =
     (if length data < 20 then Inl Aborted
      else if k_config_version s = get32 data then Inr s
      else
        let s = s\<lparr>k_config_version := get32 data,
              k_log := log_set_limits (k_log s) (get32 (drop 8 data)) (get32 (drop 12 data)) (get32 (drop 16 data)),
              k_max_age := get32 (drop 4 data)\<rparr>
        in rbind (log_send sv s True) (\<lambda>(_, s). Inr s))"

definition uplink_data :: "(fake_timer, 'w) services \<Rightarrow> 'w fake \<Rightarrow> bytes \<Rightarrow> 'w fake result" where
  "uplink_data sv s data =
     (if data = [] then Inl Aborted
      else if hd data = code (CHR ''C'') then server_config sv s (tl data)
      else Inr s)"

definition connected :: "(fake_timer, 'w) services \<Rightarrow> 'w fake \<Rightarrow> 'w fake result" where
  "connected sv s =
     rbind (sv_tell sv (k_world s) [code (CHR ''C'')]) (\<lambda>w.
       let s = s\<lparr>k_world := w\<rparr>
       in if log_status (k_log s) \<noteq> LS_NONE \<or> k_timeout_missed s
          then rbind (log_send sv s False) (\<lambda>(_, s). Inr s) else Inr s)"

subsection \<open>Initialisation\<close>

definition no_addr :: sock_addr where
  "no_addr = \<lparr>sa_inet6 = False, sa_port = 0, sa_addr = replicate 16 0\<rparr>"

text \<open>The tags of one server: the one for the server itself and one for each connection.\<close>

definition new_tag :: "server_desc \<Rightarrow> nat \<Rightarrow> fd_tag" where
  "new_tag desc si =
     \<lparr>t_desc = desc, t_fd = -1, t_candidate = 0, t_port = 0, t_port_candidate = 0, t_accept_here = False,
      t_ignore_inactivity = False, t_server_index = si, t_rem_addr = no_addr, t_loc_addr = no_addr, t_addr_len = 0,
      t_inactivity_timeout = 0, t_inactivity_timeout_active = False, t_closed = False\<rparr>"

definition server_tags :: "server_desc \<Rightarrow> nat \<Rightarrow> fd_tag list" where
  "server_tags desc si =
     (new_tag desc si)\<lparr>t_candidate := -1, t_ignore_inactivity := True, t_accept_here := (d_max_conn desc \<noteq> 0)\<rparr> #
     replicate (d_max_conn desc) (new_tag desc si)"

fun init_tags :: "server_desc list \<Rightarrow> nat \<Rightarrow> nat \<Rightarrow> fd_tag list \<times> nat list" where
  "init_tags [] pos i = ([], [pos])"
| "init_tags (d # ds) pos i =
     (case init_tags ds (pos + 1 + d_max_conn d) (Suc i) of (tags, indices) \<Rightarrow> (server_tags d i @ tags, pos # indices))"

definition initialize :: "(fake_timer, 'w) services \<Rightarrow> 'w \<Rightarrow> fake_os \<Rightarrow> 'w fake result" where
  "initialize sv w k =
     rbind log_alloc (\<lambda>l.
       case init_tags server_descs 0 0 of
         (tags, indices) \<Rightarrow>
           connected sv \<lparr>k_world = w, k_os = k, k_tags = tags, k_conns = map (\<lambda>_. telnet_conn_alloc) tags, k_tag_indices = indices,
             k_server_count = length server_descs, k_config_version = 0, k_max_age = 0, k_log_credentials_candidate = False,
             k_timeout_scheduled = False, k_config_retry_scheduled = False, k_timeout_missed = False, k_timeout_id = 0,
             k_config_retry_timeout_id = 0, k_allow_retries = 0, k_log = l\<rparr>)"

end
