(* ===== verification/FakeLife.thy ===== *)
theory FakeLife
  imports Fake
begin

text \<open>
  The life of the fake plugin: which of its timeouts are pending in each state, that no state
  it reaches makes an assertion fail, and what a login over telnet leaves in the log.
\<close>

subsection \<open>Pending timeouts\<close>

text \<open>The identifiers pending for each kind of timeout.\<close>

definition pending :: "(u64 \<times> fake_timer) set \<Rightarrow> (fake_timer \<Rightarrow> u64 set) \<Rightarrow> bool" where
  "pending K f \<longleftrightarrow> inj_on fst K \<and> (\<forall>c. {i. (i, c) \<in> K} = f c)"

lemma pending_add:
  assumes "pending K f" "i \<notin> fst ` K" "f c = {}"
  shows "pending (insert (i, c) K) (f(c := {i}))"
  using assms by (auto simp: pending_def)

lemma pending_cancel:
  assumes "pending K f" "f c = {i}"
  shows "i \<in> fst ` K" "pending {p \<in> K. fst p \<noteq> i} (f(c := {}))"
proof -
  have i: "(i, c) \<in> K" and inj: "inj_on fst K" and f: "\<And>c. {i. (i, c) \<in> K} = f c"
    using assms by (auto simp: pending_def)
  show "i \<in> fst ` K"
    using i by force
  have "c' = c" if "(i, c') \<in> K" for c'
    using inj_onD [OF inj, of "(i, c')" "(i, c)"] that i by simp
  then show "pending {p \<in> K. fst p \<noteq> i} (f(c := {}))"
    using inj f assms(2) by (auto simp: pending_def intro: inj_on_subset)
qed

definition send_slot :: "'w fake \<Rightarrow> u64 set" where
  "send_slot s = (if k_timeout_scheduled s then {k_timeout_id s} else {})"

definition waiting :: "'w fake \<Rightarrow> nat \<Rightarrow> bool" where
  "waiting s i \<longleftrightarrow> i < length (k_conns s) \<and> c_position (k_conns s ! i) = WAIT_DENIAL \<and> t_fd (k_tags s ! i) \<noteq> -1"

fun expected :: "'w fake \<Rightarrow> fake_timer \<Rightarrow> u64 set" where
  "expected s SendTimer = send_slot s"
| "expected s ConfigRetry = (if k_config_retry_scheduled s then {k_config_retry_timeout_id s} else {})"
| "expected s (Inactive i) =
     (if i < length (k_tags s) \<and> t_inactivity_timeout_active (k_tags s ! i) then {t_inactivity_timeout (k_tags s ! i)} else {})"
| "expected s (Denial i) = (if waiting s i then {c_denial_timeout (k_conns s ! i)} else {})"

subsection \<open>Well-formed states\<close>

definition conn_ok :: "nat \<Rightarrow> conn_data \<Rightarrow> bool" where
  "conn_ok i c \<longleftrightarrow> length (c_username c) = LINE_MAX + 1 \<and> length (c_password c) = LINE_MAX + 1 \<and>
     (\<forall>b n. c_line c = Some (b, n) \<longrightarrow> n < LINE_MAX) \<and> (c_tag c = None \<or> c_tag c = Some i) \<and>
     (c_position c = WAIT_DENIAL \<longrightarrow> i \<noteq> 0) \<and> (\<forall>r. c_close_reason c = Some r \<longrightarrow> length r < 2 ^ 32)"

definition addr_ok :: "sock_addr \<Rightarrow> bool" where
  "addr_ok a \<longleftrightarrow> length (sa_addr a) = 16"

definition tag_ok :: "nat \<Rightarrow> fd_tag \<Rightarrow> bool" where
  "tag_ok i t \<longleftrightarrow> t_desc t = hd server_descs \<and> t_server_index t = 0 \<and> t_accept_here t = (i = 0) \<and> t_ignore_inactivity t = (i = 0) \<and>
     addr_ok (t_rem_addr t) \<and> addr_ok (t_loc_addr t) \<and> (t_inactivity_timeout_active t \<longrightarrow> i \<noteq> 0 \<and> t_fd t \<noteq> -1)"

text \<open>What the loop watches for connections are their open descriptors.\<close>

definition watch_ok :: "fd_tag list \<Rightarrow> (int \<times> nat) list \<Rightarrow> bool" where
  "watch_ok tags fds \<longleftrightarrow> distinct (map fst fds) \<and>
     (\<forall>(fd, i) \<in> set fds. i < length tags \<and> (i \<noteq> 0 \<longrightarrow> t_fd (tags ! i) = fd \<and> fd \<noteq> -1))"

text \<open>What the system returns: addresses of sixteen bytes and texts of errors that are not gigabytes long.\<close>

definition os_ok :: "fake_os \<Rightarrow> bool" where
  "os_ok k \<longleftrightarrow> (\<forall>new ra n la m. Some (new, ra, n, Some (la, m)) \<in> set (ko_accepts k) \<longrightarrow> addr_ok ra \<and> addr_ok la) \<and>
     (\<forall>e. SendFailed e \<in> set (ko_sends k) \<longrightarrow> length e < 2 ^ 32) \<and> (\<forall>e. RecvFailed e \<in> set (ko_recvs k) \<longrightarrow> length e < 2 ^ 32)"

definition logs :: "fake_log \<Rightarrow> bool" where
  "logs l \<longleftrightarrow> (\<exists>es. log_shows l es)"

definition fake_wf :: "'w fake \<Rightarrow> bool" where
  "fake_wf s \<longleftrightarrow> length (k_tags s) = 21 \<and> length (k_conns s) = 21 \<and> k_tag_indices s = [0, 21] \<and> k_server_count s = 1 \<and>
     (\<forall>i < 21. tag_ok i (k_tags s ! i) \<and> conn_ok i (k_conns s ! i)) \<and>
     watch_ok (k_tags s) (ko_fds (k_os s)) \<and> os_ok (k_os s) \<and> logs (k_log s)"

text \<open>No address that attempted to log in is an extension of this one.\<close>

definition no_clash :: "fake_log \<Rightarrow> fd_tag \<Rightarrow> bool" where
  "no_clash l t \<longleftrightarrow> (\<forall>k \<in> login_ids l. \<not> strict_prefix (login_id (d_code (t_desc t)) (sa_addr (t_rem_addr t))) k)"

lemma no_clash_fits: "no_clash l t \<Longrightarrow> key_fits (login_ids l) (login_id (d_code (t_desc t)) (sa_addr (t_rem_addr t)))"
  by (auto simp: no_clash_def key_fits_def)

text \<open>Logging changes the log, its timeout and the world only.\<close>

definition logging :: "'w fake \<Rightarrow> 'w fake \<Rightarrow> bool" where
  "logging s s' \<longleftrightarrow> k_tags s' = k_tags s \<and> k_conns s' = k_conns s \<and> k_os s' = k_os s \<and> k_tag_indices s' = k_tag_indices s \<and>
     k_server_count s' = k_server_count s \<and> k_config_retry_scheduled s' = k_config_retry_scheduled s \<and>
     k_config_retry_timeout_id s' = k_config_retry_timeout_id s \<and> k_max_age s' = k_max_age s \<and> logs (k_log s')"

lemma logging_trans: "logging s s1 \<Longrightarrow> logging s1 s2 \<Longrightarrow> logging s s2"
  by (simp add: logging_def)

lemma logging_wf: "fake_wf s \<Longrightarrow> logging s s' \<Longrightarrow> fake_wf s'"
  by (simp add: fake_wf_def logging_def)

lemma logging_expected: "logging s s' \<Longrightarrow> expected s' = (expected s)(SendTimer := send_slot s')"
proof
  fix c
  assume "logging s s'"
  then show "expected s' c = ((expected s)(SendTimer := send_slot s')) c"
    by (cases c) (simp_all add: waiting_def logging_def)
qed

subsection \<open>Changes of tags and connections\<close>

lemma remove_watch_set: "set (remove_watch fd es) \<subseteq> set es"
  by (induction es) auto

lemma remove_watch_distinct: "distinct (map fst es) \<Longrightarrow> distinct (map fst (remove_watch fd es))"
proof (induction es)
  case (Cons e es)
  then show ?case
    using remove_watch_set [of fd es] by auto
qed simp

lemma remove_watch_gone: "distinct (map fst es) \<Longrightarrow> (fd, i) \<notin> set (remove_watch fd es)"
  by (induction es) (auto simp: rev_image_eqI)

lemma watch_ok_close:
  assumes w: "watch_ok tags fds" and i: "i < length tags"
  shows "watch_ok (tags[i := t]) (remove_watch (t_fd (tags ! i)) fds)"
proof -
  have d: "distinct (map fst fds)" and m: "\<And>fd j. (fd, j) \<in> set fds \<Longrightarrow> j < length tags \<and> (j \<noteq> 0 \<longrightarrow> t_fd (tags ! j) = fd \<and> fd \<noteq> -1)"
    using w by (auto simp: watch_ok_def)
  have "j < length tags \<and> (j \<noteq> 0 \<longrightarrow> t_fd (tags[i := t] ! j) = fd \<and> fd \<noteq> -1)"
    if "(fd, j) \<in> set (remove_watch (t_fd (tags ! i)) fds)" for fd j
  proof -
    have e: "(fd, j) \<in> set fds"
      using that remove_watch_set by blast
    show ?thesis
    proof (cases "j = i \<and> j \<noteq> 0")
      case True
      then have "t_fd (tags ! i) = fd"
        using m [OF e] by blast
      with that remove_watch_gone [OF d, of fd j] show ?thesis
        by simp
    next
      case False
      with m [OF e] show ?thesis
        by auto
    qed
  qed
  then show ?thesis
    using remove_watch_distinct [OF d] by (auto simp: watch_ok_def)
qed

lemma watch_ok_remove: "watch_ok tags fds \<Longrightarrow> watch_ok tags (remove_watch fd fds)"
  using remove_watch_set [of fd fds] remove_watch_distinct [of fds fd] by (auto simp: watch_ok_def)

lemma watch_ok_server: "watch_ok tags fds \<Longrightarrow> watch_ok (tags[0 := t]) fds"
  by (auto simp: watch_ok_def)

lemma watch_ok_same: "watch_ok tags fds \<Longrightarrow> t_fd t = t_fd (tags ! i) \<Longrightarrow> watch_ok (tags[i := t]) fds"
proof -
  assume w: "watch_ok tags fds" and t: "t_fd t = t_fd (tags ! i)"
  have "t_fd (tags[i := t] ! j) = t_fd (tags ! j)" for j
    using t by (cases "j = i"; cases "i < length tags") (simp_all add: list_update_beyond)
  with w show ?thesis
    by (auto simp: watch_ok_def)
qed

lemma wf_tag:
  assumes "fake_wf s" "i < 21" "tag_ok i t" "watch_ok ((k_tags s)[i := t]) (ko_fds k)" "os_ok k"
  shows "fake_wf (s\<lparr>k_tags := (k_tags s)[i := t], k_os := k\<rparr>)"
  using assms by (auto simp: fake_wf_def nth_list_update)

lemma wf_conn:
  assumes "fake_wf s" "i < 21" "conn_ok i c"
  shows "fake_wf (s\<lparr>k_conns := (k_conns s)[i := c]\<rparr>)"
  using assms by (auto simp: fake_wf_def nth_list_update)

lemma wf_at:
  assumes "fake_wf s" "i < 21"
  shows "tag_at s i = Inr (k_tags s ! i)" "conn_at s i = Inr (k_conns s ! i)" "tag_ok i (k_tags s ! i)" "conn_ok i (k_conns s ! i)"
    "i < length (k_tags s)" "i < length (k_conns s)"
  using assms by (simp_all add: fake_wf_def tag_at_def conn_at_def)

text \<open>A change of one connection that leaves its denial as it was.\<close>

definition touch :: "nat \<Rightarrow> 'w fake \<Rightarrow> 'w fake \<Rightarrow> bool" where
  "touch i s s' \<longleftrightarrow> k_tags s' = k_tags s \<and> length (k_conns s') = length (k_conns s) \<and> (\<forall>j. j \<noteq> i \<longrightarrow> k_conns s' ! j = k_conns s ! j) \<and>
     conn_ok i (k_conns s' ! i) \<and> (c_position (k_conns s' ! i) = WAIT_DENIAL \<longleftrightarrow> c_position (k_conns s ! i) = WAIT_DENIAL) \<and>
     c_denial_timeout (k_conns s' ! i) = c_denial_timeout (k_conns s ! i) \<and>
     k_log s' = k_log s \<and> k_world s' = k_world s \<and> k_timeout_scheduled s' = k_timeout_scheduled s \<and> k_timeout_id s' = k_timeout_id s \<and>
     k_config_retry_scheduled s' = k_config_retry_scheduled s \<and> k_config_retry_timeout_id s' = k_config_retry_timeout_id s \<and>
     k_tag_indices s' = k_tag_indices s \<and> k_server_count s' = k_server_count s \<and> ko_fds (k_os s') = ko_fds (k_os s) \<and> os_ok (k_os s')"

lemma touch_trans: "touch i s s1 \<Longrightarrow> touch i s1 s2 \<Longrightarrow> touch i s s2"
  by (auto simp: touch_def)

lemma touch_expected: "touch i s s' \<Longrightarrow> expected s' = expected s"
proof
  fix c
  assume t: "touch i s s'"
  have "waiting s' j = waiting s j \<and> c_denial_timeout (k_conns s' ! j) = c_denial_timeout (k_conns s ! j)" for j
    using t by (cases "j = i") (auto simp: waiting_def touch_def)
  with t show "expected s' c = expected s c"
    by (cases c) (simp_all add: touch_def send_slot_def)
qed

lemma touch_wf: "fake_wf s \<Longrightarrow> touch i s s' \<Longrightarrow> fake_wf s'"
proof -
  assume wf: "fake_wf s" and t: "touch i s s'"
  have "conn_ok j (k_conns s' ! j)" if "j < 21" for j
    using wf t that by (cases "j = i") (simp_all add: fake_wf_def touch_def)
  with wf t show ?thesis
    by (simp add: fake_wf_def touch_def)
qed

lemma touch_conn:
  assumes "fake_wf s" "i < 21" "conn_ok i (f (k_conns s ! i))"
    "c_position (f (k_conns s ! i)) = WAIT_DENIAL \<longleftrightarrow> c_position (k_conns s ! i) = WAIT_DENIAL"
    "c_denial_timeout (f (k_conns s ! i)) = c_denial_timeout (k_conns s ! i)"
  shows "touch i s (conn_set s i f)"
  using assms by (simp add: touch_def conn_set_def fake_wf_def)

lemma touch_os:
  assumes "fake_wf s" "i < 21" "ko_fds k = ko_fds (k_os s)" "os_ok k"
  shows "touch i s (s\<lparr>k_os := k\<rparr>)"
  using assms by (simp add: touch_def fake_wf_def)

lemma send_rounds_results:
  "send_rounds rs data = (err, rs', out) \<Longrightarrow> set rs' \<subseteq> set rs \<and> (\<forall>e. err = Some e \<longrightarrow> SendFailed e \<in> set rs)"
proof (induction rs data arbitrary: out rule: send_rounds.induct)
  case (3 n rs v va)
  then show ?case
    by (auto split: prod.splits)
qed auto

lemma send_all_touch:
  assumes wf: "fake_wf s" and i: "i < 21"
  shows "\<exists>b s'. send_all s i data = Inr (b, s') \<and> touch i s s'"
proof -
  note at = wf_at [OF wf i]
  obtain err rs out where r: "send_rounds (ko_sends (k_os s)) data = (err, rs, out)"
    by (cases "send_rounds (ko_sends (k_os s)) data") auto
  note rs = send_rounds_results [OF r]
  let ?s = "s\<lparr>k_os := (k_os s)\<lparr>ko_sends := rs, ko_written := ko_written (k_os s) @ [(c_fd (k_conns s ! i), out)]\<rparr>\<rparr>"
  have t: "touch i s ?s"
    using wf rs by (intro touch_os [OF wf i]) (auto simp: fake_wf_def os_ok_def)
  show ?thesis
  proof (cases err)
    case None
    then show ?thesis
      using t by (auto simp: send_all_def at(2) r Let_def)
  next
    case (Some e)
    have "length e < 2 ^ 32"
      using wf rs Some by (simp add: fake_wf_def os_ok_def)
    then have "touch i ?s (conn_set ?s i (\<lambda>c. c\<lparr>c_close_reason := Some (case c_close_reason c of None \<Rightarrow> e | Some r \<Rightarrow> r)\<rparr>))"
      using at(4) by (intro touch_conn [OF touch_wf [OF wf t] i]) (auto simp: conn_ok_def split: option.splits)
    with t Some show ?thesis
      by (auto simp: send_all_def at(2) r Let_def intro: touch_trans)
  qed
qed

text \<open>The addresses with attempts after an event.\<close>

definition ids_after :: "event_type \<Rightarrow> fd_tag \<Rightarrow> fake_log \<Rightarrow> bytes set" where
  "ids_after type t l = (if type = EVENT_LOGIN then insert (login_id (d_code (t_desc t)) (sa_addr (t_rem_addr t))) (login_ids l) else login_ids l)"

text \<open>The kernel gives descriptors that are not in use.\<close>

definition fresh_accept :: "'w fake \<Rightarrow> bool" where
  "fresh_accept s \<longleftrightarrow> (\<forall>new x. next_of None (ko_accepts (k_os s)) = Some (new, x) \<longrightarrow> new \<noteq> -1 \<and> new \<notin> fst ` set (ko_fds (k_os s)))"

definition fresh_socket :: "'w fake \<Rightarrow> bool" where
  "fresh_socket s \<longleftrightarrow> next_of (-1) (ko_sockets (k_os s)) \<notin> fst ` set (ko_fds (k_os s))"

lemma find_empty_some: "find_empty tags i n = Some j \<Longrightarrow> i \<le> j \<and> j < i + n \<and> t_fd (tags ! j) = -1"
  by (induction tags i n rule: find_empty.induct) (auto split: if_splits)

lemma unknown_command_length: "length (unknown_command cmd) < 2 ^ 32"
  by (simp add: unknown_command_def ascii_def Let_def)

lemma infos_pushed:
  assumes "\<forall>t \<in> {reason, username, password}. \<forall>c. t = Some c \<longrightarrow> length c < 2 ^ 32"
  shows "\<exists>infos. rbind (push_info [] reason EI_REASON) (\<lambda>infos. rbind (push_info infos username EI_NAME) (\<lambda>infos.
      rbind (push_info infos password EI_PASSWORD) k)) = k infos \<and> good_info infos"
proof -
  let ?r = "case reason of None \<Rightarrow> [] | Some c \<Rightarrow> [(EI_REASON, c)]"
  let ?c = "(case username of None \<Rightarrow> [] | Some c \<Rightarrow> [(EI_NAME, c)]) @ (case password of None \<Rightarrow> [] | Some c \<Rightarrow> [(EI_PASSWORD, c)])"
  have "rbind (push_info [] reason EI_REASON) (\<lambda>infos. rbind (push_info infos username EI_NAME) (\<lambda>infos.
      rbind (push_info infos password EI_PASSWORD) k)) = k (?r @ ?c)"
    by (cases reason; cases username; cases password) (simp_all add: push_info_def MAX_INFOS_def)
  moreover have "good_info (?r @ ?c)"
    unfolding good_info_def
  proof (intro conjI)
    show "\<exists>xs ys. ?r @ ?c = xs @ ys \<and> (\<forall>i \<in> set xs. fst i = EI_REASON) \<and> (\<forall>i \<in> set ys. fst i = EI_NAME \<or> fst i = EI_PASSWORD)"
      by (rule exI [of _ ?r], rule exI [of _ ?c]) (auto split: option.splits)
    show "length (?r @ ?c) < 16"
      by (simp split: option.splits)
    show "\<forall>i \<in> set (?r @ ?c). length (snd i) < 2 ^ 32"
      using assms by (auto split: option.splits)
  qed
  ultimately show ?thesis
    by blast
qed

subsection \<open>Operations over the services\<close>

locale fake_client = plugin_services sv inv mine
  for sv :: "(fake_timer, 'w) services" and inv :: "'w \<Rightarrow> bool" and mine :: "'w \<Rightarrow> (u64 \<times> fake_timer) set"
begin

lemma add_pending:
  assumes "inv w" "pending (mine w) f" "f c = {}"
  shows "safe (\<lambda>(i, w'). inv w' \<and> pending (mine w') (f(c := {i})) \<and> sv_now sv w' = sv_now sv w) (sv_timeout_add sv w after c)"
  by (rule safe_mono [OF add_ok [OF assms(1)]]) (auto intro: pending_add [OF assms(2) _ assms(3)])

lemma cancel_pending:
  assumes "inv w" "pending (mine w) f" "f c = {i}"
  shows "safe (\<lambda>w'. inv w' \<and> pending (mine w') (f(c := {})) \<and> sv_now sv w' = sv_now sv w) (sv_timeout_cancel sv w i)"
  by (rule safe_mono [OF cancel_ok [OF assms(1) pending_cancel(1) [OF assms(2,3)]]])
     (simp add: pending_cancel(2) [OF assms(2,3)])

definition fine :: "(fake_timer \<Rightarrow> u64 set) \<Rightarrow> 'w fake \<Rightarrow> bool" where
  "fine f s \<longleftrightarrow> inv (k_world s) \<and> pending (mine (k_world s)) f \<and> logs (k_log s) \<and> f SendTimer = send_slot s"

definition logged_to :: "(fake_timer \<Rightarrow> u64 set) \<Rightarrow> 'w fake \<Rightarrow> 'w fake \<Rightarrow> bool" where
  "logged_to f s s' \<longleftrightarrow> logging s s' \<and> fine (f(SendTimer := send_slot s')) s'"

lemma log_send_safe:
  assumes "fine f s"
  shows "safe (\<lambda>(sent, s'). logged_to f s s' \<and> login_ids (k_log s') \<subseteq> login_ids (k_log s) \<and> (sent \<longrightarrow> \<not> k_timeout_scheduled s') \<and> (k_timeout_scheduled s' \<longrightarrow> k_timeout_scheduled s))
    (log_send sv s force)"
proof (cases "\<not> force \<and> \<not> sv_connected sv (k_world s)")
  case True
  then show ?thesis
    using assms by (auto simp: log_send_def logged_to_def logging_def fine_def fun_upd_idem)
next
  case False
  have w: "inv (k_world s)" "pending (mine (k_world s)) f" "logs (k_log s)" "f SendTimer = send_slot s"
    using assms by (simp_all add: fine_def)
  have sent: "safe (\<lambda>(ok, w'). inv w' \<and> pending (mine w') f)
      (case msg of None \<Rightarrow> Inr (False, k_world s) | Some m \<Rightarrow> sv_send sv (k_world s) m)" for msg
    by (cases msg) (use w in \<open>auto intro!: safe_mono [OF send_ok]\<close>)
  have rest: "safe (\<lambda>(sent, s'). logged_to f s s' \<and> login_ids (k_log s') \<subseteq> login_ids (k_log s) \<and> (sent \<longrightarrow> \<not> k_timeout_scheduled s') \<and> (k_timeout_scheduled s' \<longrightarrow> k_timeout_scheduled s))
      (if force \<or> success then
         rbind (log_clean (sv_now sv w') (k_log s)) (\<lambda>l.
           if k_timeout_scheduled s then
             rbind (sv_timeout_cancel sv w' (k_timeout_id s)) (\<lambda>w.
               Inr (True, s\<lparr>k_log := l, k_timeout_missed := False, k_world := w, k_timeout_scheduled := False\<rparr>))
           else Inr (True, s\<lparr>k_world := w', k_log := l, k_timeout_missed := False\<rparr>))
       else Inr (False, s\<lparr>k_world := w'\<rparr>))" if w': "inv w'" "pending (mine w') f" for success w'
  proof (cases "force \<or> success")
    case True
    obtain l where l: "log_clean (sv_now sv w') (k_log s) = Inr l" "log_shows l []" "login_ids l \<subseteq> login_ids (k_log s)"
      using log_clean_ok w(3) unfolding logs_def by blast
    show ?thesis
    proof (cases "k_timeout_scheduled s")
      case on: True
      have "safe (\<lambda>w''. inv w'' \<and> pending (mine w'') (f(SendTimer := {})) \<and> sv_now sv w'' = sv_now sv w') (sv_timeout_cancel sv w' (k_timeout_id s))"
        by (rule cancel_pending [OF w']) (use w(4) on in \<open>simp add: send_slot_def\<close>)
      then show ?thesis
        using True on l by (auto intro!: safe_bind simp: logged_to_def logging_def fine_def send_slot_def logs_def)
    next
      case False
      have "f(SendTimer := {}) = f"
        using w(4) False by (simp add: send_slot_def fun_upd_idem)
      then show ?thesis
        using True False l w' by (auto simp: logged_to_def logging_def fine_def send_slot_def logs_def)
    qed
  next
    case False
    have "f(SendTimer := send_slot s) = f"
      using w(4) by (simp add: fun_upd_idem)
    then show ?thesis
      using False w w' by (auto simp: logged_to_def logging_def fine_def send_slot_def)
  qed
  have eq: "log_send sv s force = rbind (log_dump (sv_now sv (k_world s)) (k_log s)) (\<lambda>msg.
      rbind (case msg of None \<Rightarrow> Inr (False, k_world s) | Some m \<Rightarrow> sv_send sv (k_world s) m) (\<lambda>(success, w').
        if force \<or> success then
         rbind (log_clean (sv_now sv w') (k_log s)) (\<lambda>l.
           if k_timeout_scheduled s then
             rbind (sv_timeout_cancel sv w' (k_timeout_id s)) (\<lambda>w.
               Inr (True, s\<lparr>k_log := l, k_timeout_missed := False, k_world := w, k_timeout_scheduled := False\<rparr>))
           else Inr (True, s\<lparr>k_world := w', k_log := l, k_timeout_missed := False\<rparr>))
        else Inr (False, s\<lparr>k_world := w'\<rparr>)))"
    unfolding log_send_def if_not_P [OF False] Let_def by (intro rbind_cong HOL.refl prod.case_cong) (auto simp: split_beta intro!: rbind_cong)
  show ?thesis
    unfolding eq
    by (rule safe_bind [OF log_dump_safe]) (auto intro!: safe_bind [OF sent] rest)
qed

lemma schedule_safe:
  assumes "fine f s" "\<not> k_timeout_scheduled s"
  shows "safe (\<lambda>s'. logged_to f s s' \<and> k_log s' = k_log s) (schedule_timeout sv s)"
proof -
  have w: "inv (k_world s)" "pending (mine (k_world s)) f" "logs (k_log s)" "f SendTimer = {}"
    using assms by (simp_all add: fine_def send_slot_def)
  show ?thesis
    unfolding schedule_timeout_def
    by (rule safe_bind [OF add_pending [OF w(1,2,4)]])
       (use w(3) in \<open>auto simp: logged_to_def logging_def fine_def send_slot_def\<close>)
qed

lemma logged_trans: "logged_to f s s1 \<Longrightarrow> logged_to (f(SendTimer := send_slot s1)) s1 s2 \<Longrightarrow> logged_to f s s2"
  by (auto simp: logged_to_def dest: logging_trans)

lemma logged_fine: "logged_to f s s' \<Longrightarrow> fine (f(SendTimer := send_slot s')) s'"
  by (simp add: logged_to_def)

lemma log_wrapper_safe:
  assumes s: "fine f s" and t: "addr_ok (t_rem_addr t)" "addr_ok (t_loc_addr t)"
    and texts: "\<forall>t \<in> {reason, username, password}. \<forall>c. t = Some c \<longrightarrow> length c < 2 ^ 32"
    and clash: "type = EVENT_LOGIN \<Longrightarrow> no_clash (k_log s) t"
  shows "safe (\<lambda>s'. logged_to f s s' \<and> login_ids (k_log s') \<subseteq> ids_after type t (k_log s)) (log_wrapper sv s t type reason username password)"
proof -
  let ?k = "\<lambda>infos. rbind (log_event (sv_now sv (k_world s)) (k_log s) (d_code (t_desc t)) (sa_addr (t_rem_addr t)) (sa_addr (t_loc_addr t))
      16 (sa_port (t_rem_addr t)) type infos) (\<lambda>(status, l).
    let s = s\<lparr>k_log := l\<rparr>
    in rbind (if status \<noteq> LS_NONE then log_send sv s (status = LS_FORCE_SEND) else Inr (False, s)) (\<lambda>(sent, s).
         if \<not> k_timeout_scheduled s \<and> k_max_age s \<noteq> 0 \<and> \<not> sent then schedule_timeout sv s else Inr s))"
  obtain infos where i: "log_wrapper sv s t type reason username password =
      sanity (sa_inet6 (t_rem_addr t)) (sanity (sa_inet6 (t_loc_addr t)) (?k infos))" "good_info infos"
    using infos_pushed [OF texts, of ?k] unfolding log_wrapper_def by metis
  obtain es where "log_shows (k_log s) es"
    using s by (auto simp: fine_def logs_def)
  from log_event_ok [OF this, of "sa_addr (t_rem_addr t)" "sa_addr (t_loc_addr t)" infos type "d_code (t_desc t)" "sv_now sv (k_world s)" "sa_port (t_rem_addr t)"]
  obtain l where l: "log_event (sv_now sv (k_world s)) (k_log s) (d_code (t_desc t)) (sa_addr (t_rem_addr t)) (sa_addr (t_loc_addr t))
      16 (sa_port (t_rem_addr t)) type infos = Inr (log_status l, l)" "logs l" "login_ids l = ids_after type t (k_log s)"
    using t i(2) no_clash_fits [OF clash] by (auto simp: addr_ok_def ids_after_def logs_def)
  let ?s = "s\<lparr>k_log := l\<rparr>"
  have s1: "fine f ?s" and lg: "logging s ?s" and slot: "send_slot ?s = send_slot s" "f(SendTimer := send_slot s) = f"
    using s l(2) by (auto simp: fine_def logging_def send_slot_def fun_upd_idem)
  have to: "logged_to f s ?s"
    using s1 lg slot by (simp add: logged_to_def)
  have send: "safe (\<lambda>(sent, s'). logged_to f s s' \<and> login_ids (k_log s') \<subseteq> login_ids l)
      (if log_status l \<noteq> LS_NONE then log_send sv ?s (log_status l = LS_FORCE_SEND) else Inr (False, ?s))"
  proof (cases "log_status l = LS_NONE")
    case False
    have "safe (\<lambda>(sent, s'). logged_to f s s' \<and> login_ids (k_log s') \<subseteq> login_ids l) (log_send sv ?s (log_status l = LS_FORCE_SEND))"
      by (rule safe_mono [OF log_send_safe [OF s1]]) (auto intro: logged_trans [OF to] simp: slot)
    with False show ?thesis
      by simp
  qed (use to in simp)
  have "safe (\<lambda>s'. logged_to f s s' \<and> login_ids (k_log s') \<subseteq> ids_after type t (k_log s)) (?k infos)"
    unfolding l(1) rbind_Inr prod.case Let_def
  proof (rule safe_bind [OF send])
    fix p :: "bool \<times> 'w fake"
    obtain sent s2 where p: "p = (sent, s2)" by (cases p)
    assume "case p of (sent, s') \<Rightarrow> logged_to f s s' \<and> login_ids (k_log s') \<subseteq> login_ids l"
    then have s2: "logged_to f s s2" "login_ids (k_log s2) \<subseteq> ids_after type t (k_log s)"
      using l(3) by (simp_all add: p)
    have "safe (\<lambda>s'. logged_to f s s' \<and> login_ids (k_log s') \<subseteq> ids_after type t (k_log s)) (schedule_timeout sv s2)" if "\<not> k_timeout_scheduled s2"
      by (rule safe_mono [OF schedule_safe [OF logged_fine [OF s2(1)] that]]) (use s2 in \<open>auto intro: logged_trans\<close>)
    with s2 show "safe (\<lambda>s'. logged_to f s s' \<and> login_ids (k_log s') \<subseteq> ids_after type t (k_log s))
        (case p of (sent, s) \<Rightarrow> if \<not> k_timeout_scheduled s \<and> k_max_age s \<noteq> 0 \<and> \<not> sent then schedule_timeout sv s else Inr s)"
      by (simp add: p)
  qed
  then show ?thesis
    unfolding i(1) by (intro safe_sanity)
qed

definition ok :: "'w fake \<Rightarrow> bool" where
  "ok s \<longleftrightarrow> fake_wf s \<and> fine (expected s) s"

lemma ok_fine: "fake_wf s \<Longrightarrow> fine f s \<Longrightarrow> f = expected s \<Longrightarrow> ok s"
  by (simp add: ok_def)

lemma conn_closed_safe:
  assumes wf: "fake_wf s" and s: "fine f s" "f = (expected s)(Denial i := {})" and i: "i < 21" "i \<noteq> 0"
    and reason: "\<forall>r. reason = Some r \<longrightarrow> length r < 2 ^ 32"
  shows "safe (\<lambda>s'. ok s' \<and> t_closed (k_tags s' ! i) \<and> login_ids (k_log s') \<subseteq> login_ids (k_log s)) (conn_closed sv s i error reason)"
proof -
  note at = wf_at [OF wf i(1)]
  let ?t = "k_tags s ! i"
  have log: "safe (\<lambda>s'. logged_to f s s' \<and> login_ids (k_log s') \<subseteq> login_ids (k_log s))
      (if t_closed ?t then Inr s else log_wrapper sv s ?t (if error then EVENT_LOST else EVENT_DISCONNECT) reason None None)"
  proof (cases "t_closed ?t")
    case True
    have "logged_to f s s"
      using s(1) by (simp add: logged_to_def logging_def fine_def fun_upd_idem)
    with True show ?thesis
      by simp
  next
    case False
    have "safe (\<lambda>s'. logged_to f s s' \<and> login_ids (k_log s') \<subseteq> ids_after (if error then EVENT_LOST else EVENT_DISCONNECT) ?t (k_log s))
        (log_wrapper sv s ?t (if error then EVENT_LOST else EVENT_DISCONNECT) reason None None)"
      by (rule log_wrapper_safe [OF s(1)]) (use at(3) reason in \<open>auto simp: tag_ok_def split: if_splits\<close>)
    with False show ?thesis
      by (auto simp: ids_after_def split: if_splits elim: safe_mono)
  qed
  have rest: "safe (\<lambda>s'. ok s' \<and> t_closed (k_tags s' ! i) \<and> login_ids (k_log s') \<subseteq> login_ids (k_log s))
      (let s = tag_set s1 i (\<lambda>t. t\<lparr>t_closed := True\<rparr>)
       in rbind (if t_inactivity_timeout_active (k_tags s ! i) then
                   rbind (sv_timeout_cancel sv (k_world s) (t_inactivity_timeout (k_tags s ! i))) (\<lambda>w.
                     Inr (tag_set (s\<lparr>k_world := w\<rparr>) i (\<lambda>t. t\<lparr>t_inactivity_timeout_active := False\<rparr>)))
                 else Inr s) (\<lambda>s.
            Inr (tag_set (s\<lparr>k_os := unwatch_fd (t_fd (k_tags s ! i)) (k_os s)\<rparr>) i (\<lambda>t. t\<lparr>t_fd := -1\<rparr>))))"
    if to: "logged_to f s s1" and ids: "login_ids (k_log s1) \<subseteq> login_ids (k_log s)" for s1
  proof -
    have lg: "k_tags s1 = k_tags s" "k_conns s1 = k_conns s" "k_os s1 = k_os s" and wf1: "fake_wf s1"
      using to logging_wf [OF wf] by (auto simp: logged_to_def logging_def)
    have f1: "fine (f(SendTimer := send_slot s1)) s1"
      by (rule logged_fine [OF to])
    define f2 where "f2 = f(SendTimer := send_slot s1, Inactive i := {})"
    define t' where "t' = ?t\<lparr>t_closed := True, t_inactivity_timeout_active := False, t_fd := -1\<rparr>"
    let ?k = "(k_os s)\<lparr>ko_fds := remove_watch (t_fd ?t) (ko_fds (k_os s))\<rparr>"
    have final: "ok (s1\<lparr>k_world := w, k_tags := (k_tags s)[i := t'], k_os := ?k\<rparr>)"
      if w: "inv w" "pending (mine w) f2" for w
    proof (rule ok_fine)
      have "fake_wf ((s1\<lparr>k_world := w\<rparr>)\<lparr>k_tags := (k_tags (s1\<lparr>k_world := w\<rparr>))[i := t'], k_os := ?k\<rparr>)"
      proof (rule wf_tag [OF _ i(1)])
        show "fake_wf (s1\<lparr>k_world := w\<rparr>)"
          using wf1 by (simp add: fake_wf_def)
        show "tag_ok i t'"
          using at(3) by (simp add: tag_ok_def t'_def)
        show "watch_ok ((k_tags (s1\<lparr>k_world := w\<rparr>))[i := t']) (ko_fds ?k)"
          using wf at(5) by (simp add: lg watch_ok_close fake_wf_def)
        show "os_ok ?k"
          using wf by (simp add: fake_wf_def os_ok_def)
      qed
      then show "fake_wf (s1\<lparr>k_world := w, k_tags := (k_tags s)[i := t'], k_os := ?k\<rparr>)"
        by (simp add: lg)
      show "fine f2 (s1\<lparr>k_world := w, k_tags := (k_tags s)[i := t'], k_os := ?k\<rparr>)"
        using w f1 by (simp add: fine_def f2_def send_slot_def)
      show "f2 = expected (s1\<lparr>k_world := w, k_tags := (k_tags s)[i := t'], k_os := ?k\<rparr>)"
      proof
        fix c
        show "f2 c = expected (s1\<lparr>k_world := w, k_tags := (k_tags s)[i := t'], k_os := ?k\<rparr>) c"
          using to at(5,6) by (cases c) (auto simp: f2_def s(2) waiting_def lg send_slot_def t'_def nth_list_update logged_to_def logging_def)
      qed
    qed
    have active: "safe (\<lambda>w. inv w \<and> pending (mine w) f2) (if t_inactivity_timeout_active ?t then sv_timeout_cancel sv (k_world s1) (t_inactivity_timeout ?t) else Inr (k_world s1))"
    proof (cases "t_inactivity_timeout_active ?t")
      case True
      have "safe (\<lambda>w'. inv w' \<and> pending (mine w') ((f(SendTimer := send_slot s1))(Inactive i := {})) \<and> sv_now sv w' = sv_now sv (k_world s1))
          (sv_timeout_cancel sv (k_world s1) (t_inactivity_timeout ?t))"
        by (rule cancel_pending) (use f1 True at(5) in \<open>auto simp: fine_def s(2)\<close>)
      with True show ?thesis
        by (auto simp: f2_def elim: safe_mono)
    next
      case False
      then have "f2 = f(SendTimer := send_slot s1)"
        by (simp add: f2_def s(2) fun_upd_idem)
      with False f1 show ?thesis
        by (simp add: fine_def)
    qed
    have idle: "?t\<lparr>t_closed := True, t_inactivity_timeout_active := False, t_fd := -1\<rparr> = ?t\<lparr>t_closed := True, t_fd := -1\<rparr>"
      if "\<not> t_inactivity_timeout_active ?t"
      using that by (cases ?t) simp
    have eq: "(let s = tag_set s1 i (\<lambda>t. t\<lparr>t_closed := True\<rparr>)
       in rbind (if t_inactivity_timeout_active (k_tags s ! i) then
                   rbind (sv_timeout_cancel sv (k_world s) (t_inactivity_timeout (k_tags s ! i))) (\<lambda>w.
                     Inr (tag_set (s\<lparr>k_world := w\<rparr>) i (\<lambda>t. t\<lparr>t_inactivity_timeout_active := False\<rparr>)))
                 else Inr s) (\<lambda>s.
            Inr (tag_set (s\<lparr>k_os := unwatch_fd (t_fd (k_tags s ! i)) (k_os s)\<rparr>) i (\<lambda>t. t\<lparr>t_fd := -1\<rparr>)))) =
      rbind (if t_inactivity_timeout_active ?t then sv_timeout_cancel sv (k_world s1) (t_inactivity_timeout ?t) else Inr (k_world s1)) (\<lambda>w.
        Inr (s1\<lparr>k_world := w, k_tags := (k_tags s)[i := t'], k_os := ?k\<rparr>))"
      using at(5) by (auto simp: tag_set_def unwatch_fd_def lg t'_def rbind_assoc Let_def idle intro!: rbind_cong)
    show ?thesis
      unfolding eq by (rule safe_bind [OF active]) (use final ids lg at(5) in \<open>auto simp: t'_def\<close>)
  qed
  show ?thesis
    unfolding conn_closed_def at(1) rbind_Inr by (rule safe_bind [OF log]) (use rest in auto)
qed

lemma touch_ok: "ok s \<Longrightarrow> touch i s s' \<Longrightarrow> ok s'"
  using touch_wf [of s i s'] touch_expected [of i s s'] by (simp add: ok_def fine_def send_slot_def touch_def)

lemma logged_ok: "fake_wf s \<Longrightarrow> logged_to (expected s) s s' \<Longrightarrow> ok s'"
  by (auto simp: ok_def logged_to_def logging_expected intro: logging_wf)

lemma do_close_safe:
  assumes s: "ok s" and i: "i < 21" "i \<noteq> 0" and opened: "t_fd (k_tags s ! i) \<noteq> -1"
  shows "safe (\<lambda>s'. ok s' \<and> t_closed (k_tags s' ! i)) (do_close sv s i error)"
proof -
  have wf: "fake_wf s" and f: "fine (expected s) s"
    using s by (simp_all add: ok_def)
  note at = wf_at [OF wf i(1)]
  let ?c = "k_conns s ! i" and ?f = "(expected s)(Denial i := {})"
  have cancelled: "safe (\<lambda>w. inv w \<and> pending (mine w) ?f)
      (if c_position ?c = WAIT_DENIAL then sv_timeout_cancel sv (k_world s) (c_denial_timeout ?c) else Inr (k_world s))"
  proof (cases "c_position ?c = WAIT_DENIAL")
    case True
    have "safe (\<lambda>w'. inv w' \<and> pending (mine w') ?f \<and> sv_now sv w' = sv_now sv (k_world s)) (sv_timeout_cancel sv (k_world s) (c_denial_timeout ?c))"
      by (rule cancel_pending) (use f True opened at(6) in \<open>auto simp: fine_def waiting_def\<close>)
    with True show ?thesis
      by (auto elim: safe_mono)
  next
    case False
    then have "?f = expected s"
      by (simp add: fun_upd_idem waiting_def)
    with False f show ?thesis
      by (simp add: fine_def)
  qed
  have closed: "safe (\<lambda>s'. ok s' \<and> t_closed (k_tags s' ! i)) (conn_closed sv (s\<lparr>k_world := w\<rparr>) i error (c_close_reason ?c))"
    if w: "inv w" "pending (mine w) ?f" for w
  proof -
    let ?s = "s\<lparr>k_world := w\<rparr>"
    have e: "expected ?s = expected s"
    proof
      show "expected ?s c = expected s c" for c
        by (cases c) (simp_all add: waiting_def send_slot_def)
    qed
    have "safe (\<lambda>s'. ok s' \<and> t_closed (k_tags s' ! i) \<and> login_ids (k_log s') \<subseteq> login_ids (k_log ?s)) (conn_closed sv ?s i error (c_close_reason ?c))"
      by (rule conn_closed_safe [where f = ?f]) (use wf w f i at(4) e in \<open>auto simp: fake_wf_def fine_def send_slot_def conn_ok_def\<close>)
    then show ?thesis
      by (auto elim: safe_mono)
  qed
  have "c_tag ?c = None \<or> c_tag ?c = Some i"
    using at(4) by (simp add: conn_ok_def)
  then show ?thesis
    unfolding do_close_def at(2) rbind_Inr
    by (intro safe_bind [OF cancelled]) (use closed in auto)
qed

definition good :: "nat \<Rightarrow> 'w fake \<Rightarrow> bool" where
  "good i s \<longleftrightarrow> ok s \<and> t_fd (k_tags s ! i) \<noteq> -1 \<and> no_clash (k_log s) (k_tags s ! i)"

lemma touch_good: "good i s \<Longrightarrow> touch j s s' \<Longrightarrow> good i s'"
  by (auto simp: good_def touch_ok) (simp_all add: touch_def)

lemma good_wf: "good i s \<Longrightarrow> fake_wf s"
  by (simp add: good_def ok_def)

lemma send_all_good:
  assumes "good i s" "i < 21"
  shows "safe (\<lambda>(b, s'). good i s' \<and> touch i s s') (send_all s i data)"
proof -
  obtain b s' where r: "send_all s i data = Inr (b, s')" "touch i s s'"
    using send_all_touch [OF good_wf [OF assms(1)] assms(2)] by blast
  show ?thesis
    using touch_good [OF assms(1) r(2)] r by simp
qed

lemma line_write_ok:
  assumes "conn_ok i c" "n < LINE_MAX"
  shows "\<exists>c'. line_write c b n ch = Inr c' \<and> conn_ok i c' \<and> c_position c' = c_position c \<and> c_denial_timeout c' = c_denial_timeout c \<and>
    c_line c' = c_line c \<and> c_tag c' = c_tag c \<and> c_close_reason c' = c_close_reason c"
  using assms by (cases b) (simp_all add: line_write_def buf_write_def conn_ok_def LINE_MAX_def)

lemma process_line_good:
  assumes s: "good i s" and i: "i < 21" "i \<noteq> 0"
  shows "safe (\<lambda>(b, s'). good i s') (process_line sv s i i)"
proof -
  have wf: "fake_wf s" and f: "fine (expected s) s"
    using s by (simp_all add: good_def ok_def)
  note at = wf_at [OF wf i(1)]
  let ?c = "k_conns s ! i"
  show ?thesis
  proof (cases "c_position ?c")
    case WANT_LOGIN
    show ?thesis
    proof (cases "c_line ?c")
      case (Some bn)
      obtain b n where bn: "bn = (b, n)" by (cases bn)
      obtain c' where c': "line_write ?c b n 0 = Inr c'" "conn_ok i c'" "c_position c' = WANT_LOGIN" "c_denial_timeout c' = c_denial_timeout ?c"
        using line_write_ok [OF at(4), of n b 0] at(4) Some WANT_LOGIN by (auto simp: bn conn_ok_def)
      let ?s = "conn_set s i (\<lambda>_. c'\<lparr>c_line := Some (Password, 0)\<rparr>)"
      have t: "touch i s ?s"
        using c' WANT_LOGIN by (intro touch_conn [OF wf i(1)]) (auto simp: conn_ok_def LINE_MAX_def)
      have asked: "safe (\<lambda>(b, s'). good i s' \<and> touch i ?s s') (ask_for ?s i (ascii ''password''))"
        unfolding ask_for_def by (rule send_all_good [OF touch_good [OF s t] i(1)])
      have "good i (conn_set s2 i (\<lambda>c. c\<lparr>c_position := WANT_PASSWORD\<rparr>))" if "good i s2" "touch i ?s s2" for s2
      proof (rule touch_good [OF that(1)], rule touch_conn [OF good_wf [OF that(1)] i(1)])
        have "c_position (k_conns s2 ! i) \<noteq> WAIT_DENIAL"
          using that(2) c' at(6) by (simp add: touch_def conn_set_def)
        then show "c_position ((k_conns s2 ! i)\<lparr>c_position := WANT_PASSWORD\<rparr>) = WAIT_DENIAL \<longleftrightarrow> c_position (k_conns s2 ! i) = WAIT_DENIAL"
          by simp
        show "conn_ok i ((k_conns s2 ! i)\<lparr>c_position := WANT_PASSWORD\<rparr>)"
          using wf_at(4) [OF good_wf [OF that(1)] i(1)] by (auto simp: conn_ok_def)
      qed simp
      then show ?thesis
        unfolding process_line_def at(2) rbind_Inr
        by (simp add: WANT_LOGIN Some bn c'(1)) (rule safe_bind [OF asked], auto)
    qed (simp add: process_line_def at WANT_LOGIN)
  next
    case WANT_PASSWORD
    have none: "expected s (Denial i) = {}"
      using WANT_PASSWORD by (simp add: waiting_def)
    have step: "safe (\<lambda>(b, s'). good i s')
        (case c_line ?c of
           None \<Rightarrow> Inl Sanity
         | Some (b, n) \<Rightarrow>
             rbind (line_write (?c\<lparr>c_position := WAIT_DENIAL, c_denial_timeout := id0\<rparr>) b n 0) (\<lambda>conn.
               rbind (conn_log_attempt sv (conn_set (s\<lparr>k_world := w\<rparr>) i (\<lambda>_. conn)) i (cstring (c_username conn)) (cstring (c_password conn))) (\<lambda>s.
                 Inr (True, conn_set s i (\<lambda>c. c\<lparr>c_line := None\<rparr>)))))"
      if w: "inv w" "pending (mine w) ((expected s)(Denial i := {id0}))" for id0 w
    proof (cases "c_line ?c")
      case (Some bn)
      obtain b n where bn: "bn = (b, n)" by (cases bn)
      have "conn_ok i (?c\<lparr>c_position := WAIT_DENIAL, c_denial_timeout := id0\<rparr>)" "n < LINE_MAX"
        using at(4) i Some bn by (auto simp: conn_ok_def)
      then obtain c' where c': "line_write (?c\<lparr>c_position := WAIT_DENIAL, c_denial_timeout := id0\<rparr>) b n 0 = Inr c'" "conn_ok i c'"
          "c_position c' = WAIT_DENIAL" "c_denial_timeout c' = id0"
        using line_write_ok [of i "?c\<lparr>c_position := WAIT_DENIAL, c_denial_timeout := id0\<rparr>" n b 0] by auto
      let ?s = "conn_set (s\<lparr>k_world := w\<rparr>) i (\<lambda>_. c')"
      have wf1: "fake_wf ?s"
        using wf_conn [of "s\<lparr>k_world := w\<rparr>" i c'] wf i(1) c'(2) by (simp add: conn_set_def fake_wf_def)
      have e: "expected ?s = (expected s)(Denial i := {id0})"
      proof
        show "expected ?s c = ((expected s)(Denial i := {id0})) c" for c
          using s c' at(6) by (cases c) (auto simp: waiting_def send_slot_def conn_set_def nth_list_update good_def)
      qed
      have f1: "fine (expected ?s) ?s"
        using w f unfolding e by (simp add: fine_def conn_set_def send_slot_def)
      have t: "k_tags ?s = k_tags s" "k_log ?s = k_log s"
        by (simp_all add: conn_set_def)
      have len: "length (cstring bs) < 2 ^ 32" if "length bs = LINE_MAX + 1" for bs
        using length_takeWhile_le [of "\<lambda>b. b \<noteq> 0" bs] that by (simp add: cstring_def LINE_MAX_def)
      have logged: "safe (\<lambda>s'. logged_to (expected ?s) ?s s' \<and> login_ids (k_log s') \<subseteq> ids_after EVENT_LOGIN (k_tags s ! i) (k_log ?s))
          (log_wrapper sv ?s (k_tags s ! i) EVENT_LOGIN None (Some (cstring (c_username c'))) (Some (cstring (c_password c'))))"
        by (rule log_wrapper_safe [OF f1]) (use at(3) s c'(2) len t in \<open>auto simp: tag_ok_def conn_ok_def good_def\<close>)
      have "good i (conn_set s2 i (\<lambda>c. c\<lparr>c_line := None\<rparr>))"
        if s2: "logged_to (expected ?s) ?s s2" "login_ids (k_log s2) \<subseteq> ids_after EVENT_LOGIN (k_tags s ! i) (k_log ?s)" for s2
      proof -
        have "ok s2"
          by (rule logged_ok [OF wf1 s2(1)])
        moreover have "k_tags s2 = k_tags s"
          using s2(1) t by (simp add: logged_to_def logging_def)
        moreover have "no_clash (k_log s2) (k_tags s ! i)"
          using s s2(2) t by (auto simp: good_def no_clash_def ids_after_def)
        ultimately have "good i s2"
          using s by (simp add: good_def)
        then show ?thesis
          by (rule touch_good [where j = i])
             (use wf_at(4) [OF good_wf [OF \<open>good i s2\<close>] i(1)] in \<open>intro touch_conn good_wf [OF \<open>good i s2\<close>] i; simp add: conn_ok_def\<close>)
      qed
      then show ?thesis
        using wf1 i(1) by (simp add: Some bn c'(1) conn_log_attempt_def wf_at(1) t) (rule safe_bind [OF logged], auto simp: t)
    qed simp
    show ?thesis
      unfolding process_line_def at(2) rbind_Inr
      by (simp add: WANT_PASSWORD, rule safe_bind [OF add_pending [where f = "expected s"]]) (use f none step in \<open>auto simp: fine_def\<close>)
  next
    case WAIT_DENIAL
    then show ?thesis
      using s by (simp add: process_line_def at)
  qed
qed

lemma conn_set_good:
  assumes "good i s" "i < 21" "conn_ok i (f (k_conns s ! i))"
    "c_position (f (k_conns s ! i)) = c_position (k_conns s ! i)" "c_denial_timeout (f (k_conns s ! i)) = c_denial_timeout (k_conns s ! i)"
  shows "good i (conn_set s i f)"
  by (rule touch_good [OF assms(1), of i], rule touch_conn [OF good_wf [OF assms(1)] assms(2)]) (use assms(3-5) in simp_all)

lemma good_conn: "good i s \<Longrightarrow> i < 21 \<Longrightarrow> conn_ok i (k_conns s ! i)"
  using wf_at(4) [OF good_wf] .

lemma protocol_error_good:
  assumes s: "good i s" and i: "i < 21" and m: "length message < 2 ^ 32"
  shows "safe (\<lambda>(b, s'). good i s') (protocol_error s i message)"
proof -
  let ?s = "conn_set s i (\<lambda>c. c\<lparr>c_protocol_error := True, c_close_reason := Some (case c_close_reason c of None \<Rightarrow> message | Some r \<Rightarrow> r)\<rparr>)"
  have "good i ?s"
    by (rule conn_set_good [OF s i]) (use good_conn [OF s i] m in \<open>auto simp: conn_ok_def split: option.splits\<close>)
  from send_all_good [OF this i] show ?thesis
    unfolding protocol_error_def wf_at(2) [OF good_wf [OF s] i] rbind_Inr by (rule safe_bind) auto
qed

lemma cmd_handle_good:
  assumes s: "good i s" and i: "i < 21"
  shows "safe (\<lambda>(b, s'). good i s') (cmd_handle s i cmd)"
proof -
  note c = good_conn [OF s i]
  have set: "good i (conn_set s i (\<lambda>c. c\<lparr>c_expect := e\<rparr>))" "good i (conn_set s i (\<lambda>c. c\<lparr>c_expect := e, c_neg_verb := cmd\<rparr>))"
    "good i (conn_set s i (\<lambda>c. c\<lparr>c_line := map_option (\<lambda>(b, n). (b, n - 1)) (c_line c), c_expect := e\<rparr>))"
    "good i (conn_set s i (\<lambda>c. c\<lparr>c_line := map_option (\<lambda>(b, n). (b, 0)) (c_line c)\<rparr>))" for e
    using c by (auto intro!: conn_set_good [OF s i] simp: conn_ok_def LINE_MAX_def)
  have "safe (\<lambda>(b, s'). good i s') (protocol_error s i (ascii ''Unexpected SE''))" "safe (\<lambda>(b, s'). good i s') (protocol_error s i (ascii ''Interrupted''))"
    "safe (\<lambda>(b, s'). good i s') (protocol_error s i (unknown_command cmd))"
    by (auto intro!: protocol_error_good [OF s i] unknown_command_length simp: ascii_def)
  with set show ?thesis
    unfolding cmd_handle_def by (simp del: One_nat_def)
qed

lemma char_handle_good:
  assumes s: "good i s" and i: "i < 21" "i \<noteq> 0"
  shows "safe (\<lambda>(b, s'). good i s') (char_handle sv s i i ch)"
proof -
  note c = good_conn [OF s i(1)] and at = wf_at(2) [OF good_wf [OF s] i(1)]
  have set: "good i (conn_set s' i (\<lambda>c. c\<lparr>c_expect := e\<rparr>))" if "good i s'" for s' e
    using good_conn [OF that i(1)] by (intro conn_set_good [OF that i(1)]) (auto simp: conn_ok_def)
  have then_none: "safe (\<lambda>(b, s'). good i s') (rbind r (\<lambda>(ok, s). Inr (if ok then (True, conn_set s i (\<lambda>c. c\<lparr>c_expect := EXPECT_NONE\<rparr>)) else (False, s))))"
    if "safe (\<lambda>(b, s'). good i s') r" for r
    using that by (rule safe_bind) (auto intro: set)
  show ?thesis
  proof (cases "c_expect (k_conns s ! i)")
    case EXPECT_NONE
    have "safe (\<lambda>(b, s'). good i s') (rbind (line_write (k_conns s ! i) b n ch) (\<lambda>conn. Inr (True, conn_set s i (\<lambda>_. conn\<lparr>c_line := Some (b, n + 1)\<rparr>))))"
      if l: "c_line (k_conns s ! i) = Some (b, n)" "n + 1 < LINE_MAX" for b n
    proof -
      obtain c' where c': "line_write (k_conns s ! i) b n ch = Inr c'" "conn_ok i c'" "c_position c' = c_position (k_conns s ! i)"
          "c_denial_timeout c' = c_denial_timeout (k_conns s ! i)"
        using line_write_ok [OF c, of n b ch] l(2) by auto
      have "good i (conn_set s i (\<lambda>_. c'\<lparr>c_line := Some (b, n + 1)\<rparr>))"
        by (rule conn_set_good [OF s i(1)]) (use c' l(2) in \<open>auto simp: conn_ok_def\<close>)
      then show ?thesis
        by (simp add: c'(1))
    qed
    then show ?thesis
      using s set [OF s] by (auto simp: char_handle_def at EXPECT_NONE split: option.splits)
  next
    case EXPECT_CMD
    then show ?thesis
      using cmd_handle_good [OF s i(1)] by (simp add: char_handle_def at)
  next
    case EXPECT_OPCODE
    have "safe (\<lambda>(b, s'). good i s') (send_all s i msg)" for msg
      using send_all_good [OF s i(1)] by (rule safe_mono) auto
    then show ?thesis
      using s unfolding char_handle_def at rbind_Inr EXPECT_OPCODE expect.case by (intro then_none) simp
  next
    case EXPECT_LF
    then show ?thesis
      using s process_line_good [OF s i] unfolding char_handle_def at rbind_Inr EXPECT_LF expect.case by (intro then_none) simp
  qed (use s set [OF s] in \<open>auto simp: char_handle_def at\<close>)
qed

lemma good_close: "good i s \<Longrightarrow> i < 21 \<Longrightarrow> i \<noteq> 0 \<Longrightarrow> safe ok (do_close sv s i error)"
  by (rule safe_mono [OF do_close_safe]) (auto simp: good_def)

lemma chars_handle_ok:
  assumes "good i s" "i < 21" "i \<noteq> 0"
  shows "safe ok (chars_handle sv s i i chs)"
  using assms
proof (induction chs arbitrary: s)
  case Nil
  then show ?case
    by (simp add: good_def)
next
  case (Cons ch chs)
  show ?case
    unfolding chars_handle.simps
  proof (rule safe_bind [OF char_handle_good [OF Cons.prems]])
    fix p :: "bool \<times> 'w fake"
    assume p: "case p of (b, s') \<Rightarrow> good i s'"
    obtain b s' where [simp]: "p = (b, s')" by (cases p)
    have g: "good i s'"
      using p by simp
    show "safe ok (case p of (b, s) \<Rightarrow> if b then chars_handle sv s i i chs else rbind (conn_at s i) (\<lambda>conn. do_close sv s i (c_protocol_error conn)))"
      using Cons.IH [OF g Cons.prems(2,3)] good_close [OF g Cons.prems(2,3)] wf_at(2) [OF good_wf [OF g] Cons.prems(2)] by simp
  qed
qed

lemma telnet_data_ok:
  assumes s: "good i s" and i: "i < 21" "i \<noteq> 0"
  shows "safe ok (telnet_data sv s i i)"
proof -
  let ?s = "s\<lparr>k_os := (k_os s)\<lparr>ko_recvs := tl (ko_recvs (k_os s))\<rparr>\<rparr>"
  have os: "os_ok (k_os s)"
    using good_wf [OF s] by (simp add: fake_wf_def)
  have "os_ok (k_os ?s)"
    using os by (auto simp: os_ok_def dest: list.set_sel(2) [rotated]) (metis list.sel(2) list.set_sel(2))
  then have g: "good i ?s"
    by (intro touch_good [OF s touch_os [OF good_wf [OF s] i(1)]]) auto
  note c = good_conn [OF g i(1)]
  have e: "length e < 2 ^ 32" if "next_of RecvAgain (ko_recvs (k_os s)) = RecvFailed e" for e
  proof -
    have "RecvFailed e \<in> set (ko_recvs (k_os s))"
      using that by (cases "ko_recvs (k_os s)") (auto simp: next_of_def)
    then show ?thesis
      using os by (simp add: os_ok_def)
  qed
  have "safe ok (do_close sv (conn_set ?s i (\<lambda>c. c\<lparr>c_close_reason := Some e\<rparr>)) i True)" if "length e < 2 ^ 32" for e
    by (rule good_close [OF conn_set_good [OF g i(1)] i]) (use c that in \<open>auto simp: conn_ok_def\<close>)
  moreover have "safe ok (do_close sv (conn_set ?s i (\<lambda>c. c\<lparr>c_close_reason := Some (case c_close_reason c of None \<Rightarrow> ascii ''Closed'' | Some r \<Rightarrow> r)\<rparr>)) i False)"
    by (rule good_close [OF conn_set_good [OF g i(1)] i]) (use c in \<open>auto simp: conn_ok_def ascii_def split: option.splits\<close>)
  ultimately show ?thesis
    using g chars_handle_ok [OF g i] e
    by (auto simp: telnet_data_def Let_def wf_at(2) [OF good_wf [OF g] i(1)] good_def split: conn_recv.splits)
qed

lemma conn_reset_ok:
  assumes wf: "fake_wf s" and f: "fine ((expected s)(Denial i := {})) s" and i: "i < 21"
    and c: "conn_ok i (g (k_conns s ! i))" "c_position (g (k_conns s ! i)) = WANT_LOGIN"
  shows "ok (conn_set s i g)"
proof (rule ok_fine)
  show "fake_wf (conn_set s i g)"
    using wf_conn [OF wf i c(1)] by (simp add: conn_set_def)
  show "fine ((expected s)(Denial i := {})) (conn_set s i g)"
    using f by (simp add: fine_def conn_set_def send_slot_def)
  show "(expected s)(Denial i := {}) = expected (conn_set s i g)"
  proof
    show "((expected s)(Denial i := {})) t = expected (conn_set s i g) t" for t
      using c(2) wf_at(6) [OF wf i] by (cases t) (auto simp: conn_set_def waiting_def send_slot_def nth_list_update)
  qed
qed

lemma telnet_conn_set_fd_safe:
  assumes wf: "fake_wf s" and f: "fine ((expected s)(Denial i := {})) s" and i: "i < 21" "i \<noteq> 0" and opened: "t_fd (k_tags s ! i) \<noteq> -1"
  shows "safe (\<lambda>s'. ok s' \<and> (t_closed (k_tags s' ! i) \<or> t_fd (k_tags s' ! i) \<noteq> -1)) (telnet_conn_set_fd sv s i i fd)"
proof -
  note at = wf_at [OF wf i(1)]
  let ?s = "conn_set s i (\<lambda>c. c\<lparr>c_expect := EXPECT_NONE, c_protocol_error := False, c_position := WANT_LOGIN,
    c_line := Some (Username, 0), c_fd := fd\<rparr>)"
  have s1: "ok ?s"
    by (rule conn_reset_ok [OF wf f i(1)]) (use at(4) in \<open>auto simp: conn_ok_def LINE_MAX_def\<close>)
  obtain b s2 where s2: "ask_for ?s i (ascii ''login'') = Inr (b, s2)" "touch i ?s s2"
    using send_all_touch [of ?s i] s1 i(1) unfolding ask_for_def ok_def by blast
  have ok2: "ok s2" and open2: "t_fd (k_tags s2 ! i) \<noteq> -1"
    using touch_ok [OF s1 s2(2)] s2(2) opened by (simp_all add: touch_def conn_set_def)
  have closed: "safe (\<lambda>s'. ok s' \<and> (t_closed (k_tags s' ! i) \<or> t_fd (k_tags s' ! i) \<noteq> -1)) (if b then Inr s2 else do_close sv s2 i True)"
    using ok2 open2 safe_mono [OF do_close_safe [OF ok2 i open2]] by simp
  have last: "ok (conn_set s' i (\<lambda>c. c\<lparr>c_tag := Some i, c_attempts := 0, c_close_reason := None\<rparr>))" if "ok s'" for s'
    by (rule touch_ok [OF that, of i], rule touch_conn) (use that i(1) wf_at(4) [of s' i] in \<open>auto simp: ok_def conn_ok_def\<close>)
  have tags: "k_tags (conn_set s' i g) = k_tags s'" for s' :: "'w fake" and g
    by (simp add: conn_set_def)
  show ?thesis
    unfolding telnet_conn_set_fd_def at(2) rbind_Inr s2(1) prod.case
    by (rule safe_bind [OF closed]) (use last in \<open>auto simp: tags\<close>)
qed

text \<open>A change of a tag that leaves its descriptor alone.\<close>

lemma tag_set_ok:
  assumes wf: "fake_wf s" and i: "i < 21" and t: "tag_ok i (g (k_tags s ! i))" "t_fd (g (k_tags s ! i)) = t_fd (k_tags s ! i)"
    and f: "fine f s" "f = (expected s)(Inactive i := if t_inactivity_timeout_active (g (k_tags s ! i)) then {t_inactivity_timeout (g (k_tags s ! i))} else {})"
  shows "ok (tag_set s i g)"
proof (rule ok_fine)
  have "fake_wf (s\<lparr>k_tags := (k_tags s)[i := g (k_tags s ! i)], k_os := k_os s\<rparr>)"
    by (rule wf_tag [OF wf i t(1)]) (use wf t(2) in \<open>auto simp: fake_wf_def intro: watch_ok_same\<close>)
  then show "fake_wf (tag_set s i g)"
    by (simp add: tag_set_def)
  show "fine f (tag_set s i g)"
    using f(1) by (simp add: fine_def tag_set_def send_slot_def)
  show "f = expected (tag_set s i g)"
  proof
    show "f c = expected (tag_set s i g) c" for c
      using t(2) wf_at(5) [OF wf i] by (cases c) (auto simp: f(2) tag_set_def waiting_def send_slot_def nth_list_update)
  qed
qed

lemma activity_safe:
  assumes s: "ok s" and i: "i < 21" and opened: "t_closed (k_tags s ! i) \<or> t_fd (k_tags s ! i) \<noteq> -1"
  shows "safe (\<lambda>s'. ok s' \<and> k_log s' = k_log s \<and> t_fd (k_tags s' ! i) = t_fd (k_tags s ! i) \<and> t_desc (k_tags s' ! i) = t_desc (k_tags s ! i) \<and>
    t_rem_addr (k_tags s' ! i) = t_rem_addr (k_tags s ! i)) (activity sv s i)"
proof -
  have wf: "fake_wf s" and f: "fine (expected s) s"
    using s by (simp_all add: ok_def)
  note at = wf_at [OF wf i]
  let ?t = "k_tags s ! i" and ?f = "(expected s)(Inactive i := {})"
  show ?thesis
  proof (cases "t_ignore_inactivity ?t \<or> t_closed ?t")
    case True
    then show ?thesis
      using s by (auto simp: activity_def at)
  next
    case False
    have stopped: "safe (\<lambda>w. inv w \<and> pending (mine w) ?f)
        (if t_inactivity_timeout_active ?t then sv_timeout_cancel sv (k_world s) (t_inactivity_timeout ?t) else Inr (k_world s))"
    proof (cases "t_inactivity_timeout_active ?t")
      case True
      have "safe (\<lambda>w'. inv w' \<and> pending (mine w') ?f \<and> sv_now sv w' = sv_now sv (k_world s)) (sv_timeout_cancel sv (k_world s) (t_inactivity_timeout ?t))"
        by (rule cancel_pending) (use f True at(5) in \<open>auto simp: fine_def\<close>)
      with True show ?thesis
        by (auto elim: safe_mono)
    next
      case False
      then have "?f = expected s"
        by (simp add: fun_upd_idem)
      with False f show ?thesis
        by (simp add: fine_def)
    qed
    have set: "ok (tag_set (s\<lparr>k_world := w\<rparr>) i (\<lambda>t. t\<lparr>t_inactivity_timeout := id0, t_inactivity_timeout_active := True\<rparr>))"
      if w: "inv w" "pending (mine w) (?f(Inactive i := {id0}))" for id0 w
    proof (rule tag_set_ok [where f = "?f(Inactive i := {id0})"])
      have e: "expected (s\<lparr>k_world := w\<rparr>) = expected s"
      proof
        show "expected (s\<lparr>k_world := w\<rparr>) c = expected s c" for c
          by (cases c) (simp_all add: waiting_def send_slot_def)
      qed
      show "fake_wf (s\<lparr>k_world := w\<rparr>)"
        using wf by (simp add: fake_wf_def)
      show "tag_ok i ((k_tags (s\<lparr>k_world := w\<rparr>) ! i)\<lparr>t_inactivity_timeout := id0, t_inactivity_timeout_active := True\<rparr>)"
        using at(3) False opened by (auto simp: tag_ok_def)
      show "fine (?f(Inactive i := {id0})) (s\<lparr>k_world := w\<rparr>)"
        using w f by (simp add: fine_def send_slot_def)
      show "?f(Inactive i := {id0}) = (expected (s\<lparr>k_world := w\<rparr>))(Inactive i :=
          if t_inactivity_timeout_active ((k_tags (s\<lparr>k_world := w\<rparr>) ! i)\<lparr>t_inactivity_timeout := id0, t_inactivity_timeout_active := True\<rparr>)
          then {t_inactivity_timeout ((k_tags (s\<lparr>k_world := w\<rparr>) ! i)\<lparr>t_inactivity_timeout := id0, t_inactivity_timeout_active := True\<rparr>)} else {})"
        unfolding e by simp
    qed (use i in simp_all)
    show ?thesis
      unfolding activity_def at(1) rbind_Inr if_not_P [OF False]
    proof (rule safe_bind [OF stopped], rule safe_bind [OF add_pending [where f = ?f]])
      fix w p
      assume "case p of (id0, w') \<Rightarrow> inv w' \<and> pending (mine w') (?f(Inactive i := {id0})) \<and> sv_now sv w' = sv_now sv w"
      then show "safe (\<lambda>s'. ok s' \<and> k_log s' = k_log s \<and> t_fd (k_tags s' ! i) = t_fd ?t \<and> t_desc (k_tags s' ! i) = t_desc ?t \<and> t_rem_addr (k_tags s' ! i) = t_rem_addr ?t)
          (case p of (id0, w) \<Rightarrow> Inr (tag_set (s\<lparr>k_world := w\<rparr>) i (\<lambda>t. t\<lparr>t_inactivity_timeout := id0, t_inactivity_timeout_active := True\<rparr>)))"
        using set at(5) by (cases p) (auto simp: tag_set_def)
    qed auto
  qed
qed

lemma send_denial_safe:
  assumes wf: "fake_wf s" and f: "fine ((expected s)(Denial i := {})) s" and w: "waiting s i"
  shows "safe ok (send_denial sv s i)"
proof -
  have i: "i < 21" "i \<noteq> 0" and opened: "t_fd (k_tags s ! i) \<noteq> -1"
    using w wf by (auto simp: waiting_def fake_wf_def conn_ok_def)
  note at = wf_at [OF wf i(1)]
  let ?s = "conn_set s i (\<lambda>c. c\<lparr>c_position := WANT_LOGIN\<rparr>)"
  have s1: "ok ?s"
    by (rule conn_reset_ok [OF wf f i(1)]) (use at(4) in \<open>auto simp: conn_ok_def\<close>)
  have open1: "t_fd (k_tags ?s ! i) \<noteq> -1"
    using opened by (simp add: conn_set_def)
  have sent: "\<exists>b s'. send_all s0 i msg = Inr (b, s') \<and> ok s' \<and> t_fd (k_tags s' ! i) \<noteq> -1"
    if s0: "ok s0" "t_fd (k_tags s0 ! i) \<noteq> -1" for s0 msg
  proof -
    obtain b s' where r: "send_all s0 i msg = Inr (b, s')" "touch i s0 s'"
      using send_all_touch [of s0 i] s0(1) i(1) unfolding ok_def by blast
    then show ?thesis
      using touch_ok [OF s0(1) r(2)] s0(2) by (auto simp: touch_def)
  qed
  have close: "safe ok (do_close sv s0 i e)" if "ok s0" "t_fd (k_tags s0 ! i) \<noteq> -1" for s0 e
    by (rule safe_mono [OF do_close_safe [OF that(1) i that(2)]]) simp
  have set: "ok (conn_set s0 i g)" "t_fd (k_tags (conn_set s0 i g) ! i) = t_fd (k_tags s0 ! i)"
    if "ok s0" "conn_ok i (g (k_conns s0 ! i))" "c_position (g (k_conns s0 ! i)) = c_position (k_conns s0 ! i)"
      "c_denial_timeout (g (k_conns s0 ! i)) = c_denial_timeout (k_conns s0 ! i)" for s0 g
  proof -
    have "touch i s0 (conn_set s0 i g)"
      by (rule touch_conn) (use that i(1) in \<open>auto simp: ok_def\<close>)
    then show "ok (conn_set s0 i g)" "t_fd (k_tags (conn_set s0 i g) ! i) = t_fd (k_tags s0 ! i)"
      using touch_ok [OF that(1)] by (auto simp: touch_def)
  qed
  obtain b s2 where s2: "send_all ?s i (ascii ''Login incorrect'' @ [10]) = Inr (b, s2)" "ok s2" "t_fd (k_tags s2 ! i) \<noteq> -1"
    using sent [OF s1 open1] by blast
  have c2: "conn_ok i (k_conns s2 ! i)" "i < length (k_conns s2)"
    using wf_at(4,6) [of s2 i] s2(2) i(1) by (simp_all add: ok_def)
  let ?s3 = "conn_set s2 i (\<lambda>c. c\<lparr>c_attempts := c_attempts c + 1\<rparr>)"
  have s3: "ok ?s3" "t_fd (k_tags ?s3 ! i) \<noteq> -1"
    using set [OF s2(2), of "\<lambda>c. c\<lparr>c_attempts := c_attempts c + 1\<rparr>"] c2 s2(3) by (auto simp: conn_ok_def)
  have c3: "conn_ok i (k_conns ?s3 ! i)"
    using wf_at(4) [of ?s3 i] s3(1) i(1) by (simp add: ok_def)
  have s4: "ok (conn_set ?s3 i (\<lambda>c. c\<lparr>c_close_reason := Some (ascii ''Attempts'')\<rparr>))"
      "t_fd (k_tags (conn_set ?s3 i (\<lambda>c. c\<lparr>c_close_reason := Some (ascii ''Attempts'')\<rparr>)) ! i) \<noteq> -1"
    using set [OF s3(1), of "\<lambda>c. c\<lparr>c_close_reason := Some (ascii ''Attempts'')\<rparr>"] c3 s3(2) by (auto simp: conn_ok_def ascii_def)
  let ?s5 = "conn_set ?s3 i (\<lambda>c. c\<lparr>c_line := Some (Username, 0)\<rparr>)"
  have s5: "ok ?s5" "t_fd (k_tags ?s5 ! i) \<noteq> -1"
    using set [OF s3(1), of "\<lambda>c. c\<lparr>c_line := Some (Username, 0)\<rparr>"] c3 s3(2) by (auto simp: conn_ok_def LINE_MAX_def)
  obtain b' s6 where s6: "ask_for ?s5 i (ascii ''login'') = Inr (b', s6)" "ok s6" "t_fd (k_tags s6 ! i) \<noteq> -1"
    using sent [OF s5] unfolding ask_for_def by blast
  show ?thesis
    unfolding send_denial_def at(2) rbind_Inr s2(1) prod.case Let_def s6(1)
    using close [OF s2(2,3)] close [OF s4] close [OF s6(2,3)] s6(2) by simp
qed

lemma conn_inactive_safe:
  assumes wf: "fake_wf s" and f: "fine ((expected s)(Inactive i := {})) s" and a: "i < 21" "t_inactivity_timeout_active (k_tags s ! i)"
    and w: "\<not> waiting s i"
  shows "safe ok (conn_inactive sv s i id0)"
proof -
  note at = wf_at [OF wf a(1)]
  have i: "i \<noteq> 0"
    using at(3) a(2) by (simp add: tag_ok_def)
  let ?s = "tag_set s i (\<lambda>t. t\<lparr>t_inactivity_timeout_active := False\<rparr>)"
  have s1: "ok ?s"
    by (rule tag_set_ok [OF wf a(1) _ _ f]) (use at(3) in \<open>auto simp: tag_ok_def\<close>)
  then have wf1: "fake_wf ?s" and f1: "fine (expected ?s) ?s"
    by (simp_all add: ok_def)
  have logged: "safe (\<lambda>s'. logged_to (expected ?s) ?s s' \<and> login_ids (k_log s') \<subseteq> ids_after EVENT_TIMEOUT (k_tags ?s ! i) (k_log ?s))
      (log_wrapper sv ?s (k_tags ?s ! i) EVENT_TIMEOUT None None None)"
    by (rule log_wrapper_safe [OF f1]) (use wf_at(3) [OF wf1 a(1)] in \<open>auto simp: tag_ok_def\<close>)
  have "safe ok (conn_closed sv (tag_set s2 i (\<lambda>t. t\<lparr>t_closed := True\<rparr>)) i False (Some (ascii ''timeout'')))"
    if to: "logged_to (expected ?s) ?s s2" for s2
  proof -
    have s2: "ok s2"
      by (rule logged_ok [OF wf1 to])
    have same: "k_tags s2 = k_tags ?s" "k_conns s2 = k_conns s"
      using to by (simp_all add: logged_to_def logging_def tag_set_def)
    let ?s3 = "tag_set s2 i (\<lambda>t. t\<lparr>t_closed := True\<rparr>)"
    have s3: "ok ?s3"
      by (rule tag_set_ok [where f = "expected s2"])
         (use s2 a(1) wf_at(3,5) [of s2 i] in \<open>auto simp: ok_def tag_ok_def fun_upd_idem\<close>)
    have "\<not> waiting ?s3 i"
      using w same at(5) by (auto simp: waiting_def tag_set_def)
    then have e: "expected ?s3 = (expected ?s3)(Denial i := {})"
      by (simp add: fun_upd_idem)
    have "safe (\<lambda>s'. ok s' \<and> t_closed (k_tags s' ! i) \<and> login_ids (k_log s') \<subseteq> login_ids (k_log ?s3)) (conn_closed sv ?s3 i False (Some (ascii ''timeout'')))"
      by (rule conn_closed_safe [OF _ _ e a(1) i]) (use s3 in \<open>auto simp: ok_def ascii_def\<close>)
    then show ?thesis
      by (rule safe_mono) simp
  qed
  then have "safe ok (rbind (log_wrapper sv ?s (k_tags ?s ! i) EVENT_TIMEOUT None None None) (\<lambda>s.
      conn_closed sv (tag_set s i (\<lambda>t. t\<lparr>t_closed := True\<rparr>)) i False (Some (ascii ''timeout''))))"
    by (intro safe_bind [OF logged]) auto
  then show ?thesis
    unfolding conn_inactive_def at(1) rbind_Inr Let_def by (rule safe_sanity)
qed

lemma log_event_ok_safe:
  assumes s: "ok s" and t: "addr_ok (t_rem_addr t)" "addr_ok (t_loc_addr t)" and type: "type \<noteq> EVENT_LOGIN"
  shows "safe (\<lambda>s'. ok s' \<and> k_tags s' = k_tags s) (log_wrapper sv s t type None None None)"
proof -
  have wf: "fake_wf s" and f: "fine (expected s) s"
    using s by (simp_all add: ok_def)
  have "safe (\<lambda>s'. logged_to (expected s) s s' \<and> login_ids (k_log s') \<subseteq> ids_after type t (k_log s)) (log_wrapper sv s t type None None None)"
    by (rule log_wrapper_safe [OF f t]) (use type in auto)
  then show ?thesis
    by (rule safe_mono) (auto intro: logged_ok [OF wf] simp: logged_to_def logging_def)
qed

lemma accept_conn_ok:
  assumes s: "ok s" and i: "i < 21" "i \<noteq> 0" and free: "t_fd (k_tags s ! i) = -1"
    and acc: "\<And>new ra n la m. acc = Some (new, ra, n, Some (la, m)) \<Longrightarrow> addr_ok ra \<and> addr_ok la"
    and fresh: "\<And>new x. acc = Some (new, x) \<Longrightarrow> new \<noteq> -1 \<and> new \<notin> fst ` set (ko_fds (k_os s))"
  shows "safe ok (accept_conn sv s t i acc)"
proof -
  have wf: "fake_wf s" and f: "fine (expected s) s"
    using s by (simp_all add: ok_def)
  note at = wf_at [OF wf i(1)]
  have failed: "ok (tag_set s i (\<lambda>t. t\<lparr>t_addr_len := sockaddr_size\<rparr>))"
    by (rule tag_set_ok [OF wf i(1) _ _ f]) (use at(3,5) in \<open>auto simp: tag_ok_def fun_upd_idem\<close>)
  have taken: "safe ok (let s = tag_set (s\<lparr>k_os := watch_fd new i (k_os s)\<rparr>) i (\<lambda>t. t\<lparr>t_rem_addr := ra, t_addr_len := n,
        t_loc_addr := la, t_fd := new, t_closed := False\<rparr>)
      in rbind (telnet_conn_set_fd sv s i i new) (\<lambda>s. rbind (tag_at s i) (\<lambda>tag.
           rbind (log_wrapper sv s tag EVENT_CONNECT None None None) (\<lambda>s. activity sv s i))))"
    if a: "acc = Some (new, ra, n, Some (la, m))" for new ra n la m
  proof -
    let ?t = "(k_tags s ! i)\<lparr>t_rem_addr := ra, t_addr_len := n, t_loc_addr := la, t_fd := new, t_closed := False\<rparr>"
    let ?s = "s\<lparr>k_tags := (k_tags s)[i := ?t], k_os := watch_fd new i (k_os s)\<rparr>"
    have idle: "\<not> t_inactivity_timeout_active (k_tags s ! i)"
      using at(3) free by (auto simp: tag_ok_def)
    have wf1: "fake_wf ?s"
    proof (rule wf_tag [OF wf i(1)])
      show "tag_ok i ?t"
        using at(3) acc [OF a] idle by (simp add: tag_ok_def)
      have w: "watch_ok (k_tags s) (ko_fds (k_os s))"
        using wf by (simp add: fake_wf_def)
      have "j \<noteq> i" if "(fd, j) \<in> set (ko_fds (k_os s))" for fd j
        using w that free i(2) by (auto simp: watch_ok_def)
      then show "watch_ok ((k_tags s)[i := ?t]) (ko_fds (watch_fd new i (k_os s)))"
        using w fresh [OF a] at(5) by (auto simp: watch_ok_def watch_fd_def nth_list_update)
      show "os_ok (watch_fd new i (k_os s))"
        using wf by (simp add: fake_wf_def os_ok_def watch_fd_def)
    qed
    have e: "(expected ?s)(Denial i := {}) = expected s"
    proof
      show "((expected ?s)(Denial i := {})) c = expected s c" for c
        using idle free at(5) by (cases c) (auto simp: waiting_def send_slot_def nth_list_update)
    qed
    have f1: "fine ((expected ?s)(Denial i := {})) ?s"
      unfolding e using f by (simp add: fine_def send_slot_def)
    have rest: "safe ok (rbind (tag_at s1 i) (\<lambda>tag. rbind (log_wrapper sv s1 tag EVENT_CONNECT None None None) (\<lambda>s. activity sv s i)))"
      if s1: "ok s1" "t_closed (k_tags s1 ! i) \<or> t_fd (k_tags s1 ! i) \<noteq> -1" for s1
    proof -
      have wf2: "fake_wf s1"
        using s1(1) by (simp add: ok_def)
      note at1 = wf_at [OF wf2 i(1)]
      have "safe ok (activity sv s2 i)" if "ok s2" "k_tags s2 = k_tags s1" for s2
        by (rule safe_mono [OF activity_safe [OF that(1) i(1)]]) (use s1(2) that(2) in auto)
      then show ?thesis
        unfolding at1(1) rbind_Inr
        by (intro safe_bind [OF log_event_ok_safe [OF s1(1)]]) (use at1(3) in \<open>auto simp: tag_ok_def\<close>)
    qed
    have eq: "tag_set (s\<lparr>k_os := watch_fd new i (k_os s)\<rparr>) i (\<lambda>t. t\<lparr>t_rem_addr := ra, t_addr_len := n, t_loc_addr := la, t_fd := new, t_closed := False\<rparr>) = ?s"
      by (simp add: tag_set_def)
    show ?thesis
      unfolding eq Let_def
      by (rule safe_bind [OF telnet_conn_set_fd_safe [OF wf1 f1 i]]) (use rest fresh [OF a] at(5) in auto)
  qed
  show ?thesis
    unfolding accept_conn_def at(1) rbind_Inr
    by (rule safe_sanity) (use failed taken in \<open>auto intro!: safe_sanity split: option.splits prod.splits\<close>)
qed

lemma accept_extra_ok:
  assumes s: "ok s" and acc: "\<And>new ra n la m. acc = Some (new, ra, n, Some (la, m)) \<Longrightarrow> addr_ok ra \<and> addr_ok la"
  shows "safe ok (accept_extra sv s t acc)"
proof -
  have "safe ok (log_wrapper sv s (t\<lparr>t_accept_here := False, t_rem_addr := ra, t_addr_len := n, t_loc_addr := la\<rparr>) EVENT_CONNECT_EXTRA None None None)"
    if "addr_ok ra" "addr_ok la" for ra n la
    by (rule safe_mono [OF log_event_ok_safe [OF s]]) (use that in auto)
  then show ?thesis
    using s acc by (auto simp: accept_extra_def intro!: safe_sanity split: option.splits prod.splits)
qed

lemma fd_ready_ok:
  assumes s: "ok s" and fd: "(fd, i) \<in> set (ko_fds (k_os s))" and fresh: "fresh_accept s"
    and clash: "i \<noteq> 0 \<Longrightarrow> no_clash (k_log s) (k_tags s ! i)"
  shows "safe ok (fd_ready sv s i)"
proof -
  have wf: "fake_wf s"
    using s by (simp add: ok_def)
  then have i: "i < 21" and opened: "i \<noteq> 0 \<longrightarrow> t_fd (k_tags s ! i) \<noteq> -1"
    using fd by (auto simp: fake_wf_def watch_ok_def)
  note at = wf_at [OF wf i]
  show ?thesis
  proof (cases "i = 0")
    case True
    let ?acc = "next_of None (ko_accepts (k_os s))" and ?s = "s\<lparr>k_os := (k_os s)\<lparr>ko_accepts := tl (ko_accepts (k_os s))\<rparr>\<rparr>"
    have os: "os_ok (k_os s)"
      using wf by (simp add: fake_wf_def)
    have os': "os_ok (k_os ?s)"
      using os by (cases "ko_accepts (k_os s)") (auto simp: os_ok_def)
    have s1: "ok ?s"
      by (rule touch_ok [OF s touch_os [OF wf i]]) (use os' in auto)
    have acc: "addr_ok ra \<and> addr_ok la" if "?acc = Some (new, ra, n, Some (la, m))" for new ra n la m
    proof -
      have "Some (new, ra, n, Some (la, m)) \<in> set (ko_accepts (k_os s))"
        using that by (cases "ko_accepts (k_os s)") (auto simp: next_of_def)
      then show ?thesis
        using os unfolding os_ok_def by blast
    qed
    have one: "safe ok (accept_conn sv ?s (k_tags s ! i) j ?acc)" if "find_empty (k_tags ?s) 1 20 = Some j" for j
      by (rule accept_conn_ok [OF s1]) (use find_empty_some [OF that] acc fresh in \<open>auto simp: fresh_accept_def\<close>)
    have other: "safe ok (accept_extra sv ?s (k_tags s ! i) ?acc)"
      by (rule accept_extra_ok [OF s1]) (rule acc)
    have "t_accept_here (k_tags s ! i)" "t_server_index (k_tags s ! i) = 0" "k_tag_indices s = [0, 21]"
      using at(3) True wf by (simp_all add: tag_ok_def fake_wf_def)
    then show ?thesis
      using one other by (simp add: fd_ready_def at(1) Let_def split: option.splits)
  next
    case False
    have "safe ok (telnet_data sv s1 i i)" if "ok s1 \<and> k_log s1 = k_log s \<and> t_fd (k_tags s1 ! i) = t_fd (k_tags s ! i) \<and> t_desc (k_tags s1 ! i) = t_desc (k_tags s ! i) \<and>
        t_rem_addr (k_tags s1 ! i) = t_rem_addr (k_tags s ! i)" for s1
      by (rule telnet_data_ok [OF _ i False]) (use that clash [OF False] opened False in \<open>auto simp: good_def no_clash_def\<close>)
    then show ?thesis
      using at(3) False unfolding fd_ready_def at(1) rbind_Inr
      by (simp add: tag_ok_def) (rule safe_bind [OF activity_safe [OF s i]], use opened False in auto)
  qed
qed

subsection \<open>Configuration, messages and timeouts\<close>

lemma send_timeout_ok:
  assumes wf: "fake_wf s" and f: "fine ((expected s)(SendTimer := {})) (s\<lparr>k_timeout_scheduled := False\<rparr>)"
  shows "safe ok (send_timeout sv s)"
proof -
  let ?s = "s\<lparr>k_timeout_scheduled := False\<rparr>"
  have e: "expected ?s = (expected s)(SendTimer := {})"
  proof
    show "expected ?s c = ((expected s)(SendTimer := {})) c" for c
      by (cases c) (simp_all add: waiting_def send_slot_def)
  qed
  have wf1: "fake_wf ?s"
    using wf by (simp add: fake_wf_def)
  have f1: "fine (expected ?s) ?s"
    using f unfolding e .
  have step: "safe ok (if sent then Inr s1 else schedule_timeout sv (s1\<lparr>k_timeout_missed := True\<rparr>))"
    if s1: "logged_to (expected ?s) ?s s1" "\<not> k_timeout_scheduled s1" for sent s1
  proof -
    let ?s2 = "s1\<lparr>k_timeout_missed := True\<rparr>"
    have o1: "ok s1"
      by (rule logged_ok [OF wf1 s1(1)])
    have e2: "expected ?s2 = expected s1"
    proof
      show "expected ?s2 c = expected s1 c" for c
        by (cases c) (simp_all add: waiting_def send_slot_def)
    qed
    have o2: "fake_wf ?s2" "fine (expected ?s2) ?s2"
      using o1 unfolding ok_def e2 by (simp_all add: fake_wf_def fine_def send_slot_def)
    have "safe (\<lambda>s'. logged_to (expected ?s2) ?s2 s' \<and> k_log s' = k_log ?s2) (schedule_timeout sv ?s2)"
      by (rule schedule_safe [OF o2(2)]) (use s1(2) in simp)
    then have "safe ok (schedule_timeout sv ?s2)"
      by (rule safe_mono) (use logged_ok [OF o2(1)] in auto)
    with o1 show ?thesis
      by simp
  qed
  show ?thesis
    unfolding send_timeout_def Let_def
    by (rule safe_bind [OF log_send_safe [OF f1]]) (use step in auto)
qed

lemma log_send_ok: "ok s \<Longrightarrow> safe (\<lambda>(sent, s'). ok s') (log_send sv s force)"
  by (rule safe_mono [OF log_send_safe [of "expected s"]]) (auto simp: ok_def intro: logged_ok [unfolded ok_def, THEN conjunct1] logged_ok [unfolded ok_def, THEN conjunct2])

lemma log_send_then: "ok s \<Longrightarrow> safe ok (rbind (log_send sv s force) (\<lambda>(_, s). Inr s))"
  by (rule safe_bind [OF log_send_ok]) auto

text \<open>Changes that neither the timeouts nor the tables see.\<close>

lemma same_state_ok:
  assumes "ok s" "k_tags s' = k_tags s" "k_conns s' = k_conns s" "k_os s' = k_os s" "k_tag_indices s' = k_tag_indices s" "k_server_count s' = k_server_count s"
    "k_world s' = k_world s" "logs (k_log s')" "k_timeout_scheduled s' = k_timeout_scheduled s" "k_timeout_id s' = k_timeout_id s"
    "k_config_retry_scheduled s' = k_config_retry_scheduled s" "k_config_retry_timeout_id s' = k_config_retry_timeout_id s"
  shows "ok s'"
proof -
  have "expected s' = expected s"
  proof
    show "expected s' c = expected s c" for c
      using assms by (cases c) (simp_all add: waiting_def send_slot_def)
  qed
  then show ?thesis
    using assms by (simp add: ok_def fake_wf_def fine_def send_slot_def)
qed

lemma uplink_data_ok:
  assumes s: "ok s"
  shows "safe ok (uplink_data sv s data)"
proof -
  have "ok (s\<lparr>k_config_version := a, k_log := log_set_limits (k_log s) b c d, k_max_age := e\<rparr>)" for a b c d e
    by (rule same_state_ok [OF s]) (use s in \<open>auto simp: ok_def fine_def logs_def log_shows_def log_set_limits_def\<close>)
  from log_send_then [OF this]
  have "safe ok (server_config sv s d)" for d
    unfolding server_config_def Let_def using s by simp
  then show ?thesis
    using s by (simp add: uplink_data_def)
qed

lemma connected_ok:
  assumes s: "ok s"
  shows "safe ok (connected sv s)"
proof -
  have w: "inv (k_world s)"
    using s by (simp add: ok_def fine_def)
  have "ok (s\<lparr>k_world := w'\<rparr>)" if "inv w'" "mine w' = mine (k_world s)" for w'
  proof -
    have "expected (s\<lparr>k_world := w'\<rparr>) = expected s"
    proof
      show "expected (s\<lparr>k_world := w'\<rparr>) c = expected s c" for c
        by (cases c) (simp_all add: waiting_def send_slot_def)
    qed
    then show ?thesis
      using s that by (simp add: ok_def fake_wf_def fine_def send_slot_def)
  qed
  then show ?thesis
    unfolding connected_def Let_def by (intro safe_bind [OF tell_ok [OF w]]) (auto intro: log_send_then)
qed

lemma server_change_ok:
  assumes s: "ok s" and t: "tag_ok 0 t" and w: "watch_ok (k_tags s) (ko_fds k)" and k: "os_ok k"
  shows "ok (s\<lparr>k_tags := (k_tags s)[0 := t], k_os := k\<rparr>)"
proof (rule ok_fine)
  have wf: "fake_wf s"
    using s by (simp add: ok_def)
  note at = wf_at [OF wf, of 0]
  let ?s = "s\<lparr>k_tags := (k_tags s)[0 := t], k_os := k\<rparr>"
  show "fake_wf ?s"
    by (rule wf_tag [OF wf _ t watch_ok_server [OF w] k]) simp
  show "fine (expected s) ?s"
    using s by (simp add: ok_def fine_def send_slot_def)
  have "\<not> t_inactivity_timeout_active t" "\<not> t_inactivity_timeout_active (k_tags s ! 0)" "c_position (k_conns s ! 0) \<noteq> WAIT_DENIAL"
    using t at(3,4) by (auto simp: tag_ok_def conn_ok_def)
  show "expected s = expected ?s"
  proof
    fix c
    show "expected s c = expected ?s c"
    proof (cases c)
      case (Inactive i)
      then show ?thesis
        using \<open>\<not> t_inactivity_timeout_active t\<close> \<open>\<not> t_inactivity_timeout_active (k_tags s ! 0)\<close> by (cases "i = 0") auto
    next
      case (Denial i)
      then show ?thesis
        using \<open>c_position (k_conns s ! 0) \<noteq> WAIT_DENIAL\<close> by (cases "i = 0") (auto simp: waiting_def)
    qed (simp_all add: send_slot_def)
  qed
qed

lemma config_server_ok:
  assumes s: "ok s" and fresh: "fresh_socket s" and r: "config_server s 0 port = (b, again, s')"
  shows "ok s'"
proof -
  have wf: "fake_wf s"
    using s by (simp add: ok_def)
  note at = wf_at [OF wf, of 0]
  have w: "watch_ok (k_tags s) (ko_fds (k_os s))" and os: "os_ok (k_os s)"
    using wf by (simp_all add: fake_wf_def)
  have tags: "0 < length (k_tags s)"
    using at(5) by simp
  have added: "watch_ok (k_tags s) (ko_fds (k_os s) @ [(next_of (-1) (ko_sockets (k_os s)), 0)])"
    using w fresh tags by (auto simp: watch_ok_def fresh_socket_def)
  have t: "tag_ok 0 ((k_tags s ! 0)\<lparr>t_candidate := a, t_port_candidate := p\<rparr>)" "tag_ok 0 ((k_tags s ! 0)\<lparr>t_candidate := a\<rparr>)"
    "tag_ok 0 ((k_tags s ! 0)\<lparr>t_port_candidate := p\<rparr>)" "tag_ok 0 (k_tags s ! 0)" for a p
    using at(3) by (simp_all add: tag_ok_def)
  have change: "ok (tag_set (s\<lparr>k_os := k\<rparr>) 0 g)" if "tag_ok 0 (g (k_tags s ! 0))" "watch_ok (k_tags s) (ko_fds k)" "os_ok k" for g k
  proof -
    have "tag_set (s\<lparr>k_os := k\<rparr>) 0 g = s\<lparr>k_tags := (k_tags s)[0 := g (k_tags s ! 0)], k_os := k\<rparr>"
      by (simp add: tag_set_def)
    then show ?thesis
      using server_change_ok [OF s that] by simp
  qed
  have change_os: "ok (s\<lparr>k_os := k\<rparr>)" if "watch_ok (k_tags s) (ko_fds k)" "os_ok k" for k
    using server_change_ok [OF s t(4) that] by simp
  have change_tag: "ok (tag_set s 0 g)" if "tag_ok 0 (g (k_tags s ! 0))" for g
    using change [of g "k_os s"] that w os by simp
  let ?sock = "next_of (-1) (ko_sockets (k_os s))"
  let ?k1 = "(k_os s)\<lparr>ko_sockets := tl (ko_sockets (k_os s))\<rparr>"
  let ?k2 = "watch_fd ?sock 0 (?k1\<lparr>ko_binds := tl (ko_binds ?k1)\<rparr>)"
  let ?k3 = "?k2\<lparr>ko_listens := tl (ko_listens ?k2)\<rparr>"
  have k: "os_ok ?k1" "os_ok ?k2" "os_ok ?k3" "os_ok (unwatch_fd ?sock ?k2)" "os_ok (unwatch_fd ?sock ?k3)"
    using os by (simp_all add: os_ok_def watch_fd_def unwatch_fd_def)
  have wk: "watch_ok (k_tags s) (ko_fds ?k1)" "watch_ok (k_tags s) (ko_fds ?k3)" "watch_ok (k_tags s) (ko_fds (unwatch_fd ?sock ?k2))"
    "watch_ok (k_tags s) (ko_fds (unwatch_fd ?sock ?k3))"
    using w added by (simp_all add: watch_fd_def unwatch_fd_def watch_ok_remove)
  consider "port = t_port (k_tags s ! 0) \<and> t_fd (k_tags s ! 0) \<noteq> -1" | "\<not> (port = t_port (k_tags s ! 0) \<and> t_fd (k_tags s ! 0) \<noteq> -1)" "port = 0"
    | "\<not> (port = t_port (k_tags s ! 0) \<and> t_fd (k_tags s ! 0) \<noteq> -1)" "port \<noteq> 0" "?sock = -1"
    | "\<not> (port = t_port (k_tags s ! 0) \<and> t_fd (k_tags s ! 0) \<noteq> -1)" "port \<noteq> 0" "?sock \<noteq> -1" "\<not> next_of True (ko_binds ?k1)"
    | "\<not> (port = t_port (k_tags s ! 0) \<and> t_fd (k_tags s ! 0) \<noteq> -1)" "port \<noteq> 0" "?sock \<noteq> -1" "next_of True (ko_binds ?k1)" "\<not> next_of True (ko_listens ?k2)"
    | "\<not> (port = t_port (k_tags s ! 0) \<and> t_fd (k_tags s ! 0) \<noteq> -1)" "port \<noteq> 0" "?sock \<noteq> -1" "next_of True (ko_binds ?k1)" "next_of True (ko_listens ?k2)"
    by blast
  then show ?thesis
  proof cases
    case 1
    then have "s' = tag_set s 0 (\<lambda>t. t\<lparr>t_candidate := t_fd t, t_port_candidate := port\<rparr>)"
      using r by (simp add: config_server_def Let_def)
    then show ?thesis
      using change_tag t by simp
  next
    case 2
    then have "s' = tag_set s 0 (\<lambda>t. t\<lparr>t_port_candidate := port\<rparr>)"
      using r unfolding config_server_def Let_def if_not_P [OF 2(1)] by simp
    then show ?thesis
      using change_tag t by simp
  next
    case 3
    then have "s' = s\<lparr>k_os := ?k1\<rparr>"
      using r unfolding config_server_def Let_def if_not_P [OF 3(1)] by simp
    then show ?thesis
      using change_os [OF wk(1) k(1)] by simp
  next
    case 4
    then have "s' = tag_set (s\<lparr>k_os := unwatch_fd ?sock ?k2\<rparr>) 0 (\<lambda>t. t\<lparr>t_candidate := -1\<rparr>)"
      using r unfolding config_server_def Let_def if_not_P [OF 4(1)] by simp
    then show ?thesis
      using change [of "\<lambda>t. t\<lparr>t_candidate := -1\<rparr>", OF _ wk(3) k(4)] t by simp
  next
    case 5
    then have "s' = s\<lparr>k_os := unwatch_fd ?sock ?k3\<rparr>"
      using r unfolding config_server_def Let_def if_not_P [OF 5(1)] by simp
    then show ?thesis
      using change_os [OF wk(4) k(5)] by simp
  next
    case 6
    then have "s' = tag_set (s\<lparr>k_os := ?k3\<rparr>) 0 (\<lambda>t. t\<lparr>t_candidate := ?sock, t_port_candidate := port\<rparr>)"
      using r unfolding config_server_def Let_def if_not_P [OF 6(1)] by simp
    then show ?thesis
      using change [of "\<lambda>t. t\<lparr>t_candidate := ?sock, t_port_candidate := port\<rparr>", OF _ wk(2) k(3)] t by simp
  qed
qed

lemma config_server_retry: "k_config_retry_scheduled (snd (snd (config_server s i port))) = k_config_retry_scheduled s"
  unfolding config_server_def Let_def by (auto simp: tag_set_def)

lemma config_servers_one:
  assumes "config_servers opts s [0] = Inr (b, again, s')"
  shows "s' = s \<or> (\<exists>port b1 again1. config_server s 0 port = (b1, again1, s'))"
  using assms
  by (cases "config_port opts (t_desc (k_tags s ! 0))")
     (auto simp: tag_at_def result_simps split: if_splits prod.splits)

lemma config_servers_ok:
  assumes "ok s" "fresh_socket s" "config_servers opts s [0] = Inr (b, again, s')"
  shows "ok s'"
  using config_servers_one [OF assms(3)] config_server_ok [OF assms(1,2)] assms(1) by blast

lemma config_internal_ok:
  assumes s: "ok s" and fresh: "fresh_socket s"
  shows "safe (\<lambda>(b, s'). ok s') (config_internal sv opts s)"
proof -
  have servers: "take (k_server_count s') (k_tag_indices s') = [0]" if "ok s'" for s'
    using that by (simp add: ok_def fake_wf_def)
  have stopped: "safe (\<lambda>s'. ok s' \<and> \<not> k_config_retry_scheduled s' \<and> k_os s' = k_os s)
      (if k_config_retry_scheduled s then
         rbind (sv_timeout_cancel sv (k_world s) (k_config_retry_timeout_id s)) (\<lambda>w. Inr (s\<lparr>k_world := w, k_config_retry_scheduled := False\<rparr>))
       else Inr s)"
  proof (cases "k_config_retry_scheduled s")
    case True
    have "ok (s\<lparr>k_world := w, k_config_retry_scheduled := False\<rparr>)" if w: "inv w" "pending (mine w) ((expected s)(ConfigRetry := {}))" for w
    proof (rule ok_fine)
      show "fake_wf (s\<lparr>k_world := w, k_config_retry_scheduled := False\<rparr>)"
        using s by (simp add: ok_def fake_wf_def)
      show "fine ((expected s)(ConfigRetry := {})) (s\<lparr>k_world := w, k_config_retry_scheduled := False\<rparr>)"
        using s w by (simp add: ok_def fine_def send_slot_def)
      show "(expected s)(ConfigRetry := {}) = expected (s\<lparr>k_world := w, k_config_retry_scheduled := False\<rparr>)"
      proof
        show "((expected s)(ConfigRetry := {})) c = expected (s\<lparr>k_world := w, k_config_retry_scheduled := False\<rparr>) c" for c
          by (cases c) (simp_all add: waiting_def send_slot_def)
      qed
    qed
    note set = this
    have "safe (\<lambda>s'. ok s' \<and> \<not> k_config_retry_scheduled s' \<and> k_os s' = k_os s)
        (rbind (sv_timeout_cancel sv (k_world s) (k_config_retry_timeout_id s)) (\<lambda>w. Inr (s\<lparr>k_world := w, k_config_retry_scheduled := False\<rparr>)))"
      by (rule safe_bind [OF cancel_pending [where f = "expected s" and c = ConfigRetry]]) (use s True set in \<open>auto simp: ok_def fine_def\<close>)
    with True show ?thesis
      by simp
  qed (use s in simp)
  have retry: "safe (\<lambda>(b, s'). ok s') (rbind (sv_timeout_add sv (k_world s2) CONFIG_RETRY_TIME ConfigRetry) (\<lambda>(id0, w).
      Inr (True, s2\<lparr>k_world := w, k_config_retry_timeout_id := id0, k_config_retry_scheduled := True, k_allow_retries := k_allow_retries s2 - 1\<rparr>)))"
    if s2: "ok s2" "\<not> k_config_retry_scheduled s2" for s2
  proof -
    have "ok (s2\<lparr>k_world := w, k_config_retry_timeout_id := id0, k_config_retry_scheduled := True, k_allow_retries := k_allow_retries s2 - 1\<rparr>)"
      if w: "inv w" "pending (mine w) ((expected s2)(ConfigRetry := {id0}))" for w id0
    proof (rule ok_fine)
      let ?s = "s2\<lparr>k_world := w, k_config_retry_timeout_id := id0, k_config_retry_scheduled := True, k_allow_retries := k_allow_retries s2 - 1\<rparr>"
      show "fake_wf ?s"
        using s2 by (simp add: ok_def fake_wf_def)
      show "fine ((expected s2)(ConfigRetry := {id0})) ?s"
        using s2 w by (simp add: ok_def fine_def send_slot_def)
      show "(expected s2)(ConfigRetry := {id0}) = expected ?s"
      proof
        show "((expected s2)(ConfigRetry := {id0})) c = expected ?s c" for c
          by (cases c) (simp_all add: waiting_def send_slot_def)
      qed
    qed
    note set = this
    show ?thesis
      by (rule safe_bind [OF add_pending [where f = "expected s2" and c = ConfigRetry]]) (use s2 set in \<open>auto simp: ok_def fine_def\<close>)
  qed
  have creds: "ok (s2\<lparr>k_log_credentials_candidate := c\<rparr>)" if "ok s2" for s2 c
    by (rule same_state_ok [OF that]) (use that in \<open>auto simp: ok_def fine_def\<close>)
  have same: "k_config_retry_scheduled s' = k_config_retry_scheduled s1" if "config_servers opts s1 [0] = Inr (b, again, s')" for s1 :: "'w fake" and b again s'
    using config_servers_one [OF that] config_server_retry [of s1 0] by (metis snd_conv)
  have rest: "safe (\<lambda>(b, s'). ok s') (rbind (config_servers opts s1 [0]) (\<lambda>(b, again, s).
      if \<not> b then Inr (False, s)
      else case credentials_option opts of
             None \<Rightarrow> Inr (False, s)
           | Some creds \<Rightarrow>
               let s = s\<lparr>k_log_credentials_candidate := creds\<rparr>
               in if again \<and> k_allow_retries s \<noteq> 0 then
                    rbind (sv_timeout_add sv (k_world s) CONFIG_RETRY_TIME ConfigRetry) (\<lambda>(id0, w).
                      Inr (True, s\<lparr>k_world := w, k_config_retry_timeout_id := id0, k_config_retry_scheduled := True,
                        k_allow_retries := k_allow_retries s - 1\<rparr>))
                  else Inr (True, s)))"
    if s1: "ok s1" "\<not> k_config_retry_scheduled s1" "k_os s1 = k_os s" for s1
  proof -
    have f1: "fresh_socket s1"
      using fresh s1(3) by (simp add: fresh_socket_def)
    have "safe (\<lambda>(b, again, s'). ok s' \<and> \<not> k_config_retry_scheduled s') (config_servers opts s1 [0])"
    proof (cases "config_servers opts s1 [0]")
      case (Inl e)
      then show ?thesis
        using wf_at(1) [of s1 0] s1(1) by (auto simp: ok_def result_simps split: option.splits prod.splits if_splits)
    next
      case (Inr r)
      then show ?thesis
        using config_servers_ok [OF s1(1) f1] same s1(2) by (cases r) auto
    qed
    then show ?thesis
    proof (rule safe_bind)
      fix p :: "bool \<times> bool \<times> 'w fake"
      obtain b again s2 where p: "p = (b, again, s2)" by (cases p)
      assume "case p of (b, again, s') \<Rightarrow> ok s' \<and> \<not> k_config_retry_scheduled s'"
      then have s2: "ok s2" "\<not> k_config_retry_scheduled s2"
        by (simp_all add: p)
      show "safe (\<lambda>(b, s'). ok s') (case p of (b, again, s) \<Rightarrow>
          if \<not> b then Inr (False, s)
          else case credentials_option opts of
                 None \<Rightarrow> Inr (False, s)
               | Some creds \<Rightarrow>
                   let s = s\<lparr>k_log_credentials_candidate := creds\<rparr>
                   in if again \<and> k_allow_retries s \<noteq> 0 then
                        rbind (sv_timeout_add sv (k_world s) CONFIG_RETRY_TIME ConfigRetry) (\<lambda>(id0, w).
                          Inr (True, s\<lparr>k_world := w, k_config_retry_timeout_id := id0, k_config_retry_scheduled := True,
                            k_allow_retries := k_allow_retries s - 1\<rparr>))
                      else Inr (True, s))"
        using s2 creds [OF s2(1)] retry [OF creds [OF s2(1)]] by (simp add: p Let_def split: option.splits)
    qed
  qed
  show ?thesis
    unfolding config_internal_def
    by (rule safe_bind [OF stopped]) (use rest servers in simp)
qed

lemma finish_server_ok:
  assumes s: "ok s"
  shows "safe ok (finish_server activate s 0)"
proof -
  have wf: "fake_wf s"
    using s by (simp add: ok_def)
  note at = wf_at [OF wf, of 0]
  let ?t = "k_tags s ! 0"
  have w: "watch_ok (k_tags s) (ko_fds (k_os s))" and os: "os_ok (k_os s)" and l: "logs (k_log s)"
    using wf by (simp_all add: fake_wf_def)
  define k where "k = (if activate then if t_fd ?t \<noteq> t_candidate ?t \<and> t_fd ?t \<noteq> -1 then unwatch_fd (t_fd ?t) (k_os s) else k_os s
    else if t_candidate ?t \<noteq> -1 then unwatch_fd (t_candidate ?t) (k_os s) else k_os s)"
  define t where "t = (if activate \<and> t_fd ?t \<noteq> t_candidate ?t then ?t\<lparr>t_port := t_port_candidate ?t, t_fd := t_candidate ?t, t_port_candidate := 0, t_candidate := -1\<rparr>
    else ?t\<lparr>t_port_candidate := 0, t_candidate := -1\<rparr>)"
  define l' where "l' = (if activate then log_set_send_credentials (k_log s) (k_log_credentials_candidate s) else k_log s)"
  have "watch_ok (k_tags s) (ko_fds k)" "os_ok k"
    using w os by (auto simp: k_def unwatch_fd_def os_ok_def intro: watch_ok_remove)
  moreover have "tag_ok 0 t"
    using at(3) by (auto simp: t_def tag_ok_def)
  ultimately have o: "ok (s\<lparr>k_tags := (k_tags s)[0 := t], k_os := k\<rparr>)"
    by (intro server_change_ok [OF s])
  have "ok (s\<lparr>k_tags := (k_tags s)[0 := t], k_os := k, k_log := l'\<rparr>)"
    by (rule same_state_ok [OF o]) (use l in \<open>auto simp: l'_def logs_def log_shows_def log_set_send_credentials_def\<close>)
  moreover have "finish_server activate s 0 = Inr (s\<lparr>k_tags := (k_tags s)[0 := t], k_os := k, k_log := l'\<rparr>)"
    using at(1,5) by (auto simp: finish_server_def tag_set_def k_def t_def l'_def Let_def unwatch_fd_def)
  ultimately show ?thesis
    by simp
qed

lemma config_finish_ok: "ok s \<Longrightarrow> safe ok (config_finish s activate)"
proof -
  assume s: "ok s"
  then have "take (k_server_count s) (k_tag_indices s) = [0]"
    by (simp add: ok_def fake_wf_def)
  then show ?thesis
    using finish_server_ok [OF s, of activate] by (cases "finish_server activate s 0") (simp_all add: config_finish_def)
qed

lemma config_ok: "ok s \<Longrightarrow> fresh_socket s \<Longrightarrow> safe (\<lambda>(b, s'). ok s') (config sv opts s)"
  unfolding config_def
  by (rule config_internal_ok, rule same_state_ok [of s]) (auto simp: ok_def fine_def fresh_socket_def)

lemma config_retry_ok:
  assumes wf: "fake_wf s" and f: "fine ((expected s)(ConfigRetry := {})) s" and fresh: "fresh_socket s"
  shows "safe ok (config_retry_now sv opts s)"
proof -
  let ?s = "s\<lparr>k_config_retry_scheduled := False\<rparr>"
  have "ok ?s"
  proof (rule ok_fine)
    show "fake_wf ?s" "fine ((expected s)(ConfigRetry := {})) ?s"
      using wf f by (simp_all add: fake_wf_def fine_def send_slot_def)
    show "(expected s)(ConfigRetry := {}) = expected ?s"
    proof
      show "((expected s)(ConfigRetry := {})) c = expected ?s c" for c
        by (cases c) (simp_all add: waiting_def send_slot_def)
    qed
  qed
  moreover have "fresh_socket ?s"
    using fresh by (simp add: fresh_socket_def)
  ultimately show ?thesis
    unfolding config_retry_now_def by (intro safe_bind [OF config_internal_ok]) (auto intro: config_finish_ok)
qed

lemma initialize_ok:
  assumes w: "inv w" "mine w = {}" and k: "os_ok k" "ko_fds k = []"
  shows "safe ok (initialize sv w k)"
proof -
  obtain l where l: "log_alloc = Inr l" "log_shows l []"
    using log_alloc_ok by blast
  let ?d = "hd server_descs"
  let ?tags = "server_tags ?d 0"
  let ?s = "\<lparr>k_world = w, k_os = k, k_tags = ?tags, k_conns = map (\<lambda>_. telnet_conn_alloc) ?tags, k_tag_indices = [0, 21],
    k_server_count = 1, k_config_version = 0, k_max_age = 0, k_log_credentials_candidate = False,
    k_timeout_scheduled = False, k_config_retry_scheduled = False, k_timeout_missed = False, k_timeout_id = 0,
    k_config_retry_timeout_id = 0, k_allow_retries = 0, k_log = l\<rparr>"
  have tags: "length ?tags = 21"
    by (simp add: server_tags_def server_descs_def)
  have t: "tag_ok n (?tags ! n)" "\<not> t_inactivity_timeout_active (?tags ! n)" if "n < 21" for n
    using that by (auto simp: server_tags_def server_descs_def new_tag_def tag_ok_def addr_ok_def no_addr_def nth_Cons split: nat.splits)
  have c: "conn_ok n telnet_conn_alloc" "c_position telnet_conn_alloc = WANT_LOGIN" for n
    by (simp_all add: conn_ok_def telnet_conn_alloc_def)
  have "ok ?s"
  proof (rule ok_fine)
    show "fake_wf ?s"
      using tags t c k l(2) by (auto simp: fake_wf_def watch_ok_def logs_def)
    have e: "expected ?s = (\<lambda>_. {})"
    proof
      show "expected ?s x = {}" for x
        using tags t(2) c(2) by (cases x) (auto simp: send_slot_def waiting_def)
    qed
    show "fine (\<lambda>_. {}) ?s"
      using w l(2) by (auto simp: fine_def pending_def logs_def send_slot_def)
    show "(\<lambda>_. {}) = expected ?s"
      by (rule e [symmetric])
  qed
  moreover have "initialize sv w k = connected sv ?s"
    by (simp add: initialize_def l(1) server_descs_def)
  ultimately show ?thesis
    using connected_ok by simp
qed

end

interpretation kc: fake_client "plugin_service (silent m) i" live "plugin_timers i"
  by unfold_locales

subsection \<open>Properties\<close>

text \<open>
  The life of the plugin in the daemon. The loop calls for a descriptor it watches, the kernel gives
  new descriptors, and no address that tries to log in starts another one. The denial of a
  login is due 29 seconds before the inactivity of its connection, and both were set at
  the same activity, so the inactivity does not come first.
\<close>

inductive fake_reach :: "('z, fake_timer, 'p) platform \<Rightarrow> nat \<Rightarrow> ('z, fake_timer, 'p) world fake \<Rightarrow> bool" for m i where
  start: "live w \<Longrightarrow> plugin_timers i w = {} \<Longrightarrow> os_ok k \<Longrightarrow> ko_fds k = [] \<Longrightarrow>
    initialize (plugin_service (silent m) i) w k = Inr s \<Longrightarrow> fake_reach m i s"
| others: "fake_reach m i s \<Longrightarrow> live w \<Longrightarrow> plugin_timers i w = plugin_timers i (k_world s) \<Longrightarrow>
    os_ok k \<Longrightarrow> ko_fds k = ko_fds (k_os s) \<Longrightarrow> fake_reach m i (s\<lparr>k_world := w, k_os := k\<rparr>)"
| ready: "fake_reach m i s \<Longrightarrow> (fd, n) \<in> set (ko_fds (k_os s)) \<Longrightarrow> fresh_accept s \<Longrightarrow>
    n \<noteq> 0 \<longrightarrow> no_clash (k_log s) (k_tags s ! n) \<Longrightarrow> fd_ready (plugin_service (silent m) i) s n = Inr s' \<Longrightarrow> fake_reach m i s'"
| message: "fake_reach m i s \<Longrightarrow> uplink_data (plugin_service (silent m) i) s data = Inr s' \<Longrightarrow> fake_reach m i s'"
| connect: "fake_reach m i s \<Longrightarrow> connected (plugin_service (silent m) i) s = Inr s' \<Longrightarrow> fake_reach m i s'"
| check: "fake_reach m i s \<Longrightarrow> fresh_socket s \<Longrightarrow> config (plugin_service (silent m) i) opts s = Inr (b, s') \<Longrightarrow> fake_reach m i s'"
| finish: "fake_reach m i s \<Longrightarrow> config_finish s activate = Inr s' \<Longrightarrow> fake_reach m i s'"
| send: "fake_reach m i s \<Longrightarrow> queue (w_timeouts (k_world s)) = t # ts \<Longrightarrow> tcontext t = Some i \<Longrightarrow> callback t = PluginTimer SendTimer \<Longrightarrow>
    send_timeout (plugin_service (silent m) i) (s\<lparr>k_world := unqueue (k_world s)\<rparr>) = Inr s' \<Longrightarrow> fake_reach m i s'"
| retry: "fake_reach m i s \<Longrightarrow> queue (w_timeouts (k_world s)) = t # ts \<Longrightarrow> tcontext t = Some i \<Longrightarrow> callback t = PluginTimer ConfigRetry \<Longrightarrow>
    fresh_socket s \<Longrightarrow> config_retry_now (plugin_service (silent m) i) opts (s\<lparr>k_world := unqueue (k_world s)\<rparr>) = Inr s' \<Longrightarrow> fake_reach m i s'"
| inactive: "fake_reach m i s \<Longrightarrow> queue (w_timeouts (k_world s)) = t # ts \<Longrightarrow> tcontext t = Some i \<Longrightarrow> callback t = PluginTimer (Inactive n) \<Longrightarrow>
    \<not> waiting s n \<Longrightarrow> conn_inactive (plugin_service (silent m) i) (s\<lparr>k_world := unqueue (k_world s)\<rparr>) n (tid t) = Inr s' \<Longrightarrow> fake_reach m i s'"
| denial: "fake_reach m i s \<Longrightarrow> queue (w_timeouts (k_world s)) = t # ts \<Longrightarrow> tcontext t = Some i \<Longrightarrow> callback t = PluginTimer (Denial n) \<Longrightarrow>
    send_denial (plugin_service (silent m) i) (s\<lparr>k_world := unqueue (k_world s)\<rparr>) n = Inr s' \<Longrightarrow> fake_reach m i s'"

text \<open>The timeout that fires is the one the state expects.\<close>

lemma expected_one: "j \<in> expected s c \<Longrightarrow> expected s c = {j}"
  by (cases c) (auto simp: send_slot_def split: if_splits)

lemma expected_world: "expected (s\<lparr>k_world := w\<rparr>) = expected s"
proof
  show "expected (s\<lparr>k_world := w\<rparr>) c = expected s c" for c
    by (cases c) (simp_all add: waiting_def send_slot_def)
qed

lemma fired:
  fixes s :: "('z, fake_timer, 'p) world fake"
  assumes s: "kc.ok i s" and q: "queue (w_timeouts (k_world s)) = t # ts" "tcontext t = Some i" "callback t = PluginTimer c"
  defines "s1 \<equiv> s\<lparr>k_world := unqueue (k_world s)\<rparr>"
  shows "live (k_world s1)" "pending (plugin_timers i (k_world s1)) ((expected s1)(c := {}))" "tid t \<in> expected s1 c" "fake_wf s1"
proof -
  have w: "live (k_world s)" "pending (plugin_timers i (k_world s)) (expected s)" "fake_wf s"
    using s by (simp_all add: kc.ok_def kc.fine_def)
  note u = unqueue_plugin [OF w(1) q]
  have "tid t \<in> expected s c"
    using u w(2) by (auto simp: pending_def)
  moreover have "pending (plugin_timers i (unqueue (k_world s))) ((expected s)(c := {}))"
    using pending_cancel(2) [OF w(2) expected_one [OF \<open>tid t \<in> expected s c\<close>]] u by simp
  ultimately show "live (k_world s1)" "pending (plugin_timers i (k_world s1)) ((expected s1)(c := {}))" "tid t \<in> expected s1 c" "fake_wf s1"
    using u w(3) by (simp_all add: s1_def expected_world fake_wf_def)
qed

lemma fired_fine:
  fixes s :: "('z, fake_timer, 'p) world fake"
  assumes "kc.ok i s" "queue (w_timeouts (k_world s)) = t # ts" "tcontext t = Some i" "callback t = PluginTimer c" "c \<noteq> SendTimer"
  shows "kc.fine i ((expected (s\<lparr>k_world := unqueue (k_world s)\<rparr>))(c := {})) (s\<lparr>k_world := unqueue (k_world s)\<rparr>)"
  using fired [OF assms(1-4)] assms(1,5) by (simp add: kc.fine_def kc.ok_def fake_wf_def)

lemma fake_reach_ok: "fake_reach m i s \<Longrightarrow> kc.ok i s"
proof (induction rule: fake_reach.induct)
  case (start w k s)
  show ?case
    by (rule safe_result [OF kc.initialize_ok [OF start(1-4)] start(5)])
next
  case (others s w k)
  have w: "live (k_world s)" "pending (plugin_timers i (k_world s)) (expected s)" "fake_wf s" "logs (k_log s)"
    using others.IH by (simp_all add: kc.ok_def kc.fine_def)
  have "expected (s\<lparr>k_world := w, k_os := k\<rparr>) = expected s"
  proof
    show "expected (s\<lparr>k_world := w, k_os := k\<rparr>) c = expected s c" for c
      by (cases c) (simp_all add: waiting_def send_slot_def)
  qed
  then show ?case
    using w others.hyps by (simp add: kc.ok_def kc.fine_def fake_wf_def send_slot_def)
next
  case (ready s fd n s')
  show ?case
    by (rule safe_result [OF kc.fd_ready_ok [OF ready.IH ready.hyps(2,3)] ready.hyps(5)]) (use ready.hyps(4) in simp)
next
  case (message s data s')
  show ?case
    by (rule safe_result [OF kc.uplink_data_ok [OF message.IH] message.hyps(2)])
next
  case (connect s s')
  show ?case
    by (rule safe_result [OF kc.connected_ok [OF connect.IH] connect.hyps(2)])
next
  case (check s opts b s')
  have "safe (\<lambda>(b, s'). kc.ok i s') (config (plugin_service (silent m) i) opts s)"
    by (rule kc.config_ok [OF check.IH check.hyps(2)])
  then show ?case
    using check.hyps(3) by simp
next
  case (finish s activate s')
  show ?case
    by (rule safe_result [OF kc.config_finish_ok [OF finish.IH] finish.hyps(2)])
next
  case (send s t ts s')
  note f = fired [OF send.IH send.hyps(2-4)]
  have "kc.fine i ((expected (s\<lparr>k_world := unqueue (k_world s)\<rparr>))(SendTimer := {})) (s\<lparr>k_world := unqueue (k_world s), k_timeout_scheduled := False\<rparr>)"
    using f(1,2) send.IH by (simp add: kc.fine_def send_slot_def kc.ok_def fake_wf_def)
  then show ?case
    by (intro safe_result [OF kc.send_timeout_ok [OF f(4)] send.hyps(5)]) simp
next
  case (retry s t ts opts s')
  note f = fired(4) [OF retry.IH retry.hyps(2-4)] fired_fine [OF retry.IH retry.hyps(2-4)]
  show ?case
    by (rule safe_result [OF kc.config_retry_ok [OF f(1,2)] retry.hyps(6)]) (use retry.hyps(5) in \<open>auto simp: fresh_socket_def\<close>)
next
  case (inactive s t ts n s')
  let ?s = "s\<lparr>k_world := unqueue (k_world s)\<rparr>"
  note f = fired [OF inactive.IH inactive.hyps(2-4)] fired_fine [OF inactive.IH inactive.hyps(2-4)]
  have a: "n < 21" "t_inactivity_timeout_active (k_tags ?s ! n)"
    using f(3,4) by (auto simp: fake_wf_def split: if_splits)
  have "\<not> waiting ?s n"
    using inactive.hyps(5) by (simp add: waiting_def)
  from kc.conn_inactive_safe [OF f(4) f(5) a this] show ?case
    by (rule safe_result [OF _ inactive.hyps(6)]) simp
next
  case (denial s t ts n s')
  let ?s = "s\<lparr>k_world := unqueue (k_world s)\<rparr>"
  note f = fired [OF denial.IH denial.hyps(2-4)] fired_fine [OF denial.IH denial.hyps(2-4)]
  have "waiting ?s n"
    using f(3) by (auto split: if_splits)
  from kc.send_denial_safe [OF f(4) f(5) this] show ?case
    by (rule safe_result [OF _ denial.hyps(5)]) simp
qed


end
