(* ===== verification/FakeTelnet.thy ===== *)
theory FakeTelnet
  imports FakeLife
begin

text \<open>
  What the fake telnet server does with a login, and with a configuration that is taken back.
\<close>

subsection \<open>Typing a line\<close>

definition line_of :: "line_buffer \<Rightarrow> conn_data \<Rightarrow> bytes" where
  "line_of b c = (case b of Username \<Rightarrow> c_username c | Password \<Rightarrow> c_password c)"

definition with_line :: "line_buffer \<Rightarrow> bytes \<Rightarrow> conn_data \<Rightarrow> conn_data" where
  "with_line b x c = (case b of Username \<Rightarrow> c\<lparr>c_username := x\<rparr> | Password \<Rightarrow> c\<lparr>c_password := x\<rparr>)"

text \<open>The characters that have no meaning of their own.\<close>

definition plain_text :: "bytes \<Rightarrow> bool" where
  "plain_text cs \<longleftrightarrow> (\<forall>ch \<in> set cs. ch \<noteq> 0 \<and> ch \<noteq> 13 \<and> ch \<noteq> 255)"

lemma line_write_at:
  assumes "length (line_of b c) = LINE_MAX + 1" "n < LINE_MAX"
  shows "line_write c b n ch = Inr (with_line b (take n (line_of b c) @ ch # drop (Suc n) (line_of b c)) c)"
  using assms by (cases b) (simp_all add: line_write_def buf_write_def line_of_def with_line_def)

lemma line_write_end:
  assumes "line_of b c = x @ y # r" "length x + length (y # r) = LINE_MAX + 1" "length x < LINE_MAX"
  shows "line_write c b (length x) 0 = Inr (with_line b (x @ 0 # r) c)"
  using assms by (simp add: line_write_at)

lemma with_line_simps [simp]:
  "line_of b (with_line b x c) = x" "c_line (with_line b x c) = c_line c" "c_expect (with_line b x c) = c_expect c"
  "c_position (with_line b x c) = c_position c" "with_line b x (with_line b y c) = with_line b x c"
  "line_of b (c\<lparr>c_line := l\<rparr>) = line_of b c" "with_line b x (c\<lparr>c_line := l\<rparr>) = (with_line b x c)\<lparr>c_line := l\<rparr>" "c_fd (with_line b x c) = c_fd c"
  by (cases b; simp add: line_of_def with_line_def)+

lemma send_rounds_free: "send_rounds [] data = (None, [], data)"
  by (cases data) simp_all

lemma conn_set_twice: "i < length (k_conns s) \<Longrightarrow> conn_set (conn_set s i (\<lambda>_. c)) i g = conn_set s i (\<lambda>_. g c)"
  by (simp add: conn_set_def)

lemma conn_at_set: "i < length (k_conns s) \<Longrightarrow> conn_at (conn_set s i (\<lambda>_. c)) i = Inr c"
  by (simp add: conn_set_def conn_at_def)

lemma type_char:
  assumes i: "i < length (k_conns s)" and c: "c_expect c = EXPECT_NONE" "c_line c = Some (b, n)" "length (line_of b c) = LINE_MAX + 1"
    and ch: "ch \<noteq> 13" "ch \<noteq> 255"
  shows "char_handle sv (conn_set s i (\<lambda>_. c)) tag i ch =
    Inr (True, conn_set s i (\<lambda>_. if n < 255 then (with_line b (take n (line_of b c) @ ch # drop (Suc n) (line_of b c)) c)\<lparr>c_line := Some (b, n + 1)\<rparr> else c))"
  using assms line_write_at [of b c n ch] by (simp add: char_handle_def conn_at_set conn_set_twice LINE_MAX_def)

lemma type_line:
  assumes "i < length (k_conns s)" "c_expect c = EXPECT_NONE" "c_line c = Some (b, n)" "length (line_of b c) = LINE_MAX + 1" "n \<le> 255" "plain_text cs"
  shows "\<exists>rest. chars_handle sv (conn_set s i (\<lambda>_. c)) tag i (cs @ zs) =
      chars_handle sv (conn_set s i (\<lambda>_. (with_line b (take n (line_of b c) @ take (255 - n) cs @ rest) c)\<lparr>c_line := Some (b, n + length (take (255 - n) cs))\<rparr>)) tag i zs \<and>
    n + length (take (255 - n) cs) + length rest = LINE_MAX + 1"
  using assms
proof (induction cs arbitrary: c n)
  case Nil
  have "with_line b (line_of b c) c = c"
    by (cases b) (simp_all add: line_of_def with_line_def)
  then have "(with_line b (take n (line_of b c) @ [] @ drop n (line_of b c)) c)\<lparr>c_line := Some (b, n)\<rparr> = c"
    using Nil by simp
  then show ?case
    using Nil by (intro exI [of _ "drop n (line_of b c)"]) (simp add: LINE_MAX_def)
next
  case (Cons ch cs)
  have ch: "ch \<noteq> 13" "ch \<noteq> 255" "plain_text cs"
    using Cons.prems(6) by (simp_all add: plain_text_def)
  show ?case
  proof (cases "n < 255")
    case True
    let ?x = "take n (line_of b c) @ ch # drop (Suc n) (line_of b c)"
    let ?c = "(with_line b ?x c)\<lparr>c_line := Some (b, n + 1)\<rparr>"
    have x: "length ?x = LINE_MAX + 1" "take (n + 1) ?x = take n (line_of b c) @ [ch]"
      using Cons.prems(4) True by (simp_all add: LINE_MAX_def)
    obtain rest where r: "chars_handle sv (conn_set s i (\<lambda>_. ?c)) tag i (cs @ zs) =
        chars_handle sv (conn_set s i (\<lambda>_. (with_line b (take (n + 1) ?x @ take (255 - (n + 1)) cs @ rest) c)\<lparr>c_line := Some (b, n + 1 + length (take (255 - (n + 1)) cs))\<rparr>)) tag i zs"
        "n + 1 + length (take (255 - (n + 1)) cs) + length rest = LINE_MAX + 1"
      using Cons.IH [of ?c "n + 1"] Cons.prems x ch True by auto
    have t: "take (255 - n) (ch # cs) = ch # take (255 - (n + 1)) cs"
      using True by (simp add: take_Cons')
    show ?thesis
      using r True type_char [OF Cons.prems(1-4) ch(1,2), of sv tag] unfolding t x(2)
      by (intro exI [of _ rest]) simp
  next
    case False
    then have n: "n = 255"
      using Cons.prems(5) by simp
    show ?thesis
      using Cons.IH [OF Cons.prems(1-5) ch(3)] type_char [OF Cons.prems(1-4) ch(1,2), of sv tag] by (simp add: n)
  qed
qed


text \<open>The end of a line is a carriage return and a line feed.\<close>

lemma end_line:
  assumes "i < length (k_conns s)" "c_expect c = EXPECT_NONE"
  shows "chars_handle sv (conn_set s i (\<lambda>_. c)) tag i (13 # 10 # zs) =
    rbind (process_line sv (conn_set s i (\<lambda>_. c\<lparr>c_expect := EXPECT_LF\<rparr>)) tag i) (\<lambda>(ok, s).
      if ok then chars_handle sv (conn_set s i (\<lambda>c. c\<lparr>c_expect := EXPECT_NONE\<rparr>)) tag i zs
      else rbind (conn_at s i) (\<lambda>conn. do_close sv s i (c_protocol_error conn)))"
proof -
  have "char_handle sv (conn_set s i (\<lambda>_. c)) tag i 13 = Inr (True, conn_set s i (\<lambda>_. c\<lparr>c_expect := EXPECT_LF\<rparr>))"
    using assms by (simp add: char_handle_def conn_at_set conn_set_twice)
  moreover have "char_handle sv (conn_set s i (\<lambda>_. c\<lparr>c_expect := EXPECT_LF\<rparr>)) tag i 10 =
      rbind (process_line sv (conn_set s i (\<lambda>_. c\<lparr>c_expect := EXPECT_LF\<rparr>)) tag i) (\<lambda>(ok, s).
        Inr (if ok then (True, conn_set s i (\<lambda>c. c\<lparr>c_expect := EXPECT_NONE\<rparr>)) else (False, s)))"
    using assms by (simp add: char_handle_def conn_at_set)
  ultimately show ?thesis
    by (auto simp: rbind_assoc intro!: rbind_cong)
qed

lemma cstring_line: "plain_text u \<Longrightarrow> cstring (u @ 0 # rest) = u"
  by (simp add: cstring_def plain_text_def takeWhile_append2)

lemma plain_take: "plain_text u \<Longrightarrow> plain_text (take n u)"
  by (auto simp: plain_text_def dest: in_set_takeD)

lemma enter_line:
  assumes i: "i < length (k_conns s)" and c: "c_expect c = EXPECT_NONE" "c_line c = Some (b, 0)" "length (line_of b c) = LINE_MAX + 1" and u: "plain_text u"
  obtains y r where "length (take 255 u) + length (y # r) = LINE_MAX + 1"
    "chars_handle sv (conn_set s i (\<lambda>_. c)) tag i (u @ 13 # 10 # zs) =
       rbind (process_line sv (conn_set s i (\<lambda>_. (with_line b (take 255 u @ y # r) c)\<lparr>c_line := Some (b, length (take 255 u)), c_expect := EXPECT_LF\<rparr>)) tag i)
         (\<lambda>(ok, s). if ok then chars_handle sv (conn_set s i (\<lambda>c. c\<lparr>c_expect := EXPECT_NONE\<rparr>)) tag i zs
           else rbind (conn_at s i) (\<lambda>conn. do_close sv s i (c_protocol_error conn)))"
proof -
  obtain r0 where r0: "chars_handle sv (conn_set s i (\<lambda>_. c)) tag i (u @ 13 # 10 # zs) =
      chars_handle sv (conn_set s i (\<lambda>_. (with_line b (take 255 u @ r0) c)\<lparr>c_line := Some (b, length (take 255 u))\<rparr>)) tag i (13 # 10 # zs)"
      "length (take 255 u) + length r0 = LINE_MAX + 1"
    using type_line [OF i c _ u, of sv tag "13 # 10 # zs"] by auto
  obtain y r where r: "r0 = y # r"
    using r0(2) by (cases r0) (auto simp: LINE_MAX_def)
  have e: "c_expect ((with_line b (take 255 u @ r0) c)\<lparr>c_line := Some (b, length (take 255 u))\<rparr>) = EXPECT_NONE"
    using c(1) by simp
  show thesis
    by (rule that [OF r0(2) [unfolded r] r0(1) [unfolded end_line [OF i e], unfolded r]])
qed

text \<open>The name is followed by the question for the password, the password by the attempt.\<close>

lemma name_entered:
  assumes i: "i < length (k_conns s)" and c: "c_position c = WANT_LOGIN" "c_line c = Some (Username, length x)" "c_username c = x @ y # r"
    and x: "length x + length (y # r) = LINE_MAX + 1" "length x < LINE_MAX" and sends: "ko_sends (k_os s) = []"
  shows "process_line sv (conn_set s i (\<lambda>_. c)) tag i =
    Inr (True, conn_set (s\<lparr>k_os := (k_os s)\<lparr>ko_written := ko_written (k_os s) @ [(c_fd c, ascii ''password: '' @ [255, 249])]\<rparr>\<rparr>) i
      (\<lambda>_. c\<lparr>c_username := x @ 0 # r, c_line := Some (Password, 0), c_position := WANT_PASSWORD\<rparr>))"
proof -
  have lw: "line_write c Username (length x) 0 = Inr (c\<lparr>c_username := x @ 0 # r\<rparr>)"
    using line_write_end [of Username c x y r] c(3) x by (simp add: line_of_def with_line_def)
  have ks: "(k_os s)\<lparr>ko_sends := [], ko_written := wr\<rparr> = (k_os s)\<lparr>ko_written := wr\<rparr>" for wr
    using sends by (cases "k_os s") simp
  show ?thesis
    using i lw sends c(1,2)
    by (simp add: process_line_def conn_at_set conn_set_twice ask_for_def send_all_def Let_def)
       (simp add: conn_set_def ascii_def ks)
qed

lemma password_entered:
  assumes i: "i < length (k_conns s)" and c: "c_position c = WANT_PASSWORD" "c_line c = Some (Password, length x)" "c_password c = x @ y # r"
    and x: "length x + length (y # r) = LINE_MAX + 1" "length x < LINE_MAX"
  shows "process_line sv (conn_set s i (\<lambda>_. c)) tag i =
    rbind (sv_timeout_add sv (k_world s) denial_timeout (Denial i)) (\<lambda>(id0, w).
      rbind (conn_log_attempt sv
          (conn_set (s\<lparr>k_world := w\<rparr>) i (\<lambda>_. c\<lparr>c_password := x @ 0 # r, c_position := WAIT_DENIAL, c_denial_timeout := id0\<rparr>))
          tag (cstring (c_username c)) (cstring (x @ 0 # r))) (\<lambda>s.
        Inr (True, conn_set s i (\<lambda>c. c\<lparr>c_line := None\<rparr>))))"
proof -
  have lw: "line_write (c\<lparr>c_position := WAIT_DENIAL, c_denial_timeout := id0\<rparr>) Password (length x) 0 =
      Inr (c\<lparr>c_password := x @ 0 # r, c_position := WAIT_DENIAL, c_denial_timeout := id0\<rparr>)" for id0
    using line_write_end [of Password "c\<lparr>c_position := WAIT_DENIAL, c_denial_timeout := id0\<rparr>" x y r] c(3) x by (simp add: line_of_def with_line_def)
  have e: "conn_set ((conn_set s i (\<lambda>_. c))\<lparr>k_world := w\<rparr>) i (\<lambda>_. c') = conn_set (s\<lparr>k_world := w\<rparr>) i (\<lambda>_. c')" for w c'
    by (simp add: conn_set_def)
  have w: "k_world (conn_set s i (\<lambda>_. c)) = k_world s"
    by (simp add: conn_set_def)
  show ?thesis
    unfolding process_line_def conn_at_set [OF i] rbind_Inr c position.case option.case prod.case lw e w by simp
qed

text \<open>
  C35: A login typed over telnet is logged as it was typed. When a client at the prompt sends a name and a password, each on
  its own line and without control characters, the server asks for the password, starts the timeout of the
  denial and logs an attempt with exactly this name and password (of a longer one the first 255 characters); then the
  connection waits for the denial.
\<close>

theorem telnet_login_logged:
  assumes i: "i < length (k_conns s)" and c: "c = k_conns s ! i" "c_expect c = EXPECT_NONE" "c_position c = WANT_LOGIN" "c_line c = Some (Username, 0)"
      "length (c_username c) = LINE_MAX + 1" "length (c_password c) = LINE_MAX + 1"
    and typed: "plain_text u" "plain_text p" "length u + length p + 4 \<le> 1024"
    and recv: "ko_recvs (k_os s) = Received (u @ [13, 10] @ p @ [13, 10]) # rs" and sends: "ko_sends (k_os s) = []"
  shows "\<exists>c'. (\<forall>id0. c_position (c' id0) = WAIT_DENIAL \<and> c_denial_timeout (c' id0) = id0) \<and>
    telnet_data sv s tag i =
      rbind (sv_timeout_add sv (k_world s) denial_timeout (Denial i)) (\<lambda>(id0, w).
        rbind (conn_log_attempt sv
            (s\<lparr>k_world := w, k_os := (k_os s)\<lparr>ko_recvs := rs, ko_written := ko_written (k_os s) @ [(c_fd c, ascii ''password: '' @ [255, 249])]\<rparr>,
               k_conns := (k_conns s)[i := c' id0]\<rparr>) tag (take 255 u) (take 255 p)) (\<lambda>s.
          Inr (conn_set s i (\<lambda>c. c\<lparr>c_line := None, c_expect := EXPECT_NONE\<rparr>))))"
proof -
  let ?k = "(k_os s)\<lparr>ko_recvs := rs, ko_written := ko_written (k_os s) @ [(c_fd c, ascii ''password: '' @ [255, 249])]\<rparr>"
  let ?s = "s\<lparr>k_os := (k_os s)\<lparr>ko_recvs := rs\<rparr>\<rparr>" and ?s' = "s\<lparr>k_os := ?k\<rparr>"
  have i': "i < length (k_conns ?s)" "i < length (k_conns ?s')"
    using i by simp_all
  have short: "length (take 255 x) < LINE_MAX" for x :: bytes
    by (simp add: LINE_MAX_def)
  have start: "conn_set ?s i (\<lambda>_. c) = ?s"
    using c(1) by (simp add: conn_set_def)
  have data: "telnet_data sv s tag i = chars_handle sv (conn_set ?s i (\<lambda>_. c)) tag i (u @ 13 # 10 # p @ 13 # 10 # [])"
    using i typed(3) unfolding start by (simp add: telnet_data_def recv next_of_def Let_def conn_at_def)
  from c(5) have "length (line_of Username c) = LINE_MAX + 1"
    by (simp add: line_of_def)
  from enter_line [OF i'(1) c(2,4) this typed(1), of sv tag "p @ 13 # 10 # []"] obtain y r where r: "length (take 255 u) + length (y # r) = LINE_MAX + 1"
    and first: "chars_handle sv (conn_set ?s i (\<lambda>_. c)) tag i (u @ 13 # 10 # p @ 13 # 10 # []) =
       rbind (process_line sv (conn_set ?s i (\<lambda>_. (with_line Username (take 255 u @ y # r) c)\<lparr>c_line := Some (Username, length (take 255 u)), c_expect := EXPECT_LF\<rparr>)) tag i)
         (\<lambda>(ok, s). if ok then chars_handle sv (conn_set s i (\<lambda>c. c\<lparr>c_expect := EXPECT_NONE\<rparr>)) tag i (p @ 13 # 10 # [])
           else rbind (conn_at s i) (\<lambda>conn. do_close sv s i (c_protocol_error conn)))" .
  define c2 where "c2 = c\<lparr>c_username := take 255 u @ 0 # r, c_line := Some (Password, 0), c_position := WANT_PASSWORD, c_expect := EXPECT_NONE\<rparr>"
  have named: "telnet_data sv s tag i = chars_handle sv (conn_set ?s' i (\<lambda>_. c2)) tag i (p @ 13 # 10 # [])"
    unfolding data first using name_entered [OF i'(1) _ _ _ r short, of "(with_line Username (take 255 u @ y # r) c)\<lparr>c_line := Some (Username, length (take 255 u)), c_expect := EXPECT_LF\<rparr>" sv tag] c(3) sends i
    by (simp add: with_line_def conn_set_twice c2_def)
  have "c_expect c2 = EXPECT_NONE" "c_line c2 = Some (Password, 0)" "length (line_of Password c2) = LINE_MAX + 1"
    using c(6) by (simp_all add: c2_def line_of_def)
  from enter_line [OF i'(2) this typed(2), of sv tag "[]"] obtain y' r' where r': "length (take 255 p) + length (y' # r') = LINE_MAX + 1"
    and second: "chars_handle sv (conn_set ?s' i (\<lambda>_. c2)) tag i (p @ 13 # 10 # []) =
       rbind (process_line sv (conn_set ?s' i (\<lambda>_. (with_line Password (take 255 p @ y' # r') c2)\<lparr>c_line := Some (Password, length (take 255 p)), c_expect := EXPECT_LF\<rparr>)) tag i)
         (\<lambda>(ok, s). if ok then chars_handle sv (conn_set s i (\<lambda>c. c\<lparr>c_expect := EXPECT_NONE\<rparr>)) tag i []
           else rbind (conn_at s i) (\<lambda>conn. do_close sv s i (c_protocol_error conn)))" .
  define c3 where "c3 = (with_line Password (take 255 p @ y' # r') c2)\<lparr>c_line := Some (Password, length (take 255 p)), c_expect := EXPECT_LF\<rparr>"
  have c3: "c_position c3 = WANT_PASSWORD" "c_line c3 = Some (Password, length (take 255 p))" "c_password c3 = take 255 p @ y' # r'"
      "cstring (c_username c3) = take 255 u" "cstring (take 255 p @ 0 # r') = take 255 p"
    using cstring_line [OF plain_take [OF typed(1)]] cstring_line [OF plain_take [OF typed(2)]] by (simp_all add: c3_def c2_def with_line_def)
  have cs: "conn_set (conn_set s1 i (\<lambda>c. c\<lparr>c_line := None\<rparr>)) i (\<lambda>c. c\<lparr>c_expect := EXPECT_NONE\<rparr>) =
      conn_set s1 i (\<lambda>c. c\<lparr>c_line := None, c_expect := EXPECT_NONE\<rparr>)" for s1 :: "'a fake"
    by (cases "i < length (k_conns s1)") (simp_all add: conn_set_def list_update_beyond)
  have upd: "conn_set (?s'\<lparr>k_world := w\<rparr>) i (\<lambda>_. x) = s\<lparr>k_world := w, k_os := ?k, k_conns := (k_conns s)[i := x]\<rparr>" for w x
    by (simp add: conn_set_def)
  show ?thesis
    unfolding named second c3_def [symmetric] password_entered [OF i'(2) c3(1-3) r' short] c3(4,5) upd
    by (intro exI [of _ "\<lambda>id0. c3\<lparr>c_password := take 255 p @ 0 # r', c_position := WAIT_DENIAL, c_denial_timeout := id0\<rparr>"] conjI)
       (auto simp: rbind_assoc cs intro!: rbind_cong)
qed


subsection \<open>A configuration that is taken back\<close>

lemma same_port_config:
  assumes wf: "fake_wf s" and p: "config_port opts (hd server_descs) = Some (t_port (k_tags s ! 0))" and fd: "t_fd (k_tags s ! 0) \<noteq> -1"
    and run: "config sv opts s = Inr (b, s')"
  shows "k_os s' = k_os s \<and> k_server_count s' = 1 \<and> k_tag_indices s' = [0, 21] \<and> k_conns s' = k_conns s \<and> k_log s' = k_log s \<and>
    k_tags s' = (k_tags s)[0 := (k_tags s ! 0)\<lparr>t_candidate := t_fd (k_tags s ! 0), t_port_candidate := t_port (k_tags s ! 0)\<rparr>]"
proof -
  have one: "config_servers opts s0 [0] = Inr (True, False, tag_set s0 0 (\<lambda>t. t\<lparr>t_candidate := t_fd t, t_port_candidate := t_port t\<rparr>))"
    if "k_tags s0 = k_tags s" for s0 :: "'a fake"
    using wf_at(1,3,5) [OF wf, of 0] p fd that by (simp add: tag_at_def tag_ok_def config_server_def tag_set_def Let_def)
  have ix: "k_server_count s = 1" "k_tag_indices s = [0, 21]"
    using wf by (simp_all add: fake_wf_def)
  let ?s = "s\<lparr>k_allow_retries := CONFIG_RETRY_COUNT\<rparr>"
  obtain s0 where s0: "(if k_config_retry_scheduled ?s then
        rbind (sv_timeout_cancel sv (k_world ?s) (k_config_retry_timeout_id ?s)) (\<lambda>w. Inr (?s\<lparr>k_world := w, k_config_retry_scheduled := False\<rparr>))
      else Inr ?s) = Inr s0"
    and r: "rbind (config_servers opts s0 (take (k_server_count s0) (k_tag_indices s0))) (\<lambda>(ok, again, s).
         if \<not> ok then Inr (False, s)
         else case credentials_option opts of
                None \<Rightarrow> Inr (False, s)
              | Some creds \<Rightarrow>
                  let s = s\<lparr>k_log_credentials_candidate := creds\<rparr>
                  in if again \<and> k_allow_retries s \<noteq> 0 then
                       rbind (sv_timeout_add sv (k_world s) CONFIG_RETRY_TIME ConfigRetry) (\<lambda>(id0, w).
                         Inr (True, s\<lparr>k_world := w, k_config_retry_timeout_id := id0, k_config_retry_scheduled := True,
                           k_allow_retries := k_allow_retries s - 1\<rparr>))
                     else Inr (True, s)) = Inr (b, s')"
    using run unfolding config_def config_internal_def rbind_eq_Inr by blast
  have f0: "k_tags s0 = k_tags s" "k_os s0 = k_os s" "k_conns s0 = k_conns s" "k_log s0 = k_log s" "k_server_count s0 = 1" "k_tag_indices s0 = [0, 21]"
    using s0 ix by (auto simp: rbind_eq_Inr split: if_splits)
  have "s' = tag_set s0 0 (\<lambda>t. t\<lparr>t_candidate := t_fd t, t_port_candidate := t_port t\<rparr>) \<or>
      (\<exists>x. s' = (tag_set s0 0 (\<lambda>t. t\<lparr>t_candidate := t_fd t, t_port_candidate := t_port t\<rparr>))\<lparr>k_log_credentials_candidate := x\<rparr>)"
    using r one [OF f0(1)] by (auto simp: f0(5,6) Let_def split: option.splits)
  then show ?thesis
    using f0 by (auto simp: tag_set_def)
qed

lemma watched_after_remove: "distinct (map fst es) \<Longrightarrow> fd \<notin> fst ` set (remove_watch fd es)"
  using remove_watch_gone [of es fd] by force

text \<open>
  C37: Taking a configuration back closes the running server. The check of a configuration with the port of a running server
  makes its descriptor the candidate for the new one; when the configuration is then not accepted, for whatever
  reason, the candidate is closed and no longer watched, while the server still keeps it as its descriptor. No later
  configuration with this port opens it again, as the server looks alive.
\<close>

theorem reverted_config_closes_server:
  assumes reach: "fake_reach m i s" and fd: "t_fd (k_tags s ! 0) = fd" "fd \<noteq> -1"
    and p: "config_port opts (hd server_descs) = Some (t_port (k_tags s ! 0))"
    and run: "config (plugin_service (silent m) i) opts s = Inr (b, s1)" "config_finish s1 False = Inr s2"
  shows "t_fd (k_tags s2 ! 0) = fd \<and> fd \<notin> fst ` set (ko_fds (k_os s2)) \<and>
    (config (plugin_service (silent m) i) opts s2 = Inr (b', s3) \<and> config_finish s3 True = Inr s4 \<longrightarrow>
       t_fd (k_tags s4 ! 0) = fd \<and> fd \<notin> fst ` set (ko_fds (k_os s4)))"
proof -
  let ?t = "k_tags s ! 0"
  have s: "kc.ok i s" and wf: "fake_wf s"
    using fake_reach_ok [OF reach] by (simp_all add: kc.ok_def)
  have tags: "0 < length (k_tags s)" and dist: "distinct (map fst (ko_fds (k_os s)))"
    using wf by (auto simp: fake_wf_def watch_ok_def)
  note c1 = same_port_config [OF wf p _ run(1)]
  have s2: "k_tags s2 = (k_tags s)[0 := ?t\<lparr>t_port_candidate := 0, t_candidate := -1\<rparr>]" "k_os s2 = unwatch_fd fd (k_os s)"
      "k_conns s2 = k_conns s" "k_log s2 = k_log s" "k_server_count s2 = 1" "k_tag_indices s2 = [0, 21]"
    using run(2) c1 fd tags by (auto simp: config_finish_def finish_server_def tag_at_def tag_set_def Let_def)
  have f2: "t_fd (k_tags s2 ! 0) = fd" "t_port (k_tags s2 ! 0) = t_port ?t" "0 < length (k_tags s2)"
    using tags fd by (simp_all add: s2)
  have gone: "fd \<notin> fst ` set (ko_fds (k_os s2))"
    using watched_after_remove [OF dist] by (simp add: s2 unwatch_fd_def)
  have "fake_wf (s\<lparr>k_tags := (k_tags s)[0 := ?t\<lparr>t_port_candidate := 0, t_candidate := -1\<rparr>], k_os := unwatch_fd fd (k_os s)\<rparr>)"
    by (rule wf_tag [OF wf])
       (use wf wf_at(3) [OF wf, of 0] in \<open>auto simp: tag_ok_def fake_wf_def os_ok_def unwatch_fd_def intro!: watch_ok_server watch_ok_remove\<close>)
  then have wf2: "fake_wf s2"
    using s2 by (simp add: fake_wf_def)
  have "t_fd (k_tags s4 ! 0) = fd \<and> fd \<notin> fst ` set (ko_fds (k_os s4))"
    if again: "config (plugin_service (silent m) i) opts s2 = Inr (b', s3)" "config_finish s3 True = Inr s4"
  proof -
    have "config_port opts (hd server_descs) = Some (t_port (k_tags s2 ! 0))"
      using p f2(2) by simp
    note c3 = same_port_config [OF wf2 this _ again(1)]
    have "k_os s4 = k_os s2" "t_fd (k_tags s4 ! 0) = fd"
      using again(2) c3 f2 fd(2) by (auto simp: config_finish_def finish_server_def tag_at_def tag_set_def Let_def)
    then show ?thesis
      using gone by simp
  qed
  with f2(1) gone show ?thesis
    by blast
qed


subsection \<open>An example\<close>

definition example_addr :: sock_addr where
  "example_addr = \<lparr>sa_inet6 = True, sa_port = 4000, sa_addr = mapped_prefix @ [10, 0, 0, 1]\<rparr>"

definition example_os :: fake_os where
  "example_os = \<lparr>ko_sends = [], ko_recvs = [], ko_accepts = [Some (4, example_addr, 28, Some (example_addr, 28))], ko_sockets = [3],
     ko_binds = [], ko_listens = [], ko_written = [], ko_fds = []\<rparr>"

definition example_log :: fake_log where
  "example_log = \<lparr>log_events = [], limit_trie = Some trie_alloc, expected_serialized_size = 0, ip_limit = 5, size_limit = 4096 * 1024,
        throttle_holdback = 120000, log_credentials = False, attempts_reached = False\<rparr>"

definition example_fake :: "(unit, fake_timer, unit) world fake" where
  "example_fake = \<lparr>k_world = offline_world, k_os = example_os\<lparr>ko_sockets := [], ko_fds := [(3, 0)]\<rparr>,
     k_tags = (server_tags (hd server_descs) 0)[0 := (hd (server_tags (hd server_descs) 0))\<lparr>t_port := 23, t_fd := 3\<rparr>],
     k_conns = replicate 21 telnet_conn_alloc, k_tag_indices = [0, 21],
     k_server_count = 1, k_config_version = 0, k_max_age = 0, k_log_credentials_candidate = False,
     k_timeout_scheduled = False, k_config_retry_scheduled = False, k_timeout_missed = False, k_timeout_id = 0,
     k_config_retry_timeout_id = 0, k_allow_retries = 10, k_log = example_log\<rparr>"

lemma offline_add:
  "\<exists>j w. sv_timeout_add (plugin_service (silent idle_platform) 0) offline_world 30000 (Inactive 1) = Inr (j, w)"
  "\<exists>j w. sv_timeout_add (plugin_service (silent idle_platform) 0) offline_world 1000 (Denial 1) = Inr (j, w) \<and>
     \<not> sv_connected (plugin_service (silent idle_platform) 0) w"
  by (simp_all add: plugin_service_def add_timer_def offline_world_def loop_timeout_add_def uplink_connected_def Let_def)

lemma example_reached: "fake_reach idle_platform 0 example_fake"
proof -
  let ?sv = "plugin_service (silent idle_platform) 0 :: (fake_timer, (unit, fake_timer, unit) world) services"
  let ?tags = "server_tags (hd server_descs) 0"
  let ?s0 = "example_fake\<lparr>k_os := example_os, k_tags := ?tags, k_allow_retries := 0\<rparr>"
  have alloc: "log_alloc = Inr example_log"
    by (simp add: log_alloc_def log_clean_internal_def example_log_def)
  have status: "log_status example_log = LS_NONE"
    by (simp add: log_status_def example_log_def)
  have "initialize ?sv offline_world example_os = Inr ?s0"
    using status by (simp add: initialize_def alloc server_descs_def connected_def sv_tell_def offline_send example_fake_def server_tags_def map_replicate_const)
  then have r0: "fake_reach idle_platform 0 ?s0"
    by (rule fake_reach.start [rotated -1]) (simp_all add: offline_live example_os_def os_ok_def addr_ok_def example_addr_def mapped_prefix_def)
  let ?t = "(hd ?tags)\<lparr>t_candidate := 3, t_port_candidate := 23\<rparr>"
  let ?s1 = "example_fake\<lparr>k_tags := ?tags[0 := ?t]\<rparr>"
  have t0: "?tags ! 0 = hd ?tags" "t_fd (hd ?tags) = -1" "t_desc (hd ?tags) = hd server_descs" "t_port (hd ?tags) = 0"
    by (simp_all add: server_tags_def new_tag_def)
  have p: "config_port (\<lambda>_. None) (hd server_descs) = Some 23"
    by (simp add: config_port_def server_descs_def)
  have "config ?sv (\<lambda>_. None) ?s0 = Inr (True, ?s1)"
    using t0 by (simp add: config_def config_internal_def example_fake_def tag_at_def p config_server_def next_of_def example_os_def watch_fd_def
        credentials_option_def tag_set_def CONFIG_RETRY_COUNT_def Let_def server_tags_def)
  then have r1: "fake_reach idle_platform 0 ?s1"
    by (rule fake_reach.check [OF r0, rotated]) (simp add: fresh_socket_def example_fake_def example_os_def)
  have "config_finish ?s1 True = Inr example_fake"
    using t0 by (simp add: config_finish_def finish_server_def example_fake_def tag_at_def tag_set_def Let_def server_tags_def new_tag_def
        log_set_send_credentials_def example_log_def)
  then show ?thesis
    by (rule fake_reach.finish [OF r1])
qed

theorem reverted_config_closes_server_witness:
  "\<exists>s s1 s2. fake_reach idle_platform 0 s \<and> t_fd (k_tags s ! 0) = 3 \<and> (3, 0) \<in> set (ko_fds (k_os s)) \<and>
    config (plugin_service (silent idle_platform) 0) (\<lambda>_. None) s = Inr (True, s1) \<and> config_finish s1 False = Inr s2 \<and>
    t_fd (k_tags s2 ! 0) = 3 \<and> (3 :: int) \<notin> fst ` set (ko_fds (k_os (s2 :: (unit, fake_timer, unit) world fake)))"
proof -
  let ?sv = "plugin_service (silent idle_platform) 0 :: (fake_timer, (unit, fake_timer, unit) world) services"
  have fd: "t_fd (k_tags example_fake ! 0) = 3" "t_port (k_tags example_fake ! 0) = 23" "(3, 0) \<in> set (ko_fds (k_os example_fake))"
    by (simp_all add: example_fake_def server_tags_def)
  have p: "config_port (\<lambda>_. None) (hd server_descs) = Some (t_port (k_tags example_fake ! 0))"
    by (simp add: fd config_port_def server_descs_def)
  have "\<exists>s1 s2. config ?sv (\<lambda>_. None) example_fake = Inr (True, s1) \<and> config_finish s1 False = Inr s2"
    by (simp add: config_def config_internal_def example_fake_def tag_at_def config_port_def config_server_def
        credentials_option_def tag_set_def Let_def server_tags_def new_tag_def server_descs_def config_finish_def finish_server_def)
  then obtain s1 s2 where c: "config ?sv (\<lambda>_. None) example_fake = Inr (True, s1)" "config_finish s1 False = Inr s2"
    by blast
  note r = reverted_config_closes_server [OF example_reached fd(1) _ p c]
  show ?thesis
    using r fd c example_reached by (intro exI [of _ example_fake] exI [of _ s1] exI [of _ s2]) simp
qed


definition login_fake :: "(unit, fake_timer, unit) world fake" where
  "login_fake = example_fake\<lparr>k_os := example_os\<lparr>ko_recvs := [Received ([114, 111, 111, 116] @ [13, 10] @ [49] @ [13, 10])]\<rparr>,
     k_tags := (k_tags example_fake)[1 := (new_tag (hd server_descs) 0)\<lparr>t_rem_addr := example_addr, t_loc_addr := example_addr, t_fd := 4\<rparr>],
     k_conns := replicate 21 (telnet_conn_alloc\<lparr>c_line := Some (Username, 0), c_fd := 4, c_tag := Some 1\<rparr>)\<rparr>"

theorem telnet_login_logged_witness:
  "\<exists>s'. telnet_data (plugin_service (silent idle_platform) 0) login_fake 1 1 = Inr s' \<and> c_position (k_conns s' ! 1) = WAIT_DENIAL \<and>
    ko_written (k_os s') = [(4, ascii ''password: '' @ [255, 249])] \<and> map le_type (log_events (k_log s')) = [EVENT_LOGIN]"
proof -
  let ?sv = "plugin_service (silent idle_platform) 0 :: (fake_timer, (unit, fake_timer, unit) world) services"
  let ?u = "[114, 111, 111, 116] :: bytes" and ?p = "[49] :: bytes"
  let ?c = "telnet_conn_alloc\<lparr>c_line := Some (Username, 0), c_fd := 4, c_tag := Some 1\<rparr>"
  let ?k = "example_os\<lparr>ko_written := [(4, ascii ''password: '' @ [255, 249])]\<rparr>"
  have "\<exists>c'. (\<forall>id0. c_position (c' id0) = WAIT_DENIAL \<and> c_denial_timeout (c' id0) = id0) \<and>
    telnet_data ?sv login_fake 1 1 =
      rbind (sv_timeout_add ?sv (k_world login_fake) denial_timeout (Denial 1)) (\<lambda>(id0, w).
        rbind (conn_log_attempt ?sv
            (login_fake\<lparr>k_world := w, k_os := (k_os login_fake)\<lparr>ko_recvs := [], ko_written := ko_written (k_os login_fake) @ [(c_fd ?c, ascii ''password: '' @ [255, 249])]\<rparr>,
               k_conns := (k_conns login_fake)[1 := c' id0]\<rparr>) 1 (take 255 ?u) (take 255 ?p)) (\<lambda>s.
          Inr (conn_set s 1 (\<lambda>c. c\<lparr>c_line := None, c_expect := EXPECT_NONE\<rparr>))))"
    by (rule telnet_login_logged)
       (simp_all add: login_fake_def telnet_conn_alloc_def plain_text_def LINE_MAX_def example_os_def)
  then obtain c' where c': "\<And>id0. c_position (c' id0) = WAIT_DENIAL"
    and r: "telnet_data ?sv login_fake 1 1 =
      rbind (sv_timeout_add ?sv (k_world login_fake) denial_timeout (Denial 1)) (\<lambda>(id0, w).
        rbind (conn_log_attempt ?sv (login_fake\<lparr>k_world := w, k_os := (k_os login_fake)\<lparr>ko_recvs := [], ko_written := ko_written (k_os login_fake) @ [(c_fd ?c, ascii ''password: '' @ [255, 249])]\<rparr>,
               k_conns := (k_conns login_fake)[1 := c' id0]\<rparr>) 1 (take 255 ?u) (take 255 ?p)) (\<lambda>s.
          Inr (conn_set s 1 (\<lambda>c. c\<lparr>c_line := None, c_expect := EXPECT_NONE\<rparr>))))"
    by blast
  obtain j w where w: "sv_timeout_add ?sv offline_world 1000 (Denial 1) = Inr (j, w)" "\<not> sv_connected ?sv w"
    using offline_add(2) by blast
  show ?thesis
    using w c' unfolding r
    by (simp add: login_fake_def example_fake_def denial_timeout_def conn_log_attempt_def tag_at_def server_tags_def server_descs_def new_tag_def
        log_wrapper_def push_info_def MAX_INFOS_def example_addr_def log_event_def mapped_prefix_def size_sub_def log_status_def example_log_def logged_def
        count_attempt_def trie_index_def trie_index_internal.simps trie_alloc_def trie_new_node_def trie_slot_def trie_store_def example_os_def conn_set_def log_send_def Let_def)
qed

end
