(* ===== verification/Majordomo.thy ===== *)
theory Majordomo
  imports Trie Packet Services CText
begin

text \<open>
  The majordomo plugin (\<open>plugins/majordomo/majordomo.c\<close>): it counts the TCP and UDP traffic between each
  local hardware address and each remote address and port, and writes the counters to a file once a minute.
  The answers of \<open>fopen\<close> are inputs, the file is what was written to it; \<open>inet_pton\<close> and the byte order of the host
  are parameters. The development build's \<open>SWAP_DIRECTION\<close> is not set.
\<close>

subsection \<open>Data\<close>

record traffic =
  u_count :: u64
  u_size :: u64
  u_data_size :: u64
  d_count :: u64
  d_size :: u64
  d_data_size :: u64

definition no_traffic :: traffic where
  "no_traffic = \<lparr>u_count = 0, u_size = 0, u_data_size = 0, d_count = 0, d_size = 0, d_data_size = 0\<rparr>"

text \<open>Of the address of a source the first \<open>addr_len\<close> bytes are set.\<close>

record src_item =
  si_addr :: bytes
  si_addr_len :: byte
  si_other :: traffic
  si_items_in_comm_list :: nat

text \<open>An address of the family 4 has its four bytes; what follows them is never read.\<close>

record filter_rule =
  fr_addr :: bytes
  fr_prefix :: nat
  fr_family :: nat

text \<open>A rule that was allocated and not written, and a string that was not, are \<open>None\<close>. The array of masks is a
  static variable of the code; each holds the network byte order of the number here.\<close>

record 'w majordomo =
  m_world :: 'w
  m_communication :: "traffic trie"
  m_sources :: "src_item list"
  m_filter :: "filter_rule option list"
  m_timeout :: u64
  m_src_str :: "bytes option"
  m_dst_str :: "bytes option"
  m_masks :: "u32 list"
  m_opens :: "bool list"
  m_file :: bytes

definition KEYS_ADDR_LEN :: nat where "KEYS_ADDR_LEN = 16"
definition SOURCE_SIZE_LIMIT :: nat where "SOURCE_SIZE_LIMIT = 6000"
definition DUMP_TIMEOUT :: u32 where "DUMP_TIMEOUT = 60000"

subsection \<open>Addresses\<close>

text \<open>The loop from 32 down to 0.\<close>

fun mask_loop :: "nat \<Rightarrow> u32 \<Rightarrow> u32 list \<Rightarrow> u32 list" where
  "mask_loop 0 m ms = ms[0 := m]"
| "mask_loop (Suc i) m ms = mask_loop i (push_bit 1 m) (ms[Suc i := m])"

definition precompute_masks :: "u32 list \<Rightarrow> u32 list" where
  "precompute_masks ms = mask_loop 32 0xFFFFFFFF ms"

text \<open>Conjunction and equality of two integers do not depend on the order of their bytes, so the words are those of the
  network order.\<close>

fun words32 :: "bytes \<Rightarrow> u32 list" where
  "words32 (a # b # c # d # r) = get32 [a, b, c, d] # words32 r"
| "words32 _ = []"

fun bitcmp :: "u32 list \<Rightarrow> u32 list \<Rightarrow> u32 list \<Rightarrow> nat \<Rightarrow> bool result" where
  "bitcmp ms (x # a) (y # b) bits =
     (if bits > 32 then if x \<noteq> y then Inr False else bitcmp ms a b (bits - 32)
      else if bits < length ms then Inr (x AND ms ! bits = y AND ms ! bits) else Inl BadAccess)"
| "bitcmp ms _ _ bits = Inl BadAccess"

text \<open>\<open>inet_pton\<close> for the families 4 and 6.\<close>

type_synonym address_reader = "nat \<Rightarrow> bytes \<Rightarrow> bytes option"

definition parse_address :: "address_reader \<Rightarrow> bytes \<Rightarrow> (bytes \<times> nat) option" where
  "parse_address pton str =
     (case pton 4 str of
        Some addr \<Rightarrow> Some (addr, 4)
      | None \<Rightarrow> map_option (\<lambda>addr. (addr, 6)) (pton 6 str))"

definition hex2 :: "byte \<Rightarrow> bytes" where
  "hex2 b = [digit (unat b div 16), digit (unat b mod 16)]"

text \<open>The string the address is written to, which stays as it was for an address of another length.\<close>

definition get_string_from_raw_bytes :: "bytes \<Rightarrow> byte \<Rightarrow> bytes option \<Rightarrow> bytes option" where
  "get_string_from_raw_bytes bs alen out =
     (if alen = 4 then Some (inet_ntop4 (take 4 bs))
      else if alen = 16 then Some (inet_ntop6 (take 16 bs))
      else if alen = 6 then Some (join 58 (map hex2 (take 6 bs)))
      else out)"

subsection \<open>Counting\<close>

definition update_value :: "traffic \<Rightarrow> direction \<Rightarrow> u64 \<Rightarrow> u64 \<Rightarrow> traffic result" where
  "update_value v dir n data_n =
     (if dir = DIR_IN then
        Inr (v\<lparr>u_count := u_count v + 1, u_size := u_size v + n, u_data_size := u_data_size v + data_n\<rparr>)
      else if dir = DIR_OUT then
        Inr (v\<lparr>d_count := d_count v + 1, d_size := d_size v + n, d_data_size := d_data_size v + data_n\<rparr>)
      else Inl Assertion)"

text \<open>The key as it lies in the memory: the two addresses, their lengths, the protocol, a byte of padding and the port.\<close>

definition build_key :: "endian \<Rightarrow> bytes \<Rightarrow> byte \<Rightarrow> bytes \<Rightarrow> byte \<Rightarrow> char \<Rightarrow> u16 \<Rightarrow> bytes result" where
  "build_key e from from_addr_len to to_addr_len protocol port =
     (if length from > KEYS_ADDR_LEN \<or> length to > KEYS_ADDR_LEN then Inl BadAccess
      else Inr (from @ replicate (KEYS_ADDR_LEN - length from) 0 @ to @ replicate (KEYS_ADDR_LEN - length to) 0 @
             [from_addr_len, to_addr_len, code protocol, 0] @ host16 e port))"

definition payload_size :: "packet_info \<Rightarrow> u64" where
  "payload_size info = word_of_nat (size_sub (plength info) (hdr_length info))"

definition init_trie_data :: "packet_info \<Rightarrow> traffic" where
  "init_trie_data info = no_traffic\<lparr>u_count := 1, u_size := word_of_nat (plength info), u_data_size := payload_size info\<rparr>"

fun find_src :: "src_item list \<Rightarrow> bytes \<Rightarrow> byte \<Rightarrow> nat option" where
  "find_src [] from alen = None"
| "find_src (it # its) from alen =
     (if si_addr_len it = alen \<and> si_addr it = from then Some 0 else map_option Suc (find_src its from alen))"

text \<open>The copy of the address has as many bytes as the family says.\<close>

definition copy_address :: "bytes option \<Rightarrow> nat \<Rightarrow> bytes result" where
  "copy_address a n = (case a of None \<Rightarrow> Inl BadAccess | Some bs \<Rightarrow> if n \<le> length bs then Inr (take n bs) else Inl BadAccess)"

fun filter_loop :: "u32 list \<Rightarrow> bytes \<Rightarrow> nat \<Rightarrow> filter_rule option list \<Rightarrow> bool result" where
  "filter_loop ms addr family [] = Inr False"
| "filter_loop ms addr family (None # rs) = Inl BadAccess"
| "filter_loop ms addr family (Some r # rs) =
     rbind (if family = fr_family r then bitcmp ms (words32 addr) (words32 (fr_addr r)) (fr_prefix r) else Inr False) (\<lambda>hit.
       if hit then Inr True else filter_loop ms addr family rs)"

definition filter_address :: "'w majordomo \<Rightarrow> bytes option \<Rightarrow> nat \<Rightarrow> bool result" where
  "filter_address s addr_bytes family =
     rbind (copy_address addr_bytes (if family = 4 then 4 else 16)) (\<lambda>addr. filter_loop (m_masks s) addr family (m_filter s))"

definition first_byte :: "bytes option \<Rightarrow> byte result" where
  "first_byte a = rbind (copy_address a 1) (\<lambda>bs. Inr (hd bs))"

text \<open>A packet that was neither dropped nor counted under its key, with the slot of the key.\<close>

definition count_new :: "'w majordomo \<Rightarrow> slot \<Rightarrow> packet_info \<Rightarrow> packet_info \<Rightarrow> bytes \<Rightarrow> 'w majordomo result" where
  "count_new s slot l2 info from =
     (let fresh = s\<lparr>m_communication := trie_store (m_communication s) slot (Some (init_trie_data info))\<rparr>
      in case find_src (m_sources s) from (addr_len l2) of
           None \<Rightarrow>
             Inr (fresh\<lparr>m_sources := m_sources s @
               [\<lparr>si_addr = from, si_addr_len = addr_len l2, si_other = no_traffic, si_items_in_comm_list = 1\<rparr>]\<rparr>)
         | Some i \<Rightarrow>
             if si_items_in_comm_list (m_sources s ! i) < SOURCE_SIZE_LIMIT then Inr fresh
             else rbind (update_value (si_other (m_sources s ! i)) (pdirection l2) (word_of_nat (plength info)) (payload_size info)) (\<lambda>v.
               Inr (s\<lparr>m_sources := (m_sources s)[i := (m_sources s ! i)\<lparr>si_other := v\<rparr>]\<rparr>)))"

definition count_packet :: "endian \<Rightarrow> 'w majordomo \<Rightarrow> packet_info \<Rightarrow> packet_info \<Rightarrow> endpoint \<Rightarrow> endpoint \<Rightarrow> 'w majordomo result" where
  "count_packet e s l2 info local remote =
     rbind (address_bytes l2 local) (\<lambda>from. rbind (address_bytes info remote) (\<lambda>to.
       rbind (build_key e from (addr_len l2) to (addr_len info) (app_protocol info) (port_of info remote)) (\<lambda>key.
         rbind (trie_index (m_communication s) key) (\<lambda>(t, slot).
           case slot of
             None \<Rightarrow> Inl BadAccess
           | Some p \<Rightarrow>
               let s = s\<lparr>m_communication := t\<rparr>
               in case trie_slot t p of
                    Some v \<Rightarrow>
                      rbind (update_value v (pdirection l2) (word_of_nat (plength info)) (payload_size info)) (\<lambda>v.
                        Inr (s\<lparr>m_communication := trie_store t p (Some v)\<rparr>))
                  | None \<Rightarrow> count_new s p l2 info from))))"

definition packet_handle :: "endian \<Rightarrow> 'w majordomo \<Rightarrow> packet \<Rightarrow> 'w majordomo result" where
  "packet_handle e s ps =
     (case ps of
        [] \<Rightarrow> Inl BadAccess
      | l2 # rest \<Rightarrow>
          if pdirection l2 \<noteq> DIR_IN \<and> pdirection l2 \<noteq> DIR_OUT then Inr s
          else if layer l2 \<noteq> CHR ''E'' then Inr s
          else case rest of
            [] \<Rightarrow> Inr s
          | info # _ \<Rightarrow>
              if layer info \<noteq> CHR ''I'' then Inr s
              else if app_protocol info \<noteq> CHR ''T'' \<and> app_protocol info \<noteq> CHR ''U'' then Inr s
              else if ip_protocol info \<noteq> 4 \<and> ip_protocol info \<noteq> 6 then Inr s
              else
                let local = (if pdirection l2 = DIR_IN then END_SRC else END_DST);
                    remote = (if pdirection l2 = DIR_IN then END_DST else END_SRC)
                in rbind (filter_address s (address_of info remote) (unat (ip_protocol info))) (\<lambda>ignored.
                     if ignored then Inr s
                     else rbind (first_byte (address_of l2 local)) (\<lambda>a.
                       if a mod 2 = 1 then Inr s
                       else rbind (first_byte (address_of l2 remote)) (\<lambda>b.
                         if b mod 2 = 1 then Inr s
                         else count_packet e s l2 info local remote))))"

subsection \<open>Writing the file\<close>

text \<open>The fields of a line, separated by commas; printing a string that was never written is a read of
  uninitialised memory.\<close>

definition counters :: "traffic \<Rightarrow> bytes list" where
  "counters v = map (\<lambda>n. digits 10 (unat n)) [d_count v, d_size v, d_data_size v, u_count v, u_size v, u_data_size v]"

definition csv_line :: "bytes list \<Rightarrow> bytes" where
  "csv_line fs = join 44 fs @ [10]"

definition dump_item :: "endian \<Rightarrow> 'w majordomo \<Rightarrow> bytes \<Rightarrow> traffic option \<Rightarrow> 'w majordomo result" where
  "dump_item e s key data =
     (if length key < 38 then Inl BadAccess
      else
        let src = get_string_from_raw_bytes (take KEYS_ADDR_LEN key) (key ! 32) (m_src_str s);
            dst = get_string_from_raw_bytes (take KEYS_ADDR_LEN (drop KEYS_ADDR_LEN key)) (key ! 33) (m_dst_str s);
            s = s\<lparr>m_src_str := src, m_dst_str := dst\<rparr>
        in rbind (if key ! 34 = code (CHR ''T'') then Inr (ascii ''TCP'')
                  else if key ! 34 = code (CHR ''U'') then Inr (ascii ''UDP'') else Inl Aborted) (\<lambda>app.
             case (src, dst, data) of
               (Some a, Some b, Some v) \<Rightarrow>
                 Inr (s\<lparr>m_file := m_file s @ csv_line ([app, a, b, digits 10 (unat (load16 e (drop 36 key)))] @ counters v)\<rparr>)
             | _ \<Rightarrow> Inl BadAccess))"

definition dump_source :: "'w majordomo \<Rightarrow> src_item \<Rightarrow> 'w majordomo result" where
  "dump_source s it =
     (let src = get_string_from_raw_bytes (si_addr it) (si_addr_len it) (m_src_str s)
      in case src of
           None \<Rightarrow> Inl BadAccess
         | Some a \<Rightarrow>
             Inr (s\<lparr>m_src_str := src, m_file := m_file s @
               csv_line ([ascii ''both'', a, ascii ''other'', ascii ''all''] @ counters (si_other it))\<rparr>))"

definition dump :: "endian \<Rightarrow> 'w majordomo \<Rightarrow> 'w majordomo result" where
  "dump e s =
     (let opened = next_of True (m_opens s);
          s = s\<lparr>m_opens := tl (m_opens s)\<rparr>
      in if \<not> opened then Inr s
         else rbind (trie_walk (m_communication s) (dump_item e) s) (\<lambda>s.
           rbind (fold_result dump_source s (m_sources s)) (\<lambda>s.
             Inr (s\<lparr>m_sources := [], m_communication := trie_alloc\<rparr>))))"

definition scheduled_dump :: "endian \<Rightarrow> (unit, 'w) services \<Rightarrow> 'w majordomo \<Rightarrow> 'w majordomo result" where
  "scheduled_dump e sv s =
     rbind (dump e s) (\<lambda>s.
       rbind (sv_timeout_add sv (m_world s) DUMP_TIMEOUT ()) (\<lambda>(i, w). Inr (s\<lparr>m_world := w, m_timeout := i\<rparr>)))"

subsection \<open>Starting and configuring\<close>

definition md_init :: "(unit, 'w) services \<Rightarrow> 'w \<Rightarrow> bool list \<Rightarrow> bytes \<Rightarrow> u32 list \<Rightarrow> 'w majordomo result" where
  "md_init sv w opens out ms =
     rbind (sv_timeout_add sv w DUMP_TIMEOUT ()) (\<lambda>(i, w).
       Inr \<lparr>m_world = w, m_communication = trie_alloc, m_sources = [], m_filter = [], m_timeout = i,
         m_src_str = None, m_dst_str = None, m_masks = precompute_masks ms, m_opens = opens, m_file = out\<rparr>)"

text \<open>What \<open>atoi\<close> gives, as the \<open>size_t\<close> it is stored in.\<close>

definition atoi_size :: "bytes \<Rightarrow> nat" where
  "atoi_size str = unat (scast (word_of_int (fst (strtol str)) :: u32) :: u64)"

text \<open>Whether the line is right, and the rule as far as it was written.\<close>

definition parse_option :: "address_reader \<Rightarrow> bytes \<Rightarrow> bool \<times> filter_rule option" where
  "parse_option pton cfg_line =
     (let line = takeWhile (\<lambda>c. c \<noteq> code (CHR ''/'')) cfg_line;
          rest = dropWhile (\<lambda>c. c \<noteq> code (CHR ''/'')) cfg_line
      in if rest = [] then (False, None)
         else case parse_address pton line of
                None \<Rightarrow> (False, None)
              | Some (addr, family) \<Rightarrow>
                  let n = atoi_size (tl rest)
                  in (0 < n \<and> n \<le> (if family = 4 then 32 else 128), Some \<lparr>fr_addr = addr, fr_prefix = n, fr_family = family\<rparr>))"

definition check_config :: "address_reader \<Rightarrow> plugin_options \<Rightarrow> bool" where
  "check_config pton opts =
     (case opts (ascii ''ignore_subnet'') of
        None \<Rightarrow> True
      | Some vs \<Rightarrow> list_all (\<lambda>v. fst (parse_option pton v)) vs)"

definition finish_config :: "address_reader \<Rightarrow> plugin_options \<Rightarrow> 'w majordomo \<Rightarrow> bool \<Rightarrow> 'w majordomo" where
  "finish_config pton opts s commit =
     (if \<not> commit then s
      else case opts (ascii ''ignore_subnet'') of
             None \<Rightarrow> s\<lparr>m_filter := []\<rparr>
           | Some vs \<Rightarrow> s\<lparr>m_filter := map (\<lambda>v. snd (parse_option pton v)) vs\<rparr>)"

definition destroy :: "endian \<Rightarrow> 'w majordomo \<Rightarrow> 'w majordomo result" where
  "destroy e s = dump e s"


subsection \<open>Subnets\<close>

text \<open>An address as its bits, the most significant first; a subnet fixes the first of them.\<close>

definition word_bits :: "u32 \<Rightarrow> bool list" where
  "word_bits w = map (bit w) (rev [0..<32])"

definition addr_bits :: "bytes \<Rightarrow> bool list" where
  "addr_bits bs = concat (map (\<lambda>b. map (bit b) (rev [0..<8])) bs)"

definition in_subnet :: "bytes \<Rightarrow> nat \<Rightarrow> filter_rule \<Rightarrow> bool" where
  "in_subnet addr family r \<longleftrightarrow> family = fr_family r \<and> take (fr_prefix r) (addr_bits addr) = take (fr_prefix r) (addr_bits (fr_addr r))"

definition good_rule :: "filter_rule \<Rightarrow> bool" where
  "good_rule r \<longleftrightarrow> 0 < fr_prefix r \<and>
     (fr_family r = 4 \<and> fr_prefix r \<le> 32 \<and> length (fr_addr r) = 4 \<or> fr_family r = 6 \<and> fr_prefix r \<le> 128 \<and> length (fr_addr r) = 16)"

definition good_masks :: "u32 list \<Rightarrow> bool" where
  "good_masks ms \<longleftrightarrow> length ms = 33 \<and> (\<forall>n \<le> 32. ms ! n = push_bit (32 - n) (- 1))"

lemma mask_loop_masks:
  assumes "length ms = 33" "i \<le> 32"
  shows "length (mask_loop i m ms) = 33 \<and> (\<forall>n \<le> i. mask_loop i m ms ! n = push_bit (i - n) m) \<and>
    (\<forall>n. i < n \<longrightarrow> n < 33 \<longrightarrow> mask_loop i m ms ! n = ms ! n)"
  using assms
proof (induction i arbitrary: m ms)
  case (Suc i)
  let ?r = "mask_loop (Suc i) m ms"
  have IH: "length ?r = 33" "\<forall>n \<le> i. ?r ! n = push_bit (i - n) (push_bit 1 m)" "\<forall>n. i < n \<longrightarrow> n < 33 \<longrightarrow> ?r ! n = (ms[Suc i := m]) ! n"
    using Suc.IH [of "ms[Suc i := m]" "push_bit 1 m"] Suc.prems by simp_all
  have "?r ! n = push_bit (Suc i - n) m" if "n \<le> Suc i" for n
  proof (cases "n = Suc i")
    case True
    then show ?thesis
      using IH(3) Suc.prems by simp
  next
    case False
    with that IH(2) show ?thesis
      by (simp add: Suc_diff_le)
  qed
  then show ?case
    using IH(1,3) by simp
qed simp

lemma precomputed_masks: "length ms = 33 \<Longrightarrow> good_masks (precompute_masks ms)"
proof -
  have "(0xFFFFFFFF :: u32) = - 1"
    by simp
  then show "length ms = 33 \<Longrightarrow> good_masks (precompute_masks ms)"
    unfolding good_masks_def precompute_masks_def using mask_loop_masks [of ms 32 "- 1"] by (simp only: order_refl) blast
qed

lemma masked_bits:
  assumes "n \<le> 32"
  shows "x AND push_bit (32 - n) (- 1) = y AND push_bit (32 - n) (- 1) \<longleftrightarrow> take n (word_bits x) = take n (word_bits y)"
proof -
  have "x AND push_bit (32 - n) (- 1) = y AND push_bit (32 - n) (- 1) \<longleftrightarrow> (\<forall>i. 32 - n \<le> i \<and> i < 32 \<longrightarrow> bit x i = bit y i)"
    unfolding bit_eq_iff by (auto simp: bit_simps)
  also have "\<dots> \<longleftrightarrow> (\<forall>j < n. bit x (31 - j) = bit y (31 - j))"
  proof (rule iffI; intro allI impI)
    fix i
    assume "\<forall>j < n. bit x (31 - j) = bit y (31 - j)" and "32 - n \<le> i \<and> i < 32"
    moreover from this(2) have "31 - i < n" "31 - (31 - i) = i"
      by auto
    ultimately show "bit x i = bit y i"
      by metis
  next
    fix j
    assume "\<forall>i. 32 - n \<le> i \<and> i < 32 \<longrightarrow> bit x i = bit y i" and "j < n"
    moreover from this(2) have "32 - n \<le> 31 - j \<and> 31 - j < 32"
      using assms by arith
    ultimately show "bit x (31 - j) = bit y (31 - j)"
      by blast
  qed
  also have "\<dots> \<longleftrightarrow> take n (word_bits x) = take n (word_bits y)"
    using assms by (simp add: list_eq_iff_nth_eq word_bits_def rev_nth)
  finally show ?thesis .
qed

lemma bitcmp_bits:
  assumes "good_masks ms" "length a = length b" "0 < bits" "bits \<le> 32 * length a"
  shows "bitcmp ms a b bits = Inr (take bits (concat (map word_bits a)) = take bits (concat (map word_bits b)))"
  using assms
proof (induction ms a b bits rule: bitcmp.induct)
  case (1 ms x a y b bits)
  have len: "length (word_bits w) = 32" for w
    by (simp add: word_bits_def)
  have all: "word_bits x = word_bits y \<longleftrightarrow> x = y"
    using masked_bits [of 32 x y] by (simp add: len)
  show ?case
  proof (cases "bits > 32")
    case True
    then have "take bits (concat (map word_bits (z # c))) = word_bits z @ take (bits - 32) (concat (map word_bits c))" for z c
      by (simp add: len)
    then show ?thesis
      using True 1 all by (auto simp: append_eq_append_same_length len)
  next
    case False
    then show ?thesis
      using 1 masked_bits [of bits x y] by (simp add: good_masks_def len)
  qed
qed simp_all

lemma bit_digit:
  fixes d y :: nat
  assumes "d < 256"
  shows "bit (d + 256 * y) i \<longleftrightarrow> (if i < 8 then bit d i else bit y (i - 8))"
proof (cases "i < 8")
  case True
  have "take_bit 8 (d + 256 * y) = d"
    using assms by (simp add: take_bit_eq_mod)
  then have "bit (d + 256 * y) i \<longleftrightarrow> bit d i"
    using True by (metis bit_take_bit_iff)
  with True show ?thesis
    by simp
next
  case False
  have "drop_bit 8 (d + 256 * y) = y"
    using assms by (simp add: drop_bit_eq_div)
  then have "bit y (i - 8) \<longleftrightarrow> bit (drop_bit 8 (d + 256 * y)) (i - 8)"
    by simp
  with False show ?thesis
    by (simp add: bit_drop_bit_eq)
qed

lemma word_bits_get32: "word_bits (get32 [a, b, c, d]) = addr_bits [a, b, c, d]"
proof -
  have u: "unat z < 256" for z :: byte
    using unsigned_less [where ?'a = nat, of z] by simp
  have n: "be_nat [a, b, c, d] = unat d + 256 * (unat c + 256 * (unat b + 256 * unat a))"
    by simp
  have "bit (get32 [a, b, c, d]) i \<longleftrightarrow>
      i < 32 \<and> (if i < 8 then bit d i else if i < 16 then bit c (i - 8) else if i < 24 then bit b (i - 16) else bit a (i - 24))" for i
  proof -
    have "bit (get32 [a, b, c, d]) i \<longleftrightarrow> i < 32 \<and> bit (unat d + 256 * (unat c + 256 * (unat b + 256 * unat a))) i"
      unfolding get32_def n [symmetric] by (simp add: bit_of_nat_iff del: be_nat.simps of_nat_add of_nat_mult)
    moreover have "\<not> bit (unat a) (i - 24)" if "32 \<le> i"
      using that by (auto simp: bit_simps dest: bit_imp_le_length)
    ultimately show ?thesis
      unfolding bit_digit [OF u] by (auto simp: bit_unsigned_iff dest: bit_imp_le_length)
  qed
  then show ?thesis
    by (simp add: word_bits_def addr_bits_def upt_rec)
qed

lemma words32_bits: "length bs = 4 * k \<Longrightarrow> concat (map word_bits (words32 bs)) = addr_bits bs \<and> length (words32 bs) = k"
proof (induction bs arbitrary: k rule: words32.induct)
  case (1 a b c d r)
  have "length r = 4 * (k - 1)" "k = Suc (k - 1)"
    using 1(2) by simp_all
  with 1(1) [of "k - 1"] show ?case
    using word_bits_get32 [of a b c d] by (auto simp: addr_bits_def)
qed (auto simp: addr_bits_def, presburger+)

lemma rule_matches:
  assumes "good_masks ms" "good_rule r" "length addr = (if family = 4 then 4 else 16)"
  shows "(if family = fr_family r then bitcmp ms (words32 addr) (words32 (fr_addr r)) (fr_prefix r) else Inr False) = Inr (in_subnet addr family r)"
proof (cases "family = fr_family r")
  case True
  define k where "k = length addr div 4"
  have k: "length addr = 4 * k" "length (fr_addr r) = 4 * k" "0 < fr_prefix r" "fr_prefix r \<le> 32 * k"
    using assms(2,3) True by (auto simp: good_rule_def k_def)
  show ?thesis
    using bitcmp_bits [OF assms(1), of "words32 addr" "words32 (fr_addr r)" "fr_prefix r"] words32_bits [OF k(1)] words32_bits [OF k(2)] k True
    by (simp add: in_subnet_def)
qed (simp add: in_subnet_def)

definition rules :: "'w majordomo \<Rightarrow> filter_rule list" where
  "rules s = map the (m_filter s)"

definition filter_ok :: "'w majordomo \<Rightarrow> bool" where
  "filter_ok s \<longleftrightarrow> good_masks (m_masks s) \<and> (\<forall>r \<in> set (m_filter s). \<exists>r'. r = Some r' \<and> good_rule r')"

lemma filter_loop_exact:
  assumes "good_masks ms" "\<forall>r \<in> set rs. \<exists>r'. r = Some r' \<and> good_rule r'" "length addr = (if family = 4 then 4 else 16)"
  shows "filter_loop ms addr family rs = Inr (\<exists>r \<in> set (map the rs). in_subnet addr family r)"
  using assms(2)
proof (induction rs)
  case (Cons r rs)
  then obtain r' where r: "r = Some r'" "good_rule r'"
    by auto
  with Cons rule_matches [OF assms(1) r(2) assms(3)] show ?case
    by simp
qed simp

lemma filter_address_exact:
  assumes "filter_ok s" "(if family = 4 then 4 else 16) \<le> length bs"
  shows "filter_address s (Some bs) family = Inr (\<exists>r \<in> set (rules s). in_subnet (take (if family = 4 then 4 else 16) bs) family r)"
  using assms filter_loop_exact [of "m_masks s" "m_filter s"] by (simp add: filter_address_def copy_address_def filter_ok_def rules_def)

subsection \<open>The traffic of a trace\<close>

text \<open>A flow: the protocol, the local hardware address, the remote address and port. What is seen of a packet that is to
  be counted: its flow, whether it is an upload, its length and that of its data.\<close>

type_synonym md_flow = "char \<times> bytes \<times> bytes \<times> u16"

record observation =
  ob_flow :: md_flow
  ob_up :: bool
  ob_size :: u64
  ob_data :: u64

definition ob_mac :: "observation \<Rightarrow> bytes" where
  "ob_mac ob = fst (snd (ob_flow ob))"

definition observed :: "filter_rule list \<Rightarrow> packet \<Rightarrow> observation list" where
  "observed rs ps =
     (case ps of
        l2 # info # _ \<Rightarrow>
          let up = (pdirection l2 = DIR_IN);
              mac = take 6 (the (if up then addr_src l2 else addr_dst l2));
              peer = take 6 (the (if up then addr_dst l2 else addr_src l2));
              remote = take (unat (addr_len info)) (the (if up then addr_dst info else addr_src info));
              port = (if up then port_dst info else port_src info)
          in if pdirection l2 \<in> {DIR_IN, DIR_OUT} \<and> layer l2 = CHR ''E'' \<and> layer info = CHR ''I'' \<and>
                app_protocol info \<in> {CHR ''T'', CHR ''U''} \<and> ip_protocol info \<in> {4, 6} \<and>
                \<not> (\<exists>r \<in> set rs. in_subnet remote (unat (ip_protocol info)) r) \<and> even (hd mac) \<and> even (hd peer)
             then [\<lparr>ob_flow = (app_protocol info, mac, remote, port), ob_up = up, ob_size = word_of_nat (plength info), ob_data = payload_size info\<rparr>]
             else []
      | _ \<Rightarrow> [])"

text \<open>The counters of a flow: its first packet counts as an upload, the others in their direction.\<close>

definition traffic_of :: "observation list \<Rightarrow> traffic" where
  "traffic_of obs =
     (let ups = hd obs # filter ob_up (tl obs); downs = filter (Not \<circ> ob_up) (tl obs)
      in \<lparr>u_count = word_of_nat (length ups), u_size = sum_list (map ob_size ups), u_data_size = sum_list (map ob_data ups),
          d_count = word_of_nat (length downs), d_size = sum_list (map ob_size downs), d_data_size = sum_list (map ob_data downs)\<rparr>)"

definition firsts :: "'a list \<Rightarrow> 'a list" where
  "firsts xs = rev (remdups (rev xs))"

definition good_flow :: "md_flow \<Rightarrow> bool" where
  "good_flow = (\<lambda>(pr, mac, a, port). pr \<in> {CHR ''T'', CHR ''U''} \<and> length mac = 6 \<and> (length a = 4 \<or> length a = 16))"

definition md_key :: "endian \<Rightarrow> md_flow \<Rightarrow> bytes" where
  "md_key e = (\<lambda>(pr, mac, a, port).
     mac @ replicate (16 - length mac) 0 @ a @ replicate (16 - length a) 0 @ [word_of_nat (length mac), word_of_nat (length a), code pr, 0] @ host16 e port)"

definition source :: "bytes \<Rightarrow> src_item" where
  "source a = \<lparr>si_addr = a, si_addr_len = 6, si_other = no_traffic, si_items_in_comm_list = 1\<rparr>"

definition md_shows :: "endian \<Rightarrow> 'w majordomo \<Rightarrow> observation list \<Rightarrow> bool" where
  "md_shows e s obs \<longleftrightarrow> trie_inv (m_communication s) \<and>
     dom (trie_map (m_communication s)) = md_key e ` ob_flow ` set obs \<and>
     (\<forall>f \<in> ob_flow ` set obs. good_flow f \<and>
        trie_map (m_communication s) (md_key e f) = Some (Some (traffic_of [ob \<leftarrow> obs. ob_flow ob = f]))) \<and>
     m_sources s = map source (firsts (map ob_mac obs))"

text \<open>A packet as the parser leaves it.\<close>

definition framed :: "packet \<Rightarrow> bool" where
  "framed ps \<longleftrightarrow> ps \<noteq> [] \<and> (tl ps = [] \<or> tidy_chain (tl ps)) \<and>
     (layer (hd ps) = CHR ''E'' \<and> tl ps \<noteq> [] \<longrightarrow>
        addr_len (hd ps) = 6 \<and> (\<exists>s d. addr_src (hd ps) = Some s \<and> addr_dst (hd ps) = Some d \<and> 6 \<le> length s \<and> 6 \<le> length d))"

lemma firsts_snoc: "firsts (xs @ [x]) = (if x \<in> set xs then firsts xs else firsts xs @ [x])"
  by (simp add: firsts_def)

lemma set_firsts [simp]: "set (firsts xs) = set xs"
  by (simp add: firsts_def)

lemma md_key_length: "good_flow f \<Longrightarrow> length (md_key e f) = 38"
  by (auto simp: good_flow_def md_key_def)

lemma md_key_inject:
  assumes "good_flow f" "good_flow g" "md_key e f = md_key e g"
  shows "f = g"
proof -
  obtain pr mac a port where f: "f = (pr, mac, a, port)"
    by (metis prod.exhaust)
  obtain pr' mac' a' port' where g: "g = (pr', mac', a', port')"
    by (metis prod.exhaust)
  define A where "A = a @ replicate (16 - length a) (0 :: byte)"
  define A' where "A' = a' @ replicate (16 - length a') (0 :: byte)"
  have lens: "length A = length A'" "length mac = length mac'"
    using assms(1,2) by (auto simp: f g good_flow_def A_def A'_def)
  have "mac @ replicate (16 - length mac) 0 @ A @ [word_of_nat (length mac), word_of_nat (length a), code pr, 0] @ host16 e port =
      mac' @ replicate (16 - length mac') 0 @ A' @ [word_of_nat (length mac'), word_of_nat (length a'), code pr', 0] @ host16 e port'"
    using assms(3) by (simp add: f g md_key_def A_def A'_def)
  then have parts: "mac = mac'" "A = A'" "(word_of_nat (length a) :: byte) = word_of_nat (length a')" "code pr = code pr'" "port = port'"
    using lens by (simp_all add: append_eq_append_same_length)
  have len: "length a = length a'"
    using parts(3) assms(1,2) by (auto simp: f g good_flow_def)
  moreover have "pr = pr'"
    using parts(4) assms(1,2) by (auto simp: f g good_flow_def code_def)
  ultimately show ?thesis
    using parts(1,2,5) by (simp add: f g A_def A'_def)
qed

lemma counters_snoc:
  assumes "obs \<noteq> []"
  shows "update_value (traffic_of obs) (if ob_up ob then DIR_IN else DIR_OUT) (ob_size ob) (ob_data ob) = Inr (traffic_of (obs @ [ob]))"
  using assms by (cases obs) (auto simp: update_value_def traffic_of_def Let_def)

lemma traffic_first: "traffic_of [ob] = no_traffic\<lparr>u_count := 1, u_size := ob_size ob, u_data_size := ob_data ob\<rparr>"
  by (simp add: traffic_of_def no_traffic_def)

lemma find_source:
  "find_src (map source as) a 6 = None \<longleftrightarrow> a \<notin> set as"
  "find_src (map source as) a 6 = Some i \<Longrightarrow> i < length as"
  by (induction as arbitrary: i) (auto simp: source_def split: if_splits)


subsection \<open>Counting a packet\<close>

lemma shows_fits: "md_shows e s obs \<Longrightarrow> good_flow f \<Longrightarrow> trie_admits (m_communication s) (md_key e f)"
  unfolding trie_admits_fits key_fits_def
  by (auto simp: md_shows_def md_key_length dest!: prefix_length_less)

lemma shows_value:
  assumes "md_shows e s obs" "good_flow f"
  shows "slot_value (m_communication s) (md_key e f) =
    (if f \<in> ob_flow ` set obs then Some (traffic_of [ob \<leftarrow> obs. ob_flow ob = f]) else None)"
proof (cases "f \<in> ob_flow ` set obs")
  case False
  have "md_key e f \<notin> md_key e ` ob_flow ` set obs"
  proof
    assume "md_key e f \<in> md_key e ` ob_flow ` set obs"
    then obtain g where g: "md_key e f = md_key e g" "g \<in> ob_flow ` set obs"
      by blast
    then have "good_flow g"
      using assms(1) by (auto simp: md_shows_def)
    then show False
      using md_key_inject [OF assms(2) _ g(1)] g(2) False by simp
  qed
  then have "trie_map (m_communication s) (md_key e f) = None"
    using assms(1) by (auto simp: md_shows_def)
  then show ?thesis
    using False by (simp add: slot_value_def)
qed (use assms in \<open>auto simp: md_shows_def slot_value_def\<close>)

text \<open>Writing the new counters of the flow of one more packet.\<close>

lemma shows_snoc:
  assumes sh: "md_shows e s obs" and f: "good_flow (ob_flow ob)"
    and t: "trie_inv t" "trie_map t = (trie_map (m_communication s))(md_key e (ob_flow ob) \<mapsto> Some (traffic_of [x \<leftarrow> obs @ [ob]. ob_flow x = ob_flow ob]))"
    and src: "srcs = map source (firsts (map ob_mac (obs @ [ob])))"
  shows "md_shows e (s\<lparr>m_communication := t, m_sources := srcs\<rparr>) (obs @ [ob])"
proof -
  have "trie_map t (md_key e g) = Some (Some (traffic_of [x \<leftarrow> obs @ [ob]. ob_flow x = g]))" if "g \<in> ob_flow ` set (obs @ [ob])" for g
  proof (cases "g = ob_flow ob")
    case False
    then have g: "g \<in> ob_flow ` set obs" "good_flow g"
      using that sh by (auto simp: md_shows_def)
    then have "md_key e g \<noteq> md_key e (ob_flow ob)"
      using md_key_inject [OF g(2) f] False by blast
    then show ?thesis
      using sh g False by (auto simp: t(2) md_shows_def)
  qed (simp add: t(2))
  moreover have "dom (trie_map t) = md_key e ` ob_flow ` set (obs @ [ob])"
    using sh by (auto simp: t(2) md_shows_def)
  moreover have "good_flow g" if "g \<in> ob_flow ` set (obs @ [ob])" for g
    using that sh f by (auto simp: md_shows_def)
  ultimately show ?thesis
    unfolding md_shows_def using t(1) src by simp
qed

lemma count_new_first:
  assumes src: "m_sources s = map source (firsts (map ob_mac obs))" and l2: "addr_len l2 = 6"
    and ob: "ob_mac ob = mac" "ob_size ob = word_of_nat (plength info)" "ob_data ob = payload_size info"
  shows "count_new s p l2 info mac =
    Inr (s\<lparr>m_communication := trie_store (m_communication s) p (Some (traffic_of [ob])), m_sources := map source (firsts (map ob_mac (obs @ [ob])))\<rparr>)"
proof -
  let ?as = "firsts (map ob_mac obs)"
  have v: "init_trie_data info = traffic_of [ob]"
    by (simp add: init_trie_data_def traffic_first ob)
  show ?thesis
  proof (cases "find_src (map source ?as) mac 6")
    case None
    then have "mac \<notin> set (map ob_mac obs)"
      by (simp add: find_source(1))
    then show ?thesis
      using None by (simp add: count_new_def src l2 v firsts_snoc ob(1) source_def)
  next
    case (Some i)
    then have i: "i < length ?as" "mac \<in> set (map ob_mac obs)"
      using find_source(1) [of ?as mac] find_source(2) by fastforce+
    have same: "s\<lparr>m_communication := t, m_sources := map source ?as\<rparr> = s\<lparr>m_communication := t\<rparr>" for t
      using src by (cases s) simp
    show ?thesis
      using Some i by (simp add: count_new_def src l2 v firsts_snoc ob(1) source_def [of "?as ! i"] SOURCE_SIZE_LIMIT_def same del: set_map)
  qed
qed

lemma count_packet_ok:
  assumes sh: "md_shows e s obs" and f: "good_flow (app_protocol info, mac, a, port_of info remote)"
    and l2: "addr_len l2 = 6" "address_bytes l2 local = Inr mac" "pdirection l2 = (if up then DIR_IN else DIR_OUT)"
    and info: "addr_len info = word_of_nat (length a)" "address_bytes info remote = Inr a"
  defines "ob \<equiv> \<lparr>ob_flow = (app_protocol info, mac, a, port_of info remote), ob_up = up, ob_size = word_of_nat (plength info), ob_data = payload_size info\<rparr>"
  shows "\<exists>t srcs. count_packet e s l2 info local remote = Inr (s\<lparr>m_communication := t, m_sources := srcs\<rparr>) \<and>
    md_shows e (s\<lparr>m_communication := t, m_sources := srcs\<rparr>) (obs @ [ob])"
proof -
  let ?f = "ob_flow ob" and ?m = "m_communication s"
  have f': "good_flow ?f"
    using f by (simp add: ob_def)
  have key: "build_key e mac (addr_len l2) a (addr_len info) (app_protocol info) (port_of info remote) = Inr (md_key e ?f)"
    using f by (auto simp: build_key_def md_key_def ob_def good_flow_def KEYS_ADDR_LEN_def l2(1) info(1))
  have inv: "trie_inv ?m" and src: "m_sources s = map source (firsts (map ob_mac obs))"
    using sh by (simp_all add: md_shows_def)
  obtain t p where t: "trie_index ?m (md_key e ?f) = Inr (t, Some p)" "trie_inv t" "at_slot (troot t) p (md_key e ?f)"
      "trie_map t = (trie_map ?m)(md_key e ?f \<mapsto> slot_value ?m (md_key e ?f))" "trie_slot t p = slot_value ?m (md_key e ?f)"
    using trie_index_spec [OF inv shows_fits [OF sh f']] by blast
  let ?obs = "[x \<leftarrow> obs. ob_flow x = ?f]"
  have st: "trie_inv (trie_store t p v)" "trie_map (trie_store t p v) = (trie_map ?m)(md_key e ?f \<mapsto> v)" for v
    using trie_store_spec [OF t(2,3)] t(4) by simp_all
  show ?thesis
  proof (cases "?f \<in> ob_flow ` set obs")
    case True
    then have "?obs \<noteq> []" and mac: "ob_mac ob \<in> set (map ob_mac obs)"
      by (auto simp: filter_empty_conv ob_mac_def)
    then have upd: "update_value (traffic_of ?obs) (pdirection l2) (word_of_nat (plength info)) (payload_size info) = Inr (traffic_of (?obs @ [ob]))"
      using counters_snoc [of ?obs ob] by (simp add: ob_def l2(3))
    have "md_shows e (s\<lparr>m_communication := trie_store t p (Some (traffic_of (?obs @ [ob]))), m_sources := m_sources s\<rparr>) (obs @ [ob])"
      by (rule shows_snoc [OF sh f' st(1)]) (use mac in \<open>simp_all add: st(2) src firsts_snoc del: set_map\<close>)
    moreover have "s\<lparr>m_communication := t', m_sources := m_sources s\<rparr> = s\<lparr>m_communication := t'\<rparr>" for t'
      by (cases s) simp
    ultimately show ?thesis
      using True t(1,5) upd shows_value [OF sh f'] l2(2) info(2)
      by (intro exI [of _ "trie_store t p (Some (traffic_of (?obs @ [ob])))"] exI [of _ "m_sources s"]) (simp add: count_packet_def key)
  next
    case False
    then have "?obs = []"
      by (intro filter_False) (metis imageI)
    moreover have new: "count_new (s\<lparr>m_communication := t\<rparr>) p l2 info mac = Inr (s\<lparr>m_communication := trie_store t p (Some (traffic_of [ob])),
        m_sources := map source (firsts (map ob_mac (obs @ [ob])))\<rparr>)"
      using count_new_first [of "s\<lparr>m_communication := t\<rparr>" obs l2 ob mac info p] src l2(1) by (simp add: ob_def ob_mac_def)
    ultimately have "md_shows e (s\<lparr>m_communication := trie_store t p (Some (traffic_of [ob])), m_sources := map source (firsts (map ob_mac (obs @ [ob])))\<rparr>) (obs @ [ob])"
      by (intro shows_snoc [OF sh f' st(1)]) (simp_all add: st(2))
    then show ?thesis
      using False t(1,5) shows_value [OF sh f'] l2(2) info(2) new
      by (intro exI [of _ "trie_store t p (Some (traffic_of [ob]))"] exI [of _ "map source (firsts (map ob_mac (obs @ [ob])))"])
         (simp add: count_packet_def key)
  qed
qed


lemma address_of_frame:
  "addr_src p = Some s \<Longrightarrow> addr_dst p = Some d \<Longrightarrow>
     address_of p (if up then END_SRC else END_DST) = Some (if up then s else d) \<and>
     address_of p (if up then END_DST else END_SRC) = Some (if up then d else s)"
  by simp

lemma packet_handle_ok:
  assumes sh: "md_shows e s obs" and ok: "filter_ok s" and fr: "framed ps"
  shows "\<exists>t srcs. packet_handle e s ps = Inr (s\<lparr>m_communication := t, m_sources := srcs\<rparr>) \<and>
    md_shows e (s\<lparr>m_communication := t, m_sources := srcs\<rparr>) (obs @ observed (rules s) ps)"
proof -
  let ?P = "\<lambda>r obs. \<exists>t srcs. r = Inr (s\<lparr>m_communication := t, m_sources := srcs\<rparr>) \<and> md_shows e (s\<lparr>m_communication := t, m_sources := srcs\<rparr>) obs"
  have keep: "?P (Inr s) obs"
    using sh by (intro exI [of _ "m_communication s"] exI [of _ "m_sources s"]) simp
  obtain l2 rest where ps: "ps = l2 # rest"
    using fr by (cases ps) (auto simp: framed_def)
  show ?thesis
  proof (cases "pdirection l2 \<in> {DIR_IN, DIR_OUT} \<and> layer l2 = CHR ''E'' \<and> (\<exists>info r. rest = info # r \<and> layer info = CHR ''I'' \<and>
      app_protocol info \<in> {CHR ''T'', CHR ''U''} \<and> ip_protocol info \<in> {4, 6})")
    case False
    then have "packet_handle e s ps = Inr s" "observed (rules s) ps = []"
      by (auto simp: packet_handle_def observed_def ps Let_def split: list.split)
    then show ?thesis
      using keep by simp
  next
    case True
    then obtain info r where r: "rest = info # r" and g: "layer info = CHR ''I''" "app_protocol info \<in> {CHR ''T'', CHR ''U''}" "ip_protocol info \<in> {4, 6}"
      and l: "pdirection l2 \<in> {DIR_IN, DIR_OUT}" "layer l2 = CHR ''E''"
      by blast
    define up where "up \<longleftrightarrow> pdirection l2 = DIR_IN"
    have dir: "pdirection l2 = (if up then DIR_IN else DIR_OUT)"
      using l(1) by (auto simp: up_def)
    obtain sm dm where m: "addr_len l2 = 6" "addr_src l2 = Some sm" "addr_dst l2 = Some dm" "6 \<le> length sm" "6 \<le> length dm"
      using fr l(2) by (auto simp: framed_def ps r)
    define n where "n = (if ip_protocol info = 4 then 4 else 16 :: nat)"
    have "tidy info"
      using fr by (cases r) (auto simp: framed_def ps r)
    then obtain sa da where a: "addr_len info = word_of_nat n" "unat (addr_len info) = n" "addr_src info = Some sa" "addr_dst info = Some da" "n \<le> length sa" "n \<le> length da"
      using g(3) by (auto simp: tidy_def n_def split: if_splits)
    let ?mac = "if up then sm else dm" and ?peer = "if up then dm else sm" and ?rem = "if up then da else sa"
    let ?local = "if up then END_SRC else END_DST" and ?remote = "if up then END_DST else END_SRC"
    have addr: "address_bytes l2 ?local = Inr (take 6 ?mac)" "address_bytes info ?remote = Inr (take n ?rem)"
      using m a by (auto simp: address_bytes_def)
    have fb: "first_byte (Some ?mac) = Inr (hd (take 6 ?mac))" "first_byte (Some ?peer) = Inr (hd (take 6 ?peer))"
      using m by (cases sm; cases dm; simp add: first_byte_def copy_address_def)+
    have nn: "(if unat (ip_protocol info) = 4 then 4 else 16) = n"
      using g(3) by (auto simp: n_def)
    have lr: "n \<le> length ?rem"
      using a by simp
    note fa = filter_address_exact [OF ok, of "unat (ip_protocol info)" ?rem, unfolded nn, OF lr]
    have h: "packet_handle e s ps = (if \<exists>r \<in> set (rules s). in_subnet (take n ?rem) (unat (ip_protocol info)) r then Inr s
        else if odd (hd (take 6 ?mac)) then Inr s else if odd (hd (take 6 ?peer)) then Inr s else count_packet e s l2 info ?local ?remote)"
    proof -
      have c: "(\<not> up \<and> pdirection l2 \<noteq> DIR_OUT) = False" "(layer l2 \<noteq> CHR ''E'') = False" "(layer info \<noteq> CHR ''I'') = False"
          "(app_protocol info \<noteq> CHR ''T'' \<and> app_protocol info \<noteq> CHR ''U'') = False" "(ip_protocol info \<noteq> 4 \<and> ip_protocol info \<noteq> 6) = False"
        using l g by (auto simp: up_def)
      show ?thesis
        unfolding packet_handle_def ps r list.case Let_def up_def [symmetric] c if_False
          conjunct1 [OF address_of_frame [OF m(2,3), of up]] conjunct2 [OF address_of_frame [OF m(2,3), of up]]
          conjunct2 [OF address_of_frame [OF a(3,4), of up]] fa fb rbind_Inr odd_iff_mod_2_eq_one c if_False by (rule HOL.refl)
    qed
    let ?ob = "\<lparr>ob_flow = (app_protocol info, take 6 ?mac, take n ?rem, port_of info ?remote), ob_up = up, ob_size = word_of_nat (plength info), ob_data = payload_size info\<rparr>"
    have o: "observed (rules s) ps = (if (\<exists>r \<in> set (rules s). in_subnet (take n ?rem) (unat (ip_protocol info)) r) \<or> odd (hd (take 6 ?mac)) \<or> odd (hd (take 6 ?peer))
        then [] else [?ob])"
      using l g m a by (auto simp: observed_def ps r up_def [symmetric] Let_def)
    have f: "good_flow (app_protocol info, take 6 ?mac, take n ?rem, port_of info ?remote)"
      using g(2) m a by (auto simp: good_flow_def n_def)
    have len: "addr_len info = word_of_nat (length (take n ?rem))"
      using a by simp
    note c = count_packet_ok [OF sh f m(1) addr(1) dir len addr(2)]
    let ?ig = "\<exists>r \<in> set (rules s). in_subnet (take n ?rem) (unat (ip_protocol info)) r"
    show ?thesis
    proof (cases "?ig \<or> odd (hd (take 6 ?mac)) \<or> odd (hd (take 6 ?peer))")
      case True
      then have "packet_handle e s ps = Inr s"
        unfolding h by (elim disjE) (simp_all only: if_True if_cancel not_False_eq_True)
      moreover have "observed (rules s) ps = []"
        unfolding o by (rule if_P [OF True])
      ultimately show ?thesis
        using keep by simp
    next
      case False
      then have d: "?ig = False" "odd (hd (take 6 ?mac)) = False" "odd (hd (take 6 ?peer)) = False"
        by blast+
      show ?thesis
        unfolding h o d if_False simp_thms by (rule c)
    qed
  qed
qed

subsection \<open>The written file\<close>

definition mac_text :: "bytes \<Rightarrow> bytes" where
  "mac_text mac = join 58 (map hex2 mac)"

definition flow_line :: "md_flow \<Rightarrow> traffic \<Rightarrow> bytes" where
  "flow_line = (\<lambda>(pr, mac, a, port) v.
     csv_line ([if pr = CHR ''T'' then ascii ''TCP'' else ascii ''UDP'', mac_text mac,
       if length a = 4 then inet_ntop4 a else inet_ntop6 a, digits 10 (unat port)] @ counters v))"

definition other_line :: "bytes \<Rightarrow> bytes" where
  "other_line mac = csv_line ([ascii ''both'', mac_text mac, ascii ''other'', ascii ''all''] @ counters no_traffic)"

lemma dump_flow:
  assumes "good_flow f"
  shows "\<exists>a b. dump_item e s (md_key e f) (Some v) = Inr (s\<lparr>m_src_str := a, m_dst_str := b, m_file := m_file s @ flow_line f v\<rparr>)"
proof -
  obtain pr mac a port where f: "f = (pr, mac, a, port)"
    by (metis prod.exhaust)
  have g: "pr \<in> {CHR ''T'', CHR ''U''}" "length mac = 6" "length a = 4 \<or> length a = 16"
    using assms by (auto simp: f good_flow_def)
  define A where "A = a @ replicate (16 - length a) (0 :: byte)"
  have A: "length A = 16"
    using g(3) by (auto simp: A_def)
  define M where "M = mac @ replicate 10 (0 :: byte)"
  have M: "length M = 16"
    using g(2) by (simp add: M_def)
  have key: "md_key e f = M @ A @ [6, word_of_nat (length a), code pr, 0] @ host16 e port"
    by (simp add: f md_key_def A_def M_def g(2))
  have parts: "length (md_key e f) = 38" "take 16 (md_key e f) = M" "take 16 (drop 16 (md_key e f)) = A" "md_key e f ! 32 = 6"
      "md_key e f ! 33 = word_of_nat (length a)" "md_key e f ! 34 = code pr" "load16 e (drop 36 (md_key e f)) = port"
    using A M load_host16 [of e port "[]"] unfolding key by (simp_all add: nth_append)
  have src: "get_string_from_raw_bytes M 6 out = Some (mac_text mac)" for out
    using g(2) by (simp add: get_string_from_raw_bytes_def M_def mac_text_def)
  have dst: "get_string_from_raw_bytes A (word_of_nat (length a)) out = Some (if length a = 4 then inet_ntop4 a else inet_ntop6 a)" for out
    using g(3) by (auto simp: get_string_from_raw_bytes_def A_def)
  have pr: "(if code pr = code (CHR ''T'') then Inr (ascii ''TCP'') else if code pr = code (CHR ''U'') then Inr (ascii ''UDP'') else Inl Aborted) =
      Inr (if pr = CHR ''T'' then ascii ''TCP'' else ascii ''UDP'')"
    using g(1) by (auto simp: code_def)
  show ?thesis
    unfolding dump_item_def Let_def KEYS_ADDR_LEN_def parts src dst pr by (auto simp: flow_line_def f)
qed


lemma dump_flows:
  assumes "\<forall>f \<in> set fs. good_flow f"
  shows "\<exists>a b. fold_result (visit (dump_item e)) s (map (\<lambda>f. (md_key e f, Some (v f))) fs) =
    Inr (s\<lparr>m_src_str := a, m_dst_str := b, m_file := m_file s @ concat (map (\<lambda>f. flow_line f (v f)) fs)\<rparr>)"
  using assms
proof (induction fs arbitrary: s)
  case Nil
  show ?case
    by (intro exI [of _ "m_src_str s"] exI [of _ "m_dst_str s"]) simp
next
  case (Cons f fs)
  obtain a b where one: "dump_item e s (md_key e f) (Some (v f)) = Inr (s\<lparr>m_src_str := a, m_dst_str := b, m_file := m_file s @ flow_line f (v f)\<rparr>)"
    using dump_flow [of f e s "v f"] Cons.prems by auto
  from Cons.IH [of "s\<lparr>m_src_str := a, m_dst_str := b, m_file := m_file s @ flow_line f (v f)\<rparr>"] Cons.prems show ?case
    by (simp add: visit_def one)
qed

lemma dump_sources:
  assumes "\<forall>a \<in> set as. length a = 6"
  shows "\<exists>str. fold_result dump_source s (map source as) = Inr (s\<lparr>m_src_str := str, m_file := m_file s @ concat (map other_line as)\<rparr>)"
  using assms
proof (induction as arbitrary: s)
  case Nil
  show ?case
    by (intro exI [of _ "m_src_str s"]) simp
next
  case (Cons a as)
  let ?s = "s\<lparr>m_src_str := Some (mac_text a), m_file := m_file s @ other_line a\<rparr>"
  have "dump_source s (source a) = Inr ?s"
    using Cons.prems by (simp add: dump_source_def source_def get_string_from_raw_bytes_def mac_text_def other_line_def)
  with Cons.IH [of ?s] Cons.prems show ?case
    by simp
qed

lemma keys_of_flows:
  assumes "\<forall>k \<in> set ks. k \<in> g ` F"
  obtains fs where "ks = map g fs" "set fs \<subseteq> F"
proof
  show "ks = map g (map (inv_into F g) ks)"
    using assms by (auto simp: f_inv_into_f intro!: map_idI [symmetric])
  show "set (map (inv_into F g) ks) \<subseteq> F"
    using assms by (auto intro: inv_into_into)
qed

lemma shown_entries:
  assumes sh: "md_shows e s obs"
  obtains fs where "distinct fs" "set fs = ob_flow ` set obs"
    "entries (troot (m_communication s)) = map (\<lambda>f. (md_key e f, Some (traffic_of [ob \<leftarrow> obs. ob_flow ob = f]))) fs"
proof -
  let ?es = "entries (troot (m_communication s))" and ?F = "ob_flow ` set obs" and ?v = "\<lambda>f. traffic_of [ob \<leftarrow> obs. ob_flow ob = f]"
  have dist: "distinct (map fst ?es)" and mp: "map_of ?es = trie_map (m_communication s)"
    using sh twf_keys_distinct [of "troot (m_communication s)"] by (auto simp: md_shows_def trie_inv_def trie_map_def)
  have keys: "set (map fst ?es) = md_key e ` ?F"
    using sh dom_map_of_conv_image_fst [of ?es] mp by (simp add: md_shows_def)
  then have "\<forall>k \<in> set (map fst ?es). k \<in> md_key e ` ?F"
    by simp
  then obtain fs where fs: "map fst ?es = map (md_key e) fs" "set fs \<subseteq> ?F"
    by (rule keys_of_flows)
  have good: "\<forall>f \<in> ?F. good_flow f"
    using sh by (simp add: md_shows_def)
  have inj: "inj_on (md_key e) ?F"
  proof (rule inj_onI)
    fix f g
    assume "f \<in> ?F" "g \<in> ?F" "md_key e f = md_key e g"
    then show "f = g"
      using good md_key_inject [of f g e] by blast
  qed
  have "md_key e ` set fs = md_key e ` ?F"
    using keys fs(1) by (metis list.set_map)
  then have set: "set fs = ?F"
    using inj_on_image_eq_iff [OF inj fs(2)] by simp
  have "map (\<lambda>x. (fst x, the (map_of ?es (fst x)))) ?es = ?es"
    using dist by (intro map_idI) auto
  then have "?es = map (\<lambda>k. (k, the (map_of ?es k))) (map fst ?es)"
    by (simp add: comp_def)
  also have "\<dots> = map (\<lambda>f. (md_key e f, Some (?v f))) fs"
    unfolding fs(1) using sh set by (auto simp: md_shows_def mp)
  finally have es: "?es = map (\<lambda>f. (md_key e f, Some (?v f))) fs" .
  have "distinct fs"
    using dist unfolding fs(1) by (simp add: distinct_map)
  from that [OF this set es] show thesis .
qed

lemma dump_ok:
  assumes sh: "md_shows e s obs" and opened: "next_of True (m_opens s)"
  shows "\<exists>fs a b. distinct fs \<and> set fs = ob_flow ` set obs \<and>
    dump e s = Inr (s\<lparr>m_opens := tl (m_opens s), m_src_str := a, m_dst_str := b, m_sources := [], m_communication := trie_alloc,
      m_file := m_file s @ concat (map (\<lambda>f. flow_line f (traffic_of [ob \<leftarrow> obs. ob_flow ob = f])) fs) @ concat (map other_line (firsts (map ob_mac obs)))\<rparr>)"
proof -
  let ?s = "s\<lparr>m_opens := tl (m_opens s)\<rparr>" and ?v = "\<lambda>f. traffic_of [ob \<leftarrow> obs. ob_flow ob = f]"
  obtain fs where fs: "distinct fs" "set fs = ob_flow ` set obs" "entries (troot (m_communication s)) = map (\<lambda>f. (md_key e f, Some (?v f))) fs"
    by (rule shown_entries [OF sh])
  have good: "\<forall>f \<in> set fs. good_flow f" and inv: "trie_inv (m_communication ?s)" and src: "m_sources s = map source (firsts (map ob_mac obs))"
    using sh fs(2) by (simp_all add: md_shows_def)
  obtain a b where ab: "trie_walk (m_communication ?s) (dump_item e) ?s =
      Inr (?s\<lparr>m_src_str := a, m_dst_str := b, m_file := m_file s @ concat (map (\<lambda>f. flow_line f (?v f)) fs)\<rparr>)"
    using dump_flows [OF good, of e ?s ?v] trie_walk_fold [OF inv, of "dump_item e" ?s] fs(3) by auto
  have six: "\<forall>a \<in> set (firsts (map ob_mac obs)). length a = 6"
    using good unfolding fs(2) by (auto simp: ob_mac_def good_flow_def)
  let ?S = "?s\<lparr>m_src_str := a, m_dst_str := b, m_file := m_file s @ concat (map (\<lambda>f. flow_line f (?v f)) fs)\<rparr>"
  obtain str where str: "fold_result dump_source ?S (map source (firsts (map ob_mac obs))) =
      Inr (?S\<lparr>m_src_str := str, m_file := m_file ?S @ concat (map other_line (firsts (map ob_mac obs)))\<rparr>)"
    using dump_sources [OF six, of ?S] by (elim exE)
  have "?S\<lparr>m_src_str := str, m_file := m_file ?S @ y, m_sources := [], m_communication := trie_alloc\<rparr> =
      s\<lparr>m_opens := tl (m_opens s), m_src_str := str, m_dst_str := b, m_sources := [], m_communication := trie_alloc,
        m_file := m_file s @ concat (map (\<lambda>f. flow_line f (?v f)) fs) @ y\<rparr>" for y
    by simp
  then have "dump e s = Inr (s\<lparr>m_opens := tl (m_opens s), m_src_str := str, m_dst_str := b, m_sources := [], m_communication := trie_alloc,
      m_file := m_file s @ concat (map (\<lambda>f. flow_line f (?v f)) fs) @ concat (map other_line (firsts (map ob_mac obs)))\<rparr>)"
    using ab opened str by (simp add: dump_def src Let_def)
  then show ?thesis
    using fs(1,2) by (intro exI conjI)
qed


subsection \<open>Life of the plugin\<close>

text \<open>The plugin as a client of the services: its one timeout is the one it remembers.\<close>

definition md_ok :: "endian \<Rightarrow> (u64 \<times> unit) set \<Rightarrow> 'w majordomo \<Rightarrow> observation list \<Rightarrow> bool" where
  "md_ok e timers s obs \<longleftrightarrow> md_shows e s obs \<and> filter_ok s \<and> timers = {(m_timeout s, ())}"

lemma shows_none: "m_communication s = trie_alloc \<Longrightarrow> m_sources s = [] \<Longrightarrow> md_shows e s []"
  by (simp add: md_shows_def firsts_def)

text \<open>What an attempt to write the file leaves to be written.\<close>

definition left :: "'w majordomo \<Rightarrow> observation list \<Rightarrow> observation list" where
  "left s obs = (if next_of True (m_opens s) then [] else obs)"

lemma dump_left:
  assumes "md_shows e s obs"
  shows "\<exists>s'. dump e s = Inr s' \<and> md_shows e s' (left s obs) \<and> m_world s' = m_world s \<and> m_timeout s' = m_timeout s \<and>
    m_filter s' = m_filter s \<and> m_masks s' = m_masks s"
proof (cases "next_of True (m_opens s)")
  case True
  from dump_ok [OF assms this] obtain fs a b where "dump e s = Inr (s\<lparr>m_opens := tl (m_opens s), m_src_str := a, m_dst_str := b, m_sources := [], m_communication := trie_alloc,
      m_file := m_file s @ concat (map (\<lambda>f. flow_line f (traffic_of [ob \<leftarrow> obs. ob_flow ob = f])) fs) @ concat (map other_line (firsts (map ob_mac obs)))\<rparr>)"
    by blast
  then show ?thesis
    using True by (simp add: left_def shows_none)
next
  case False
  then show ?thesis
    using assms by (simp add: dump_def left_def md_shows_def Let_def)
qed

locale majordomo_client = plugin_services sv inv mine
  for sv :: "(unit, 'w) services" and inv and mine
begin

lemma init_ok:
  assumes "inv w" "mine w = {}" "length ms = 33"
  shows "safe (\<lambda>s. inv (m_world s) \<and> md_ok e (mine (m_world s)) s []) (md_init sv w opens out ms)"
  unfolding md_init_def
  by (rule safe_bind [OF add_ok [OF assms(1)]])
     (use assms in \<open>auto simp: md_ok_def shows_none filter_ok_def precomputed_masks\<close>)

lemma scheduled_dump_ok:
  assumes "inv (m_world s)" "mine (m_world s) = {}" "md_shows e s obs" "filter_ok s"
  shows "safe (\<lambda>s'. inv (m_world s') \<and> md_ok e (mine (m_world s')) s' (left s obs)) (scheduled_dump e sv s)"
proof -
  obtain s1 where s1: "dump e s = Inr s1" "md_shows e s1 (left s obs)" "m_world s1 = m_world s" "m_filter s1 = m_filter s" "m_masks s1 = m_masks s"
    using dump_left [OF assms(3)] by blast
  have "safe (\<lambda>(i, w). inv w \<and> mine w = {(i, ())}) (sv_timeout_add sv (m_world s1) DUMP_TIMEOUT ())"
    by (rule safe_mono [OF add_ok]) (use assms s1(3) in auto)
  then show ?thesis
    unfolding scheduled_dump_def s1(1) rbind_Inr
    by (rule safe_bind) (use s1 assms(4) in \<open>auto simp: md_ok_def md_shows_def filter_ok_def\<close>)
qed

end

interpretation mc: majordomo_client "plugin_service (silent m) i" live "plugin_timers i"
  by unfold_locales

text \<open>The law of \<open>inet_pton\<close>: an address has the length of its family.\<close>

definition reads_addresses :: "address_reader \<Rightarrow> bool" where
  "reads_addresses pton \<longleftrightarrow> (\<forall>str addr. (pton 4 str = Some addr \<longrightarrow> length addr = 4) \<and> (pton 6 str = Some addr \<longrightarrow> length addr = 16))"

lemma parse_option_good:
  assumes "reads_addresses pton" "fst (parse_option pton v)"
  shows "\<exists>r. snd (parse_option pton v) = Some r \<and> good_rule r"
  using assms by (auto simp: parse_option_def parse_address_def reads_addresses_def good_rule_def Let_def split: option.splits if_splits)

lemma finish_config_good:
  assumes "reads_addresses pton" "filter_ok s" "commit \<longrightarrow> check_config pton opts"
  shows "filter_ok (finish_config pton opts s commit)"
proof (cases "opts (ascii ''ignore_subnet'')")
  case (Some vs)
  then show ?thesis
    using assms parse_option_good [OF assms(1)]
    by (fastforce simp: finish_config_def check_config_def filter_ok_def list_all_iff)
qed (use assms in \<open>simp add: finish_config_def filter_ok_def\<close>)

text \<open>The life of the plugin, with what it saw since the file was last written.\<close>

inductive md_reach :: "address_reader \<Rightarrow> endian \<Rightarrow> ('z, unit, 'p) platform \<Rightarrow> nat \<Rightarrow> ('z, unit, 'p) world majordomo \<Rightarrow> observation list \<Rightarrow> bool"
  for pton e m i where
  start: "live w \<Longrightarrow> plugin_timers i w = {} \<Longrightarrow> length ms = 33 \<Longrightarrow>
    md_init (plugin_service (silent m) i) w opens out ms = Inr s \<Longrightarrow> md_reach pton e m i s []"
| others: "md_reach pton e m i s obs \<Longrightarrow> live w \<Longrightarrow> plugin_timers i w = plugin_timers i (m_world s) \<Longrightarrow> md_reach pton e m i (s\<lparr>m_world := w\<rparr>) obs"
| packet: "md_reach pton e m i s obs \<Longrightarrow> framed ps \<Longrightarrow> packet_handle e s ps = Inr s' \<Longrightarrow> md_reach pton e m i s' (obs @ observed (rules s) ps)"
| configured: "md_reach pton e m i s obs \<Longrightarrow> (commit \<Longrightarrow> check_config pton opts) \<Longrightarrow> md_reach pton e m i (finish_config pton opts s commit) obs"
| timeout: "md_reach pton e m i s obs \<Longrightarrow> queue (w_timeouts (m_world s)) = t # ts \<Longrightarrow> tcontext t = Some i \<Longrightarrow> callback t = PluginTimer () \<Longrightarrow>
    scheduled_dump e (plugin_service (silent m) i) (s\<lparr>m_world := unqueue (m_world s)\<rparr>) = Inr s' \<Longrightarrow> md_reach pton e m i s' (left s obs)"

lemma md_reach_ok:
  assumes "reads_addresses pton" "md_reach pton e m i s obs"
  shows "live (m_world s) \<and> md_ok e (plugin_timers i (m_world s)) s obs"
  using assms(2)
proof (induction rule: md_reach.induct)
  case (start w ms opens out s)
  from mc.init_ok [OF start(1,2,3)] start(4) show ?case
    by (rule safe_result)
next
  case (others s obs w)
  then show ?case
    by (simp add: md_ok_def md_shows_def filter_ok_def)
next
  case (packet s obs ps s')
  then have ok: "md_shows e s obs" "filter_ok s"
    by (simp_all add: md_ok_def)
  obtain t srcs where "s' = s\<lparr>m_communication := t, m_sources := srcs\<rparr>" "md_shows e s' (obs @ observed (rules s) ps)"
    using packet_handle_ok [OF ok packet.hyps(2)] packet.hyps(3) by auto
  then show ?case
    using packet.IH by (simp add: md_ok_def filter_ok_def)
next
  case (configured s obs commit opts)
  have same: "m_world (finish_config pton opts s commit) = m_world s" "m_timeout (finish_config pton opts s commit) = m_timeout s"
      "m_communication (finish_config pton opts s commit) = m_communication s" "m_sources (finish_config pton opts s commit) = m_sources s"
    by (auto simp: finish_config_def split: option.split)
  have "filter_ok (finish_config pton opts s commit)"
    by (rule finish_config_good [OF assms(1)]) (use configured in \<open>auto simp: md_ok_def\<close>)
  then show ?case
    using configured.IH unfolding md_ok_def md_shows_def same by simp
next
  case (timeout s obs t ts s')
  note q = unqueue_plugin [OF conjunct1 [OF timeout.IH] timeout.hyps(2-4)]
  let ?s = "s\<lparr>m_world := unqueue (m_world s)\<rparr>"
  have "plugin_timers i (unqueue (m_world s)) = {}"
    using q timeout.IH by (auto simp: md_ok_def)
  then have "safe (\<lambda>s'. live (m_world s') \<and> md_ok e (plugin_timers i (m_world s')) s' (left ?s obs)) (scheduled_dump e (plugin_service (silent m) i) ?s)"
    using q timeout.IH by (intro mc.scheduled_dump_ok) (simp_all add: md_ok_def md_shows_def filter_ok_def)
  from safe_result [OF this timeout.hyps(5)] show ?case
    by (simp add: left_def)
qed


subsection \<open>Properties\<close>


text \<open>
  C40: The option \<open>ignore_subnet\<close> means what it says. After a configuration that passed its check, a remote address is
  ignored exactly when it has the family of one of the listed subnets and agrees with it in as many leading bits as the
  prefix says; the comparison in 32-bit words with masks computed in advance never reads outside of an address.
\<close>

theorem ignored_subnets_exact:
  assumes "reads_addresses pton" and "md_reach pton e m i s obs" and "check_config pton opts" and "opts (ascii ''ignore_subnet'') = Some vs"
    and "(if family = 4 then 4 else 16) \<le> length addr"
  shows "filter_address (finish_config pton opts s True) (Some addr) family =
    Inr (\<exists>v \<in> set vs. \<exists>r. snd (parse_option pton v) = Some r \<and> in_subnet (take (if family = 4 then 4 else 16) addr) family r)"
proof -
  have "filter_ok s"
    using md_reach_ok [OF assms(1,2)] by (simp add: md_ok_def)
  then have ok: "filter_ok (finish_config pton opts s True)"
    by (intro finish_config_good [OF assms(1)]) (use assms(3) in auto)
  have rs: "rules (finish_config pton opts s True) = map (\<lambda>v. the (snd (parse_option pton v))) vs"
    using assms(4) by (simp add: rules_def finish_config_def)
  have defined: "\<exists>r. snd (parse_option pton v) = Some r" if "v \<in> set vs" for v
    using that assms(3,4) parse_option_good [OF assms(1)] by (auto simp: check_config_def list_all_iff)
  have "(\<exists>r \<in> set (rules (finish_config pton opts s True)). P r) \<longleftrightarrow> (\<exists>v \<in> set vs. \<exists>r. snd (parse_option pton v) = Some r \<and> P r)" for P
    unfolding rs using defined by (auto, force+)
  then show ?thesis
    unfolding filter_address_exact [OF ok assms(5)] by simp
qed


subsection \<open>A run\<close>

definition example_reader :: address_reader where
  "example_reader family str = (if family = 4 \<and> str = ascii ''10.0.0.0'' then Some [10, 0, 0, 0] else None)"

text \<open>A packet from the network to a local computer.\<close>

definition example_frame :: packet where
  "example_frame =
     (let p = (captured ''eth0'' False 0 0 [])\<lparr>pdirection := DIR_OUT, vlan_tag := 0\<rparr>
      in [p\<lparr>layer := CHR ''E'', addr_len := 6, addr_src := Some [2, 0, 0, 0, 0, 9], addr_dst := Some [2, 0, 0, 0, 0, 1]\<rparr>,
          p\<lparr>layer := CHR ''I'', ip_protocol := 4, app_protocol := CHR ''T'', addr_len := 4, addr_src := Some [10, 0, 0, 2],
            addr_dst := Some [192, 168, 1, 5], port_src := 80, port_dst := 5000, plength := 60, hdr_length := 40\<rparr>])"

definition example_ob :: observation where
  "example_ob = \<lparr>ob_flow = (CHR ''T'', [2, 0, 0, 0, 0, 1], [10, 0, 0, 2], 80), ob_up = False, ob_size = 60, ob_data = 20\<rparr>"

lemma example_reads: "reads_addresses example_reader"
  by (auto simp: reads_addresses_def example_reader_def)

lemma example_started:
  obtains s :: "(unit, unit, unit) world majordomo" where "md_reach example_reader e idle_platform 0 s []" "m_opens s = []" "m_file s = []" "m_filter s = []"
proof -
  have "\<exists>s. md_init (plugin_service (silent idle_platform) 0) (offline_world :: (unit, unit, unit) world) [] [] (replicate 33 0) = Inr s \<and>
      m_opens s = [] \<and> m_file s = [] \<and> m_filter s = []"
    by (simp add: md_init_def DUMP_TIMEOUT_def plugin_service_def add_timer_def offline_world_def loop_timeout_add_def Let_def)
  then obtain s :: "(unit, unit, unit) world majordomo" where s: "md_init (plugin_service (silent idle_platform) 0) offline_world [] [] (replicate 33 0) = Inr s"
      "m_opens s = []" "m_file s = []" "m_filter s = []"
    by blast
  have "md_reach example_reader e idle_platform 0 s []"
    by (rule md_reach.start [OF _ _ _ s(1)]) (simp_all add: offline_live)
  from that [OF this s(2-4)] show thesis .
qed

lemma example_framed: "framed example_frame" "observed [] example_frame = [example_ob]"
  by (simp_all add: framed_def example_frame_def observed_def example_ob_def tidy_def encapsulates_def payload_size_def size_sub_def Let_def)


theorem ignored_subnets_exact_witness:
  "\<exists>s :: (unit, unit, unit) world majordomo. md_reach example_reader LittleEndian idle_platform 0 s [] \<and>
    filter_address (finish_config example_reader (\<lambda>_. Some [ascii ''10.0.0.0/8'']) s True) (Some [10, 9, 8, 7]) 4 = Inr True \<and>
    filter_address (finish_config example_reader (\<lambda>_. Some [ascii ''10.0.0.0/8'']) s True) (Some [11, 9, 8, 7]) 4 = Inr False"
proof -
  let ?opts = "\<lambda>_. Some [ascii ''10.0.0.0/8'']"
  obtain s :: "(unit, unit, unit) world majordomo" where s: "md_reach example_reader LittleEndian idle_platform 0 s []"
    by (rule example_started)
  have p: "parse_option example_reader (ascii ''10.0.0.0/8'') = (True, Some \<lparr>fr_addr = [10, 0, 0, 0], fr_prefix = 8, fr_family = 4\<rparr>)"
    by code_simp
  then have c: "check_config example_reader ?opts"
    by (simp add: check_config_def)
  have "in_subnet [10, 9, 8, 7] 4 \<lparr>fr_addr = [10, 0, 0, 0], fr_prefix = 8, fr_family = 4\<rparr>" "\<not> in_subnet [11, 9, 8, 7] 4 \<lparr>fr_addr = [10, 0, 0, 0], fr_prefix = 8, fr_family = 4\<rparr>"
    by code_simp+
  then show ?thesis
    using s ignored_subnets_exact [OF example_reads s c, of _ 4 "[10, 9, 8, 7]"] ignored_subnets_exact [OF example_reads s c, of _ 4 "[11, 9, 8, 7]"]
    by (intro exI [of _ s]) (simp add: p)
qed

end
