(* ===== verification/Spec2Isabelle.thy ===== *)
theory Spec2Isabelle
  imports Prelude LinkList Trie DiffStore MemPool Packet UplinkCodec FlowFilter Timeouts Uplink UplinkRead Services Flow Count BucketKeys Buckets Refused Bandwidth CText FwupText FwupQueue Fwup
    FakeLog Fake FakeLife FakeTelnet Majordomo
begin

text \<open>
  \<^bold>\<open>Verification library of the ucollect daemon.\<close>

  The program. \<open>ucollect\<close> runs on a router, captures packets with libpcap, parses each one and
  hands it to its plugins, which keep statistics and send them to a server. Everything happens
  in one thread, in the main loop of \<open>core/loop.c\<close>: packets, timeouts, data from the uplink. The
  uplink (\<open>core/uplink.c\<close>) is one compressed TCP connection, over which the server logs the
  client in, activates plugins and talks to them. Memory comes from pools (\<open>core/mem_pool.c\<close>)
  that are dropped as a whole. A plugin sees the daemon only through its \<open>context\<close>: it may send
  a message, add and cancel timeouts, ask for the time; its callbacks are called with packets,
  messages and on connecting. A failed \<open>sanity\<close> in a callback reinitialises the plugin, a failed
  \<open>assert\<close> ends the daemon.

  The theories, in the order of their imports, with the sources they translate (all below
  \<open>src/src\<close>) and what they show.

  \<^item> \<open>Prelude\<close>: machine integers and byte strings, faults as values (\<open>result\<close>), big-endian
    encodings, and the two judgements of the larger components: \<open>safe P m\<close>, where \<open>m\<close> fails
    no assertion and any result has \<open>P\<close>, and \<open>yields P m\<close>, where any
    result has \<open>P\<close> whatever the fault.
  \<^item> \<open>LinkList\<close>: \<open>core/link_list.h\<close> and \<open>core/recycler.h\<close> on a heap of nodes; the operations refine
    those on sequences, a recycled object is never in use.
  \<^item> \<open>Trie\<close>: \<open>core/trie.c\<close>. Indexing refines an update of a finite map, lookups and walks agree
    with it, for sets of keys of which none is a prefix of another; what happens otherwise is a
    property of its own.
  \<^item> \<open>DiffStore\<close>: \<open>libs/diffstore/diff_store.c\<close>, sets of addresses kept in step with the server.
  \<^item> \<open>MemPool\<close>: \<open>core/mem_pool.c\<close>, with addresses as numbers; blocks never overlap.
  \<^item> \<open>Packet\<close>: \<open>core/packet.c\<close> and the record of \<open>core/packet.h\<close>.
  \<^item> \<open>UplinkCodec\<close>: the parsing and rendering of messages in \<open>core/uplink.c\<close>; round trips.
  \<^item> \<open>FlowFilter\<close>: \<open>plugins/flow/filter.c\<close>; applying a filter refines its meaning.
  \<^item> \<open>Timeouts\<close>: the array of timeouts of \<open>core/loop.c\<close>: sorted, fresh identifiers, firing ends.
  \<^item> \<open>Uplink\<close>, \<open>UplinkRead\<close>: the state machine of \<open>core/uplink.c\<close> over the timeouts, its sending and
    its receiving half, with the parts of \<open>core/loop.c\<close> that messages reach. The invariant of the
    reachable states says that the client is connected or waits for a reconnect.
  \<^item> \<open>Services\<close>: what a plugin gets from the daemon, as the locale \<open>plugin_services\<close>, interpreted by
    the uplink and the timeouts.
  \<^item> \<open>Flow\<close>: \<open>plugins/flow/flow.c\<close> and \<open>plugins/flow/main.c\<close>, over the services, the tries and the
    filters.
  \<^item> \<open>Count\<close>: \<open>plugins/count/count.c\<close>, and \<open>loop_pcap_stats\<close> of \<open>core/loop.c\<close>; a packet is counted once
    in each selector that fits it.
  \<^item> \<open>BucketKeys\<close>, \<open>Buckets\<close>: the plugin of \<open>plugins/buckets\<close>, with its random numbers, its hashing and its
    criteria, and the counting, sending and searching of keys. Each counted packet is once in every
    hash, and a search finds exactly the keys in the requested buckets.
  \<^item> \<open>Refused\<close>: \<open>plugins/refused/refused.c\<close> and \<open>icmp.c\<close>. The counters of the plugin agree with its table in
    every state it reaches, so its assertions hold and its messages fit; what it reports of an accepted
    connection is a property of its own.
  \<^item> \<open>Bandwidth\<close>: \<open>plugins/bandwidth/bandwidth.c\<close>. Its first report agrees with a reference computed from
    the trace of packets, the packets between two intervals apart.
  \<^item> \<open>CText\<close>: what the C library prints and reads, for the plugins below.
  \<^item> \<open>FwupText\<close>, \<open>FwupQueue\<close>, \<open>Fwup\<close>: the plugin of \<open>plugins/fwup\<close>, which keeps sets of addresses of the
    firewall in step with the server. \<open>FwupText\<close> has the types of sets and the texts of addresses
    (\<open>type.c\<close>), \<open>FwupQueue\<close> the queue of commands to a running \<open>ipset\<close> (\<open>queue.c\<close>), with the results of
    the system calls as inputs: a queue that broke is always retried. \<open>Fwup\<close> has the sets themselves (\<open>main.c\<close>).
    The program \<open>ipset\<close> is a parameter with the laws of its manual (\<open>ipset_laws\<close>, which a map of sets
    satisfies); an update brings the kernel from the old set to exactly the new one.
  \<^item> \<open>FakeLog\<close>, \<open>Fake\<close>, \<open>FakeLife\<close>, \<open>FakeTelnet\<close>: the plugin of \<open>plugins/fake\<close>, a telnet server that lets nobody in and
    reports who tried. \<open>FakeLog\<close> has the log (\<open>log.c\<close>): its message is the encoding of the logged events, without
    names and passwords unless they are asked for. \<open>Fake\<close> has the plugin and its server (\<open>main.c\<close>, \<open>server.c\<close>,
    \<open>telnet.c\<close>), with the results of the system calls and the options as inputs. \<open>FakeLife\<close> shows that in every
    state of its life the pending timeouts are those the state stands for; \<open>FakeTelnet\<close> that a login is logged as it was
    typed, and what taking back a configuration does to a running server.
  \<^item> \<open>Majordomo\<close>: \<open>plugins/majordomo/majordomo.c\<close>, statistics of flows in a file. What is written agrees with a
    reference computed from the trace of packets, and the filter of subnets with the bits of the addresses. \<open>inet_pton\<close> is a
    parameter: an address it reads has the length of its family.

  Interfaces are locales: the keyed containers of the trie, the stores, the services of plugins
  and their clients; each is interpreted on the definitions of the model.

  Fuel. The packet parser takes fuel because the code may recurse without end; the length of the
  packet is enough whenever the headers are sane, and it is a property that otherwise no fuel is.
  The filter parser takes fuel \<open>length + 2\<close>, which is always enough. The firing loop takes fuel as
  the callbacks are arbitrary; the number of timeouts due, and of those the callbacks leave, bounds it.
  The rounds of decompression and of reading are bounded by the data the system delivers.

  Not modelled: the epoll loop, the capturing, signals and the configurator of \<open>core/loop.c\<close>,
  \<open>core/configure.c\<close> (libuci), \<open>core/loader.c\<close> and \<open>core/pluglib.c\<close> (dlopen), start-up and logging,
  which are calls of the operating system and of libraries; the plugins sniff and spoof,
  mostly input and output on sockets and processes; the test plugins; the
  server; and of \<open>core/loop.c\<close> the loading and the restarting of plugins, which jump out of a
  failed callback by \<open>longjmp\<close>.
\<close>

end
